(* ===== verification/Prelude.thy ===== *)
theory Prelude
  imports Main "HOL-Library.Word"
begin

unbundle bit_operations_syntax

text \<open>
  Shared vocabulary of the development: the machine types of the 32-bit x86 kernel, the
  result type of operations that may fault, its sequencing combinator, and the generic
  facts about lists, options and words that the component theories use.

  A kernel operation is a function from the state to \<open>fault + 'a \<times> 'st\<close>: \<open>Inl\<close> marks
  a point where the C code has no defined behaviour or does not come back (a dereference of
  NULL, an index outside an array, an unmapped page, a spin on a held lock, a failed
  assertion), \<open>Inr\<close> carries the C return value and the new state.
\<close>

section \<open>Machine types\<close>

type_synonym u8 = "8 word"
type_synonym u16 = "16 word"
type_synonym u32 = "32 word"
type_synonym u64 = "64 word"

section \<open>Faults and sequencing\<close>

datatype fault =
    Null_Deref        \<comment> \<open>a NULL pointer, or one computed from NULL, is dereferenced\<close>
  | Out_Of_Bounds     \<comment> \<open>an array index outside the array\<close>
  | Page_Fault        \<comment> \<open>a user virtual address without a mapping\<close>
  | Bad_Entry         \<comment> \<open>\<open>list_entry\<close> applied to a node of another kind\<close>
  | Would_Block       \<comment> \<open>a lock is held: the call cannot go on before another thread runs\<close>
  | Diverges          \<comment> \<open>a loop of the code does not end\<close>
  | Assert_Failed     \<comment> \<open>an \<open>assert\<close> of the code fails\<close>
  | Bad_Call          \<comment> \<open>a trap wrapper, which ends in \<open>iret\<close>, is called as a function\<close>
  | Divide_Error      \<comment> \<open>an integer division by zero\<close>

type_synonym ('st, 'a) kop = "'st \<Rightarrow> fault + ('a \<times> 'st)"

definition returnK :: "'a \<Rightarrow> ('st, 'a) kop" where
  "returnK a s = Inr (a, s)"

definition bindK :: "('st, 'a) kop \<Rightarrow> ('a \<Rightarrow> ('st, 'b) kop) \<Rightarrow> ('st, 'b) kop" where
  "bindK m f s = (case m s of Inl e \<Rightarrow> Inl e | Inr (a, s') \<Rightarrow> f a s')"

definition modifyK :: "('st \<Rightarrow> 'st) \<Rightarrow> ('st, unit) kop" where
  "modifyK f s = Inr ((), f s)"

definition failK :: "fault \<Rightarrow> ('st, 'a) kop" where
  "failK e s = Inl e"

definition readK :: "('st \<Rightarrow> 'a) \<Rightarrow> ('st, 'a) kop" where
  "readK f s = Inr (f s, s)"

text \<open>A counting \<open>for\<close> loop: the body is run for each index in order.\<close>

fun forK :: "nat list \<Rightarrow> (nat \<Rightarrow> ('st, unit) kop) \<Rightarrow> ('st, unit) kop" where
  "forK [] f = returnK ()"
| "forK (i # is) f = bindK (f i) (\<lambda>_. forK is f)"

text \<open>The same loop with a body that may return from the function: \<open>Some r\<close> ends it with result \<open>r\<close>.\<close>

fun forE :: "nat list \<Rightarrow> (nat \<Rightarrow> ('st, 'r option) kop) \<Rightarrow> ('st, 'r option) kop" where
  "forE [] f = returnK None"
| "forE (i # is) f = bindK (f i) (\<lambda>r. case r of None \<Rightarrow> forE is f | Some v \<Rightarrow> returnK (Some v))"

text \<open>Running an operation on a component of the state.\<close>

definition zoomK :: "('st \<Rightarrow> 'c) \<Rightarrow> ('c \<Rightarrow> 'st \<Rightarrow> 'st) \<Rightarrow> ('c, 'a) kop \<Rightarrow> ('st, 'a) kop" where
  "zoomK get put m s = (case m (get s) of Inl e \<Rightarrow> Inl e | Inr (a, c) \<Rightarrow> Inr (a, put c s))"

named_theorems kmonad "evaluation rules of the fault monad"
named_theorems kdefs "definitions unfolded to evaluate a component"

lemma returnK_apply [kmonad, simp]: "returnK a s = Inr (a, s)"
  by (simp add: returnK_def)

lemma modifyK_apply [kmonad, simp]: "modifyK f s = Inr ((), f s)"
  by (simp add: modifyK_def)

lemma failK_apply [kmonad, simp]: "failK e s = Inl e"
  by (simp add: failK_def)

lemma readK_apply [kmonad, simp]: "readK f s = Inr (f s, s)"
  by (simp add: readK_def)

lemma bindK_Inr [kmonad, simp]: "m s = Inr (a, s') \<Longrightarrow> bindK m f s = f a s'"
  by (simp add: bindK_def)

lemma bindK_Inl [kmonad, simp]: "m s = Inl e \<Longrightarrow> bindK m f s = Inl e"
  by (simp add: bindK_def)

lemma bindK_eq_Inr:
  "bindK m f s = Inr (b, t) \<longleftrightarrow> (\<exists>a s'. m s = Inr (a, s') \<and> f a s' = Inr (b, t))"
  by (cases "m s") (auto simp: bindK_def)

lemma bindK_InrE:
  assumes "bindK m f s = Inr (b, t)"
  obtains a s' where "m s = Inr (a, s')" and "f a s' = Inr (b, t)"
  using assms by (auto simp: bindK_eq_Inr)

lemma zoomK_Inr [kmonad, simp]: "m (get s) = Inr (a, c) \<Longrightarrow> zoomK get put m s = Inr (a, put c s)"
  by (simp add: zoomK_def)

lemma zoomK_Inl [kmonad, simp]: "m (get s) = Inl e \<Longrightarrow> zoomK get put m s = Inl e"
  by (simp add: zoomK_def)

lemma zoomK_eq_Inr:
  "zoomK get put m s = Inr (a, t) \<longleftrightarrow> (\<exists>c. m (get s) = Inr (a, c) \<and> t = put c s)"
  by (cases "m (get s)") (auto simp: zoomK_def)

lemma bindK_assoc: "bindK (bindK m f) g = bindK m (\<lambda>x. bindK (f x) g)"
  by (rule ext) (auto simp: bindK_def split: sum.splits)

lemma forK_append: "forK (is @ js) f = bindK (forK is f) (\<lambda>_. forK js f)"
proof (induction "is")
  case Nil
  show ?case by (rule ext) simp
next
  case (Cons i "is")
  then show ?case by (simp add: bindK_assoc)
qed

text \<open>The loop rule: an invariant indexed by the number of iterations done.\<close>

lemma forK_invariant:
  assumes step: "\<And>i s. i < n \<Longrightarrow> I i s \<Longrightarrow> \<exists>s'. f i s = Inr ((), s') \<and> I (Suc i) s'"
    and init: "I 0 s"
  shows "\<exists>s'. forK [0..<n] f s = Inr ((), s') \<and> I n s'"
  using step
proof (induction n)
  case 0
  with init show ?case by simp
next
  case (Suc n)
  then obtain s1 where s1: "forK [0..<n] f s = Inr ((), s1)" "I n s1"
    by (meson less_Suc_eq)
  with Suc.prems[of n s1] obtain s2 where "f n s1 = Inr ((), s2)" "I (Suc n) s2" by auto
  with s1 show ?case by (simp add: forK_append)
qed

text \<open>The same rule for a body that may end the loop with the fault \<open>e\<close>.\<close>

lemma forE_invariant:
  assumes "Q m s" "m \<le> n"
    and "\<And>k t. m \<le> k \<Longrightarrow> k < n \<Longrightarrow> Q k t \<Longrightarrow> \<exists>r t'. f k t = Inr (r, t') \<and> (case r of None \<Rightarrow> Q (Suc k) t' | Some v \<Rightarrow> R v t')"
  shows "\<exists>r t'. forE [m..<n] f s = Inr (r, t') \<and> (case r of None \<Rightarrow> Q n t' | Some v \<Rightarrow> R v t')"
  using assms(2,1,3)
proof (induction m arbitrary: s rule: inc_induct)
  case base
  then show ?case by simp
next
  case (step m)
  from step.prems(2)[of m s] step.hyps step.prems(1) obtain r t where
    r: "f m s = Inr (r, t)" "case r of None \<Rightarrow> Q (Suc m) t | Some v \<Rightarrow> R v t" by auto
  show ?case
  proof (cases r)
    case None
    from step.IH[of t] r None step.prems(2) have "\<exists>r t'. forE [Suc m..<n] f t = Inr (r, t') \<and> (case r of None \<Rightarrow> Q n t' | Some v \<Rightarrow> R v t')" by simp
    then show ?thesis using r(1) None step.hyps by (simp add: upt_conv_Cons)
  next
    case (Some v)
    then show ?thesis using r step.hyps by (simp add: upt_conv_Cons)
  qed
qed

lemma forK_invariant_fault:
  assumes step: "\<And>i s. i < n \<Longrightarrow> I i s \<Longrightarrow> f i s = Inl e \<and> Q \<or> (\<exists>s'. f i s = Inr ((), s') \<and> I (Suc i) s')"
    and init: "I 0 s"
  shows "forK [0..<n] f s = Inl e \<and> Q \<or> (\<exists>s'. forK [0..<n] f s = Inr ((), s') \<and> I n s')"
  using step
proof (induction n)
  case 0
  with init show ?case by simp
next
  case (Suc n)
  then consider "forK [0..<n] f s = Inl e" Q | s1 where "forK [0..<n] f s = Inr ((), s1)" "I n s1"
    by (meson less_Suc_eq)
  then show ?case
  proof cases
    case 1
    then show ?thesis by (simp add: forK_append)
  next
    case 2
    with Suc.prems[of n s1] show ?thesis by (auto simp: forK_append)
  qed
qed

section \<open>Words\<close>

lemma unat_of_nat_eq: "n < 2 ^ 32 \<Longrightarrow> unat (of_nat n :: u32) = n"
  by (simp only: unat_of_nat) simp

lemma sint_small: "unat (x :: u32) < 2 ^ 31 \<Longrightarrow> sint x = int (unat x)"
proof -
  assume "unat x < 2 ^ 31"
  then have "int (unat x) < int (2 ^ 31)" by (simp only: of_nat_less_iff)
  then have "uint x < 2 ^ 31" by simp
  moreover have "- (2 ^ 31) \<le> uint x" by (rule order_trans[OF _ uint_ge_0]) simp
  ultimately have "signed_take_bit 31 (uint x) = uint x" by (intro signed_take_bit_int_eq_self)
  then show ?thesis by (simp add: sint_uint)
qed

section \<open>First and last elements as optional pointers\<close>

definition hd_opt :: "'a list \<Rightarrow> 'a option \<Rightarrow> 'a option" where
  "hd_opt xs q = (case xs of [] \<Rightarrow> q | x # _ \<Rightarrow> Some x)"

definition last_opt :: "'a list \<Rightarrow> 'a option \<Rightarrow> 'a option" where
  "last_opt xs p = (if xs = [] then p else Some (last xs))"

lemma hd_opt_simps [simp]:
  "hd_opt [] q = q" "hd_opt (x # xs) q = Some x" "hd_opt (xs @ ys) q = hd_opt xs (hd_opt ys q)"
  by (auto simp: hd_opt_def split: list.splits)

lemma last_opt_simps [simp]:
  "last_opt [] p = p" "last_opt (x # xs) p = last_opt xs (Some x)"
  "last_opt (xs @ ys) p = last_opt ys (last_opt xs p)"
  by (auto simp: last_opt_def)

lemma hd_opt_None [simp]: "hd_opt xs None = None \<longleftrightarrow> xs = []"
  by (auto simp: hd_opt_def split: list.splits)

lemma last_opt_None [simp]: "last_opt xs None = None \<longleftrightarrow> xs = []"
  by (auto simp: last_opt_def)

lemma last_opt_Some: "last_opt xs None = Some t \<longleftrightarrow> (\<exists>ys. xs = ys @ [t])"
  by (auto simp: last_opt_def) (metis append_butlast_last_id)

lemma remove1_middle: "x \<notin> set as \<Longrightarrow> remove1 x (as @ x # bs) = as @ bs"
  by (simp add: remove1_append)

lemma find_distinct_cong:
  "(\<And>x. x \<in> set xs \<Longrightarrow> P x = Q x) \<Longrightarrow> List.find P xs = List.find Q xs"
  by (induction xs) auto

lemma find_append_Some: "List.find P xs = Some x \<Longrightarrow> List.find P (xs @ ys) = Some x"
  by (induction xs) auto

text \<open>Clearing and keeping low bits.\<close>

lemma split_low_bits: "(x AND m) + (x AND NOT m) = (x :: u32)"
proof -
  have "(x AND m) AND (x AND NOT m) = 0" by (rule bit_eqI) (auto simp: bit_and_iff bit_not_iff)
  then have "(x AND m) + (x AND NOT m) = (x AND m) OR (x AND NOT m)" by (rule disjunctive_add_eq_or)
  also have "\<dots> = x" by (rule bit_eqI) (auto simp: bit_and_iff bit_not_iff bit_or_iff)
  finally show ?thesis .
qed

lemma unat_keep_low: "unat (x AND mask n :: u32) = unat x mod 2 ^ n"
  by (simp add: unat_mod flip: take_bit_eq_mask) (metis take_bit_eq_mod unsigned_take_bit_eq)

lemma unat_clear_low: "unat (x AND NOT (mask n) :: u32) = unat x - unat x mod 2 ^ n"
proof -
  have "x AND NOT (mask n) = x - (x AND mask n)" using split_low_bits[of x "mask n"] by (simp add: algebra_simps)
  moreover have "x AND mask n \<le> x" by (rule word_and_le2)
  ultimately show ?thesis by (simp add: unat_sub unat_keep_low)
qed

end
