(* ===== verification/Frames.thy ===== *)
theory Frames
  imports Prelude
begin

text \<open>
  The physical frame allocator of \<open>kern/memory/vm_routines.c\<close>: the array \<open>frame_base\<close> of
  \<open>KF\<close> records (a reference count and a link), the pointer \<open>free_frame\<close> and the counter
  \<open>free_frame_num\<close> (\<open>kern/inc/control_block.h\<close>). A \<open>KF*\<close> is the index of the record,
  \<open>None\<close> is NULL. The link of the last record is never written by the code, so its value
  is a parameter of \<open>init_free_frame\<close>.
\<close>

section \<open>State and operations\<close>

definition PAGE_SIZE :: nat where "PAGE_SIZE = 4096"
definition TOTAL_PHYS_FRAMES :: nat where "TOTAL_PHYS_FRAMES = 65536"

lemmas frame_consts = PAGE_SIZE_def TOTAL_PHYS_FRAMES_def

record frames =
  refcount :: "nat \<Rightarrow> u32"
  next_f :: "nat \<Rightarrow> nat option"
  free_frame :: "nat option"
  free_frame_num :: int

definition init_free_frame :: "int \<Rightarrow> nat option \<Rightarrow> frames" where
  "init_free_frame machine_phys_frames uninit =
     \<lparr>refcount = (\<lambda>i. 0),
      next_f = (\<lambda>i. if i \<noteq> TOTAL_PHYS_FRAMES - 1 then Some (i + 1) else uninit),
      free_frame = Some 0,
      free_frame_num = machine_phys_frames\<rparr>"

text \<open>The loop \<open>while (free_frame->refcount != 0) free_frame = free_frame->next;\<close>\<close>

partial_function (option) skip_used ::
  "(nat \<Rightarrow> u32) \<Rightarrow> (nat \<Rightarrow> nat option) \<Rightarrow> nat option \<Rightarrow> (fault + nat) option" where
  "skip_used rc nx p =
     (case p of
        None \<Rightarrow> Some (Inl Null_Deref)
      | Some i \<Rightarrow>
          if i \<ge> TOTAL_PHYS_FRAMES then Some (Inl Out_Of_Bounds)
          else if rc i \<noteq> 0 then skip_used rc nx (nx i)
          else Some (Inr i))"

definition acquire_free_frame :: "(frames, u32) kop" where
  "acquire_free_frame f =
     (case free_frame f of
        None \<Rightarrow> Inr (-1, f)
      | Some index \<Rightarrow>
          if index \<ge> TOTAL_PHYS_FRAMES then Inl Out_Of_Bounds
          else
            let physical_frame_addr = of_nat index * of_nat PAGE_SIZE;
                rc = (refcount f)(index := refcount f index + 1)
            in case skip_used rc (next_f f) (Some index) of
                 None \<Rightarrow> Inl Diverges
               | Some (Inl e) \<Rightarrow> Inl e
               | Some (Inr i) \<Rightarrow>
                   Inr (physical_frame_addr,
                        f\<lparr>refcount := rc, free_frame := Some i,
                          free_frame_num := free_frame_num f - 1\<rparr>))"

definition release_free_frame :: "u32 \<Rightarrow> (frames, unit) kop" where
  "release_free_frame address f =
     (let index = unat address div PAGE_SIZE
      in if index \<ge> TOTAL_PHYS_FRAMES then Inl Out_Of_Bounds
         else
           let rc = (refcount f)(index := refcount f index - 1)
           in Inr ((), f\<lparr>refcount := rc,
                         free_frame := (if rc index = 0 then Some index else free_frame f),
                         free_frame_num := free_frame_num f + 1\<rparr>))"

section \<open>Invariant\<close>

text \<open>
  The links run through the array and \<open>free_frame\<close> points at a free record. \<open>live\<close> is the
  set of frames in use; \<open>avail\<close> counts the free records from \<open>free_frame\<close> upwards, the only
  ones the skipping loop can reach. Two of them are needed to hand out one frame, because the
  loop must find its next stop.
\<close>

definition frames_ok :: "frames \<Rightarrow> bool" where
  "frames_ok f \<longleftrightarrow>
     (\<forall>i. i < TOTAL_PHYS_FRAMES - 1 \<longrightarrow> next_f f i = Some (i + 1))
     \<and> (\<exists>i < TOTAL_PHYS_FRAMES. free_frame f = Some i \<and> refcount f i = 0)"

definition live :: "frames \<Rightarrow> nat set" where
  "live f = {i. refcount f i \<noteq> 0}"

definition reachable_free :: "frames \<Rightarrow> nat set" where
  "reachable_free f =
     {j. j < TOTAL_PHYS_FRAMES \<and> refcount f j = 0 \<and> (\<exists>i. free_frame f = Some i \<and> i \<le> j)}"

definition avail :: "frames \<Rightarrow> nat" where
  "avail f = card (reachable_free f)"

definition frame_index :: "u32 \<Rightarrow> nat" where
  "frame_index a = unat a div PAGE_SIZE"

lemma skip_used_step [simp]:
  "skip_used rc nx None = Some (Inl Null_Deref)"
  "i \<ge> TOTAL_PHYS_FRAMES \<Longrightarrow> skip_used rc nx (Some i) = Some (Inl Out_Of_Bounds)"
  "i < TOTAL_PHYS_FRAMES \<Longrightarrow> rc i = 0 \<Longrightarrow> skip_used rc nx (Some i) = Some (Inr i)"
  "i < TOTAL_PHYS_FRAMES \<Longrightarrow> rc i \<noteq> 0 \<Longrightarrow> skip_used rc nx (Some i) = skip_used rc nx (nx i)"
  by (simp_all add: skip_used.simps)

lemma skip_used_first:
  assumes nx: "\<forall>i. i < TOTAL_PHYS_FRAMES - 1 \<longrightarrow> nx i = Some (i + 1)"
    and j: "j < TOTAL_PHYS_FRAMES" "rc j = 0"
  shows "i \<le> j \<Longrightarrow> (\<forall>k. i \<le> k \<and> k < j \<longrightarrow> rc k \<noteq> 0) \<Longrightarrow> skip_used rc nx (Some i) = Some (Inr j)"
proof (induction "j - i" arbitrary: i)
  case 0
  with j show ?case by simp
next
  case (Suc d)
  then have "i < j" by simp
  with Suc.prems have "rc i \<noteq> 0" by blast
  moreover from \<open>i < j\<close> j nx have "nx i = Some (i + 1)" by (simp add: less_diff_conv)
  ultimately have "skip_used rc nx (Some i) = skip_used rc nx (Some (i + 1))"
    using \<open>i < j\<close> j by simp
  also have "\<dots> = Some (Inr j)"
    using Suc.hyps(2) Suc.prems \<open>i < j\<close> by (intro Suc.hyps(1)) auto
  finally show ?case .
qed

text \<open>Without a free record above, the loop reads the link of the last record.\<close>

lemma skip_used_runs_off:
  assumes nx: "\<forall>i. i < TOTAL_PHYS_FRAMES - 1 \<longrightarrow> nx i = Some (i + 1)"
  shows "i < TOTAL_PHYS_FRAMES \<Longrightarrow> (\<forall>k. i \<le> k \<and> k < TOTAL_PHYS_FRAMES \<longrightarrow> rc k \<noteq> 0)
    \<Longrightarrow> skip_used rc nx (Some i) = skip_used rc nx (nx (TOTAL_PHYS_FRAMES - 1))"
proof (induction "TOTAL_PHYS_FRAMES - 1 - i" arbitrary: i)
  case 0
  then have "i = TOTAL_PHYS_FRAMES - 1" by simp
  with 0 show ?case by simp
next
  case (Suc d)
  then have i: "i < TOTAL_PHYS_FRAMES - 1" by simp
  with Suc.prems nx have "skip_used rc nx (Some i) = skip_used rc nx (Some (i + 1))" by simp
  also have "\<dots> = skip_used rc nx (nx (TOTAL_PHYS_FRAMES - 1))"
    using Suc.hyps(2) Suc.prems i by (intro Suc.hyps(1)) auto
  finally show ?case .
qed

lemma unat_frame_addr:
  "i < TOTAL_PHYS_FRAMES \<Longrightarrow> unat (of_nat i * of_nat PAGE_SIZE :: u32) = i * PAGE_SIZE"
  by (simp add: frame_consts unat_word_ariths unat_of_nat)

lemma frame_index_addr [simp]:
  "i < TOTAL_PHYS_FRAMES \<Longrightarrow> frame_index (of_nat i * of_nat PAGE_SIZE) = i"
  using unat_frame_addr[of i] by (simp add: frame_index_def frame_consts)

lemma frame_addr_aligned: "i < TOTAL_PHYS_FRAMES \<Longrightarrow> PAGE_SIZE dvd unat (of_nat i * of_nat PAGE_SIZE :: u32)"
  by (metis unat_frame_addr dvd_triv_right)

lemma aligned_frame_addr:
  assumes "PAGE_SIZE dvd unat a" "frame_index a < TOTAL_PHYS_FRAMES"
  shows "of_nat (frame_index a) * of_nat PAGE_SIZE = (a :: u32)"
proof -
  have "unat (of_nat (frame_index a) * of_nat PAGE_SIZE :: u32) = frame_index a * PAGE_SIZE"
    using assms(2) by (rule unat_frame_addr)
  also have "\<dots> = unat a"
    using assms(1) by (simp add: frame_index_def)
  finally show ?thesis by (simp only: word_unat_eq_iff)
qed

lemma acquire_ok:
  assumes ok: "frames_ok f" and sp: "2 \<le> avail f"
  obtains i j where "free_frame f = Some i" "i < TOTAL_PHYS_FRAMES" "refcount f i = 0"
    "i < j" "j < TOTAL_PHYS_FRAMES" "refcount f j = 0" "\<forall>k. i < k \<and> k < j \<longrightarrow> refcount f k \<noteq> 0"
    "acquire_free_frame f = Inr (of_nat i * of_nat PAGE_SIZE,
       f\<lparr>refcount := (refcount f)(i := 1), free_frame := Some j, free_frame_num := free_frame_num f - 1\<rparr>)"
proof -
  from ok obtain i where i: "i < TOTAL_PHYS_FRAMES" "free_frame f = Some i" "refcount f i = 0"
    and nx: "\<forall>i. i < TOTAL_PHYS_FRAMES - 1 \<longrightarrow> next_f f i = Some (i + 1)"
    by (auto simp: frames_ok_def)
  define P where "P j \<longleftrightarrow> i < j \<and> j < TOTAL_PHYS_FRAMES \<and> refcount f j = 0" for j
  have "\<exists>j. P j"
  proof (rule ccontr)
    assume "\<nexists>j. P j"
    then have "reachable_free f \<subseteq> {i}" using i by (auto simp: reachable_free_def P_def le_less)
    then have "card (reachable_free f) \<le> 1" by (metis card_mono finite.emptyI finite.insertI card_1_singleton_iff One_nat_def)
    with sp show False by (simp add: avail_def)
  qed
  then have j: "P (Least P)" and least: "\<And>k. P k \<Longrightarrow> Least P \<le> k"
    by (auto intro: LeastI Least_le)
  have between: "\<forall>k. i < k \<and> k < Least P \<longrightarrow> refcount f k \<noteq> 0"
    using j least by (force simp: P_def)
  have "skip_used ((refcount f)(i := 1)) (next_f f) (Some i) = Some (Inr (Least P))"
    using j between by (intro skip_used_first[OF nx]) (auto simp: P_def)
  with i have "acquire_free_frame f = Inr (of_nat i * of_nat PAGE_SIZE,
       f\<lparr>refcount := (refcount f)(i := 1), free_frame := Some (Least P), free_frame_num := free_frame_num f - 1\<rparr>)"
    by (simp add: acquire_free_frame_def Let_def)
  with i j between show ?thesis
    by (intro that[of i "Least P"]) (auto simp: P_def)
qed

lemma finite_reachable_free [simp]: "finite (reachable_free f)"
  by (rule finite_subset[of _ "{..<TOTAL_PHYS_FRAMES}"]) (auto simp: reachable_free_def)

lemma acquire_spec:
  assumes ok: "frames_ok f" and av: "2 \<le> avail f"
  shows "\<exists>a f'. acquire_free_frame f = Inr (a, f') \<and> frames_ok f' \<and> avail f' = avail f - 1
    \<and> PAGE_SIZE dvd unat a \<and> frame_index a < TOTAL_PHYS_FRAMES \<and> frame_index a \<notin> live f
    \<and> refcount f' = (refcount f)(frame_index a := 1)
    \<and> free_frame_num f' = free_frame_num f - 1"
proof -
  from acquire_ok[OF ok av] obtain i j where ij: "free_frame f = Some i" "i < TOTAL_PHYS_FRAMES"
    "refcount f i = 0" "i < j" "j < TOTAL_PHYS_FRAMES" "refcount f j = 0"
    and gap: "\<forall>k. i < k \<and> k < j \<longrightarrow> refcount f k \<noteq> 0"
    and acq: "acquire_free_frame f = Inr (of_nat i * of_nat PAGE_SIZE,
       f\<lparr>refcount := (refcount f)(i := 1), free_frame := Some j, free_frame_num := free_frame_num f - 1\<rparr>)"
    by blast
  let ?f = "f\<lparr>refcount := (refcount f)(i := 1), free_frame := Some j, free_frame_num := free_frame_num f - 1\<rparr>"
  have "reachable_free f = insert i (reachable_free ?f)"
    using ij gap by (auto simp: reachable_free_def) (metis le_neq_implies_less not_le)
  moreover have "i \<notin> reachable_free ?f" using ij by (simp add: reachable_free_def)
  ultimately have "avail ?f = avail f - 1" by (simp add: avail_def)
  moreover have "frames_ok ?f" using ok ij by (auto simp: frames_ok_def)
  ultimately show ?thesis
    using ij acq frame_addr_aligned by (auto simp: live_def)
qed

lemma release_spec:
  assumes ok: "frames_ok f" and idx: "frame_index a < TOTAL_PHYS_FRAMES"
    and used: "frame_index a \<in> live f"
  shows "\<exists>f'. release_free_frame a f = Inr ((), f') \<and> frames_ok f'
    \<and> refcount f' = (refcount f)(frame_index a := refcount f (frame_index a) - 1)
    \<and> free_frame_num f' = free_frame_num f + 1
    \<and> (refcount f (frame_index a) = 1 \<longrightarrow> free_frame f' = Some (frame_index a))"
proof -
  let ?i = "frame_index a"
  let ?rc = "(refcount f)(?i := refcount f ?i - 1)"
  let ?f = "f\<lparr>refcount := ?rc, free_frame := (if ?rc ?i = 0 then Some ?i else free_frame f),
    free_frame_num := free_frame_num f + 1\<rparr>"
  from used have "refcount f ?i \<noteq> 0" by (simp add: live_def)
  with ok idx have "frames_ok ?f" unfolding frames_ok_def by simp (metis One_nat_def)
  moreover have "release_free_frame a f = Inr ((), ?f)"
    using idx by (simp add: release_free_frame_def frame_index_def Let_def)
  ultimately show ?thesis by simp
qed

section \<open>The allocator contract\<close>

text \<open>What the paging code relies on: an acquired frame was not in use, the counts of the
  others are untouched, and a frame is in use until its last reference is released.\<close>

locale frame_allocator =
  fixes ok :: "'f \<Rightarrow> bool" and refs :: "'f \<Rightarrow> nat \<Rightarrow> u32" and room :: "'f \<Rightarrow> nat"
    and acquire :: "('f, u32) kop" and release :: "u32 \<Rightarrow> ('f, unit) kop" and total :: nat
  assumes acquire_law: "ok f \<Longrightarrow> 2 \<le> room f \<Longrightarrow>
      \<exists>a f'. acquire f = Inr (a, f') \<and> ok f' \<and> room f' = room f - 1
        \<and> PAGE_SIZE dvd unat a \<and> frame_index a < total \<and> refs f (frame_index a) = 0
        \<and> refs f' = (refs f)(frame_index a := 1)"
    and release_law: "ok f \<Longrightarrow> frame_index a < total \<Longrightarrow> refs f (frame_index a) \<noteq> 0 \<Longrightarrow>
      \<exists>f'. release a f = Inr ((), f') \<and> ok f'
        \<and> refs f' = (refs f)(frame_index a := refs f (frame_index a) - 1)"
begin

lemma acquire_two_distinct:
  assumes "ok f" "3 \<le> room f"
  obtains a f1 b f2 where "acquire f = Inr (a, f1)" "acquire f1 = Inr (b, f2)"
    "frame_index a \<noteq> frame_index b" "ok f2"
proof -
  from acquire_law[OF assms(1)] assms(2) obtain a f1 where a: "acquire f = Inr (a, f1)" "ok f1"
    "room f1 = room f - 1" "refs f1 = (refs f)(frame_index a := 1)" by auto
  have "2 \<le> room f1" using a(3) assms(2) by simp
  from acquire_law[OF a(2) this] obtain b f2 where b: "acquire f1 = Inr (b, f2)" "ok f2"
    "refs f1 (frame_index b) = 0" by blast
  from a(4) b(3) have "frame_index a \<noteq> frame_index b" by auto
  with a b that show ?thesis by blast
qed

lemma release_after_acquire:
  assumes "ok f" "2 \<le> room f"
  obtains a f1 f2 where "acquire f = Inr (a, f1)" "release a f1 = Inr ((), f2)" "ok f2" "refs f2 = refs f"
proof -
  from acquire_law[OF assms] obtain a f1 where a: "acquire f = Inr (a, f1)" "ok f1"
    "frame_index a < total" "refs f (frame_index a) = 0" "refs f1 = (refs f)(frame_index a := 1)" by auto
  then have "refs f1 (frame_index a) \<noteq> 0" by simp
  with release_law[OF a(2,3)] obtain f2 where f2: "release a f1 = Inr ((), f2)" "ok f2"
    "refs f2 = (refs f1)(frame_index a := refs f1 (frame_index a) - 1)" by auto
  with a have "refs f2 = refs f" by (simp add: fun_upd_idem)
  with a f2 that show ?thesis by blast
qed

end

interpretation fa: frame_allocator frames_ok refcount avail acquire_free_frame release_free_frame
  TOTAL_PHYS_FRAMES
proof unfold_locales
  fix f assume "frames_ok f" "2 \<le> avail f"
  then show "\<exists>a f'. acquire_free_frame f = Inr (a, f') \<and> frames_ok f' \<and> avail f' = avail f - 1
        \<and> PAGE_SIZE dvd unat a \<and> frame_index a < TOTAL_PHYS_FRAMES \<and> refcount f (frame_index a) = 0
        \<and> refcount f' = (refcount f)(frame_index a := 1)"
    using acquire_spec[of f] by (fastforce simp: live_def)
next
  fix f a assume "frames_ok f" "frame_index a < TOTAL_PHYS_FRAMES" "refcount f (frame_index a) \<noteq> 0"
  then show "\<exists>f'. release_free_frame a f = Inr ((), f') \<and> frames_ok f'
        \<and> refcount f' = (refcount f)(frame_index a := refcount f (frame_index a) - 1)"
    using release_spec[of f a] by (fastforce simp: live_def)
qed

lemma init_frames_ok: "frames_ok (init_free_frame n u)"
  by (simp add: frames_ok_def init_free_frame_def TOTAL_PHYS_FRAMES_def)

lemma init_avail: "avail (init_free_frame n u) = TOTAL_PHYS_FRAMES"
proof -
  have "reachable_free (init_free_frame n u) = {..<TOTAL_PHYS_FRAMES}"
    by (auto simp: reachable_free_def init_free_frame_def)
  then show ?thesis by (simp add: avail_def)
qed

section \<open>Properties\<close>

text \<open>C39: the frame allocator never hands out a frame in use: from a well-formed state with
  at least two frames left above \<open>free_frame\<close>, \<open>acquire_free_frame\<close> returns the page-aligned
  address of a frame inside the machine's memory whose reference count was 0 and is 1 afterwards,
  no other count changes, and the state stays well formed.\<close>

theorem acquire_gives_unused_frame:
  assumes "frames_ok f" and "2 \<le> avail f"
  shows "\<exists>a f'. acquire_free_frame f = Inr (a, f') \<and> frames_ok f'
    \<and> PAGE_SIZE dvd unat a \<and> frame_index a < TOTAL_PHYS_FRAMES
    \<and> frame_index a \<notin> live f \<and> live f' = insert (frame_index a) (live f)
    \<and> refcount f' = (refcount f)(frame_index a := 1) \<and> avail f' = avail f - 1"
proof -
  from acquire_spec[OF assms] obtain a f' where "acquire_free_frame f = Inr (a, f')" "frames_ok f'"
    "avail f' = avail f - 1" "PAGE_SIZE dvd unat a" "frame_index a < TOTAL_PHYS_FRAMES" "frame_index a \<notin> live f"
    "refcount f' = (refcount f)(frame_index a := 1)" by auto
  moreover from this have "live f' = insert (frame_index a) (live f)" by (auto simp: live_def)
  ultimately show ?thesis by blast
qed

theorem acquire_gives_unused_frame_witness:
  "\<exists>a f'. acquire_free_frame (init_free_frame 65536 None) = Inr (a, f') \<and> frames_ok f'
    \<and> avail f' = 65535"
  using acquire_gives_unused_frame[OF init_frames_ok[of 65536 None]]
  by (auto simp: init_avail TOTAL_PHYS_FRAMES_def)

text \<open>Acquiring a frame and releasing it again restores every reference count, and the
  released frame is the next one to be handed out.\<close>

theorem release_undoes_acquire:
  assumes "frames_ok f" and "2 \<le> avail f"
  shows "\<exists>a f1 f2. acquire_free_frame f = Inr (a, f1) \<and> release_free_frame a f1 = Inr ((), f2)
    \<and> frames_ok f2 \<and> refcount f2 = refcount f \<and> free_frame f2 = free_frame f
    \<and> free_frame_num f2 = free_frame_num f"
proof -
  from acquire_ok[OF assms] obtain i j where "free_frame f = Some i" "i < TOTAL_PHYS_FRAMES"
    "refcount f i = 0" and acq: "acquire_free_frame f = Inr (of_nat i * of_nat PAGE_SIZE,
       f\<lparr>refcount := (refcount f)(i := 1), free_frame := Some j, free_frame_num := free_frame_num f - 1\<rparr>)"
    by blast
  moreover from this have "unat (of_nat i * of_nat PAGE_SIZE :: u32) div PAGE_SIZE = i"
    by (simp flip: frame_index_def)
  ultimately show ?thesis
    using assms(1) unfolding acq by (auto simp: release_free_frame_def Let_def frames_ok_def fun_upd_idem)
qed

theorem release_undoes_acquire_witness:
  "\<exists>a f1 f2. acquire_free_frame (init_free_frame 65536 None) = Inr (a, f1)
    \<and> release_free_frame a f1 = Inr ((), f2) \<and> free_frame f2 = Some 0"
proof -
  have "free_frame (init_free_frame 65536 None) = Some 0" by (simp add: init_free_frame_def)
  then show ?thesis
    using release_undoes_acquire[OF init_frames_ok[of 65536 None]]
    by (auto simp: init_avail TOTAL_PHYS_FRAMES_def)
qed

text \<open>exhaustion is not reported: when every frame from \<open>free_frame\<close> upwards but that one
  is in use, \<open>acquire_free_frame\<close> follows the link of the last record, which is never
  initialised, and with a NULL there it faults, whatever \<open>free_frame_num\<close> says and even if lower
  frames are free.\<close>

theorem acquire_exhausted_faults:
  assumes ok: "frames_ok f" and one: "reachable_free f = {i}" and last: "next_f f (TOTAL_PHYS_FRAMES - 1) = None"
  shows "acquire_free_frame f = Inl Null_Deref"
proof -
  from one have "i \<in> reachable_free f" by simp
  with ok obtain k where k: "free_frame f = Some k" "k < TOTAL_PHYS_FRAMES" "refcount f k = 0" "k \<le> i"
    by (auto simp: reachable_free_def frames_ok_def)
  then have "k \<in> reachable_free f" by (simp add: reachable_free_def)
  with one have [simp]: "k = i" by simp
  have "\<forall>m. i < m \<and> m < TOTAL_PHYS_FRAMES \<longrightarrow> refcount f m \<noteq> 0"
  proof (intro allI impI notI)
    fix m assume "i < m \<and> m < TOTAL_PHYS_FRAMES" "refcount f m = 0"
    with k have "m \<in> reachable_free f" by (simp add: reachable_free_def)
    with one \<open>i < m \<and> _\<close> show False by simp
  qed
  with k ok have "skip_used ((refcount f)(i := 1)) (next_f f) (Some i) = Some (Inl Null_Deref)"
    by (subst skip_used_runs_off) (use last in \<open>auto simp: frames_ok_def\<close>)
  with k show ?thesis by (simp add: acquire_free_frame_def)
qed

theorem acquire_exhausted_faults_witness:
  "acquire_free_frame (init_free_frame 65536 None\<lparr>refcount := (\<lambda>i. if i = 0 \<or> i = 65535 then 0 else 1),
     free_frame := Some 65535, free_frame_num := 2\<rparr>) = Inl Null_Deref"
proof -
  let ?f = "init_free_frame 65536 None\<lparr>refcount := (\<lambda>i. if i = 0 \<or> i = 65535 then 0 else 1),
     free_frame := Some 65535, free_frame_num := 2\<rparr>"
  have "frames_ok ?f" "reachable_free ?f = {65535}" "next_f ?f (TOTAL_PHYS_FRAMES - 1) = None"
    by (auto simp: frames_ok_def reachable_free_def init_free_frame_def TOTAL_PHYS_FRAMES_def)
  then show ?thesis by (rule acquire_exhausted_faults)
qed

end
