(* ===== verification/Linked_List.thy ===== *)
theory Linked_List
  imports Prelude
begin

text \<open>
  The kernel's intrusive doubly linked list, \<open>kern/datastructure/linked_list.c\<close> and
  \<open>linked_list.h\<close>. Node structures are embedded in TCBs, PCBs and page records, list
  headers are global variables or structure fields, and both are reached by pointers. The
  model keeps them in a store: \<open>'n\<close> names the node structures, \<open>'l\<close> the headers, and
  \<open>None\<close> is NULL. The abstraction \<open>is_list h l xs\<close> says that header \<open>l\<close> and the nodes
  represent the sequence \<open>xs\<close>; the operations are shown to refine append, cons and
  \<open>remove1\<close> on it and to leave every other, disjoint list alone. The locale
  \<open>intrusive_list\<close> is the contract the scheduler and the system calls use.
\<close>

section \<open>Data and operations\<close>

record 'n node =
  prev_n :: "'n option"
  next_n :: "'n option"

record 'n list_t =
  length_l :: int
  head_l :: "'n option"
  tail_l :: "'n option"

record ('l, 'n) lheap =
  nodes :: "'n \<Rightarrow> 'n node"
  headers :: "'l \<Rightarrow> 'n list_t"

definition set_prev :: "'n \<Rightarrow> 'n option \<Rightarrow> ('l, 'n) lheap \<Rightarrow> ('l, 'n) lheap" where
  "set_prev n p h = h\<lparr>nodes := (nodes h)(n := (nodes h n)\<lparr>prev_n := p\<rparr>)\<rparr>"

definition set_next :: "'n \<Rightarrow> 'n option \<Rightarrow> ('l, 'n) lheap \<Rightarrow> ('l, 'n) lheap" where
  "set_next n p h = h\<lparr>nodes := (nodes h)(n := (nodes h n)\<lparr>next_n := p\<rparr>)\<rparr>"

definition set_head :: "'l \<Rightarrow> 'n option \<Rightarrow> ('l, 'n) lheap \<Rightarrow> ('l, 'n) lheap" where
  "set_head l p h = h\<lparr>headers := (headers h)(l := (headers h l)\<lparr>head_l := p\<rparr>)\<rparr>"

definition set_tail :: "'l \<Rightarrow> 'n option \<Rightarrow> ('l, 'n) lheap \<Rightarrow> ('l, 'n) lheap" where
  "set_tail l p h = h\<lparr>headers := (headers h)(l := (headers h l)\<lparr>tail_l := p\<rparr>)\<rparr>"

definition add_length :: "'l \<Rightarrow> int \<Rightarrow> ('l, 'n) lheap \<Rightarrow> ('l, 'n) lheap" where
  "add_length l d h = h\<lparr>headers := (headers h)(l := (headers h l)\<lparr>length_l := length_l (headers h l) + d\<rparr>)\<rparr>"

lemmas store_defs = set_prev_def set_next_def set_head_def set_tail_def add_length_def

definition list_init :: "('l, 'n) lheap \<Rightarrow> 'l option \<Rightarrow> ('l, 'n) lheap" where
  "list_init h lp = (case lp of
     None \<Rightarrow> h
   | Some l \<Rightarrow> h\<lparr>headers := (headers h)(l := \<lparr>length_l = 0, head_l = None, tail_l = None\<rparr>)\<rparr>)"

definition list_begin :: "('l, 'n) lheap \<Rightarrow> 'l \<Rightarrow> 'n option" where
  "list_begin h l = head_l (headers h l)"

definition list_end :: "('l, 'n) lheap \<Rightarrow> 'l \<Rightarrow> 'n option" where
  "list_end h l = tail_l (headers h l)"

text \<open>
  \<open>list_delete\<close> unlinks on the left, then on the right; each half can give up with NULL when
  the node has no neighbour on that side and the header does not point at it.
\<close>

definition delete_right :: "('l, 'n) lheap \<Rightarrow> 'l \<Rightarrow> 'n \<Rightarrow> ('l, 'n) lheap \<times> 'n option" where
  "delete_right h l j =
     (case next_n (nodes h j) of
        Some n \<Rightarrow> (add_length l (-1) (set_prev n (prev_n (nodes h j)) h), Some j)
      | None \<Rightarrow>
          if tail_l (headers h l) = Some j
          then (add_length l (-1) (set_tail l (prev_n (nodes h j)) h), Some j)
          else (h, None))"

definition list_delete ::
  "('l, 'n) lheap \<Rightarrow> 'l option \<Rightarrow> 'n option \<Rightarrow> ('l, 'n) lheap \<times> 'n option" where
  "list_delete h lp jp =
     (case (lp, jp) of
        (Some l, Some j) \<Rightarrow>
          (case prev_n (nodes h j) of
             Some p \<Rightarrow> delete_right (set_next p (next_n (nodes h j)) h) l j
           | None \<Rightarrow>
               if head_l (headers h l) = Some j
               then delete_right (set_head l (next_n (nodes h j)) h) l j
               else (h, None))
      | _ \<Rightarrow> (h, None))"

definition list_delete_first :: "('l, 'n) lheap \<Rightarrow> 'l \<Rightarrow> ('l, 'n) lheap \<times> 'n option" where
  "list_delete_first h l = list_delete h (Some l) (head_l (headers h l))"

definition list_delete_last :: "('l, 'n) lheap \<Rightarrow> 'l \<Rightarrow> ('l, 'n) lheap \<times> 'n option" where
  "list_delete_last h l = list_delete h (Some l) (tail_l (headers h l))"

definition list_insert_first :: "('l, 'n) lheap \<Rightarrow> 'l option \<Rightarrow> 'n option \<Rightarrow> ('l, 'n) lheap" where
  "list_insert_first h lp jp =
     (case (lp, jp) of
        (Some l, Some j) \<Rightarrow>
          add_length l 1
            (case head_l (headers h l) of
               None \<Rightarrow> set_prev j None (set_next j None (set_head l (Some j) (set_tail l (Some j) h)))
             | Some hd0 \<Rightarrow>
                 set_head l (Some j) (set_prev j None (set_next j (Some hd0) (set_prev hd0 (Some j) h))))
      | _ \<Rightarrow> h)"

definition list_insert_last :: "('l, 'n) lheap \<Rightarrow> 'l option \<Rightarrow> 'n option \<Rightarrow> ('l, 'n) lheap" where
  "list_insert_last h lp jp =
     (case (lp, jp) of
        (Some l, Some j) \<Rightarrow>
          add_length l 1
            (case tail_l (headers h l) of
               None \<Rightarrow> set_prev j None (set_next j None (set_head l (Some j) (set_tail l (Some j) h)))
             | Some t \<Rightarrow>
                 set_tail l (Some j) (set_next j None (set_prev j (Some t) (set_next t (Some j) h))))
      | _ \<Rightarrow> h)"

text \<open>
  The loop \<open>for (n = list_begin(l); n != NULL; n = n->next)\<close> that stops at the first node
  with a property: \<open>Some (Some n)\<close> when it stops at \<open>n\<close>, \<open>Some None\<close> when it runs off the
  end, and \<open>None\<close> when it never ends, as on a cyclic chain.
\<close>

partial_function (option) find_node ::
  "('n \<Rightarrow> bool) \<Rightarrow> ('l, 'n) lheap \<Rightarrow> 'n option \<Rightarrow> 'n option option" where
  "find_node P h p =
     (case p of
        None \<Rightarrow> Some None
      | Some n \<Rightarrow> if P n then Some (Some n) else find_node P h (next_n (nodes h n)))"

section \<open>Abstraction\<close>

primrec chain :: "('n \<Rightarrow> 'n node) \<Rightarrow> 'n option \<Rightarrow> 'n list \<Rightarrow> 'n option \<Rightarrow> bool" where
  "chain N p [] q \<longleftrightarrow> True"
| "chain N p (x # xs) q \<longleftrightarrow>
     prev_n (N x) = p \<and> next_n (N x) = hd_opt xs q \<and> chain N (Some x) xs q"

definition is_list :: "('l, 'n) lheap \<Rightarrow> 'l \<Rightarrow> 'n list \<Rightarrow> bool" where
  "is_list h l xs \<longleftrightarrow>
     distinct xs \<and> chain (nodes h) None xs None
     \<and> head_l (headers h l) = hd_opt xs None \<and> tail_l (headers h l) = last_opt xs None
     \<and> length_l (headers h l) = int (length xs)"

lemma chain_append [simp]:
  "chain N p (xs @ ys) q \<longleftrightarrow> chain N p xs (hd_opt ys q) \<and> chain N (last_opt xs p) ys q"
  by (induction xs arbitrary: p) auto

lemma chain_upd [simp]: "x \<notin> set xs \<Longrightarrow> chain (N(x := v)) p xs q \<longleftrightarrow> chain N p xs q"
  by (induction xs arbitrary: p) auto

lemma find_node_simps [simp]:
  "find_node P h None = Some None"
  "find_node P h (Some n) = (if P n then Some (Some n) else find_node P h (next_n (nodes h n)))"
  by (simp_all add: find_node.simps)

lemma chain_find:
  "chain (nodes h) p xs None \<Longrightarrow> find_node P h (hd_opt xs None) = Some (List.find P xs)"
  by (induction xs arbitrary: p) auto

lemma is_list_find:
  "is_list h l xs \<Longrightarrow> find_node P h (list_begin h l) = Some (List.find P xs)"
  unfolding is_list_def list_begin_def by (metis chain_find)

lemma is_list_unique:
  assumes "is_list h l xs" "is_list h l ys"
  shows "xs = ys"
proof -
  have "chain N p xs None \<Longrightarrow> chain N p ys None \<Longrightarrow> hd_opt xs None = hd_opt ys None \<Longrightarrow> xs = ys"
    for N p
  proof (induction xs arbitrary: ys p)
    case (Cons x xs)
    then show ?case by (cases ys) auto
  qed (auto dest: sym)
  with assms show ?thesis by (auto simp: is_list_def)
qed

section \<open>Refinement of the operations\<close>

lemma chain_set_last_next:
  "chain N p (xs @ [t]) q \<Longrightarrow> t \<notin> set xs
    \<Longrightarrow> chain (N(t := (N t)\<lparr>next_n := r\<rparr>)) p (xs @ [t]) r"
  by (auto simp: fun_upd_def[symmetric])

lemma is_list_init [simp]: "is_list (list_init h (Some l)) l []"
  by (simp add: is_list_def list_init_def)

lemma is_list_length: "is_list h l xs \<Longrightarrow> length_l (headers h l) = int (length xs)"
  by (simp add: is_list_def)

lemma insert_last_refines:
  assumes "is_list h l xs" "n \<notin> set xs"
  shows "is_list (list_insert_last h (Some l) (Some n)) l (xs @ [n])"
proof (cases xs rule: rev_cases)
  case Nil
  with assms show ?thesis
    by (simp add: is_list_def list_insert_last_def store_defs)
next
  case (snoc ys t)
  with assms show ?thesis
    by (auto simp: is_list_def list_insert_last_def store_defs)
qed

lemma insert_first_refines:
  assumes "is_list h l xs" "n \<notin> set xs"
  shows "is_list (list_insert_first h (Some l) (Some n)) l (n # xs)"
proof (cases xs)
  case Nil
  with assms show ?thesis
    by (simp add: is_list_def list_insert_first_def store_defs)
next
  case (Cons y ys)
  with assms show ?thesis
    by (auto simp: is_list_def list_insert_first_def store_defs)
qed

lemma delete_refines_split:
  assumes "is_list h l (as @ n # bs)"
  shows "is_list (fst (list_delete h (Some l) (Some n))) l (as @ bs)
       \<and> snd (list_delete h (Some l) (Some n)) = Some n"
proof -
  consider "as = []" "bs = []" | b bs' where "as = []" "bs = b # bs'"
    | as' a where "as = as' @ [a]" "bs = []" | as' a b bs' where "as = as' @ [a]" "bs = b # bs'"
    by (metis list.exhaust rev_exhaust)
  then show ?thesis
    using assms
    by cases (auto simp: is_list_def list_delete_def delete_right_def store_defs)
qed

lemma delete_refines:
  assumes "is_list h l xs" "n \<in> set xs"
  shows "is_list (fst (list_delete h (Some l) (Some n))) l (remove1 n xs)"
    and "snd (list_delete h (Some l) (Some n)) = Some n"
proof -
  from assms(2) obtain as bs where xs: "xs = as @ n # bs" and "n \<notin> set as"
    by (meson split_list_first)
  with assms(1) delete_refines_split[of h l as n bs]
  show "is_list (fst (list_delete h (Some l) (Some n))) l (remove1 n xs)"
    and "snd (list_delete h (Some l) (Some n)) = Some n"
    by (auto simp: remove1_middle)
qed

text \<open>Writes of one list stay away from the nodes and the header of another.\<close>

lemma insert_last_frame:
  assumes "is_list h l xs" "is_list h l' ys" "l' \<noteq> l" "set xs \<inter> set ys = {}" "n \<notin> set ys"
  shows "is_list (list_insert_last h (Some l) (Some n)) l' ys"
proof (cases xs rule: rev_cases)
  case Nil
  with assms show ?thesis
    by (auto simp: is_list_def list_insert_last_def store_defs)
next
  case (snoc zs t)
  with assms show ?thesis
    by (auto simp: is_list_def list_insert_last_def store_defs)
qed

lemma delete_frame:
  assumes "is_list h l xs" "n \<in> set xs" "is_list h l' ys" "l' \<noteq> l" "set xs \<inter> set ys = {}"
  shows "is_list (fst (list_delete h (Some l) (Some n))) l' ys"
proof -
  from assms(2) obtain as bs where xs: "xs = as @ n # bs"
    by (meson split_list_first)
  consider "as = []" "bs = []" | b bs' where "as = []" "bs = b # bs'"
    | as' a where "as = as' @ [a]" "bs = []" | as' a b bs' where "as = as' @ [a]" "bs = b # bs'"
    by (metis list.exhaust rev_exhaust)
  then show ?thesis
    using assms unfolding xs
    by cases (auto simp: is_list_def list_delete_def delete_right_def store_defs)
qed

section \<open>The contract the clients use\<close>

text \<open>
  A family of lists owned by the headers in \<open>L\<close>: each header represents its sequence and no
  node is on two of them. This is how the kernel uses its queues: a thread's
  \<open>thread_list_node\<close> is on the runnable queue, on the blocked queue, or on neither.
\<close>

definition own_by :: "('h \<Rightarrow> 'l \<Rightarrow> 'n list \<Rightarrow> bool) \<Rightarrow> 'h \<Rightarrow> 'l set \<Rightarrow> ('l \<Rightarrow> 'n list) \<Rightarrow> bool" where
  "own_by R h L F \<longleftrightarrow>
     (\<forall>l\<in>L. R h l (F l)) \<and> (\<forall>l\<in>L. \<forall>l'\<in>L. l \<noteq> l' \<longrightarrow> set (F l) \<inter> set (F l') = {})"

locale intrusive_list =
  fixes rep :: "'h \<Rightarrow> 'l \<Rightarrow> 'n list \<Rightarrow> bool"
    and ins :: "'h \<Rightarrow> 'l \<Rightarrow> 'n \<Rightarrow> 'h"
    and del :: "'h \<Rightarrow> 'l \<Rightarrow> 'n \<Rightarrow> 'h"
  assumes rep_distinct: "rep h l xs \<Longrightarrow> distinct xs"
    and rep_ins: "rep h l xs \<Longrightarrow> n \<notin> set xs \<Longrightarrow> rep (ins h l n) l (xs @ [n])"
    and rep_ins_other: "rep h l xs \<Longrightarrow> rep h l' ys \<Longrightarrow> l' \<noteq> l \<Longrightarrow> set xs \<inter> set ys = {}
      \<Longrightarrow> n \<notin> set ys \<Longrightarrow> rep (ins h l n) l' ys"
    and rep_del: "rep h l xs \<Longrightarrow> n \<in> set xs \<Longrightarrow> rep (del h l n) l (remove1 n xs)"
    and rep_del_other: "rep h l xs \<Longrightarrow> n \<in> set xs \<Longrightarrow> rep h l' ys \<Longrightarrow> l' \<noteq> l
      \<Longrightarrow> set xs \<inter> set ys = {} \<Longrightarrow> rep (del h l n) l' ys"
begin

lemma own_rep: "own_by rep h L F \<Longrightarrow> l \<in> L \<Longrightarrow> rep h l (F l)"
  by (simp add: own_by_def)

lemma own_distinct: "own_by rep h L F \<Longrightarrow> l \<in> L \<Longrightarrow> distinct (F l)"
  by (blast intro: rep_distinct own_rep)

lemma own_disjoint:
  "own_by rep h L F \<Longrightarrow> l \<in> L \<Longrightarrow> l' \<in> L \<Longrightarrow> l \<noteq> l' \<Longrightarrow> set (F l) \<inter> set (F l') = {}"
  unfolding own_by_def by blast

lemma own_unique:
  "own_by rep h L F \<Longrightarrow> l \<in> L \<Longrightarrow> l' \<in> L \<Longrightarrow> n \<in> set (F l) \<Longrightarrow> n \<in> set (F l') \<Longrightarrow> l = l'"
  using own_disjoint by blast

lemma own_ins:
  assumes own: "own_by rep h L F" and l: "l \<in> L" and fresh: "\<forall>k\<in>L. n \<notin> set (F k)"
  shows "own_by rep (ins h l n) L (F(l := F l @ [n]))"
  unfolding own_by_def
proof (intro conjI ballI impI)
  fix k assume k: "k \<in> L"
  show "rep (ins h l n) k ((F(l := F l @ [n])) k)"
  proof (cases "k = l")
    case True
    with own l fresh show ?thesis by (simp add: rep_ins own_rep)
  next
    case False
    with own l k fresh own_disjoint[OF own l k] show ?thesis
      by (auto intro!: rep_ins_other[OF own_rep[OF own l] own_rep[OF own k]])
  qed
next
  fix k k' assume "k \<in> L" "k' \<in> L" "k \<noteq> k'"
  then show "set ((F(l := F l @ [n])) k) \<inter> set ((F(l := F l @ [n])) k') = {}"
    using own_disjoint[OF own, of k k'] fresh by auto
qed

lemma own_del:
  assumes own: "own_by rep h L F" and l: "l \<in> L" and n: "n \<in> set (F l)"
  shows "own_by rep (del h l n) L (F(l := remove1 n (F l)))"
  unfolding own_by_def
proof (intro conjI ballI impI)
  fix k assume k: "k \<in> L"
  show "rep (del h l n) k ((F(l := remove1 n (F l))) k)"
  proof (cases "k = l")
    case True
    with own l n show ?thesis by (simp add: rep_del own_rep)
  next
    case False
    with own l k n own_disjoint[OF own l k] show ?thesis
      by (auto intro!: rep_del_other[OF own_rep[OF own l] n own_rep[OF own k]])
  qed
next
  fix k k' assume kk: "k \<in> L" "k' \<in> L" "k \<noteq> k'"
  have "set (remove1 n (F l)) \<subseteq> set (F l)" by (rule set_remove1_subset)
  then show "set ((F(l := remove1 n (F l))) k) \<inter> set ((F(l := remove1 n (F l))) k') = {}"
    using own_disjoint[OF own, of k k'] kk by auto
qed

lemma own_move:
  assumes own: "own_by rep h L F" and l: "l \<in> L" "l' \<in> L" and ne: "l \<noteq> l'" and n: "n \<in> set (F l)"
  shows "own_by rep (ins (del h l n) l' n) L (F(l := remove1 n (F l), l' := F l' @ [n]))"
proof -
  let ?F = "F(l := remove1 n (F l))"
  have "own_by rep (del h l n) L ?F" by (rule own_del[OF own l(1) n])
  moreover have "\<forall>k\<in>L. n \<notin> set (?F k)"
    using own_unique[OF own l(1)] own_distinct[OF own l(1)] n by (auto simp: set_remove1_eq)
  ultimately have "own_by rep (ins (del h l n) l' n) L (?F(l' := ?F l' @ [n]))"
    using l(2) by (intro own_ins)
  with ne show ?thesis by simp
qed

end

text \<open>The list module of the kernel keeps the contract.\<close>

interpretation kl: intrusive_list is_list
  "\<lambda>h l n. list_insert_last h (Some l) (Some n)"
  "\<lambda>h l n. fst (list_delete h (Some l) (Some n))"
proof unfold_locales
  fix h :: "('l, 'n) lheap" and l xs
  assume "is_list h l xs"
  then show "distinct xs" by (simp add: is_list_def)
qed (auto intro: insert_last_refines insert_last_frame delete_refines(1) delete_frame)

abbreviation owns :: "('l, 'n) lheap \<Rightarrow> 'l set \<Rightarrow> ('l \<Rightarrow> 'n list) \<Rightarrow> bool" where
  "owns \<equiv> own_by is_list"

lemma owns_begin: "owns h L F \<Longrightarrow> l \<in> L \<Longrightarrow> list_begin h l = hd_opt (F l) None"
  by (simp add: own_by_def is_list_def list_begin_def)

lemma owns_length: "owns h L F \<Longrightarrow> l \<in> L \<Longrightarrow> length_l (headers h l) = int (length (F l))"
  by (simp add: own_by_def is_list_def)

lemma owns_find: "owns h L F \<Longrightarrow> l \<in> L \<Longrightarrow> find_node P h (list_begin h l) = Some (List.find P (F l))"
  unfolding own_by_def by (blast intro: is_list_find)

lemma owns_delete_ret:
  "owns h L F \<Longrightarrow> l \<in> L \<Longrightarrow> n \<in> set (F l) \<Longrightarrow> snd (list_delete h (Some l) (Some n)) = Some n"
  by (metis kl.own_rep delete_refines(2))

lemma owns_delete_first:
  assumes "owns h L F" "l \<in> L" "F l = n # ns"
  shows "owns (fst (list_delete_first h l)) L (F(l := ns))" "snd (list_delete_first h l) = Some n"
proof -
  have hd: "head_l (headers h l) = Some n"
    using owns_begin[OF assms(1,2)] assms(3) by (simp add: list_begin_def)
  show "owns (fst (list_delete_first h l)) L (F(l := ns))"
    using kl.own_del[OF assms(1,2), of n] assms(3) hd by (simp add: list_delete_first_def)
  show "snd (list_delete_first h l) = Some n"
    using owns_delete_ret[OF assms(1,2), of n] assms(3) hd by (simp add: list_delete_first_def)
qed

lemma owns_subset: "owns h L F \<Longrightarrow> L' \<subseteq> L \<Longrightarrow> owns h L' F"
  unfolding own_by_def by blast

text \<open>A store in which every header is an empty list.\<close>

definition empty_lheap :: "('l, 'n) lheap" where
  "empty_lheap = \<lparr>nodes = (\<lambda>_. \<lparr>prev_n = None, next_n = None\<rparr>),
                  headers = (\<lambda>_. \<lparr>length_l = 0, head_l = None, tail_l = None\<rparr>)\<rparr>"

lemma empty_lheap_is_list [simp]: "is_list empty_lheap l []"
  by (simp add: is_list_def empty_lheap_def)

lemma empty_lheap_owns [simp]: "owns empty_lheap L (\<lambda>_. [])"
  by (simp add: own_by_def)

section \<open>Properties\<close>

text \<open>\<open>list_insert_last\<close> on a well-formed list appends the node, and every other
  well-formed list that contains neither the node nor a node of that list is unchanged.\<close>

theorem list_insert_last_appends:
  assumes "is_list h l xs" and "n \<notin> set xs"
  shows "is_list (list_insert_last h (Some l) (Some n)) l (xs @ [n])
    \<and> (\<forall>l' ys. is_list h l' ys \<and> l' \<noteq> l \<and> set (n # xs) \<inter> set ys = {}
         \<longrightarrow> is_list (list_insert_last h (Some l) (Some n)) l' ys)"
  using assms by (auto intro: insert_last_refines insert_last_frame)

theorem list_insert_last_appends_witness:
  "is_list (list_insert_last (list_insert_last empty_lheap (Some (0::nat)) (Some (5::nat))) (Some 0) (Some 7)) 0 [5, 7]
   \<and> is_list (list_insert_last (list_insert_last empty_lheap (Some (0::nat)) (Some (5::nat))) (Some 0) (Some 7)) 1 []"
proof -
  have one: "is_list (list_insert_last empty_lheap (Some (0::nat)) (Some (5::nat))) 0 [5]"
    "is_list (list_insert_last empty_lheap (Some (0::nat)) (Some (5::nat))) 1 []"
    using list_insert_last_appends[of empty_lheap "0::nat" "[]" "5::nat"] by auto
  then show ?thesis
    using list_insert_last_appends[OF one(1), of 7] by auto
qed

text \<open>\<open>list_delete\<close> of a node that is on a well-formed list returns that node and leaves
  the list without it, in the same order and with the right length; every list that shares no
  node with it is unchanged.\<close>

theorem list_delete_removes:
  assumes "is_list h l xs" and "n \<in> set xs"
  shows "snd (list_delete h (Some l) (Some n)) = Some n
    \<and> is_list (fst (list_delete h (Some l) (Some n))) l (remove1 n xs)
    \<and> (\<forall>l' ys. is_list h l' ys \<and> l' \<noteq> l \<and> set xs \<inter> set ys = {}
         \<longrightarrow> is_list (fst (list_delete h (Some l) (Some n))) l' ys)"
  using assms by (blast intro: delete_refines delete_frame)

theorem list_delete_removes_witness:
  "\<exists>h :: (nat, nat) lheap. is_list h 0 [5, 7, 9] \<and> is_list (fst (list_delete h (Some 0) (Some 7))) 0 [5, 9]"
proof -
  let ?h = "list_insert_last (list_insert_last (list_insert_last empty_lheap
    (Some (0::nat)) (Some (5::nat))) (Some 0) (Some 7)) (Some 0) (Some 9)"
  have h: "is_list ?h 0 [5, 7, 9]"
    by (rule insert_last_refines[of _ _ "[5, 7]", simplified] insert_last_refines[of _ _ "[5]", simplified]
        insert_last_refines[of _ _ "[]", simplified] empty_lheap_is_list | simp)+
  with list_delete_removes[OF h, of 7] show ?thesis by auto
qed

end
