(* ===== verification/Kernel_Core.thy ===== *)
theory Kernel_Core
  imports Linked_List
begin

text \<open>
  The control blocks and global variables of \<open>kern/inc/control_block.h\<close> and the state the
  scheduler, the mutexes and the system calls share. Control blocks are reached by pointers:
  \<open>tcbs\<close> and \<open>pcbs\<close> are the typed heaps of thread and process control blocks, a pointer is
  its 32-bit address and 0 is NULL. The list nodes embedded in the control blocks and the list
  headers live in the store of \<open>Linked_List\<close>, named by the structure and field they belong to;
  \<open>list_entry\<close> goes back from a node to its structure, and is a fault when the node is NULL or
  is another field than the one the code names.

  The record \<open>kcore\<close> is extended by the heap, the address spaces and the devices in the
  theories that model them, so every operation here works on any extension of it.
\<close>

section \<open>Control blocks\<close>

definition THREAD_EXIT :: int where "THREAD_EXIT = -2"
definition THREAD_BLOCKED :: int where "THREAD_BLOCKED = -1"
definition THREAD_RUNNING :: int where "THREAD_RUNNING = 0"
definition THREAD_RUNNABLE :: int where "THREAD_RUNNABLE = 1"
definition THREAD_WAITING :: int where "THREAD_WAITING = 2"
definition THREAD_SLEEPING :: int where "THREAD_SLEEPING = 3"
definition THREAD_INIT :: int where "THREAD_INIT = 4"
definition THREAD_READLINE :: int where "THREAD_READLINE = 5"
definition PROCESS_EXIT :: int where "PROCESS_EXIT = -2"
definition PROCESS_RUNNING :: int where "PROCESS_RUNNING = 0"
definition PROCESS_RUNNABLE :: int where "PROCESS_RUNNABLE = 1"

lemmas thread_states = THREAD_EXIT_def THREAD_BLOCKED_def THREAD_RUNNING_def THREAD_RUNNABLE_def
  THREAD_WAITING_def THREAD_SLEEPING_def THREAD_INIT_def THREAD_READLINE_def

lemmas process_states = PROCESS_EXIT_def PROCESS_RUNNING_def PROCESS_RUNNABLE_def

record ureg =
  r_cause :: u32
  r_cr2 :: u32
  r_ds :: u32
  r_es :: u32
  r_fs :: u32
  r_gs :: u32
  r_edi :: u32
  r_esi :: u32
  r_ebp :: u32
  r_zero :: u32
  r_ebx :: u32
  r_edx :: u32
  r_ecx :: u32
  r_eax :: u32
  r_error_code :: u32
  r_eip :: u32
  r_cs :: u32
  r_eflags :: u32
  r_esp :: u32
  r_ss :: u32

record swexninfo =
  i_esp3 :: u32
  i_eip :: u32
  i_arg :: u32
  i_newureg :: u32
  i_installed_flag :: int
  i_eflags :: u32

record TCB =
  t_esp :: u32
  t_pcb :: u32
  t_tid :: int
  t_state :: int
  t_start_ticks :: u32
  t_duration :: u32
  t_stack_base :: u32
  t_stack_size :: u32
  t_registers :: ureg
  t_swexn_info :: swexninfo

record PCB =
  p_pid :: int
  p_state :: int
  p_return_state :: int
  p_parent :: u32
  p_PD :: u32
  p_children_count :: int

record va_info =
  v_virtual_addr :: u32
  v_len :: u32

section \<open>Nodes, lists and mutexes by name\<close>

datatype node_id =
    Thread_list_node u32
  | Peer_threads_node u32
  | Mutex_waiting_queue_node u32
  | Peer_processes_node u32
  | All_processes_node u32
  | Va_node u32

datatype mutex_id =
    Malloc_mutex
  | Blocked_queue_lock
  | Runnable_queue_lock
  | Deschedule_lock
  | Process_queue_lock
  | Print_lock
  | Tcb_mutex u32

text \<open>\<open>Local_copy\<close> is a header copied into a local variable, as \<open>list threads = pcb->threads\<close>.\<close>

datatype list_id =
    Runnable_queue
  | Blocked_queue
  | Process_queue
  | Threads u32
  | Children u32
  | Va u32
  | Waiting_queue mutex_id
  | Local_copy

record mutex_t =
  m_status :: int
  m_tid :: int

record kcore =
  lh :: "(list_id, node_id) lheap"
  tcbs :: "u32 \<Rightarrow> TCB"
  pcbs :: "u32 \<Rightarrow> PCB"
  vas :: "u32 \<Rightarrow> va_info"
  mutexes :: "mutex_id \<Rightarrow> mutex_t"
  current_thread :: u32
  next_tid :: u32
  next_pid :: u32
  numTicks :: u32
  interrupts :: bool
  esp0 :: u32
  cr3 :: u32
  user_mode :: "ureg option"

section \<open>Access\<close>

definition get_tcb :: "u32 \<Rightarrow> ('a kcore_scheme, TCB) kop" where
  "get_tcb t s = (if t = 0 then Inl Null_Deref else Inr (tcbs s t, s))"

definition set_tcb :: "u32 \<Rightarrow> (TCB \<Rightarrow> TCB) \<Rightarrow> ('a kcore_scheme, unit) kop" where
  "set_tcb t f s = (if t = 0 then Inl Null_Deref else Inr ((), s\<lparr>tcbs := (tcbs s)(t := f (tcbs s t))\<rparr>))"

definition get_pcb :: "u32 \<Rightarrow> ('a kcore_scheme, PCB) kop" where
  "get_pcb p s = (if p = 0 then Inl Null_Deref else Inr (pcbs s p, s))"

definition set_pcb :: "u32 \<Rightarrow> (PCB \<Rightarrow> PCB) \<Rightarrow> ('a kcore_scheme, unit) kop" where
  "set_pcb p f s = (if p = 0 then Inl Null_Deref else Inr ((), s\<lparr>pcbs := (pcbs s)(p := f (pcbs s p))\<rparr>))"

definition insert_last :: "list_id \<Rightarrow> node_id \<Rightarrow> ('a kcore_scheme, unit) kop" where
  "insert_last l n = modifyK (\<lambda>s. s\<lparr>lh := list_insert_last (lh s) (Some l) (Some n)\<rparr>)"

definition delete_node :: "list_id \<Rightarrow> node_id \<Rightarrow> ('a kcore_scheme, unit) kop" where
  "delete_node l n = modifyK (\<lambda>s. s\<lparr>lh := fst (list_delete (lh s) (Some l) (Some n))\<rparr>)"

definition init_list :: "list_id \<Rightarrow> ('a kcore_scheme, unit) kop" where
  "init_list l = modifyK (\<lambda>s. s\<lparr>lh := list_init (lh s) (Some l)\<rparr>)"

definition copy_header :: "list_id \<Rightarrow> ('a kcore_scheme, unit) kop" where
  "copy_header l = modifyK (\<lambda>s. s\<lparr>lh := (lh s)\<lparr>headers := (headers (lh s))(Local_copy := headers (lh s) l)\<rparr>\<rparr>)"

text \<open>\<open>list_entry(n, TCB, thread_list_node)\<close> and its relatives.\<close>

definition entry_thread :: "node_id option \<Rightarrow> fault + u32" where
  "entry_thread n = (case n of Some (Thread_list_node t) \<Rightarrow> Inr t | None \<Rightarrow> Inl Null_Deref | _ \<Rightarrow> Inl Bad_Entry)"

definition entry_peer :: "node_id option \<Rightarrow> fault + u32" where
  "entry_peer n = (case n of Some (Peer_threads_node t) \<Rightarrow> Inr t | None \<Rightarrow> Inl Null_Deref | _ \<Rightarrow> Inl Bad_Entry)"

definition entry_waiter :: "node_id option \<Rightarrow> fault + u32" where
  "entry_waiter n = (case n of Some (Mutex_waiting_queue_node t) \<Rightarrow> Inr t | None \<Rightarrow> Inl Null_Deref | _ \<Rightarrow> Inl Bad_Entry)"

definition entry_process :: "node_id option \<Rightarrow> fault + u32" where
  "entry_process n = (case n of Some (Peer_processes_node p) \<Rightarrow> Inr p | None \<Rightarrow> Inl Null_Deref | _ \<Rightarrow> Inl Bad_Entry)"

definition entry_va :: "node_id option \<Rightarrow> fault + u32" where
  "entry_va n = (case n of Some (Va_node v) \<Rightarrow> Inr v | None \<Rightarrow> Inl Null_Deref | _ \<Rightarrow> Inl Bad_Entry)"

lemmas entry_defs = entry_thread_def entry_peer_def entry_waiter_def entry_process_def entry_va_def

definition liftF :: "fault + 'b \<Rightarrow> ('st, 'b) kop" where
  "liftF r s = (case r of Inl e \<Rightarrow> Inl e | Inr a \<Rightarrow> Inr (a, s))"

text \<open>The loop \<open>for (n = list_begin(l); n != NULL; n = n->next)\<close> that looks for the first
  structure with a property and does not change the lists.\<close>

partial_function (option) find_entry ::
  "(node_id option \<Rightarrow> fault + u32) \<Rightarrow> (u32 \<Rightarrow> bool) \<Rightarrow> (list_id, node_id) lheap \<Rightarrow> node_id option
   \<Rightarrow> (fault + u32 option) option" where
  "find_entry entry P h n =
     (if n = None then Some (Inr None)
      else case entry n of
             Inl e \<Rightarrow> Some (Inl e)
           | Inr x \<Rightarrow> if x = 0 then Some (Inl Null_Deref)
                      else if P x then Some (Inr (Some x))
                      else find_entry entry P h (next_n (nodes h (the n))))"

definition search :: "(node_id option \<Rightarrow> fault + u32) \<Rightarrow> list_id \<Rightarrow> ('a kcore_scheme \<Rightarrow> u32 \<Rightarrow> bool)
    \<Rightarrow> ('a kcore_scheme, u32 option) kop" where
  "search entry l P s =
     (case find_entry entry (P s) (lh s) (list_begin (lh s) l) of
        None \<Rightarrow> Inl Diverges
      | Some (Inl e) \<Rightarrow> Inl e
      | Some (Inr r) \<Rightarrow> Inr (r, s))"

text \<open>A state with no threads, all lists empty and all mutexes free, as the kernel's zeroed
  variables give it.\<close>

definition empty_ureg :: ureg where
  "empty_ureg = \<lparr>r_cause = 0, r_cr2 = 0, r_ds = 0, r_es = 0, r_fs = 0, r_gs = 0, r_edi = 0, r_esi = 0,
     r_ebp = 0, r_zero = 0, r_ebx = 0, r_edx = 0, r_ecx = 0, r_eax = 0, r_error_code = 0, r_eip = 0,
     r_cs = 0, r_eflags = 0, r_esp = 0, r_ss = 0\<rparr>"

definition empty_swexninfo :: swexninfo where
  "empty_swexninfo = \<lparr>i_esp3 = 0, i_eip = 0, i_arg = 0, i_newureg = 0, i_installed_flag = 0, i_eflags = 0\<rparr>"

definition empty_tcb :: TCB where
  "empty_tcb = \<lparr>t_esp = 0, t_pcb = 0, t_tid = 0, t_state = 0, t_start_ticks = 0, t_duration = 0,
     t_stack_base = 0, t_stack_size = 0, t_registers = empty_ureg, t_swexn_info = empty_swexninfo\<rparr>"

definition empty_pcb :: PCB where
  "empty_pcb = \<lparr>p_pid = 0, p_state = 0, p_return_state = 0, p_parent = 0, p_PD = 0, p_children_count = 0\<rparr>"

definition empty_core :: kcore where
  "empty_core = \<lparr>lh = empty_lheap, tcbs = (\<lambda>_. empty_tcb), pcbs = (\<lambda>_. empty_pcb),
     vas = (\<lambda>_. \<lparr>v_virtual_addr = 0, v_len = 0\<rparr>), mutexes = (\<lambda>_. \<lparr>m_status = 0, m_tid = 0\<rparr>),
     current_thread = 0, next_tid = 0, next_pid = 0, numTicks = 0, interrupts = False, esp0 = 0,
     cr3 = 0, user_mode = None\<rparr>"

section \<open>Facts about access and search\<close>

lemma get_tcb_ok [simp]: "t \<noteq> 0 \<Longrightarrow> get_tcb t s = Inr (tcbs s t, s)"
  by (simp add: get_tcb_def)

lemma set_tcb_ok [simp]: "t \<noteq> 0 \<Longrightarrow> set_tcb t f s = Inr ((), s\<lparr>tcbs := (tcbs s)(t := f (tcbs s t))\<rparr>)"
  by (simp add: set_tcb_def)

lemma get_pcb_ok [simp]: "p \<noteq> 0 \<Longrightarrow> get_pcb p s = Inr (pcbs s p, s)"
  by (simp add: get_pcb_def)

lemma set_pcb_ok [simp]: "p \<noteq> 0 \<Longrightarrow> set_pcb p f s = Inr ((), s\<lparr>pcbs := (pcbs s)(p := f (pcbs s p))\<rparr>)"
  by (simp add: set_pcb_def)

lemma liftF_simps [simp]: "liftF (Inl e) s = Inl e" "liftF (Inr a) s = Inr (a, s)"
  by (simp_all add: liftF_def)

lemma entry_thread_simps [simp]:
  "entry_thread (Some (Thread_list_node t)) = Inr t" "entry_thread None = Inl Null_Deref"
  by (simp_all add: entry_thread_def)

lemma entry_peer_simps [simp]:
  "entry_peer (Some (Peer_threads_node t)) = Inr t" "entry_peer None = Inl Null_Deref"
  by (simp_all add: entry_peer_def)

lemma entry_process_simps [simp]:
  "entry_process (Some (Peer_processes_node t)) = Inr t" "entry_process None = Inl Null_Deref"
  by (simp_all add: entry_process_def)

lemma entry_va_simps [simp]:
  "entry_va (Some (Va_node t)) = Inr t" "entry_va None = Inl Null_Deref"
  by (simp_all add: entry_va_def)

lemma chain_find_entry:
  assumes "\<And>x. entry (Some (N x)) = Inr x"
  shows "chain (nodes h) p (map N ts) None \<Longrightarrow> 0 \<notin> set ts
    \<Longrightarrow> find_entry entry P h (hd_opt (map N ts) None) = Some (Inr (List.find P ts))"
proof (induction ts arbitrary: p)
  case Nil
  then show ?case by (simp add: find_entry.simps)
next
  case (Cons t ts)
  then show ?case using assms by (subst find_entry.simps) auto
qed

lemma search_found:
  assumes e: "\<And>x. entry (Some (N x)) = Inr x" and l: "is_list (lh s) l (map N ts)" and nz: "0 \<notin> set ts"
  shows "search entry l P s = Inr (List.find (P s) ts, s)"
proof -
  have "find_entry entry (P s) (lh s) (list_begin (lh s) l) = Some (Inr (List.find (P s) ts))"
    using chain_find_entry[OF e, of "lh s" None ts "P s"] l nz
    by (simp add: is_list_def list_begin_def)
  then show ?thesis by (simp add: search_def)
qed

lemmas search_threads = search_found[where entry = entry_thread and N = Thread_list_node, OF entry_thread_simps(1)]
lemmas search_peers = search_found[where entry = entry_peer and N = Peer_threads_node, OF entry_peer_simps(1)]
lemmas search_children = search_found[where entry = entry_process and N = Peer_processes_node, OF entry_process_simps(1)]
lemmas search_vas = search_found[where entry = entry_va and N = Va_node, OF entry_va_simps(1)]

end
