(* ===== verification/Mutex.thy ===== *)
theory Mutex
  imports Kernel_Core
begin

text \<open>
  The kernel mutex, \<open>kern/locks/mutex.c\<close>, as operations on the kernel state, which is what one thread sees:
  \<open>mutex_lock\<close> either takes a free mutex or cannot go on before another thread runs (\<open>Would_Block\<close>).
  The same functions under preemption are in \<open>Mutex_Steps\<close>.

  At boot the mutex of the allocator is taken before the first thread exists; \<open>current_thread\<close>
  is then NULL, address 0 is mapped memory in this kernel, and the owner read there is only
  printed, so \<open>mutex_lock\<close> reads the control block at 0 without a fault.
\<close>

section \<open>Operations\<close>

definition MUTEX_LOCKED :: int where "MUTEX_LOCKED = 1"
definition MUTEX_UNLOCKED :: int where "MUTEX_UNLOCKED = 0"
definition MUTEX_UNAVAILABLE :: int where "MUTEX_UNAVAILABLE = -1"

lemmas mutex_consts = MUTEX_LOCKED_def MUTEX_UNLOCKED_def MUTEX_UNAVAILABLE_def

definition set_mutex :: "mutex_id \<Rightarrow> mutex_t \<Rightarrow> ('a kcore_scheme, unit) kop" where
  "set_mutex m v = modifyK (\<lambda>s. s\<lparr>mutexes := (mutexes s)(m := v)\<rparr>)"

definition mutex_init :: "mutex_id \<Rightarrow> ('a kcore_scheme, int) kop" where
  "mutex_init m =
     bindK (set_mutex m \<lparr>m_status = MUTEX_UNLOCKED, m_tid = -1\<rparr>) (\<lambda>_.
     bindK (init_list (Waiting_queue m)) (\<lambda>_. returnK 0))"

definition mutex_destroy :: "mutex_id \<Rightarrow> ('a kcore_scheme, unit) kop" where
  "mutex_destroy m s =
     (if m_status (mutexes s m) = MUTEX_LOCKED \<or> length_l (headers (lh s) (Waiting_queue m)) \<noteq> 0
      then Inr ((), s)
      else set_mutex m ((mutexes s m)\<lparr>m_status := MUTEX_UNAVAILABLE\<rparr>) s)"

definition mutex_lock :: "mutex_id \<Rightarrow> ('a kcore_scheme, unit) kop" where
  "mutex_lock m s =
     (if m_status (mutexes s m) \<noteq> 0 then Inl Would_Block
      else set_mutex m \<lparr>m_status = 1, m_tid = t_tid (tcbs s (current_thread s))\<rparr> s)"

text \<open>With a waiter the code goes to the second node of the queue, and it calls the trap wrapper
  \<open>yield\<close>, which ends in \<open>iret\<close>.\<close>

definition mutex_unlock :: "mutex_id \<Rightarrow> ('a kcore_scheme, unit) kop" where
  "mutex_unlock m s =
     (if length_l (headers (lh s) (Waiting_queue m)) \<noteq> 0
      then case list_begin (lh s) (Waiting_queue m) of
             None \<Rightarrow> Inl Null_Deref
           | Some n \<Rightarrow> (case entry_waiter (next_n (nodes (lh s) n)) of Inl e \<Rightarrow> Inl e | Inr target \<Rightarrow> Inl Bad_Call)
      else set_mutex m \<lparr>m_status = MUTEX_UNLOCKED, m_tid = -1\<rparr> s)"

text \<open>A mutex that is free and that no thread waits for.\<close>

definition quiet :: "mutex_id \<Rightarrow> 'a kcore_scheme \<Rightarrow> bool" where
  "quiet m s \<longleftrightarrow> m_status (mutexes s m) = 0 \<and> length_l (headers (lh s) (Waiting_queue m)) = 0"

definition released :: "mutex_id \<Rightarrow> 'a kcore_scheme \<Rightarrow> 'a kcore_scheme" where
  "released m s = s\<lparr>mutexes := (mutexes s)(m := \<lparr>m_status = 0, m_tid = -1\<rparr>)\<rparr>"

definition held :: "mutex_id \<Rightarrow> 'a kcore_scheme \<Rightarrow> 'a kcore_scheme" where
  "held m s = s\<lparr>mutexes := (mutexes s)(m := \<lparr>m_status = 1, m_tid = t_tid (tcbs s (current_thread s))\<rparr>)\<rparr>"

lemma mutex_lock_quiet [simp]: "m_status (mutexes s m) = 0 \<Longrightarrow> mutex_lock m s = Inr ((), held m s)"
  by (simp add: mutex_lock_def set_mutex_def held_def)

lemma mutex_unlock_quiet [simp]:
  "length_l (headers (lh s) (Waiting_queue m)) = 0 \<Longrightarrow> mutex_unlock m s = Inr ((), released m s)"
  by (simp add: mutex_unlock_def set_mutex_def released_def MUTEX_UNLOCKED_def)

lemma held_frame [simp]:
  "lh (held m s) = lh s" "tcbs (held m s) = tcbs s" "pcbs (held m s) = pcbs s"
  "current_thread (held m s) = current_thread s" "numTicks (held m s) = numTicks s"
  by (simp_all add: held_def)

lemma released_frame [simp]:
  "lh (released m s) = lh s" "tcbs (released m s) = tcbs s" "pcbs (released m s) = pcbs s"
  "current_thread (released m s) = current_thread s" "numTicks (released m s) = numTicks s"
  by (simp_all add: released_def)

text \<open>Reading under a lock: taking and releasing a quiet mutex around a search leaves everything
  but the mutex as it was.\<close>

lemma released_held [simp]: "released m (held m s) = released m s"
  by (simp add: released_def held_def)

section \<open>Properties\<close>

text \<open>C40: handing over is broken: a thread that unlocks a mutex somebody waits for never
  leaves \<open>mutex_unlock\<close>. With one waiter the second queue node is NULL, with more the trap wrapper
  \<open>yield\<close> is called as a function.\<close>

theorem mutex_unlock_with_waiter_fails:
  assumes "is_list (lh s) (Waiting_queue m) (map Mutex_waiting_queue_node (t # ts))"
  shows "mutex_unlock m s = Inl (if ts = [] then Null_Deref else Bad_Call)"
  using assms by (cases ts) (auto simp: mutex_unlock_def is_list_def list_begin_def entry_waiter_def)

theorem mutex_unlock_with_waiter_fails_witness:
  "mutex_unlock Print_lock (empty_core\<lparr>lh := list_insert_last empty_lheap
      (Some (Waiting_queue Print_lock)) (Some (Mutex_waiting_queue_node 8))\<rparr>) = Inl Null_Deref"
  (is "mutex_unlock _ ?s = _")
proof -
  have "is_list (lh ?s) (Waiting_queue Print_lock) (map Mutex_waiting_queue_node [8])"
    using insert_last_refines[of empty_lheap "Waiting_queue Print_lock" "[]" "Mutex_waiting_queue_node 8"]
    by simp
  from mutex_unlock_with_waiter_fails[OF this] show ?thesis by auto
qed

end
