(* ===== verification/Scheduler.thy ===== *)
theory Scheduler
  imports Mutex
begin

text \<open>
  The tick counter of \<open>kern/hardware/timer.c\<close> and the scheduler of \<open>kern/process/scheduler.c\<close>.
  \<open>do_switch\<close> saves the stack pointer of the caller and continues on the stack of the next
  thread: a thread that ran before returns from its own call of \<open>context_switch\<close>, which yields
  that thread itself, and a new one goes through \<open>prepare_init_thread\<close>. A run of \<open>schedule\<close> in the
  model therefore starts in the current thread and ends where the next one goes on; what the
  caller does after \<open>schedule\<close> is done when it is the current thread again. The saved kernel
  stack pointers are not modelled.
\<close>

section \<open>Operations\<close>

definition sys_get_ticks :: "('a kcore_scheme, u32) kop" where
  "sys_get_ticks = readK numTicks"

definition SCHEDULE_INTERVAL :: u32 where "SCHEDULE_INTERVAL = 30"

text \<open>The loop over the blocked queue that wakes sleepers. It goes on from \<open>n->next\<close>, read after
  \<open>n\<close> may have been moved to the end of the runnable queue.\<close>

definition wake_due :: "u32 \<Rightarrow> 'a kcore_scheme \<Rightarrow> bool" where
  "wake_due t s \<longleftrightarrow> t_state (tcbs s t) = THREAD_SLEEPING
     \<and> t_start_ticks (tcbs s t) + t_duration (tcbs s t) < numTicks s"

definition wake_thread :: "u32 \<Rightarrow> 'a kcore_scheme \<Rightarrow> 'a kcore_scheme" where
  "wake_thread t s =
     s\<lparr>tcbs := (tcbs s)(t := (tcbs s t)\<lparr>t_state := THREAD_RUNNABLE\<rparr>),
       lh := list_insert_last (fst (list_delete (lh s) (Some Blocked_queue) (Some (Thread_list_node t))))
               (Some Runnable_queue) (Some (Thread_list_node t))\<rparr>"

partial_function (option) wake_loop ::
  "node_id option \<Rightarrow> 'a kcore_scheme \<Rightarrow> (fault + (unit \<times> 'a kcore_scheme)) option" where
  "wake_loop n s =
     (if n = None then Some (Inr ((), s))
      else case entry_thread n of
             Inl e \<Rightarrow> Some (Inl e)
           | Inr t \<Rightarrow>
               let s' = (if wake_due t s then wake_thread t s else s)
               in wake_loop (next_n (nodes (lh s') (the n))) s')"

definition wake_sleepers :: "('a kcore_scheme, unit) kop" where
  "wake_sleepers s =
     (case wake_loop (list_begin (lh s) Blocked_queue) s of None \<Rightarrow> Inl Diverges | Some r \<Rightarrow> r)"

definition list_search_tid :: "list_id \<Rightarrow> int \<Rightarrow> ('a kcore_scheme, u32 option) kop" where
  "list_search_tid l tid = search entry_thread l (\<lambda>s t. t_tid (tcbs s t) = tid)"

definition prepare_init_thread :: "u32 \<Rightarrow> ('a kcore_scheme, unit) kop" where
  "prepare_init_thread nxt =
     bindK (set_tcb nxt (\<lambda>t. t\<lparr>t_state := THREAD_RUNNING\<rparr>)) (\<lambda>_.
     bindK (get_tcb nxt) (\<lambda>t.
     modifyK (\<lambda>s. s\<lparr>current_thread := nxt, interrupts := True, user_mode := Some (t_registers t)\<rparr>)))"

definition context_switch :: "u32 \<Rightarrow> ('a kcore_scheme, unit) kop" where
  "context_switch nxt =
     bindK (get_tcb nxt) (\<lambda>t.
     bindK (get_pcb (t_pcb t)) (\<lambda>p.
     bindK (modifyK (\<lambda>s. s\<lparr>cr3 := p_PD p, esp0 := t_stack_base t + t_stack_size t\<rparr>)) (\<lambda>_.
     if t_state t = THREAD_INIT then prepare_init_thread nxt
     else modifyK (\<lambda>s. s\<lparr>current_thread := nxt\<rparr>))))"

text \<open>The thread to run next: the first of the runnable queue, or the one asked for.\<close>

definition pick_next :: "int \<Rightarrow> ('a kcore_scheme, u32) kop" where
  "pick_next tid =
     (if tid = -1
      then bindK (readK (\<lambda>s. head_l (headers (lh s) Runnable_queue))) (\<lambda>n.
           bindK (modifyK (\<lambda>s. s\<lparr>lh := fst (list_delete_first (lh s) Runnable_queue)\<rparr>)) (\<lambda>_.
           liftF (entry_thread n)))
      else bindK (list_search_tid Runnable_queue tid) (\<lambda>r.
           case r of
             None \<Rightarrow> failK Null_Deref
           | Some t \<Rightarrow> bindK (delete_node Runnable_queue (Thread_list_node t)) (\<lambda>_. returnK t)))"

definition requeue_current :: "('a kcore_scheme, unit) kop" where
  "requeue_current =
     bindK (readK current_thread) (\<lambda>me.
     bindK (get_tcb me) (\<lambda>t.
       if t_state t = THREAD_EXIT then returnK ()
       else if t_state t = THREAD_BLOCKED
       then bindK (insert_last Blocked_queue (Thread_list_node me)) (\<lambda>_. mutex_unlock Deschedule_lock)
       else if t_state t = THREAD_WAITING \<or> t_state t = THREAD_READLINE \<or> t_state t = THREAD_SLEEPING
       then insert_last Blocked_queue (Thread_list_node me)
       else insert_last Runnable_queue (Thread_list_node me)))"

definition schedule :: "int \<Rightarrow> ('a kcore_scheme, unit) kop" where
  "schedule tid =
     bindK (modifyK (\<lambda>s. s\<lparr>interrupts := False\<rparr>)) (\<lambda>_.
     bindK wake_sleepers (\<lambda>_.
     bindK (readK current_thread) (\<lambda>me.
     bindK (get_tcb me) (\<lambda>cur.
     bindK (readK (\<lambda>s. length_l (headers (lh s) Runnable_queue))) (\<lambda>len.
       if t_tid cur = 1 \<and> len = 0 then returnK ()
       else
         bindK (pick_next tid) (\<lambda>nxt.
         bindK (get_tcb nxt) (\<lambda>_.
         bindK requeue_current (\<lambda>_.
         bindK (context_switch nxt) (\<lambda>_.
         modifyK (\<lambda>s. s\<lparr>interrupts := True\<rparr>))))))))))"

definition tick :: "u32 \<Rightarrow> ('a kcore_scheme, unit) kop" where
  "tick ticks = (if ticks mod SCHEDULE_INTERVAL = 0 then schedule (-1) else returnK ())"

section \<open>The queues as sequences\<close>

definition queues :: "u32 list \<Rightarrow> u32 list \<Rightarrow> list_id \<Rightarrow> node_id list" where
  "queues rs bs l = (case l of Runnable_queue \<Rightarrow> map Thread_list_node rs
     | Blocked_queue \<Rightarrow> map Thread_list_node bs | _ \<Rightarrow> [])"

abbreviation sched_lists :: "list_id set" where
  "sched_lists \<equiv> {Runnable_queue, Blocked_queue}"

definition sched_inv :: "'a kcore_scheme \<Rightarrow> u32 list \<Rightarrow> u32 list \<Rightarrow> bool" where
  "sched_inv s rs bs \<longleftrightarrow>
     owns (lh s) sched_lists (queues rs bs) \<and> distinct (rs @ bs)
     \<and> current_thread s \<notin> set (rs @ bs) \<and> 0 \<notin> set (current_thread s # rs @ bs)
     \<and> (\<forall>t\<in>set (current_thread s # rs @ bs). t_pcb (tcbs s t) \<noteq> 0)"

lemma queues_simps [simp]:
  "queues rs bs Runnable_queue = map Thread_list_node rs"
  "queues rs bs Blocked_queue = map Thread_list_node bs"
  by (simp_all add: queues_def)

lemma queues_upd [simp]:
  "(queues rs bs)(Runnable_queue := map Thread_list_node rs') = queues rs' bs"
  "(queues rs bs)(Blocked_queue := map Thread_list_node bs') = queues rs bs'"
  "(queues rs bs)(Runnable_queue := []) = queues [] bs"
  "(queues rs bs)(Blocked_queue := []) = queues rs []"
  by (auto simp: queues_def fun_eq_iff split: list_id.splits)

lemma node_inj [simp]: "inj Thread_list_node"
  by (rule injI) simp

lemma remove1_nodes: "remove1 (Thread_list_node t) (map Thread_list_node ts) = map Thread_list_node (remove1 t ts)"
  by (induction ts) auto

lemma snoc_nodes: "map Thread_list_node ts @ [Thread_list_node t] = map Thread_list_node (ts @ [t])"
  by simp

lemmas node_maps = remove1_nodes snoc_nodes

lemma own_insert_runnable:
  assumes "owns h sched_lists (queues rs bs)" "t \<notin> set (rs @ bs)"
  shows "owns (list_insert_last h (Some Runnable_queue) (Some (Thread_list_node t))) sched_lists (queues (rs @ [t]) bs)"
proof -
  have "\<forall>k\<in>sched_lists. Thread_list_node t \<notin> set (queues rs bs k)" using assms(2) by auto
  from kl.own_ins[OF assms(1) _ this, of Runnable_queue] show ?thesis by (simp add: snoc_nodes del: map_append)
qed

lemma own_insert_blocked:
  assumes "owns h sched_lists (queues rs bs)" "t \<notin> set (rs @ bs)"
  shows "owns (list_insert_last h (Some Blocked_queue) (Some (Thread_list_node t))) sched_lists (queues rs (bs @ [t]))"
proof -
  have "\<forall>k\<in>sched_lists. Thread_list_node t \<notin> set (queues rs bs k)" using assms(2) by auto
  from kl.own_ins[OF assms(1) _ this, of Blocked_queue] show ?thesis by (simp add: snoc_nodes del: map_append)
qed

lemma own_delete_runnable:
  assumes "owns h sched_lists (queues rs bs)" "t \<in> set rs"
  shows "owns (fst (list_delete h (Some Runnable_queue) (Some (Thread_list_node t)))) sched_lists (queues (remove1 t rs) bs)"
  using kl.own_del[OF assms(1), of Runnable_queue "Thread_list_node t"] assms(2) by (simp add: remove1_nodes)

lemma own_delete_blocked:
  assumes "owns h sched_lists (queues rs bs)" "t \<in> set bs"
  shows "owns (fst (list_delete h (Some Blocked_queue) (Some (Thread_list_node t)))) sched_lists (queues rs (remove1 t bs))"
  using kl.own_del[OF assms(1), of Blocked_queue "Thread_list_node t"] assms(2) by (simp add: remove1_nodes)

text \<open>Other headers are not touched.\<close>

lemma insert_last_header [simp]: "l' \<noteq> l \<Longrightarrow> headers (list_insert_last h (Some l) (Some n)) l' = headers h l'"
  by (auto simp: list_insert_last_def store_defs split: option.splits)

lemma delete_header [simp]: "l' \<noteq> l \<Longrightarrow> headers (fst (list_delete h (Some l) (Some n))) l' = headers h l'"
  by (auto simp: list_delete_def delete_right_def store_defs split: option.splits)

section \<open>Waking sleepers\<close>

text \<open>What one pass of the loop does to the two sequences: only the first due sleeper is moved.\<close>

definition woken :: "'a kcore_scheme \<Rightarrow> u32 list \<Rightarrow> u32 option" where
  "woken s bs = List.find (\<lambda>t. wake_due t s) bs"

lemma wake_loop_None [simp]: "wake_loop None s = Some (Inr ((), s))"
  by (simp add: wake_loop.simps)

lemma wake_loop_Some:
  "wake_loop (Some (Thread_list_node t)) s =
     (let s' = (if wake_due t s then wake_thread t s else s)
      in wake_loop (next_n (nodes (lh s') (Thread_list_node t))) s')"
  by (subst wake_loop.simps) (simp add: Let_def)

lemma wake_thread_frame [simp]:
  "current_thread (wake_thread t s) = current_thread s" "pcbs (wake_thread t s) = pcbs s"
  "numTicks (wake_thread t s) = numTicks s" "mutexes (wake_thread t s) = mutexes s"
  "interrupts (wake_thread t s) = interrupts s"
  by (simp_all add: wake_thread_def)

lemma wake_thread_inv:
  assumes "sched_inv s rs bs" "t \<in> set bs"
  shows "sched_inv (wake_thread t s) (rs @ [t]) (remove1 t bs)"
proof -
  have d: "distinct (rs @ bs)" using assms by (simp add: sched_inv_def)
  have "owns (fst (list_delete (lh s) (Some Blocked_queue) (Some (Thread_list_node t)))) sched_lists (queues rs (remove1 t bs))"
    using assms by (intro own_delete_blocked) (simp_all add: sched_inv_def)
  moreover have "t \<notin> set (rs @ remove1 t bs)" using d assms(2) by auto
  ultimately have "owns (lh (wake_thread t s)) sched_lists (queues (rs @ [t]) (remove1 t bs))"
    by (simp add: wake_thread_def own_insert_runnable)
  then show ?thesis
    using assms d set_remove1_subset[of t bs] by (auto simp: sched_inv_def wake_thread_def)
qed

lemma last_next_None:
  "is_list h l (ns @ [n]) \<Longrightarrow> next_n (nodes h n) = None"
  by (simp add: is_list_def)

lemma wake_loop_spec:
  assumes inv: "sched_inv s rs bs"
  shows "bs = us @ vs \<Longrightarrow> (\<forall>t\<in>set us. \<not> wake_due t s) \<Longrightarrow>
    wake_loop (hd_opt (map Thread_list_node vs) None) s =
      Some (Inr ((), case woken s bs of None \<Rightarrow> s | Some t \<Rightarrow> wake_thread t s))"
proof (induction vs arbitrary: us)
  case Nil
  then have "woken s bs = None" by (simp add: woken_def find_None_iff)
  then show ?case by simp
next
  case (Cons t vs)
  have lists: "is_list (lh s) Blocked_queue (map Thread_list_node bs)"
    using inv by (auto simp: sched_inv_def own_by_def)
  show ?case
  proof (cases "wake_due t s")
    case True
    then have w: "woken s bs = Some t"
      using Cons.prems by (auto simp: woken_def find_Some_iff nth_append)
    have "t \<in> set bs" using Cons.prems by simp
    from wake_thread_inv[OF inv this]
    have "is_list (lh (wake_thread t s)) Runnable_queue (map Thread_list_node rs @ [Thread_list_node t])"
      by (auto simp: sched_inv_def own_by_def)
    from last_next_None[OF this] show ?thesis
      using True w by (simp add: wake_loop_Some Let_def)
  next
    case False
    have "next_n (nodes (lh s) (Thread_list_node t)) = hd_opt (map Thread_list_node vs) None"
      using lists Cons.prems(1) by (simp add: is_list_def)
    then show ?thesis
      using False Cons.IH[of "us @ [t]"] Cons.prems by (simp add: wake_loop_Some Let_def)
  qed
qed

lemma wake_sleepers_spec:
  assumes "sched_inv s rs bs"
  shows "wake_sleepers s = Inr ((), case woken s bs of None \<Rightarrow> s | Some t \<Rightarrow> wake_thread t s)"
proof -
  have "list_begin (lh s) Blocked_queue = hd_opt (map Thread_list_node bs) None"
    using assms owns_begin[of "lh s" sched_lists "queues rs bs" Blocked_queue] by (simp add: sched_inv_def)
  then show ?thesis using wake_loop_spec[OF assms, of "[]" bs] by (simp add: wake_sleepers_def)
qed

lemma woken_in: "woken s bs = Some t \<Longrightarrow> t \<in> set bs \<and> wake_due t s"
  by (auto simp: woken_def find_Some_iff)

definition after_wake :: "'a kcore_scheme \<Rightarrow> u32 list \<Rightarrow> u32 list \<Rightarrow> u32 list \<times> u32 list" where
  "after_wake s rs bs = (case woken s bs of None \<Rightarrow> (rs, bs) | Some t \<Rightarrow> (rs @ [t], remove1 t bs))"

lemma wake_sleepers_inv:
  assumes "sched_inv s rs bs"
  obtains s' where "wake_sleepers s = Inr ((), s')" "sched_inv s' (fst (after_wake s rs bs)) (snd (after_wake s rs bs))"
    "current_thread s' = current_thread s" "pcbs s' = pcbs s" "mutexes s' = mutexes s" "numTicks s' = numTicks s"
    "\<And>t. woken s bs \<noteq> Some t \<Longrightarrow> tcbs s' t = tcbs s t"
    "\<And>t. tcbs s' t = (tcbs s t)\<lparr>t_state := t_state (tcbs s' t)\<rparr>"
    "\<And>t. woken s bs = Some t \<Longrightarrow> t_state (tcbs s' t) = THREAD_RUNNABLE"
    "\<And>l. l \<notin> sched_lists \<Longrightarrow> headers (lh s') l = headers (lh s) l"
proof (cases "woken s bs")
  case None
  then show ?thesis using that[of s] wake_sleepers_spec[OF assms] assms by (simp add: after_wake_def)
next
  case (Some t)
  then show ?thesis
    using that[of "wake_thread t s"] wake_sleepers_spec[OF assms] wake_thread_inv[OF assms, of t] woken_in[OF Some]
    by (simp add: after_wake_def) (simp add: wake_thread_def)
qed

section \<open>Choosing and switching\<close>

definition requeue_seq :: "int \<Rightarrow> u32 \<Rightarrow> u32 list \<Rightarrow> u32 list \<Rightarrow> u32 list \<times> u32 list" where
  "requeue_seq st me rs bs =
     (if st = THREAD_EXIT then (rs, bs)
      else if st \<in> {THREAD_BLOCKED, THREAD_WAITING, THREAD_READLINE, THREAD_SLEEPING} then (rs, bs @ [me])
      else (rs @ [me], bs))"

definition pick_seq :: "int \<Rightarrow> 'a kcore_scheme \<Rightarrow> u32 list \<Rightarrow> u32 option" where
  "pick_seq tid s rs =
     (if tid = -1 then (case rs of [] \<Rightarrow> None | t # _ \<Rightarrow> Some t)
      else List.find (\<lambda>t. t_tid (tcbs s t) = tid) rs)"

lemma pick_seq_in: "pick_seq tid s rs = Some t \<Longrightarrow> t \<in> set rs"
  by (auto simp: pick_seq_def find_Some_iff split: if_splits list.splits)

lemma sched_lists_of:
  assumes "sched_inv s rs bs"
  shows "is_list (lh s) Runnable_queue (map Thread_list_node rs)" "is_list (lh s) Blocked_queue (map Thread_list_node bs)"
  using assms by (auto simp: sched_inv_def own_by_def)

lemma pick_next_spec:
  assumes inv: "sched_inv s rs bs" and p: "pick_seq tid s rs = Some nxt"
  shows "pick_next tid s = Inr (nxt, s\<lparr>lh := fst (list_delete (lh s) (Some Runnable_queue) (Some (Thread_list_node nxt)))\<rparr>)"
proof (cases "tid = -1")
  case True
  then obtain ts where "rs = nxt # ts" using p by (auto simp: pick_seq_def split: list.splits)
  then have "head_l (headers (lh s) Runnable_queue) = Some (Thread_list_node nxt)"
    using sched_lists_of(1)[OF inv] by (simp add: is_list_def)
  with True show ?thesis by (simp add: pick_next_def list_delete_first_def)
next
  case False
  have "search entry_thread Runnable_queue (\<lambda>s t. t_tid (tcbs s t) = tid) s = Inr (List.find (\<lambda>t. t_tid (tcbs s t) = tid) rs, s)"
    using sched_lists_of(1)[OF inv] inv by (intro search_threads) (auto simp: sched_inv_def)
  with False p show ?thesis by (simp add: pick_next_def list_search_tid_def pick_seq_def delete_node_def)
qed

definition unlocks :: "int \<Rightarrow> 'a kcore_scheme \<Rightarrow> 'a kcore_scheme" where
  "unlocks st s = (if st = THREAD_BLOCKED then released Deschedule_lock s else s)"

lemma requeue_current_spec:
  assumes own: "owns (lh s) sched_lists (queues rs bs)" and me: "current_thread s \<notin> set (rs @ bs)" "current_thread s \<noteq> 0"
    and w: "length_l (headers (lh s) (Waiting_queue Deschedule_lock)) = 0"
    and st: "st = t_state (tcbs s (current_thread s))"
  obtains h where "requeue_current s = Inr ((), unlocks st (s\<lparr>lh := h\<rparr>))"
    "owns h sched_lists (case_prod queues (requeue_seq st (current_thread s) rs bs))"
    "\<And>l. l \<notin> sched_lists \<Longrightarrow> headers h l = headers (lh s) l"
proof -
  let ?n = "Thread_list_node (current_thread s)"
  let ?b = "list_insert_last (lh s) (Some Blocked_queue) (Some ?n)"
  let ?r = "list_insert_last (lh s) (Some Runnable_queue) (Some ?n)"
  note ob = own_insert_blocked[OF own me(1)] and orr = own_insert_runnable[OF own me(1)]
  consider "st = THREAD_EXIT" | "st = THREAD_BLOCKED"
    | "st \<in> {THREAD_WAITING, THREAD_READLINE, THREAD_SLEEPING}"
    | "st \<notin> {THREAD_EXIT, THREAD_BLOCKED, THREAD_WAITING, THREAD_READLINE, THREAD_SLEEPING}" by blast
  then show ?thesis
  proof cases
    case 1
    then show ?thesis using that[of "lh s"] own me st
      by (simp add: requeue_current_def requeue_seq_def unlocks_def thread_states)
  next
    case 2
    then show ?thesis using that[of ?b] ob me st w
      by (simp add: requeue_current_def requeue_seq_def unlocks_def insert_last_def thread_states)
  next
    case 3
    then show ?thesis using that[of ?b] ob me st
      by (auto simp: requeue_current_def requeue_seq_def unlocks_def insert_last_def thread_states)
  next
    case 4
    then show ?thesis using that[of ?r] orr me st
      by (auto simp: requeue_current_def requeue_seq_def unlocks_def insert_last_def thread_states)
  qed
qed

definition started :: "u32 \<Rightarrow> 'a kcore_scheme \<Rightarrow> 'a kcore_scheme" where
  "started nxt s =
     (if t_state (tcbs s nxt) = THREAD_INIT
      then s\<lparr>tcbs := (tcbs s)(nxt := (tcbs s nxt)\<lparr>t_state := THREAD_RUNNING\<rparr>), interrupts := True,
             user_mode := Some (t_registers (tcbs s nxt))\<rparr>
      else s)"

lemma context_switch_spec:
  assumes "nxt \<noteq> 0" "t_pcb (tcbs s nxt) \<noteq> 0"
  shows "context_switch nxt s = Inr ((), (started nxt s)\<lparr>current_thread := nxt,
    cr3 := p_PD (pcbs s (t_pcb (tcbs s nxt))), esp0 := t_stack_base (tcbs s nxt) + t_stack_size (tcbs s nxt)\<rparr>)"
  using assms by (simp add: context_switch_def prepare_init_thread_def started_def)

text \<open>The scheduler on sequences: after the wake-up pass, the chosen thread leaves the runnable
  queue and the current one goes to the end of the queue its state asks for.\<close>

lemma schedule_spec:
  assumes inv: "sched_inv s rs bs" and w: "length_l (headers (lh s) (Waiting_queue Deschedule_lock)) = 0"
    and q1: "after_wake s rs bs = (rs1, bs1)"
    and p: "pick_seq tid s rs1 = Some nxt"
    and q2: "requeue_seq (t_state (tcbs s (current_thread s))) (current_thread s) (remove1 nxt rs1) bs1 = (rs2, bs2)"
  obtains s' where "schedule tid s = Inr ((), s')" "sched_inv s' rs2 bs2" "current_thread s' = nxt" "interrupts s'"
    "cr3 s' = p_PD (pcbs s (t_pcb (tcbs s nxt)))" "pcbs s' = pcbs s" "numTicks s' = numTicks s"
    "length_l (headers (lh s') (Waiting_queue Deschedule_lock)) = 0"
    "\<And>t. tcbs s' t = (tcbs s t)\<lparr>t_state := t_state (tcbs s' t)\<rparr>"
    "\<And>t. t_state (tcbs s' t) \<noteq> t_state (tcbs s t) \<Longrightarrow>
       (woken s bs = Some t \<and> t_state (tcbs s' t) = THREAD_RUNNABLE) \<or> (t = nxt \<and> t_state (tcbs s' t) = THREAD_RUNNING)"
    "\<And>t. woken s bs = Some t \<Longrightarrow> t_state (tcbs s' t) = THREAD_RUNNABLE"
    "mutexes s' = mutexes (unlocks (t_state (tcbs s (current_thread s))) s)"
    "\<And>l. l \<notin> sched_lists \<Longrightarrow> headers (lh s') l = headers (lh s) l"
proof -
  let ?me = "current_thread s" and ?s0 = "s\<lparr>interrupts := False\<rparr>"
  have inv0: "sched_inv ?s0 rs bs" using inv by (simp add: sched_inv_def)
  have wk: "woken ?s0 bs = woken s bs" by (simp add: woken_def wake_due_def)
  then have aw: "after_wake ?s0 rs bs = (rs1, bs1)" using q1 by (simp add: after_wake_def)
  obtain s1 where s1: "wake_sleepers ?s0 = Inr ((), s1)" "sched_inv s1 rs1 bs1" "current_thread s1 = ?me"
    "pcbs s1 = pcbs s" "mutexes s1 = mutexes s" "numTicks s1 = numTicks s"
    "\<And>t. woken s bs \<noteq> Some t \<Longrightarrow> tcbs s1 t = tcbs s t" "\<And>t. tcbs s1 t = (tcbs s t)\<lparr>t_state := t_state (tcbs s1 t)\<rparr>"
    "\<And>t. woken s bs = Some t \<Longrightarrow> t_state (tcbs s1 t) = THREAD_RUNNABLE"
    "\<And>l. l \<notin> sched_lists \<Longrightarrow> headers (lh s1) l = headers (lh s) l"
    using wake_sleepers_inv[OF inv0, unfolded aw wk fst_conv snd_conv] by (simp add: wk) metis
  have me0: "?me \<noteq> 0" "?me \<notin> set (rs1 @ bs1)" using s1(2,3) by (auto simp: sched_inv_def)
  have "woken s bs \<noteq> Some ?me" using woken_in[of s bs ?me] inv by (auto simp: sched_inv_def)
  then have tme: "tcbs s1 ?me = tcbs s ?me" using s1(7) by blast
  have tids: "t_tid (tcbs s1 t) = t_tid (tcbs s t)" for t using s1(8)[of t] by (metis TCB.select_convs(3) TCB.surjective TCB.update_convs(4))
  then have p1: "pick_seq tid s1 rs1 = Some nxt" using p by (simp add: pick_seq_def split: if_splits)
  have nin: "nxt \<in> set rs1" by (rule pick_seq_in[OF p])
  have nz: "nxt \<noteq> 0" "t_pcb (tcbs s1 nxt) \<noteq> 0" using s1(2) nin by (auto simp: sched_inv_def)
  have len: "length_l (headers (lh s1) Runnable_queue) \<noteq> 0"
    using sched_lists_of(1)[OF s1(2)] nin by (auto simp: is_list_def)
  define h2 where "h2 = fst (list_delete (lh s1) (Some Runnable_queue) (Some (Thread_list_node nxt)))"
  have own2: "owns h2 sched_lists (queues (remove1 nxt rs1) bs1)"
    unfolding h2_def using s1(2) nin by (intro own_delete_runnable) (simp_all add: sched_inv_def)
  let ?s2 = "s1\<lparr>lh := h2\<rparr>"
  have me2: "current_thread ?s2 \<notin> set (remove1 nxt rs1 @ bs1)" "current_thread ?s2 \<noteq> 0"
    using me0 set_remove1_subset[of nxt rs1] s1(3) by auto
  have w2: "length_l (headers (lh ?s2) (Waiting_queue Deschedule_lock)) = 0"
    using w s1(10)[of "Waiting_queue Deschedule_lock"] by (simp add: h2_def)
  have st2: "t_state (tcbs s ?me) = t_state (tcbs ?s2 (current_thread ?s2))" using tme s1(3) by simp
  obtain h3 where h3: "requeue_current ?s2 = Inr ((), unlocks (t_state (tcbs s ?me)) (?s2\<lparr>lh := h3\<rparr>))"
    "owns h3 sched_lists (queues rs2 bs2)" "\<And>l. l \<notin> sched_lists \<Longrightarrow> headers h3 l = headers (lh ?s2) l"
    using requeue_current_spec[OF _ me2 w2 st2] own2 q2 s1(3) by (auto split: prod.splits)
  define s3 where "s3 = unlocks (t_state (tcbs s ?me)) (?s2\<lparr>lh := h3\<rparr>)"
  have f3: "lh s3 = h3" "tcbs s3 = tcbs s1" "pcbs s3 = pcbs s" "numTicks s3 = numTicks s"
    using s1(4,6) by (auto simp: s3_def unlocks_def released_def)
  define s' where "s' = (started nxt s3)\<lparr>current_thread := nxt, cr3 := p_PD (pcbs s3 (t_pcb (tcbs s3 nxt))),
    esp0 := t_stack_base (tcbs s3 nxt) + t_stack_size (tcbs s3 nxt), interrupts := True\<rparr>"
  have run: "schedule tid s = Inr ((), s')"
    using s1(1,3) me0(1) len pick_next_spec[OF s1(2) p1] nz h3(1)[folded s3_def] f3 context_switch_spec[of nxt s3]
    by (simp add: schedule_def h2_def[symmetric] s'_def)
  have ts: "t_state (tcbs s' t) = (if t = nxt \<and> t_state (tcbs s1 nxt) = THREAD_INIT then THREAD_RUNNING else t_state (tcbs s1 t))" for t
    by (simp add: s'_def started_def f3)
  have tc: "tcbs s' t = (tcbs s1 t)\<lparr>t_state := t_state (tcbs s' t)\<rparr>" for t
    by (simp add: s'_def started_def f3)
  have tpcb: "t_pcb (tcbs s' t) = t_pcb (tcbs s1 t)" "t_pcb (tcbs s1 t) = t_pcb (tcbs s t)" for t
    using tc[of t] s1(8)[of t] by (metis TCB.select_convs(2) TCB.surjective TCB.update_convs(4))+
  show ?thesis
  proof (rule that[OF run])
    have "set (nxt # rs2 @ bs2) \<subseteq> set (?me # rs1 @ bs1)" "nxt \<notin> set (rs2 @ bs2)" "distinct (rs2 @ bs2)"
      using q2 nin s1(2,3) set_remove1_subset[of nxt rs1]
      by (auto simp: requeue_seq_def sched_inv_def split: if_splits)
    then show "sched_inv s' rs2 bs2"
      using h3(2) s1(2,3) tpcb by (auto simp: sched_inv_def s'_def started_def f3)
    show "length_l (headers (lh s') (Waiting_queue Deschedule_lock)) = 0"
      using h3(3)[of "Waiting_queue Deschedule_lock"] w2 by (simp add: s'_def started_def f3)
    show "mutexes s' = mutexes (unlocks (t_state (tcbs s ?me)) s)"
      using s1(5) by (simp add: s'_def started_def s3_def unlocks_def released_def)
    show "headers (lh s') l = headers (lh s) l" if "l \<notin> sched_lists" for l
      using h3(3)[OF that] s1(10)[OF that] that by (simp add: s'_def started_def f3 h2_def)
    show "tcbs s' t = (tcbs s t)\<lparr>t_state := t_state (tcbs s' t)\<rparr>" for t
      using tc[of t] s1(8)[of t] by (metis TCB.surjective TCB.update_convs(4))
    show "(woken s bs = Some t \<and> t_state (tcbs s' t) = THREAD_RUNNABLE) \<or> (t = nxt \<and> t_state (tcbs s' t) = THREAD_RUNNING)"
      if "t_state (tcbs s' t) \<noteq> t_state (tcbs s t)" for t
      using that ts[of t] s1(7)[of t] s1(9)[of t]
      by (cases "woken s bs = Some t") (simp_all add: thread_states split: if_splits)
    show "t_state (tcbs s' t) = THREAD_RUNNABLE" if "woken s bs = Some t" for t
      using ts[of t] s1(9)[OF that] by (auto simp: thread_states)
  qed (use tpcb f3 in \<open>simp_all add: s'_def started_def\<close>)
qed

section \<open>Running the scheduler again and again\<close>

definition ready_states :: "'a kcore_scheme \<Rightarrow> u32 list \<Rightarrow> bool" where
  "ready_states s ts \<longleftrightarrow> (\<forall>t\<in>set ts. t_state (tcbs s t) \<in> {THREAD_RUNNING, THREAD_RUNNABLE, THREAD_INIT})"

fun preempt :: "nat \<Rightarrow> ('a kcore_scheme, unit) kop" where
  "preempt 0 = returnK ()"
| "preempt (Suc n) = bindK (schedule (-1)) (\<lambda>_. preempt n)"

lemma after_wake_fst: "\<exists>xs. fst (after_wake s rs bs) = rs @ xs"
  by (auto simp: after_wake_def split: option.splits)

lemma preempt_step:
  assumes inv: "sched_inv s rs bs" and w: "length_l (headers (lh s) (Waiting_queue Deschedule_lock)) = 0"
    and ready: "ready_states s (current_thread s # rs)" and ne: "rs \<noteq> []"
  obtains s' xs bs' where "schedule (-1) s = Inr ((), s')" "current_thread s' = hd rs"
    "sched_inv s' (tl rs @ xs) bs'" "length_l (headers (lh s') (Waiting_queue Deschedule_lock)) = 0"
    "ready_states s' (current_thread s' # tl rs @ xs)"
proof -
  let ?me = "current_thread s"
  obtain rs1 bs1 where q1: "after_wake s rs bs = (rs1, bs1)" by force
  obtain xs where xs: "rs1 = rs @ xs" using after_wake_fst[of s rs bs] q1 by auto
  from ne obtain r rs0 where rs: "rs = r # rs0" by (cases rs) auto
  have p: "pick_seq (-1) s rs1 = Some r" by (simp add: pick_seq_def xs rs)
  have st: "t_state (tcbs s ?me) \<in> {THREAD_RUNNING, THREAD_RUNNABLE, THREAD_INIT}"
    using ready by (simp add: ready_states_def)
  then have q2: "requeue_seq (t_state (tcbs s ?me)) ?me (remove1 r rs1) bs1 = (rs0 @ xs @ [?me], bs1)"
    by (auto simp: requeue_seq_def xs rs thread_states)
  obtain s' where s': "schedule (-1) s = Inr ((), s')" "sched_inv s' (rs0 @ xs @ [?me]) bs1" "current_thread s' = r"
    "length_l (headers (lh s') (Waiting_queue Deschedule_lock)) = 0"
    "\<And>t. t_state (tcbs s' t) \<noteq> t_state (tcbs s t) \<Longrightarrow>
       (woken s bs = Some t \<and> t_state (tcbs s' t) = THREAD_RUNNABLE) \<or> (t = r \<and> t_state (tcbs s' t) = THREAD_RUNNING)"
    "\<And>t. woken s bs = Some t \<Longrightarrow> t_state (tcbs s' t) = THREAD_RUNNABLE"
    by (rule schedule_spec[OF inv w q1 p q2]) (rule that)
  have xw: "woken s bs = Some t" if "t \<in> set xs" for t
    using that q1 xs by (auto simp: after_wake_def split: option.splits)
  have "t_state (tcbs s' t) \<in> {THREAD_RUNNING, THREAD_RUNNABLE, THREAD_INIT}" if "t \<in> set (r # rs0 @ xs @ [?me])" for t
  proof (cases "t_state (tcbs s' t) = t_state (tcbs s t)")
    case False
    then show ?thesis using s'(5) by fastforce
  next
    case True
    have "t \<notin> set xs \<or> t_state (tcbs s' t) = THREAD_RUNNABLE"
      using s'(6)[of t] xw by blast
    then show ?thesis using that True ready by (auto simp: ready_states_def rs)
  qed
  then show ?thesis
    using that[of s' "xs @ [?me]" bs1] s' by (simp add: rs ready_states_def)
qed

lemma preempt_reaches:
  "sched_inv s rs bs \<Longrightarrow> length_l (headers (lh s) (Waiting_queue Deschedule_lock)) = 0
    \<Longrightarrow> ready_states s (current_thread s # rs) \<Longrightarrow> k < length rs
    \<Longrightarrow> \<exists>s'. preempt (Suc k) s = Inr ((), s') \<and> current_thread s' = rs ! k"
proof (induction k arbitrary: s rs bs)
  case 0
  then have "rs \<noteq> []" by auto
  from preempt_step[OF 0(1-3) this] obtain s' where "schedule (-1) s = Inr ((), s')" "current_thread s' = hd rs" by metis
  with \<open>rs \<noteq> []\<close> show ?case by (simp add: hd_conv_nth)
next
  case (Suc k)
  then have ne: "rs \<noteq> []" by auto
  from preempt_step[OF Suc.prems(1-3) ne] obtain s1 xs bs1 where s1: "schedule (-1) s = Inr ((), s1)"
    "sched_inv s1 (tl rs @ xs) bs1" "length_l (headers (lh s1) (Waiting_queue Deschedule_lock)) = 0"
    "ready_states s1 (current_thread s1 # tl rs @ xs)" by metis
  have "k < length (tl rs @ xs)" using Suc.prems(4) by simp
  from Suc.IH[OF s1(2-4) this] obtain s' where "preempt (Suc k) s1 = Inr ((), s')" "current_thread s' = (tl rs @ xs) ! k" by blast
  moreover have "(tl rs @ xs) ! k = rs ! Suc k" using Suc.prems(4) by (cases rs) (auto simp: nth_append)
  ultimately show ?case using s1(1) by simp
qed

section \<open>A concrete state\<close>

definition fill :: "list_id \<Rightarrow> u32 list \<Rightarrow> (list_id, node_id) lheap \<Rightarrow> (list_id, node_id) lheap" where
  "fill l ts h = fold (\<lambda>t h. list_insert_last h (Some l) (Some (Thread_list_node t))) ts h"

definition demo_core :: "u32 \<Rightarrow> u32 list \<Rightarrow> u32 list \<Rightarrow> kcore" where
  "demo_core me rs bs = empty_core\<lparr>lh := fill Blocked_queue bs (fill Runnable_queue rs empty_lheap),
     tcbs := (\<lambda>t. empty_tcb\<lparr>t_pcb := 4096, t_tid := uint t\<rparr>), current_thread := me\<rparr>"

lemma fill_runnable:
  "owns h sched_lists (queues rs bs) \<Longrightarrow> distinct (rs @ ts @ bs) \<Longrightarrow> owns (fill Runnable_queue ts h) sched_lists (queues (rs @ ts) bs)"
proof (induction ts arbitrary: rs h)
  case (Cons t ts)
  have "owns (list_insert_last h (Some Runnable_queue) (Some (Thread_list_node t))) sched_lists (queues (rs @ [t]) bs)"
    using Cons.prems by (intro own_insert_runnable) auto
  from Cons.IH[OF this] Cons.prems show ?case by (simp add: fill_def)
qed (simp add: fill_def)

lemma fill_blocked:
  "owns h sched_lists (queues rs bs) \<Longrightarrow> distinct (rs @ bs @ ts) \<Longrightarrow> owns (fill Blocked_queue ts h) sched_lists (queues rs (bs @ ts))"
proof (induction ts arbitrary: bs h)
  case (Cons t ts)
  have "owns (list_insert_last h (Some Blocked_queue) (Some (Thread_list_node t))) sched_lists (queues rs (bs @ [t]))"
    using Cons.prems by (intro own_insert_blocked) auto
  from Cons.IH[OF this] Cons.prems show ?case by (simp add: fill_def)
qed (simp add: fill_def)

lemma fill_header [simp]: "l' \<noteq> l \<Longrightarrow> headers (fill l ts h) l' = headers h l'"
  unfolding fill_def by (induction ts arbitrary: h) simp_all

lemma demo_core_inv: "distinct (rs @ bs) \<Longrightarrow> 0 \<notin> set (me # rs @ bs) \<Longrightarrow> me \<notin> set (rs @ bs) \<Longrightarrow> sched_inv (demo_core me rs bs) rs bs"
proof -
  assume d: "distinct (rs @ bs)" "0 \<notin> set (me # rs @ bs)" "me \<notin> set (rs @ bs)"
  have e: "queues [] [] = (\<lambda>_. [])" by (auto simp: queues_def fun_eq_iff split: list_id.splits)
  have "owns empty_lheap sched_lists (queues [] [])" unfolding e by simp
  then have "owns (fill Runnable_queue rs empty_lheap) sched_lists (queues rs [])"
    using fill_runnable[of empty_lheap "[]" "[]" rs] d by simp
  then have "owns (fill Blocked_queue bs (fill Runnable_queue rs empty_lheap)) sched_lists (queues rs bs)"
    using fill_blocked[of _ rs "[]" bs] d by simp
  with d show ?thesis by (auto simp: sched_inv_def demo_core_def)
qed

lemma demo_core_quiet: "length_l (headers (lh (demo_core me rs bs)) (Waiting_queue m)) = 0"
  by (simp add: demo_core_def empty_lheap_def)

section \<open>Properties\<close>

text \<open>C1: \<open>schedule\<close> implements the scheduler on sequences. From a well-formed state, after the
  wake-up pass, it makes the first runnable thread (or the one asked for) the current thread,
  loads its page directory, puts the previous thread at the end of the queue its state asks for
  unless it has exited, and turns interrupts on; no other thread is lost or duplicated and the
  state stays well formed.\<close>

theorem schedule_refines_queues:
  assumes "sched_inv s rs bs" and "length_l (headers (lh s) (Waiting_queue Deschedule_lock)) = 0"
    and "after_wake s rs bs = (rs1, bs1)" and "pick_seq tid s rs1 = Some nxt"
    and "requeue_seq (t_state (tcbs s (current_thread s))) (current_thread s) (remove1 nxt rs1) bs1 = (rs2, bs2)"
  shows "\<exists>s'. schedule tid s = Inr ((), s') \<and> sched_inv s' rs2 bs2 \<and> current_thread s' = nxt
    \<and> interrupts s' \<and> cr3 s' = p_PD (pcbs s (t_pcb (tcbs s nxt)))
    \<and> (t_state (tcbs s (current_thread s)) \<noteq> THREAD_EXIT
       \<longrightarrow> set (nxt # rs2 @ bs2) = set (current_thread s # rs @ bs))"
proof -
  obtain s' where s': "schedule tid s = Inr ((), s')" "sched_inv s' rs2 bs2" "current_thread s' = nxt" "interrupts s'"
    "cr3 s' = p_PD (pcbs s (t_pcb (tcbs s nxt)))" by (rule schedule_spec[OF assms])
  have d: "distinct rs" "distinct bs" using assms(1) by (auto simp: sched_inv_def)
  have w1: "set rs1 \<union> set bs1 = set rs \<union> set bs" and d1: "distinct rs1"
    using assms(1,3) d woken_in[of s bs] by (auto simp: after_wake_def set_remove1_eq sched_inv_def split: option.splits)
  have "insert nxt (set (remove1 nxt rs1)) = set rs1"
    using pick_seq_in[OF assms(4)] d1 by (auto simp: set_remove1_eq)
  moreover have "set rs2 \<union> set bs2 = insert (current_thread s) (set (remove1 nxt rs1) \<union> set bs1)"
    if "t_state (tcbs s (current_thread s)) \<noteq> THREAD_EXIT"
    using assms(5) that by (simp only: requeue_seq_def split: if_splits) (simp_all only: prod.inject, auto)
  ultimately have "set (nxt # rs2 @ bs2) = set (current_thread s # rs @ bs)"
    if "t_state (tcbs s (current_thread s)) \<noteq> THREAD_EXIT"
    using w1 that by auto
  with s' show ?thesis by blast
qed

theorem schedule_refines_queues_witness:
  "\<exists>s'. schedule (-1) (demo_core 8 [16, 24] [32]) = Inr ((), s') \<and> current_thread s' = 16 \<and> sched_inv s' [24, 8] [32]"
proof -
  let ?s = "demo_core 8 [16, 24] [32]"
  have "sched_inv ?s [16, 24] [32]" by (rule demo_core_inv) simp_all
  moreover have "after_wake ?s [16, 24] [32] = ([16, 24], [32])"
    by (simp add: after_wake_def woken_def wake_due_def demo_core_def empty_tcb_def thread_states)
  moreover have "requeue_seq (t_state (tcbs ?s (current_thread ?s))) (current_thread ?s) (remove1 16 [16, 24]) [32] = ([24, 8], [32])"
    by (simp add: requeue_seq_def demo_core_def empty_tcb_def thread_states)
  ultimately show ?thesis
    using schedule_refines_queues[of ?s "[16, 24]" "[32]" "[16, 24]" "[32]" "-1" 16 "[24, 8]" "[32]"]
    by (auto simp: demo_core_quiet pick_seq_def)
qed

text \<open>C2: round robin without starvation: while the timer keeps calling \<open>schedule(-1)\<close>, the
  thread at position \<open>k\<close> of the runnable queue is the current thread after \<open>k + 1\<close> calls; woken
  sleepers and preempted threads only ever queue up behind it.\<close>

theorem round_robin:
  assumes "sched_inv s rs bs" and "length_l (headers (lh s) (Waiting_queue Deschedule_lock)) = 0"
    and "ready_states s (current_thread s # rs)" and "k < length rs"
  shows "\<exists>s'. preempt (Suc k) s = Inr ((), s') \<and> current_thread s' = rs ! k"
  using assms by (rule preempt_reaches)

theorem round_robin_witness:
  "\<exists>s'. preempt 3 (demo_core 8 [16, 24, 40] []) = Inr ((), s') \<and> current_thread s' = 40"
proof -
  let ?s = "demo_core 8 [16, 24, 40] []"
  have "sched_inv ?s [16, 24, 40] []" by (rule demo_core_inv) simp_all
  moreover have "ready_states ?s (current_thread ?s # [16, 24, 40])"
    by (simp add: ready_states_def demo_core_def empty_tcb_def thread_states)
  ultimately show ?thesis
    using round_robin[of ?s "[16, 24, 40]" "[]" 2] by (simp add: demo_core_quiet numeral_3_eq_3 numeral_2_eq_2 del: preempt.simps)
qed

text \<open>one call of \<open>schedule\<close> wakes at most one sleeper: the pass over the blocked queue
  stops after the first due thread, because it follows the node into the runnable queue, and every
  later sleeper stays asleep in the blocked queue even when its time has come.\<close>

theorem one_sleeper_per_call:
  assumes "sched_inv s rs (us @ t # vs)" and "wake_due t s" and "\<forall>u\<in>set us. \<not> wake_due u s"
  shows "\<exists>s'. wake_sleepers s = Inr ((), s') \<and> sched_inv s' (rs @ [t]) (us @ vs)
    \<and> t_state (tcbs s' t) = THREAD_RUNNABLE \<and> (\<forall>v\<in>set vs. tcbs s' v = tcbs s v)"
proof -
  have t: "t \<notin> set us" "t \<notin> set vs" using assms(1) by (auto simp: sched_inv_def)
  have w: "woken s (us @ t # vs) = Some t"
    using assms(2,3) by (auto simp: woken_def find_Some_iff nth_append intro!: exI[of _ "length us"])
  have "wake_sleepers s = Inr ((), wake_thread t s)" using wake_sleepers_spec[OF assms(1)] w by simp
  moreover have "sched_inv (wake_thread t s) (rs @ [t]) (us @ vs)"
    using wake_thread_inv[OF assms(1), of t] t by (simp add: remove1_append)
  ultimately show ?thesis using t by (auto simp: wake_thread_def)
qed

theorem one_sleeper_per_call_witness:
  "\<exists>s'. wake_sleepers ((demo_core 8 [] [16, 24])\<lparr>numTicks := 5, tcbs := (\<lambda>_. empty_tcb\<lparr>t_pcb := 4096, t_state := THREAD_SLEEPING\<rparr>)\<rparr>)
       = Inr ((), s') \<and> sched_inv s' [16] [24]"
proof -
  let ?s = "(demo_core 8 [] [16, 24])\<lparr>numTicks := 5, tcbs := (\<lambda>_. empty_tcb\<lparr>t_pcb := 4096, t_state := THREAD_SLEEPING\<rparr>)\<rparr>"
  have "sched_inv (demo_core 8 [] [16, 24]) [] [16, 24]" by (rule demo_core_inv) simp_all
  then have "sched_inv ?s [] ([] @ 16 # [24])" by (simp add: sched_inv_def)
  moreover have "wake_due 16 ?s" by (simp add: wake_due_def empty_tcb_def)
  ultimately show ?thesis using one_sleeper_per_call[of ?s "[]" "[]" 16 "[24]"] by auto
qed

text \<open>With nothing runnable and no sleeper to wake, any thread but number 1 that calls
  \<open>schedule(-1)\<close> runs into a NULL list node; thread 1 returns, with interrupts left disabled.\<close>

theorem schedule_nothing_runnable:
  assumes "sched_inv s [] bs" and "woken s bs = None"
  shows "schedule (-1) s =
    (if t_tid (tcbs s (current_thread s)) = 1 then Inr ((), s\<lparr>interrupts := False\<rparr>) else Inl Null_Deref)"
proof -
  let ?s = "s\<lparr>interrupts := False\<rparr>"
  have inv: "sched_inv ?s [] bs" and me: "current_thread s \<noteq> 0" using assms(1) by (auto simp: sched_inv_def)
  have "woken ?s bs = None" using assms(2) by (simp add: woken_def wake_due_def)
  with wake_sleepers_spec[OF inv] have w: "wake_sleepers ?s = Inr ((), ?s)" by simp
  have h: "length_l (headers (lh s) Runnable_queue) = 0" "head_l (headers (lh s) Runnable_queue) = None"
    using sched_lists_of(1)[OF assms(1)] by (simp_all add: is_list_def)
  show ?thesis
    using w me h by (simp add: schedule_def pick_next_def list_delete_first_def)
qed

theorem schedule_nothing_runnable_witness: "schedule (-1) (demo_core 2 [] [16]) = Inl Null_Deref"
proof -
  have "sched_inv (demo_core 2 [] [16]) [] [16]" by (rule demo_core_inv) simp_all
  moreover have "woken (demo_core 2 [] [16]) [16] = None"
    by (simp add: woken_def wake_due_def demo_core_def empty_tcb_def thread_states)
  ultimately show ?thesis
    using schedule_nothing_runnable[of "demo_core 2 [] [16]" "[16]"] by (simp add: demo_core_def)
qed

end
