(* ===== verification/Lmm.thy ===== *)
theory Lmm
  imports Prelude
begin

text \<open>
  The list memory manager behind the kernel heap, \<open>410kern/lmm\<close>. A region keeps a list of
  free blocks in ascending address order, threaded through the free memory itself; the model
  keeps it as the list of pairs (address, size) of the chain, and a pool as the list of its
  regions. Addresses and sizes are 32-bit words with wrap-around, as \<open>vm_offset_t\<close> and
  \<open>vm_size_t\<close> are. Every \<open>assert\<close> of the code is a test that ends in \<open>Assert_Failed\<close>.
\<close>

unbundle bit_operations_syntax

section \<open>Data\<close>

type_synonym lmm_node = "u32 \<times> u32"

record lmm_region =
  rid :: nat
  rnodes :: "lmm_node list"
  rmin :: u32
  rmax :: u32
  rflags :: u32
  rpri :: u32
  rfree :: u32

type_synonym lmm = "lmm_region list"

definition ALIGN_SIZE :: u32 where "ALIGN_SIZE = 8"
definition ALIGN_MASK :: u32 where "ALIGN_MASK = ALIGN_SIZE - 1"

definition align_up :: "u32 \<Rightarrow> u32" where "align_up x = (x + ALIGN_MASK) AND NOT ALIGN_MASK"
definition align_down :: "u32 \<Rightarrow> u32" where "align_down x = x AND NOT ALIGN_MASK"

definition assertL :: "bool \<Rightarrow> (fault + 'a) \<Rightarrow> fault + 'a" where
  "assertL b r = (if b then r else Inl Assert_Failed)"

text \<open>The address of the first node, 0 for an empty list.\<close>

definition first_addr :: "lmm_node list \<Rightarrow> u32" where
  "first_addr ns = (case ns of [] \<Rightarrow> 0 | (a, n) # _ \<Rightarrow> a)"

section \<open>Building a pool\<close>

definition lmm_init :: lmm where "lmm_init = []"

fun insert_region :: "lmm_region \<Rightarrow> lmm \<Rightarrow> fault + lmm" where
  "insert_region reg [] = Inr [reg]"
| "insert_region reg (r # rs) =
     (if rpri r > rpri reg \<or> (rpri r = rpri reg \<and> rmax r - rmin r > rmax reg - rmin reg)
      then assertL (rid r \<noteq> rid reg)
             (assertL (rmax reg \<le> rmin r \<or> rmin reg \<ge> rmax r)
               (map_sum id ((#) r) (insert_region reg rs)))
      else Inr (reg # r # rs))"

definition lmm_add_region :: "lmm \<Rightarrow> nat \<Rightarrow> u32 \<Rightarrow> u32 \<Rightarrow> u32 \<Rightarrow> u32 \<Rightarrow> fault + lmm" where
  "lmm_add_region lmm reg addr sz flags pri =
     (let min = align_up addr; max = align_down (addr + sz)
      in if max \<le> min then Inr lmm
         else insert_region \<lparr>rid = reg, rnodes = [], rmin = min, rmax = max, rflags = flags,
                             rpri = pri, rfree = 0\<rparr> lmm)"

section \<open>Allocation\<close>

text \<open>The assertions on a node met by an allocation loop.\<close>

definition node_asserts :: "u32 \<Rightarrow> u32 \<Rightarrow> u32 \<Rightarrow> lmm_node list \<Rightarrow> bool" where
  "node_asserts mx a n rest \<longleftrightarrow>
     a AND ALIGN_MASK = 0 \<and> n AND ALIGN_MASK = 0
     \<and> (first_addr rest = 0 \<or> first_addr rest > a) \<and> a < mx"

definition region_asserts :: "lmm_region \<Rightarrow> bool" where
  "region_asserts r \<longleftrightarrow>
     ((first_addr (rnodes r) = 0 \<and> rfree r = 0) \<or> first_addr (rnodes r) \<ge> rmin r)
     \<and> rfree r \<le> rmax r - rmin r"

fun take_first :: "u32 \<Rightarrow> u32 \<Rightarrow> lmm_node list \<Rightarrow> fault + (u32 \<times> lmm_node list) option" where
  "take_first mx sz [] = Inr None"
| "take_first mx sz ((a, n) # ns) =
     assertL (node_asserts mx a n ns)
       (if n \<ge> sz
        then Inr (Some (a, if n > sz then (a + sz, n - sz) # ns else ns))
        else map_sum id (map_option (map_prod id ((#) (a, n)))) (take_first mx sz ns))"

fun alloc_regions :: "u32 \<Rightarrow> u32 \<Rightarrow> lmm \<Rightarrow> fault + (u32 \<times> lmm)" where
  "alloc_regions sz flags [] = Inr (0, [])"
| "alloc_regions sz flags (r # rs) =
     assertL (region_asserts r)
       (if flags AND NOT (rflags r) \<noteq> 0 then map_sum id (map_prod id ((#) r)) (alloc_regions sz flags rs)
        else case take_first (rmax r) sz (rnodes r) of
               Inl e \<Rightarrow> Inl e
             | Inr None \<Rightarrow> map_sum id (map_prod id ((#) r)) (alloc_regions sz flags rs)
             | Inr (Some (p, ns)) \<Rightarrow>
                 assertL (rfree r \<ge> sz) (Inr (p, r\<lparr>rnodes := ns, rfree := rfree r - sz\<rparr> # rs)))"

definition lmm_alloc :: "lmm \<Rightarrow> u32 \<Rightarrow> u32 \<Rightarrow> fault + (u32 \<times> lmm)" where
  "lmm_alloc lmm sz flags = assertL (sz > 0) (alloc_regions (align_up sz) flags lmm)"

text \<open>The alignment loop of \<open>lmm_alloc_gen\<close>: bit by bit, the address is raised until its low
  bits agree with those of \<open>align_ofs\<close>.\<close>

definition align_step :: "u32 \<Rightarrow> nat \<Rightarrow> u32 \<Rightarrow> u32" where
  "align_step align_ofs i addr =
     (let b = push_bit i 1 in if (addr XOR align_ofs) AND b \<noteq> 0 then addr + b else addr)"

definition align_addr :: "nat \<Rightarrow> u32 \<Rightarrow> u32 \<Rightarrow> u32" where
  "align_addr align_bits align_ofs addr = fold (align_step align_ofs) [0..<align_bits] addr"

text \<open>The block \<open>[addr, addr + sz)\<close> carved out of the node \<open>(a, n)\<close>: the pieces that stay
  free before and after it, and the size that leaves the pool.\<close>

definition carve :: "u32 \<Rightarrow> u32 \<Rightarrow> u32 \<Rightarrow> u32 \<Rightarrow> lmm_node list \<Rightarrow> fault + (u32 \<times> lmm_node list)" where
  "carve addr sz0 a n ns =
     (let anode = align_down addr;
          split_size = anode - a;
          before = (if anode > a then [(a, split_size)] else []);
          asize = (if anode > a then n - split_size else n);
          sz = ((addr AND ALIGN_MASK) + sz0 + ALIGN_MASK) AND NOT ALIGN_MASK;
          after = (if asize > sz then [(anode + sz, asize - sz)] else [])
      in assertL (anode \<ge> a)
           (assertL (anode > a \<longrightarrow> split_size AND ALIGN_MASK = 0) (Inr (sz, before @ after @ ns))))"

fun take_gen :: "u32 \<Rightarrow> u32 \<Rightarrow> nat \<Rightarrow> u32 \<Rightarrow> u32 \<Rightarrow> u32 \<Rightarrow> lmm_node list
    \<Rightarrow> fault + (u32 \<times> u32 \<times> lmm_node list) option" where
  "take_gen mx sz bits ofs in_min in_max [] = Inr None"
| "take_gen mx sz bits ofs in_min in_max ((a, n) # ns) =
     assertL (node_asserts mx a n ns)
       (let skip = map_sum id (map_option (map_prod id (map_prod id ((#) (a, n)))))
                     (take_gen mx sz bits ofs in_min in_max ns);
            addr = align_addr bits ofs (if a < in_min then in_min else a)
        in if n < sz then skip
           else if addr - a + sz > n then skip
           else if addr + sz > in_max then Inr None
           else map_sum id (\<lambda>(sz', ns'). Some (addr, sz', ns')) (carve addr sz a n ns))"

fun gen_regions :: "u32 \<Rightarrow> u32 \<Rightarrow> nat \<Rightarrow> u32 \<Rightarrow> u32 \<Rightarrow> u32 \<Rightarrow> lmm \<Rightarrow> fault + (u32 \<times> lmm)" where
  "gen_regions sz flags bits ofs in_min in_max [] = Inr (0, [])"
| "gen_regions sz flags bits ofs in_min in_max (r # rs) =
     assertL (region_asserts r)
       (let skip = map_sum id (map_prod id ((#) r)) (gen_regions sz flags bits ofs in_min in_max rs)
        in if flags AND NOT (rflags r) \<noteq> 0 \<or> rmin r \<ge> in_max \<or> rmax r \<le> in_min then skip
           else case take_gen (rmax r) sz bits ofs in_min in_max (rnodes r) of
                  Inl e \<Rightarrow> Inl e
                | Inr None \<Rightarrow> skip
                | Inr (Some (p, sz', ns)) \<Rightarrow>
                    assertL (rfree r \<ge> sz') (Inr (p, r\<lparr>rnodes := ns, rfree := rfree r - sz'\<rparr> # rs)))"

definition lmm_alloc_gen ::
  "lmm \<Rightarrow> u32 \<Rightarrow> u32 \<Rightarrow> nat \<Rightarrow> u32 \<Rightarrow> u32 \<Rightarrow> u32 \<Rightarrow> fault + (u32 \<times> lmm)" where
  "lmm_alloc_gen lmm sz flags align_bits align_ofs in_min in_size =
     assertL (sz > 0) (gen_regions sz flags align_bits align_ofs in_min (in_min + in_size) lmm)"

definition lmm_alloc_aligned :: "lmm \<Rightarrow> u32 \<Rightarrow> u32 \<Rightarrow> nat \<Rightarrow> u32 \<Rightarrow> fault + (u32 \<times> lmm)" where
  "lmm_alloc_aligned lmm sz flags align_bits align_ofs =
     lmm_alloc_gen lmm sz flags align_bits align_ofs 0 (-1)"

definition lmm_alloc_page :: "lmm \<Rightarrow> u32 \<Rightarrow> fault + (u32 \<times> lmm)" where
  "lmm_alloc_page lmm flags = lmm_alloc_gen lmm 4096 flags 12 0 0 (-1)"

section \<open>Release\<close>

text \<open>Insertion of the freed block \<open>(node, sz)\<close> in address order, with coalescing. The previous
  node is passed along, as \<open>prevnode\<close> is in the code.\<close>

definition free_here :: "lmm_node option \<Rightarrow> u32 \<Rightarrow> u32 \<Rightarrow> lmm_node list \<Rightarrow> fault + lmm_node list" where
  "free_here prev node sz nxt =
     (case prev of
        Some (p, pn) \<Rightarrow>
          if p + pn \<ge> node
          then assertL (p + pn = node)
                 (case nxt of
                    (q, qn) # rest \<Rightarrow>
                      if node + sz \<ge> q
                      then assertL (node + sz = q) (Inr ((p, pn + (sz + qn)) # rest))
                      else Inr ((p, pn + sz) # nxt)
                  | [] \<Rightarrow> Inr [(p, pn + sz)])
          else Inr ((p, pn) # (case nxt of
                 (q, qn) # rest \<Rightarrow> if node + sz \<ge> q then (node, sz + qn) # rest else (node, sz) # nxt
               | [] \<Rightarrow> [(node, sz)]))
      | None \<Rightarrow>
          Inr (case nxt of
                 (q, qn) # rest \<Rightarrow> if node + sz \<ge> q then (node, sz + qn) # rest else (node, sz) # nxt
               | [] \<Rightarrow> [(node, sz)]))"

fun free_node :: "lmm_node option \<Rightarrow> u32 \<Rightarrow> u32 \<Rightarrow> lmm_node list \<Rightarrow> fault + lmm_node list" where
  "free_node prev node sz [] = free_here prev node sz []"
| "free_node prev node sz ((q, qn) # ns) =
     (if q < node
      then map_sum id (\<lambda>l. (case prev of None \<Rightarrow> l | Some pv \<Rightarrow> pv # l)) (free_node (Some (q, qn)) node sz ns)
      else free_here prev node sz ((q, qn) # ns))"

fun free_regions :: "u32 \<Rightarrow> u32 \<Rightarrow> lmm \<Rightarrow> fault + lmm" where
  "free_regions node sz [] = Inl Assert_Failed"
| "free_regions node sz (r # rs) =
     assertL ((first_addr (rnodes r) = 0 \<and> rfree r = 0) \<or> first_addr (rnodes r) \<ge> rmin r)
       (if node \<ge> rmin r \<and> node < rmax r
        then assertL (rfree r + sz \<le> rmax r - rmin r)
               (map_sum id (\<lambda>ns. r\<lparr>rnodes := ns, rfree := rfree r + sz\<rparr> # rs)
                 (free_node None node sz (rnodes r)))
        else map_sum id ((#) r) (free_regions node sz rs))"

definition lmm_free :: "lmm \<Rightarrow> u32 \<Rightarrow> u32 \<Rightarrow> fault + lmm" where
  "lmm_free lmm block sz =
     assertL (block \<noteq> 0) (assertL (sz > 0)
       (free_regions (align_down block)
          (((block AND ALIGN_MASK) + sz + ALIGN_MASK) AND NOT ALIGN_MASK) lmm))"

definition lmm_free_page :: "lmm \<Rightarrow> u32 \<Rightarrow> fault + lmm" where
  "lmm_free_page lmm page = lmm_free lmm page 4096"

text \<open>\<open>lmm_add_free\<close> hands each region its share of the block; \<open>k\<close> counts the regions seen.\<close>

fun add_free_loop :: "nat \<Rightarrow> nat \<Rightarrow> u32 \<Rightarrow> u32 \<Rightarrow> lmm \<Rightarrow> fault + lmm" where
  "add_free_loop 0 k mn mx lmm = Inr lmm"
| "add_free_loop (Suc todo) k mn mx lmm =
     (let reg = lmm ! k
      in assertL (rmin reg < rmax reg \<and> rmin reg AND ALIGN_MASK = 0 \<and> rmax reg AND ALIGN_MASK = 0)
           (if mx > rmin reg \<and> mn < rmax reg
            then let new_min = (if mn < rmin reg then rmin reg else mn);
                     new_max = (if mx > rmax reg then rmax reg else mx)
                 in assertL (new_max > new_min)
                      (case lmm_free lmm new_min (new_max - new_min) of
                         Inl e \<Rightarrow> Inl e
                       | Inr lmm' \<Rightarrow> add_free_loop todo (Suc k) mn mx lmm')
            else add_free_loop todo (Suc k) mn mx lmm))"

definition lmm_add_free :: "lmm \<Rightarrow> u32 \<Rightarrow> u32 \<Rightarrow> fault + lmm" where
  "lmm_add_free lmm block sz =
     (let mn = align_up block; mx = align_down (block + sz)
      in assertL (mx \<ge> mn)
           (if mx = mn then Inr lmm else add_free_loop (length lmm) 0 mn mx lmm))"

section \<open>Queries\<close>

fun avail_loop :: "u32 \<Rightarrow> u32 \<Rightarrow> lmm \<Rightarrow> fault + u32" where
  "avail_loop flags count [] = Inr count"
| "avail_loop flags count (r # rs) =
     assertL (first_addr (rnodes r) \<ge> rmin r \<and> first_addr (rnodes r) < rmax r
              \<and> rfree r \<le> rmax r - rmin r)
       (avail_loop flags (if flags AND NOT (rflags r) \<noteq> 0 then count else count + rfree r) rs)"

definition lmm_avail :: "lmm \<Rightarrow> u32 \<Rightarrow> fault + u32" where
  "lmm_avail lmm flags = avail_loop flags 0 lmm"

fun find_in_nodes :: "u32 \<Rightarrow> lmm_region \<Rightarrow> u32 \<times> u32 \<times> u32 \<Rightarrow> lmm_node list \<Rightarrow> fault + (u32 \<times> u32 \<times> u32)" where
  "find_in_nodes start_addr r (la, ls, lf) [] = Inr (la, ls, lf)"
| "find_in_nodes start_addr r (la, ls, lf) ((a, n) # ns) =
     assertL (a \<ge> rmin r \<and> a < rmax r)
       (if a \<ge> la then Inr (la, ls, lf)
        else if a + n > start_addr
        then Inr (if a > start_addr then (a, n, rflags r)
                  else (start_addr, n - (start_addr - a), rflags r))
        else find_in_nodes start_addr r (la, ls, lf) ns)"

fun find_free_loop :: "u32 \<Rightarrow> u32 \<times> u32 \<times> u32 \<Rightarrow> lmm \<Rightarrow> fault + (u32 \<times> u32 \<times> u32)" where
  "find_free_loop start_addr best [] = Inr best"
| "find_free_loop start_addr best (r # rs) =
     (if rnodes r = [] \<or> rmax r \<le> start_addr \<or> rmin r > fst best
      then find_free_loop start_addr best rs
      else case find_in_nodes start_addr r best (rnodes r) of
             Inl e \<Rightarrow> Inl e
           | Inr best' \<Rightarrow> find_free_loop start_addr best' rs)"

text \<open>\<open>lmm_find_free\<close> returns the address, size and flags it stores through its pointers.\<close>

definition lmm_find_free :: "lmm \<Rightarrow> u32 \<Rightarrow> fault + (u32 \<times> u32 \<times> u32)" where
  "lmm_find_free lmm inout_addr = find_free_loop (align_up inout_addr) (-1, 0, 0) lmm"

text \<open>
  \<open>lmm_remove_free\<close> takes every free byte of a range out of the pool, one free block per
  round of its loop.
\<close>

partial_function (option) remove_free_loop :: "u32 \<Rightarrow> u32 \<Rightarrow> u32 \<Rightarrow> lmm \<Rightarrow> (fault + lmm) option" where
  "remove_free_loop block rstart rend lmm =
     (if \<not> rstart < rend then Some (Inr lmm)
      else case lmm_find_free lmm rstart of
        Inl e \<Rightarrow> Some (Inl e)
      | Inr (rstart', sz, flags) \<Rightarrow>
          if \<not> rstart' \<ge> block then Some (Inl Assert_Failed)
          else if sz = 0 \<or> rstart' \<ge> rend then Some (Inr lmm)
          else
            let sz' = (if rstart' + sz > rend then rend - rstart' else sz)
            in case lmm_alloc_gen lmm sz' flags 0 0 rstart' sz' of
                 Inl e \<Rightarrow> Some (Inl e)
               | Inr (ptr, lmm') \<Rightarrow>
                   if ptr \<noteq> rstart' then Some (Inl Assert_Failed)
                   else remove_free_loop block rstart' rend lmm')"

definition lmm_remove_free :: "lmm \<Rightarrow> u32 \<Rightarrow> u32 \<Rightarrow> fault + lmm" where
  "lmm_remove_free lmm block block_size =
     assertL (block + block_size > block)
       (case remove_free_loop block block (block + block_size) lmm of
          None \<Rightarrow> Inl Diverges
        | Some r \<Rightarrow> r)"

text \<open>The consistency check that \<open>lmm_dump\<close> makes while it prints the pool.\<close>

fun dump_nodes :: "u32 \<Rightarrow> lmm_node list \<Rightarrow> u32 \<Rightarrow> fault + u32" where
  "dump_nodes mx [] free_check = Inr free_check"
| "dump_nodes mx ((a, n) # ns) free_check =
     assertL (a AND ALIGN_MASK = 0 \<and> n AND ALIGN_MASK = 0 \<and> n \<ge> ALIGN_SIZE
              \<and> (first_addr ns = 0 \<or> first_addr ns > a) \<and> a < mx)
       (dump_nodes mx ns (free_check + n))"

fun lmm_dump :: "lmm \<Rightarrow> fault + unit" where
  "lmm_dump [] = Inr ()"
| "lmm_dump (r # rs) =
     assertL ((first_addr (rnodes r) = 0 \<or> first_addr (rnodes r) \<ge> rmin r)
              \<and> (first_addr (rnodes r) = 0 \<or> first_addr (rnodes r) < rmax r)
              \<and> rfree r \<le> rmax r - rmin r)
       (case dump_nodes (rmax r) (rnodes r) 0 of
          Inl e \<Rightarrow> Inl e
        | Inr free_check \<Rightarrow> assertL (rfree r = free_check) (lmm_dump rs))"

end
