(* ===== verification/Lmm_Correct.thy ===== *)
theory Lmm_Correct
  imports Lmm
begin

text \<open>
  Correctness of the list memory manager. \<open>lmm_ok\<close> is the invariant of a pool: in every region
  the free blocks are 8-byte aligned, not empty, inside the region, in ascending order with a gap
  between any two (so the list is fully coalesced), and their sizes add up to the region's
  counter; regions do not overlap. \<open>lmm_bytes\<close> is the set of free bytes. Allocation takes the
  bytes of one block out of that set, release puts them back, and no assertion fails.
\<close>

unbundle bit_operations_syntax

section \<open>Alignment\<close>

lemma align_mask_eq: "ALIGN_MASK = mask 3"
  by (simp add: ALIGN_MASK_def ALIGN_SIZE_def mask_eq_exp_minus_1)

lemma unat_low3: "unat (x AND ALIGN_MASK) = unat x mod 8"
  unfolding align_mask_eq by (simp add: flip: take_bit_eq_mask) (simp add: take_bit_eq_mod unat_mod)

lemma aligned8_iff: "x AND ALIGN_MASK = 0 \<longleftrightarrow> 8 dvd unat x"
  using unat_low3[of x] by (metis dvd_eq_mod_eq_0 unat_eq_zero)

lemma unat_clear_low3: "unat (x AND NOT ALIGN_MASK) = unat x - unat x mod 8"
proof -
  have "x AND NOT ALIGN_MASK = x - (x AND ALIGN_MASK)"
    using split_low_bits[of x ALIGN_MASK] by (simp add: algebra_simps)
  moreover have "x AND ALIGN_MASK \<le> x" by (rule word_and_le2)
  ultimately show ?thesis by (simp add: unat_sub unat_low3)
qed

definition round8 :: "nat \<Rightarrow> nat" where "round8 k = (k + 7) - (k + 7) mod 8"

lemma round8: "8 dvd round8 k" "k \<le> round8 k" "round8 k < k + 8"
  unfolding round8_def by (simp_all add: minus_mod_eq_mult_div)

lemma unat_align_down: "unat (align_down x) = unat x - unat x mod 8"
  by (simp add: align_down_def unat_clear_low3)

lemma unat_align_up: "unat x + 7 < 2 ^ 32 \<Longrightarrow> unat (align_up x) = round8 (unat x)"
  unfolding align_up_def unat_clear_low3 round8_def
  by (simp add: unat_word_ariths ALIGN_MASK_def ALIGN_SIZE_def)

lemma unat_round_ofs:
  "unat x mod 8 + unat sz + 7 < 2 ^ 32 \<Longrightarrow>
    unat (((x AND ALIGN_MASK) + sz + ALIGN_MASK) AND NOT ALIGN_MASK) = round8 (unat x mod 8 + unat sz)"
  unfolding unat_clear_low3 round8_def
  by (simp add: unat_word_ariths unat_low3) (simp add: ALIGN_MASK_def ALIGN_SIZE_def)

section \<open>Invariant\<close>

definition block :: "u32 \<Rightarrow> nat \<Rightarrow> nat set" where "block a n = {unat a..<unat a + n}"

fun nodes_ok :: "nat \<Rightarrow> nat \<Rightarrow> lmm_node list \<Rightarrow> bool" where
  "nodes_ok lo hi [] \<longleftrightarrow> True"
| "nodes_ok lo hi ((a, n) # ns) \<longleftrightarrow>
     lo \<le> unat a \<and> 8 dvd unat a \<and> 8 dvd unat n \<and> 0 < unat n \<and> unat a + unat n \<le> hi
     \<and> nodes_ok (unat a + unat n + 1) hi ns"

fun nbytes :: "lmm_node list \<Rightarrow> nat set" where
  "nbytes [] = {}"
| "nbytes ((a, n) # ns) = block a (unat n) \<union> nbytes ns"

fun nsum :: "lmm_node list \<Rightarrow> nat" where
  "nsum [] = 0"
| "nsum ((a, n) # ns) = unat n + nsum ns"

lemma nodes_ok_mono: "nodes_ok lo hi ns \<Longrightarrow> lo' \<le> lo \<Longrightarrow> nodes_ok lo' hi ns"
  by (cases "(lo, hi, ns)" rule: nodes_ok.cases) auto

lemma nbytes_range: "nodes_ok lo hi ns \<Longrightarrow> x \<in> nbytes ns \<Longrightarrow> lo \<le> x \<and> x < hi"
  by (induction lo hi ns rule: nodes_ok.induct) (auto simp: block_def)

lemma first_addr_ok: "nodes_ok lo hi ns \<Longrightarrow> ns = [] \<or> lo \<le> unat (first_addr ns)"
  by (cases ns) (auto simp: first_addr_def)

lemma node_asserts_ok:
  assumes "nodes_ok lo (unat mx) ((a, n) # ns)"
  shows "node_asserts mx a n ns"
proof -
  have "first_addr ns = 0 \<or> a < first_addr ns"
    using assms by (cases ns) (auto simp: first_addr_def word_less_nat_alt)
  with assms show ?thesis by (auto simp: node_asserts_def aligned8_iff word_less_nat_alt)
qed

lemma take_first_spec:
  assumes "nodes_ok lo (unat mx) ns" "8 dvd unat sz" "0 < unat sz"
  shows "\<exists>res. take_first mx sz ns = Inr res \<and>
    (case res of
       None \<Rightarrow> \<forall>(a, n)\<in>set ns. n < sz
     | Some (p, ns') \<Rightarrow> nodes_ok lo (unat mx) ns' \<and> block p (unat sz) \<subseteq> nbytes ns
         \<and> nbytes ns' = nbytes ns - block p (unat sz) \<and> 8 dvd unat p \<and> nsum ns' + unat sz = nsum ns)"
  using assms(1)
proof (induction ns arbitrary: lo)
  case Nil
  then show ?case by simp
next
  case (Cons x ns)
  obtain a n where x: "x = (a, n)" by force
  note ok = Cons.prems[unfolded x]
  from ok have na: "node_asserts mx a n ns" by (rule node_asserts_ok)
  have rest: "y \<in> nbytes ns \<Longrightarrow> unat a + unat n < y" for y
    using ok nbytes_range by fastforce
  then have dis: "block a (unat n) \<inter> nbytes ns = {}" by (fastforce simp: block_def)
  show ?case
  proof (cases "sz \<le> n")
    case True
    let ?ns = "if n > sz then (a + sz, n - sz) # ns else ns"
    have u: "unat (n - sz) = unat n - unat sz" "unat (a + sz) = unat a + unat sz" 
      using True ok unsigned_less[of mx, where 'a=nat] by (auto simp: unat_sub word_le_nat_alt unat_plus_if')
    have "nodes_ok lo (unat mx) ?ns"
      using ok assms(2,3) True u by (auto simp: word_less_nat_alt word_le_nat_alt elim: nodes_ok_mono)
    moreover have "nbytes ?ns = nbytes ((a, n) # ns) - block a (unat sz)"
      using rest True u by (auto simp: block_def word_less_nat_alt word_le_nat_alt) (force+)
    moreover have "nsum ?ns + unat sz = nsum ((a, n) # ns)"
      using True u by (auto simp: word_less_nat_alt word_le_nat_alt)
    moreover have "block a (unat sz) \<subseteq> nbytes ((a, n) # ns)"
      using True by (auto simp: block_def word_le_nat_alt)
    ultimately show ?thesis
      using True na ok by (auto simp: x assertL_def)
  next
    case False
    from ok have "nodes_ok (unat a + unat n + 1) (unat mx) ns" by simp
    from Cons.IH[OF this] obtain res where res: "take_first mx sz ns = Inr res"
      and r: "case res of
       None \<Rightarrow> \<forall>(a, n)\<in>set ns. n < sz
     | Some (p, ns') \<Rightarrow> nodes_ok (unat a + unat n + 1) (unat mx) ns' \<and> block p (unat sz) \<subseteq> nbytes ns
         \<and> nbytes ns' = nbytes ns - block p (unat sz) \<and> 8 dvd unat p \<and> nsum ns' + unat sz = nsum ns"
      by blast
    show ?thesis
    proof (cases res)
      case None
      with res r False na show ?thesis by (auto simp: x assertL_def)
    next
      case (Some y)
      obtain p ns' where y: "y = (p, ns')" by force
      have "block a (unat n) \<inter> block p (unat sz) = {}"
        using r dis unfolding Some y by auto
      with res r False na ok show ?thesis
        unfolding Some y by (auto simp: x assertL_def)
    qed
  qed
qed

definition region_ok :: "lmm_region \<Rightarrow> bool" where
  "region_ok r \<longleftrightarrow> 0 < unat (rmin r) \<and> unat (rmin r) < unat (rmax r)
     \<and> 8 dvd unat (rmin r) \<and> 8 dvd unat (rmax r)
     \<and> nodes_ok (unat (rmin r)) (unat (rmax r)) (rnodes r) \<and> unat (rfree r) = nsum (rnodes r)"

definition span :: "lmm_region \<Rightarrow> nat set" where
  "span r = {unat (rmin r)..<unat (rmax r)}"

fun lmm_ok :: "lmm \<Rightarrow> bool" where
  "lmm_ok [] \<longleftrightarrow> True"
| "lmm_ok (r # rs) \<longleftrightarrow> region_ok r \<and> (\<forall>r'\<in>set rs. span r \<inter> span r' = {}) \<and> lmm_ok rs"

definition lmm_bytes :: "lmm \<Rightarrow> nat set" where
  "lmm_bytes L = (\<Union>r\<in>set L. nbytes (rnodes r))"

lemma lmm_bytes_simps [simp]: "lmm_bytes [] = {}" "lmm_bytes (r # rs) = nbytes (rnodes r) \<union> lmm_bytes rs"
  by (simp_all add: lmm_bytes_def)

lemma nsum_card: "nodes_ok lo hi ns \<Longrightarrow> nsum ns = card (nbytes ns) \<and> finite (nbytes ns)"
proof (induction ns arbitrary: lo)
  case (Cons x ns)
  obtain a n where x: "x = (a, n)" by force
  have "block a (unat n) \<inter> nbytes ns = {}"
    using Cons.prems nbytes_range[of "unat a + unat n + 1" hi ns] by (fastforce simp: x block_def)
  then have "card (block a (unat n) \<union> nbytes ns) = unat n + card (nbytes ns)"
    using Cons by (subst card_Un_disjoint) (auto simp: x block_def)
  with Cons show ?case by (auto simp: x block_def)
qed simp

lemma nbytes_span: "region_ok r \<Longrightarrow> nbytes (rnodes r) \<subseteq> span r"
  using nbytes_range by (fastforce simp: region_ok_def span_def)

lemma nsum_le_span:
  assumes "region_ok r"
  shows "nsum (rnodes r) \<le> unat (rmax r) - unat (rmin r)"
proof -
  have "nsum (rnodes r) = card (nbytes (rnodes r))" using assms nsum_card unfolding region_ok_def by blast
  also have "\<dots> \<le> card (span r)" using nbytes_span[OF assms] by (intro card_mono) (auto simp: span_def)
  finally show ?thesis by (simp add: span_def)
qed

lemma region_asserts_ok:
  assumes "region_ok r"
  shows "region_asserts r"
proof -
  have "rfree r \<le> rmax r - rmin r"
    using assms nsum_le_span[OF assms] by (auto simp: region_ok_def word_le_nat_alt unat_sub)
  moreover have "(first_addr (rnodes r) = 0 \<and> rfree r = 0) \<or> first_addr (rnodes r) \<ge> rmin r"
    using assms first_addr_ok[of "unat (rmin r)" "unat (rmax r)" "rnodes r"]
    by (auto simp: region_ok_def word_le_nat_alt first_addr_def unat_eq_zero)
  ultimately show ?thesis by (simp add: region_asserts_def)
qed

text \<open>Replacing the free list of a region.\<close>

lemma region_ok_update:
  assumes "region_ok r" "nodes_ok (unat (rmin r)) (unat (rmax r)) ns" "nsum ns = unat fr"
  shows "region_ok (r\<lparr>rnodes := ns, rfree := fr\<rparr>)" "span (r\<lparr>rnodes := ns, rfree := fr\<rparr>) = span r"
  using assms by (simp_all add: region_ok_def span_def)

lemma lmm_bytes_span: "lmm_ok rs \<Longrightarrow> x \<in> lmm_bytes rs \<Longrightarrow> \<exists>r\<in>set rs. x \<in> span r"
  by (induction rs) (use nbytes_span in auto)

lemma lmm_head_disjoint: "lmm_ok (r # rs) \<Longrightarrow> span r \<inter> lmm_bytes rs = {}"
  using lmm_bytes_span by fastforce

abbreviation spans :: "lmm \<Rightarrow> nat set list" where "spans L \<equiv> map span L"

lemma lmm_ok_spans: "spans rs = spans rs' \<Longrightarrow> (\<forall>r'\<in>set rs. A \<inter> span r' = {}) \<longleftrightarrow> (\<forall>r'\<in>set rs'. A \<inter> span r' = {})"
  by (metis (mono_tags, lifting) imageE image_eqI list.set_map)

lemma lmm_ok_ConsI:
  "lmm_ok (r # rs) \<Longrightarrow> region_ok r' \<Longrightarrow> span r' = span r \<Longrightarrow> lmm_ok rs' \<Longrightarrow> spans rs' = spans rs
    \<Longrightarrow> lmm_ok (r' # rs')"
  using lmm_ok_spans[of rs' rs "span r"] by simp

text \<open>What never changes of a region.\<close>

definition heads :: "lmm \<Rightarrow> lmm_region list" where
  "heads L = map (\<lambda>r. r\<lparr>rnodes := [], rfree := 0\<rparr>) L"

lemma heads_simps [simp]: "heads [] = []" "heads (r # rs) = r\<lparr>rnodes := [], rfree := 0\<rparr> # heads rs"
  by (simp_all add: heads_def)

lemma heads_spans: "heads L = heads L' \<Longrightarrow> spans L = spans L'"
proof -
  assume "heads L = heads L'"
  then have "spans (heads L) = spans (heads L')" by simp
  then show ?thesis by (simp add: heads_def span_def[abs_def] comp_def)
qed

definition alloc_post :: "lmm \<Rightarrow> u32 \<Rightarrow> nat \<Rightarrow> lmm \<Rightarrow> bool" where
  "alloc_post L p n L' \<longleftrightarrow> lmm_ok L' \<and> heads L' = heads L \<and> 0 < n
     \<and> (\<exists>r\<in>set L. block p n \<subseteq> nbytes (rnodes r)) \<and> lmm_bytes L' = lmm_bytes L - block p n"

lemma alloc_post_here:
  assumes "lmm_ok (r # rs)" "nodes_ok (unat (rmin r)) (unat (rmax r)) ns'" "0 < n"
    "block p n \<subseteq> nbytes (rnodes r)" "nbytes ns' = nbytes (rnodes r) - block p n"
    "nsum ns' = unat fr"
  shows "alloc_post (r # rs) p n (r\<lparr>rnodes := ns', rfree := fr\<rparr> # rs)"
proof -
  from assms(1) have r: "region_ok r" by simp
  have "block p n \<inter> lmm_bytes rs = {}"
    using lmm_head_disjoint[OF assms(1)] assms(4) nbytes_span[OF r] by blast
  moreover have "lmm_ok (r\<lparr>rnodes := ns', rfree := fr\<rparr> # rs)"
    using assms(1) region_ok_update[OF r assms(2,6)] by (intro lmm_ok_ConsI[OF assms(1)]) simp_all
  ultimately show ?thesis
    using assms region_ok_update(2)[OF r assms(2,6)]
    by (auto simp: alloc_post_def simp del: lmm_ok.simps)
qed

lemma alloc_post_later:
  assumes "lmm_ok (r # rs)" "alloc_post rs p n rs'"
  shows "alloc_post (r # rs) p n (r # rs')"
proof -
  have "span r \<inter> block p n = {}"
    using lmm_head_disjoint[OF assms(1)] assms(2) by (fastforce simp: alloc_post_def lmm_bytes_def)
  moreover have "region_ok r" using assms(1) by simp
  ultimately have "nbytes (rnodes r) \<inter> block p n = {}" using nbytes_span by blast
  moreover have "lmm_ok (r # rs')"
    using assms heads_spans[of rs' rs] by (intro lmm_ok_ConsI[OF assms(1)]) (simp_all add: alloc_post_def)
  ultimately show ?thesis
    using assms by (auto simp: alloc_post_def simp del: lmm_ok.simps)
qed

lemma alloc_regions_spec:
  assumes "8 dvd unat sz" "0 < unat sz"
  shows "lmm_ok L \<Longrightarrow> \<exists>p L'. alloc_regions sz fl L = Inr (p, L') \<and>
    ((p = 0 \<and> L' = L \<and> (\<forall>r\<in>set L. fl AND NOT (rflags r) = 0 \<longrightarrow> (\<forall>(a, n)\<in>set (rnodes r). n < sz)))
     \<or> (8 dvd unat p \<and> alloc_post L p (unat sz) L'))"
proof (induction L)
  case (Cons r rs)
  from Cons.prems have r: "region_ok r" and rs: "lmm_ok rs" by simp_all
  note ra = region_asserts_ok[OF r]
  from Cons.IH[OF rs] obtain p L' where IH: "alloc_regions sz fl rs = Inr (p, L')"
    "(p = 0 \<and> L' = rs \<and> (\<forall>r\<in>set rs. fl AND NOT (rflags r) = 0 \<longrightarrow> (\<forall>(a, n)\<in>set (rnodes r). n < sz)))
     \<or> (8 dvd unat p \<and> alloc_post rs p (unat sz) L')" by blast
  from r have "nodes_ok (unat (rmin r)) (unat (rmax r)) (rnodes r)" by (simp add: region_ok_def)
  from take_first_spec[OF this assms] obtain res where res: "take_first (rmax r) sz (rnodes r) = Inr res"
    "case res of None \<Rightarrow> \<forall>(a, n)\<in>set (rnodes r). n < sz
     | Some (p, ns') \<Rightarrow> nodes_ok (unat (rmin r)) (unat (rmax r)) ns' \<and> block p (unat sz) \<subseteq> nbytes (rnodes r)
         \<and> nbytes ns' = nbytes (rnodes r) - block p (unat sz) \<and> 8 dvd unat p \<and> nsum ns' + unat sz = nsum (rnodes r)"
    by blast
  show ?case
  proof (cases "fl AND NOT (rflags r) \<noteq> 0 \<or> res = None")
    case True
    then have "alloc_regions sz fl (r # rs) = Inr (p, r # L')"
      using ra IH(1) res(1) by (auto simp: assertL_def)
    moreover have "alloc_post rs p (unat sz) L' \<Longrightarrow> alloc_post (r # rs) p (unat sz) (r # L')"
      using alloc_post_later[OF Cons.prems] by blast
    ultimately show ?thesis
      using IH(2) True res(2) by auto
  next
    case False
    then obtain q ns' where q: "res = Some (q, ns')" "fl AND NOT (rflags r) = 0" by auto
    with res r have n: "nsum ns' + unat sz = unat (rfree r)" by (simp add: region_ok_def)
    then have le: "sz \<le> rfree r" and sub: "nsum ns' = unat (rfree r - sz)"
      by (auto simp: word_le_nat_alt unat_sub)
    have "alloc_post (r # rs) q (unat sz) (r\<lparr>rnodes := ns', rfree := rfree r - sz\<rparr> # rs)"
      using res(2) q assms(2) by (intro alloc_post_here[OF Cons.prems _ _ _ _ sub]) auto
    then show ?thesis using ra res q le by (auto simp: assertL_def)
  qed
qed simp

section \<open>Aligned allocation\<close>

text \<open>After \<open>k\<close> steps the low \<open>k\<close> bits agree with \<open>ofs\<close>, and the address was raised by
  less than \<open>2 ^ k\<close>.\<close>

lemma take_bit_Suc_agree:
  fixes a b :: u32
  assumes "take_bit k a = take_bit k b" "bit a k = bit b k"
  shows "take_bit (Suc k) a = take_bit (Suc k) b"
proof (rule bit_eqI)
  fix n
  have "bit (take_bit k a) n = bit (take_bit k b) n" using assms(1) by simp
  then show "bit (take_bit (Suc k) a) n = bit (take_bit (Suc k) b) n"
    using assms(2) by (auto simp: bit_take_bit_iff less_Suc_eq)
qed

lemma xor_bit_test: "((a XOR b) AND (2 :: u32) ^ k \<noteq> 0) \<longleftrightarrow> bit a k \<noteq> bit b k"
  using and_exp_eq_0_iff_not_bit[of "a XOR b" k] by (simp add: bit_xor_iff)

lemma add_exp_flips:
  fixes a :: u32
  assumes "k < 32"
  shows "bit (a + 2 ^ k) k = (\<not> bit a k)" "take_bit k (a + 2 ^ k) = take_bit k a"
proof -
  have "(2 :: nat) ^ k < 2 ^ 32" using assms by (simp only: power_strict_increasing_iff)
  then have p: "unat ((2 :: u32) ^ k) = 2 ^ k"
    using unat_of_nat[of "2 ^ k", where 'a=32] by simp
  have u: "unat (a + 2 ^ k) = take_bit 32 (unat a + 2 ^ k)"
    using assms by (simp add: unat_word_ariths p take_bit_eq_mod)
  then have "take_bit k (unat (a + 2 ^ k)) = take_bit k (unat a + 2 ^ k)"
    using assms by (simp only: take_bit_take_bit min_absorb1 less_imp_le)
  then have "take_bit k (unat (a + 2 ^ k)) = take_bit k (unat a)" by (simp add: take_bit_eq_mod)
  then show "take_bit k (a + 2 ^ k) = take_bit k a"
    by (metis unsigned_take_bit_eq word_unat_eq_iff)
  from u have "bit (unat (a + 2 ^ k)) k = bit (unat a + 2 ^ k) k"
    using assms by (simp add: bit_take_bit_iff)
  also have "\<dots> = (\<not> bit (unat a) k)" by (simp add: bit_iff_odd div_add_self2)
  finally show "bit (a + 2 ^ k) k = (\<not> bit a k)" by (simp add: bit_unsigned_iff)
qed

lemma align_addr_Suc: "align_addr (Suc k) ofs a = align_step ofs k (align_addr k ofs a)"
  by (simp add: align_addr_def)

lemma align_addr_agrees:
  "k \<le> 32 \<Longrightarrow> take_bit k (align_addr k ofs a) = take_bit k ofs"
proof (induction k)
  case (Suc k)
  let ?x = "align_addr k ofs a"
  from Suc have IH: "take_bit k ?x = take_bit k ofs" and k: "k < 32" by simp_all
  show ?case
    unfolding align_addr_Suc
    using IH k add_exp_flips[OF k, of ?x]
    by (intro take_bit_Suc_agree) (auto simp: align_step_def Let_def xor_bit_test push_bit_eq_mult)
qed (simp add: align_addr_def)

lemma align_addr_raise:
  "k \<le> 32 \<Longrightarrow> \<exists>d. align_addr k ofs a = a + of_nat d \<and> d < 2 ^ k"
proof (induction k)
  case (Suc k)
  then obtain d where d: "align_addr k ofs a = a + of_nat d" "d < 2 ^ k" by auto
  then have "d + 2 ^ k < 2 ^ Suc k" "d < 2 ^ Suc k" by simp_all
  then show ?case
    unfolding align_addr_Suc align_step_def Let_def d(1)
    by (intro exI[of _ "if ((a + of_nat d) XOR ofs) AND push_bit k 1 \<noteq> 0 then d + 2 ^ k else d"])
       (simp add: push_bit_eq_mult)
qed (simp add: align_addr_def)

lemma dvd8_le: "8 dvd (x::nat) \<Longrightarrow> 8 dvd y \<Longrightarrow> x < y + 8 \<Longrightarrow> x \<le> y"
  by (elim dvdE) simp

lemma carve_spec:
  assumes ok: "nodes_ok lo hi ((a, n) # ns)" and hi: "hi < 2 ^ 32" and sz: "0 < unat sz"
    and fit: "unat a \<le> unat addr" "unat addr + unat sz \<le> unat a + unat n"
  shows "\<exists>sz' ns'. carve addr sz a n ns = Inr (sz', ns') \<and> unat sz' = round8 (unat addr mod 8 + unat sz)
    \<and> nodes_ok lo hi ns' \<and> block (align_down addr) (unat sz') \<subseteq> nbytes ((a, n) # ns)
    \<and> nbytes ns' = nbytes ((a, n) # ns) - block (align_down addr) (unat sz')
    \<and> nsum ns' + unat sz' = nsum ((a, n) # ns)"
proof -
  let ?b = "align_down addr"
  let ?s = "((addr AND ALIGN_MASK) + sz + ALIGN_MASK) AND NOT ALIGN_MASK"
  define s where "s = round8 (unat addr mod 8 + unat sz)"
  from ok have al: "8 dvd unat a" "8 dvd unat n" and le: "unat a + unat n \<le> hi" "lo \<le> unat a"
    and ns: "nodes_ok (unat a + unat n + 1) hi ns" by simp_all
  have ub: "unat ?b = unat addr - unat addr mod 8" by (rule unat_align_down)
  have b8: "8 dvd unat ?b" by (simp add: ub)
  have ab: "unat a \<le> unat ?b" 
    using al(1) fit(1) b8 unfolding ub by (intro dvd8_le) (auto simp: ub)
  have s8: "8 dvd s" and s_ge: "unat addr mod 8 + unat sz \<le> s" and s_lt: "s < unat addr mod 8 + unat sz + 8"
    using round8 by (simp_all add: s_def)
  have mb: "unat ?b + unat addr mod 8 = unat addr" by (simp add: ub)
  have end_le: "unat ?b + s \<le> unat a + unat n"
    using al b8 s8 s_lt fit(2) mb by (intro dvd8_le) auto
  have "s < 2 ^ 32" using end_le le(1) hi by linarith
  then have "s + 8 \<le> 2 ^ 32" using s8 by (elim dvdE) simp
  then have us: "unat ?s = s"
    unfolding s_def using s_ge[unfolded s_def] by (intro unat_round_ofs) linarith
  have ge: "a \<le> ?b" using ab by (simp add: word_le_nat_alt)
  have gt: "a < ?b \<longleftrightarrow> unat a < unat ?b" by (simp add: word_less_nat_alt)
  have split: "unat (?b - a) = unat ?b - unat a" using ge by (simp add: unat_sub)
  have split8: "(?b - a) AND ALIGN_MASK = 0"
    using al(1) b8 split by (simp add: aligned8_iff)
  define asize where "asize = (if a < ?b then n - (?b - a) else n)"
  have ua: "unat asize = unat a + unat n - unat ?b"
  proof (cases "a < ?b")
    case True
    have "?b - a \<le> n" using split end_le by (simp add: word_le_nat_alt)
    with True split ab show ?thesis by (simp add: asize_def unat_sub)
  qed (use ab gt in \<open>simp add: asize_def\<close>)
  have after: "unat (?b + ?s) = unat ?b + s" "s < unat asize \<Longrightarrow> unat (asize - ?s) = unat asize - s"
    using end_le le(1) hi us by (auto simp: unat_plus_if' unat_sub word_le_nat_alt)
  define ns' where "ns' = (if a < ?b then [(a, ?b - a)] else [])
      @ (if ?s < asize then [(?b + ?s, asize - ?s)] else []) @ ns"
  have carve: "carve addr sz a n ns = Inr (?s, ns')"
    using ge split8 by (simp add: carve_def Let_def assertL_def ns'_def asize_def)
  have s0: "0 < s" using s_ge sz by linarith
  have rest: "y \<in> nbytes ns \<Longrightarrow> unat a + unat n < y" for y using nbytes_range[OF ns] by fastforce
  have lt: "?s < asize \<longleftrightarrow> unat ?b + s < unat a + unat n"
    using ua us ab by (auto simp: word_less_nat_alt)
  have "nodes_ok lo hi ns'"
    using ns le ab al b8 s8 s0 ua us after end_le split
    by (auto simp: ns'_def gt lt intro!: nodes_ok_mono[OF ns])
  moreover have "nbytes ns' = nbytes ((a, n) # ns) - block ?b s"
    using rest ua us after end_le split ab
    by (auto simp: ns'_def gt lt block_def) (force+)
  moreover have "nsum ns' + s = nsum ((a, n) # ns)"
    using ua us after end_le split ab by (auto simp: ns'_def gt lt)
  moreover have "block ?b s \<subseteq> nbytes ((a, n) # ns)"
    using ab end_le by (auto simp: block_def)
  ultimately show ?thesis using carve us by (auto simp: s_def)
qed

lemma aligned_candidate:
  assumes bits: "bits \<le> 32" and room: "unat in_min + 2 ^ bits + unat sz \<le> 2 ^ 32"
    and fit: "unat a + unat n < 2 ^ 32"
    and addr: "addr = align_addr bits ofs (if a < in_min then in_min else a)"
    and ok: "\<not> addr - a + sz > n"
  shows "unat a \<le> unat addr" "unat addr + unat sz \<le> unat a + unat n" "unat in_min \<le> unat addr"
proof -
  define st where "st = (if a < in_min then in_min else a)"
  obtain d where d: "addr = st + of_nat d" "d < 2 ^ bits"
    using align_addr_raise[OF bits, of ofs st] addr by (auto simp: st_def)
  have st: "unat st = max (unat a) (unat in_min)" by (simp add: st_def word_less_nat_alt max_def)
  then have ge: "unat a \<le> unat st" by simp
  have total: "unat st - unat a + d + unat sz < 2 ^ 32" using room d(2) unfolding st by auto
  have "addr - a + sz = of_nat (unat st - unat a + d + unat sz)"
    by (subst of_nat_add, subst of_nat_add, subst of_nat_diff) (use ge in \<open>simp_all add: d(1)\<close>)
  then have "unat (addr - a + sz) = unat st - unat a + d + unat sz"
    by (simp only: unat_of_nat_eq[OF total])
  with ok have le: "unat st - unat a + d + unat sz \<le> unat n" by (simp add: word_less_nat_alt not_less)
  then have "unat st + d < 2 ^ 32" using fit st by linarith
  moreover have "addr = of_nat (unat st + d)" by (simp add: d(1))
  ultimately have ua: "unat addr = unat st + d" by (simp only: unat_of_nat_eq)
  show "unat a \<le> unat addr" "unat addr + unat sz \<le> unat a + unat n" "unat in_min \<le> unat addr"
    using ua le st by linarith+
qed

definition gen_post :: "u32 \<Rightarrow> nat \<Rightarrow> u32 \<Rightarrow> u32 \<Rightarrow> u32 \<Rightarrow> u32 \<Rightarrow> bool" where
  "gen_post sz bits ofs in_min in_max p \<longleftrightarrow>
     take_bit bits p = take_bit bits ofs \<and> unat in_min \<le> unat p \<and> unat p + unat sz \<le> unat in_max"

lemma take_gen_spec:
  assumes bits: "bits \<le> 32" and room: "unat in_min + 2 ^ bits + unat sz \<le> 2 ^ 32" and sz: "0 < unat sz"
    and ok: "nodes_ok lo (unat mx) ns"
  shows "\<exists>res. take_gen mx sz bits ofs in_min in_max ns = Inr res \<and>
    (case res of None \<Rightarrow> True
     | Some (p, sz', ns') \<Rightarrow> gen_post sz bits ofs in_min in_max p
         \<and> unat sz' = round8 (unat p mod 8 + unat sz) \<and> nodes_ok lo (unat mx) ns'
         \<and> block (align_down p) (unat sz') \<subseteq> nbytes ns
         \<and> nbytes ns' = nbytes ns - block (align_down p) (unat sz') \<and> nsum ns' + unat sz' = nsum ns)"
  using ok
proof (induction ns arbitrary: lo)
  case (Cons x ns)
  obtain a n where x: "x = (a, n)" by force
  note ok = Cons.prems[unfolded x]
  from ok have na: "node_asserts mx a n ns" by (rule node_asserts_ok)
  have hi: "unat mx < 2 ^ 32" using unsigned_less[of mx, where 'a=nat] by simp
  define addr where "addr = align_addr bits ofs (if a < in_min then in_min else a)"
  consider (skip) "n < sz \<or> addr - a + sz > n" | (stop) "\<not> n < sz" "\<not> addr - a + sz > n" "addr + sz > in_max"
    | (take) "\<not> n < sz" "\<not> addr - a + sz > n" "\<not> addr + sz > in_max" by blast
  then show ?case
  proof cases
    case skip
    then have eq: "take_gen mx sz bits ofs in_min in_max (x # ns) =
      map_sum id (map_option (map_prod id (map_prod id ((#) (a, n))))) (take_gen mx sz bits ofs in_min in_max ns)"
      using na by (auto simp: x assertL_def Let_def addr_def)
    have "nodes_ok (unat a + unat n + 1) (unat mx) ns" using ok by simp
    from Cons.IH[OF this] obtain res where res: "take_gen mx sz bits ofs in_min in_max ns = Inr res"
      and r: "case res of None \<Rightarrow> True
     | Some (p, sz', ns') \<Rightarrow> gen_post sz bits ofs in_min in_max p
         \<and> unat sz' = round8 (unat p mod 8 + unat sz) \<and> nodes_ok (unat a + unat n + 1) (unat mx) ns'
         \<and> block (align_down p) (unat sz') \<subseteq> nbytes ns
         \<and> nbytes ns' = nbytes ns - block (align_down p) (unat sz') \<and> nsum ns' + unat sz' = nsum ns"
      by blast
    have "y \<in> nbytes ns \<Longrightarrow> unat a + unat n < y" for y using ok nbytes_range by fastforce
    then have dis: "block a (unat n) \<inter> nbytes ns = {}" by (fastforce simp: block_def)
    show ?thesis
    proof (cases res)
      case (Some y)
      obtain p sz' ns' where y: "y = (p, sz', ns')" by (cases y) auto
      have "block a (unat n) \<inter> block (align_down p) (unat sz') = {}" using r dis unfolding Some y by auto
      with eq res r ok show ?thesis unfolding Some y by (auto simp: x)
    qed (use eq res in simp)
  next
    case stop
    then show ?thesis using na by (simp add: x assertL_def Let_def addr_def)
  next
    case take
    have fit: "unat a + unat n < 2 ^ 32" using ok hi by simp
    note c = aligned_candidate[OF bits room fit addr_def take(2)]
    from carve_spec[OF ok hi sz c(1,2)] obtain sz' ns' where cv: "carve addr sz a n ns = Inr (sz', ns')"
      "unat sz' = round8 (unat addr mod 8 + unat sz)" "nodes_ok lo (unat mx) ns'"
      "block (align_down addr) (unat sz') \<subseteq> nbytes ((a, n) # ns)"
      "nbytes ns' = nbytes ((a, n) # ns) - block (align_down addr) (unat sz')"
      "nsum ns' + unat sz' = nsum ((a, n) # ns)" by blast
    have "unat (addr + sz) = unat addr + unat sz" using c(2) fit by (simp add: unat_plus_if')
    then have "gen_post sz bits ofs in_min in_max addr"
      using c(3) take(3) align_addr_agrees[OF bits, of ofs "if a < in_min then in_min else a", folded addr_def]
      by (auto simp: gen_post_def word_less_nat_alt)
    moreover have "take_gen mx sz bits ofs in_min in_max (x # ns) = Inr (Some (addr, sz', ns'))"
      using take na cv(1) by (simp add: x assertL_def Let_def flip: addr_def)
    ultimately show ?thesis using cv by (simp add: x)
  qed
qed simp

lemma gen_regions_spec:
  assumes bits: "bits \<le> 32" and room: "unat in_min + 2 ^ bits + unat sz \<le> 2 ^ 32" and sz: "0 < unat sz"
  shows "lmm_ok L \<Longrightarrow> \<exists>p L'. gen_regions sz fl bits ofs in_min in_max L = Inr (p, L') \<and>
    ((p = 0 \<and> L' = L) \<or> (gen_post sz bits ofs in_min in_max p
       \<and> alloc_post L (align_down p) (round8 (unat p mod 8 + unat sz)) L'))"
proof (induction L)
  case (Cons r rs)
  from Cons.prems have r: "region_ok r" and rs: "lmm_ok rs" by simp_all
  note ra = region_asserts_ok[OF r]
  from Cons.IH[OF rs] obtain p L' where IH: "gen_regions sz fl bits ofs in_min in_max rs = Inr (p, L')"
    "(p = 0 \<and> L' = rs) \<or> (gen_post sz bits ofs in_min in_max p
       \<and> alloc_post rs (align_down p) (round8 (unat p mod 8 + unat sz)) L')" by blast
  from r have "nodes_ok (unat (rmin r)) (unat (rmax r)) (rnodes r)" by (simp add: region_ok_def)
  from take_gen_spec[OF assms this, of ofs in_max] obtain res
    where res: "take_gen (rmax r) sz bits ofs in_min in_max (rnodes r) = Inr res"
    and post: "case res of None \<Rightarrow> True
     | Some (p, sz', ns') \<Rightarrow> gen_post sz bits ofs in_min in_max p
         \<and> unat sz' = round8 (unat p mod 8 + unat sz) \<and> nodes_ok (unat (rmin r)) (unat (rmax r)) ns'
         \<and> block (align_down p) (unat sz') \<subseteq> nbytes (rnodes r)
         \<and> nbytes ns' = nbytes (rnodes r) - block (align_down p) (unat sz') \<and> nsum ns' + unat sz' = nsum (rnodes r)"
    by blast
  show ?case
  proof (cases "(fl AND NOT (rflags r) \<noteq> 0 \<or> rmin r \<ge> in_max \<or> rmax r \<le> in_min) \<or> res = None")
    case True
    then have "gen_regions sz fl bits ofs in_min in_max (r # rs) = Inr (p, r # L')"
      using ra IH(1) res by (auto simp: assertL_def Let_def)
    then show ?thesis using IH(2) alloc_post_later[OF Cons.prems] by blast
  next
    case False
    then obtain q sz' ns' where q: "res = Some (q, sz', ns')" by auto
    with post r have n: "nsum ns' + unat sz' = unat (rfree r)" by (simp add: region_ok_def)
    then have le: "sz' \<le> rfree r" and sub: "nsum ns' = unat (rfree r - sz')"
      by (auto simp: word_le_nat_alt unat_sub)
    have "0 < unat sz'" using post sz round8(2)[of "unat q mod 8 + unat sz"] unfolding q by auto
    then have "alloc_post (r # rs) (align_down q) (unat sz') (r\<lparr>rnodes := ns', rfree := rfree r - sz'\<rparr> # rs)"
      using post q by (intro alloc_post_here[OF Cons.prems _ _ _ _ sub]) auto
    then show ?thesis using ra res q le False post by (auto simp: assertL_def Let_def)
  qed
qed simp

section \<open>Release\<close>

text \<open>The freed block joined with the free block right after it.\<close>

definition join_next :: "u32 \<Rightarrow> u32 \<Rightarrow> lmm_node list \<Rightarrow> lmm_node list" where
  "join_next node sz nxt = (case nxt of
     (q, qn) # rest \<Rightarrow> if node + sz \<ge> q then (node, sz + qn) # rest else (node, sz) # nxt
   | [] \<Rightarrow> [(node, sz)])"

lemma block_join: "unat b = unat a + m \<Longrightarrow> block a m \<union> block b n = block a (m + n)"
  by (auto simp: block_def)

lemma nodes_ok_after:
  assumes "nodes_ok lo hi ns" "ns = [] \<or> node \<le> first_addr ns" "block node n \<inter> nbytes ns = {}"
  shows "nodes_ok (unat node + n) hi ns"
proof (cases ns)
  case (Cons x rest)
  obtain q qn where x: "x = (q, qn)" by force
  from assms(1) have "unat q \<in> nbytes ns" by (simp add: Cons x block_def)
  with assms(3) have "unat q \<notin> block node n" by blast
  with assms(2) have "unat node + n \<le> unat q" by (auto simp: block_def Cons x first_addr_def word_le_nat_alt)
  with assms(1) show ?thesis by (simp add: Cons x)
qed simp

lemma join_next_spec:
  assumes nx: "nodes_ok (unat node + unat sz) hi nxt" and hi: "hi < 2 ^ 32" "unat node + unat sz \<le> hi"
    and al: "8 dvd unat node" "8 dvd unat sz" "0 < unat sz"
  obtains m rest where "join_next node sz nxt = (node, m) # rest" "nodes_ok (unat node) hi ((node, m) # rest)"
    "nbytes ((node, m) # rest) = block node (unat sz) \<union> nbytes nxt" "nsum ((node, m) # rest) = unat sz + nsum nxt"
proof (cases nxt)
  case Nil
  with that[of sz "[]"] al hi show ?thesis by (simp add: join_next_def)
next
  case (Cons x rest)
  obtain q qn where x: "x = (q, qn)" by force
  have u: "unat (node + sz) = unat node + unat sz" using hi by (simp add: unat_plus_if')
  show ?thesis
  proof (cases "node + sz \<ge> q")
    case True
    with nx have q: "unat q = unat node + unat sz" by (simp add: Cons x word_le_nat_alt u)
    have s: "unat (sz + qn) = unat sz + unat qn"
      using nx hi by (simp add: Cons x q unat_plus_if')
    show ?thesis
    proof (rule that[of "sz + qn" rest])
      show "join_next node sz nxt = (node, sz + qn) # rest" using True by (simp add: join_next_def Cons x)
      show "nodes_ok (unat node) hi ((node, sz + qn) # rest)" using nx al by (simp add: Cons x q s add.assoc)
      show "nbytes ((node, sz + qn) # rest) = block node (unat sz) \<union> nbytes nxt"
        using block_join[OF q, of "unat qn"] by (simp add: Cons x s Un_assoc[symmetric])
      show "nsum ((node, sz + qn) # rest) = unat sz + nsum nxt" by (simp add: Cons x s)
    qed
  next
    case False
    then have "unat node + unat sz < unat q" by (simp add: word_le_nat_alt u)
    with that[of sz nxt] False nx al hi show ?thesis by (auto simp: join_next_def Cons x)
  qed
qed

lemma free_here_None: "free_here None node sz nxt = Inr (join_next node sz nxt)"
  by (simp add: free_here_def join_next_def)

lemma free_here_Some:
  assumes nx: "nodes_ok (unat node + unat sz) hi nxt" and hi: "hi < 2 ^ 32" "unat node + unat sz \<le> hi"
    and al: "8 dvd unat node" "8 dvd unat sz" "0 < unat sz"
    and p: "nodes_ok lo hi [(p, pn)]" "unat p + unat pn \<le> unat node"
  shows "\<exists>ns'. free_here (Some (p, pn)) node sz nxt = Inr ns' \<and> nodes_ok lo hi ns'
    \<and> nbytes ns' = block p (unat pn) \<union> block node (unat sz) \<union> nbytes nxt
    \<and> nsum ns' = unat pn + unat sz + nsum nxt"
proof -
  from join_next_spec[OF nx hi al] obtain m rest where J: "join_next node sz nxt = (node, m) # rest"
    "nodes_ok (unat node) hi ((node, m) # rest)"
    "nbytes ((node, m) # rest) = block node (unat sz) \<union> nbytes nxt" "nsum ((node, m) # rest) = unat sz + nsum nxt" .
  have up: "unat (p + pn) = unat p + unat pn" using p hi by (simp add: unat_plus_if')
  have us: "unat (node + sz) = unat node + unat sz" using hi by (simp add: unat_plus_if')
  show ?thesis
  proof (cases "p + pn \<ge> node")
    case True
    with p(2) have eq: "p + pn = node" by (simp add: word_le_nat_alt up flip: word_unat_eq_iff)
      (metis True le_antisym up word_le_nat_alt word_unat_eq_iff)
    then have ueq: "unat node = unat p + unat pn" using up by simp
    have exact: "node + sz = q" if "nxt = (q, qn) # r" "node + sz \<ge> q" for q qn r
      using that nx us by (auto simp: word_le_nat_alt word_unat_eq_iff)
    have "free_here (Some (p, pn)) node sz nxt = Inr ((p, pn + m) # rest)"
      using J(1) eq exact by (auto simp: free_here_def assertL_def join_next_def split: list.splits prod.splits if_splits)
    moreover have um: "unat (pn + m) = unat pn + unat m"
      using J(2) hi(1) ueq by (simp add: unat_plus_if')
    moreover have "nodes_ok lo hi ((p, pn + m) # rest)" using J(2) p ueq um by (simp add: add.assoc)
    moreover have "nbytes ((p, pn + m) # rest) = block p (unat pn) \<union> block node (unat sz) \<union> nbytes nxt"
      using J(3) by (simp add: um block_join[OF ueq, symmetric] Un_assoc)
    moreover have "nsum ((p, pn + m) # rest) = unat pn + unat sz + nsum nxt" using J(4) by (simp add: um)
    ultimately show ?thesis by blast
  next
    case False
    then have gap: "unat p + unat pn < unat node" by (simp add: word_le_nat_alt up)
    have "free_here (Some (p, pn)) node sz nxt = Inr ((p, pn) # join_next node sz nxt)"
      using False by (simp add: free_here_def join_next_def)
    moreover have "nodes_ok lo hi ((p, pn) # join_next node sz nxt)" using J p gap by simp
    ultimately show ?thesis using J by (auto simp: Un_assoc)
  qed
qed

lemma free_node_Some:
  assumes "nodes_ok lo hi ((p, pn) # ns)" "hi < 2 ^ 32" "unat node + unat sz \<le> hi"
    and al: "8 dvd unat node" "8 dvd unat sz" "0 < unat sz"
    and "unat p < unat node" "block node (unat sz) \<inter> nbytes ((p, pn) # ns) = {}"
  shows "\<exists>ns'. free_node (Some (p, pn)) node sz ns = Inr ns' \<and> nodes_ok lo hi ns'
    \<and> nbytes ns' = nbytes ((p, pn) # ns) \<union> block node (unat sz)
    \<and> nsum ns' = nsum ((p, pn) # ns) + unat sz"
  using assms(1,7,8)
proof (induction ns arbitrary: lo p pn)
  case Nil
  have pe: "unat p + unat pn \<le> unat node"
  proof (rule ccontr)
    assume "\<not> ?thesis"
    with Nil(2) al have "unat node \<in> block node (unat sz) \<inter> block p (unat pn)" by (auto simp: block_def)
    with Nil(3) show False by auto
  qed
  from Nil free_here_Some[OF _ assms(2,3) al _ pe, of "[]" lo] show ?case by (auto simp: Un_ac)
next
  case (Cons x ns)
  obtain q qn where x: "x = (q, qn)" by force
  have pe: "unat p + unat pn \<le> unat node"
  proof (rule ccontr)
    assume "\<not> ?thesis"
    with Cons.prems(2) al have "unat node \<in> block node (unat sz) \<inter> block p (unat pn)" by (auto simp: block_def)
    with Cons.prems(3) show False by auto
  qed
  show ?case
  proof (cases "q < node")
    case True
    from Cons.prems have tl: "nodes_ok (unat p + unat pn + 1) hi ((q, qn) # ns)" by (simp add: x)
    have q: "unat q < unat node" using True by (simp add: word_less_nat_alt)
    have dq: "block node (unat sz) \<inter> nbytes ((q, qn) # ns) = {}" using Cons.prems(3) by (auto simp: x)
    from Cons.IH[OF tl q dq] obtain ns' where "free_node (Some (q, qn)) node sz ns = Inr ns'"
      "nodes_ok (unat p + unat pn + 1) hi ns'" "nbytes ns' = nbytes ((q, qn) # ns) \<union> block node (unat sz)"
      "nsum ns' = nsum ((q, qn) # ns) + unat sz" by blast
    with Cons.prems True show ?thesis by (auto simp: x)
  next
    case False
    have "nodes_ok (unat node + unat sz) hi (x # ns)"
    proof (rule nodes_ok_after)
      show "nodes_ok (unat p + unat pn + 1) hi (x # ns)" using Cons.prems(1) by simp
      show "x # ns = [] \<or> node \<le> first_addr (x # ns)" using False by (simp add: x first_addr_def)
      show "block node (unat sz) \<inter> nbytes (x # ns) = {}" using Cons.prems(3) by auto
    qed
    from free_here_Some[OF this assms(2,3) al _ pe, of lo] Cons.prems(1) False
    show ?thesis by (auto simp: x Un_ac)
  qed
qed

lemma free_node_None:
  assumes ok: "nodes_ok lo hi ns" and hi: "hi < 2 ^ 32" "unat node + unat sz \<le> hi" and lo: "lo \<le> unat node"
    and al: "8 dvd unat node" "8 dvd unat sz" "0 < unat sz" and dis: "block node (unat sz) \<inter> nbytes ns = {}"
  shows "\<exists>ns'. free_node None node sz ns = Inr ns' \<and> nodes_ok lo hi ns'
    \<and> nbytes ns' = nbytes ns \<union> block node (unat sz) \<and> nsum ns' = nsum ns + unat sz"
proof (cases "ns \<noteq> [] \<and> first_addr ns < node")
  case True
  then obtain q qn rest where ns: "ns = (q, qn) # rest" "q < node"
    by (cases ns) (auto simp: first_addr_def)
  then have "unat q < unat node" by (simp add: word_less_nat_alt)
  from free_node_Some[OF ok[unfolded ns(1)] hi al this dis[unfolded ns(1)]] show ?thesis
    using ns by auto
next
  case False
  have "nodes_ok (unat node + unat sz) hi ns"
    using False by (intro nodes_ok_after[OF ok _ dis]) auto
  from join_next_spec[OF this hi al] obtain m rest where J: "join_next node sz ns = (node, m) # rest"
    "nodes_ok (unat node) hi ((node, m) # rest)" "nbytes ((node, m) # rest) = block node (unat sz) \<union> nbytes ns"
    "nsum ((node, m) # rest) = unat sz + nsum ns" .
  have "free_node None node sz ns = Inr (join_next node sz ns)"
    using False by (cases ns) (auto simp: free_here_None first_addr_def)
  with J nodes_ok_mono[OF J(2) lo] show ?thesis by (auto simp: Un_ac)
qed

definition free_post :: "lmm \<Rightarrow> u32 \<Rightarrow> nat \<Rightarrow> lmm \<Rightarrow> bool" where
  "free_post L p n L' \<longleftrightarrow> lmm_ok L' \<and> heads L' = heads L \<and> lmm_bytes L' = lmm_bytes L \<union> block p n"

lemma free_regions_spec:
  assumes al: "8 dvd unat node" "8 dvd unat sz" "0 < unat sz"
  shows "lmm_ok L \<Longrightarrow> \<exists>r\<in>set L. block node (unat sz) \<subseteq> span r \<Longrightarrow> block node (unat sz) \<inter> lmm_bytes L = {}
    \<Longrightarrow> \<exists>L'. free_regions node sz L = Inr L' \<and> free_post L node (unat sz) L'"
proof (induction L)
  case (Cons r rs)
  from Cons.prems have r: "region_ok r" and rs: "lmm_ok rs" by simp_all
  have ra: "(first_addr (rnodes r) = 0 \<and> rfree r = 0) \<or> first_addr (rnodes r) \<ge> rmin r"
    using region_asserts_ok[OF r] by (simp add: region_asserts_def)
  have nb: "unat node \<in> block node (unat sz)" using al by (simp add: block_def)
  have mx: "unat (rmax r) < 2 ^ 32" using unsigned_less[of "rmax r", where 'a=nat] by simp
  show ?case
  proof (cases "unat node \<in> span r")
    case True
    have sub: "block node (unat sz) \<subseteq> span r"
    proof -
      from Cons.prems(2) obtain r' where r': "r' \<in> set (r # rs)" "block node (unat sz) \<subseteq> span r'" by blast
      with True nb Cons.prems(1) show ?thesis by auto
    qed
    then have hi: "unat node + unat sz \<le> unat (rmax r)" and lo: "unat (rmin r) \<le> unat node"
      using al(3) by (auto simp: block_def span_def)
    have "block node (unat sz) \<inter> nbytes (rnodes r) = {}" using Cons.prems(3) by auto
    with r free_node_None[OF _ mx hi lo al] obtain ns' where ns': "free_node None node sz (rnodes r) = Inr ns'"
      "nodes_ok (unat (rmin r)) (unat (rmax r)) ns'" "nbytes ns' = nbytes (rnodes r) \<union> block node (unat sz)"
      "nsum ns' = nsum (rnodes r) + unat sz" unfolding region_ok_def by blast
    have "nsum ns' = card (nbytes ns')" using nsum_card[OF ns'(2)] by simp
    also have "\<dots> \<le> card (span r)"
      using nbytes_range[OF ns'(2)] by (intro card_mono) (auto simp: span_def)
    finally have tot: "unat (rfree r) + unat sz \<le> unat (rmax r) - unat (rmin r)"
      using ns'(4) r by (simp add: span_def region_ok_def)
    then have "unat (rfree r) + unat sz < 2 ^ 32" using mx by linarith
    then have uf: "unat (rfree r + sz) = unat (rfree r) + unat sz" by (simp add: unat_plus_if')
    have "unat (rmax r - rmin r) = unat (rmax r) - unat (rmin r)"
      using r by (simp add: region_ok_def unat_sub word_le_nat_alt)
    with tot uf have asr: "rfree r + sz \<le> rmax r - rmin r" by (simp add: word_le_nat_alt)
    have eq: "free_regions node sz (r # rs) = Inr (r\<lparr>rnodes := ns', rfree := rfree r + sz\<rparr> # rs)"
      using ra True asr ns'(1) by (simp add: assertL_def span_def word_le_nat_alt word_less_nat_alt)
    have "nsum ns' = unat (rfree r + sz)" using ns'(4) uf r by (simp add: region_ok_def)
    note up = region_ok_update[OF r ns'(2) this]
    have "lmm_ok (r\<lparr>rnodes := ns', rfree := rfree r + sz\<rparr> # rs)"
      using up rs by (intro lmm_ok_ConsI[OF Cons.prems(1)]) simp_all
    with eq up ns'(3) show ?thesis by (auto simp: free_post_def simp del: lmm_ok.simps)
  next
    case False
    with nb Cons.prems(2) have ex: "\<exists>r\<in>set rs. block node (unat sz) \<subseteq> span r" by auto
    from Cons.IH[OF rs ex] Cons.prems(3) obtain L' where L': "free_regions node sz rs = Inr L'"
      "free_post rs node (unat sz) L'" by auto
    have "lmm_ok (r # L')"
      using L'(2) r heads_spans[of L' rs] by (intro lmm_ok_ConsI[OF Cons.prems(1)]) (simp_all add: free_post_def)
    moreover have "\<not> (rmin r \<le> node \<and> node < rmax r)"
      using False by (simp add: span_def word_le_nat_alt word_less_nat_alt)
    ultimately show ?thesis
      using L' ra by (auto simp: free_post_def assertL_def simp del: lmm_ok.simps)
  qed
qed simp

text \<open>A fully coalesced list is determined by the bytes it covers.\<close>

lemma nodes_ok_canonical:
  "nodes_ok lo hi xs \<Longrightarrow> nodes_ok lo' hi' ys \<Longrightarrow> nbytes xs = nbytes ys \<Longrightarrow> xs = ys"
proof (induction xs arbitrary: lo lo' ys)
  case Nil
  then show ?case by (cases ys) (auto simp: block_def)
next
  case (Cons x xs)
  obtain a n where x: "x = (a, n)" by force
  from Cons.prems(1,3) have "ys \<noteq> []" by (auto simp: x block_def)
  then obtain b m zs where ys: "ys = (b, m) # zs" by (cases ys) auto
  note oks = Cons.prems[unfolded x ys]
  have r1: "unat a + unat n < y" if "y \<in> nbytes xs" for y
    using nbytes_range[of "unat a + unat n + 1" hi xs y] oks(1) that by simp
  have r2: "unat b + unat m < y" if "y \<in> nbytes zs" for y
    using nbytes_range[of "unat b + unat m + 1" hi' zs y] oks(2) that by simp
  have mem: "y \<in> nbytes ((a, n) # xs) \<longleftrightarrow> y \<in> nbytes ((b, m) # zs)" for y using oks(3) by simp
  have ab: "unat a = unat b"
    using mem[of "unat a"] mem[of "unat b"] oks r1[of "unat b"] r2[of "unat a"] by (auto simp: block_def)
  have nm: "unat n = unat m"
    using mem[of "unat a + unat n"] mem[of "unat b + unat m"] oks ab r1[of "unat a + unat n"]
      r2[of "unat a + unat n"] r1[of "unat b + unat m"] r2[of "unat b + unat m"] by (auto simp: block_def)
  have eqs: "a = b" "n = m" using ab nm by (simp_all add: word_unat_eq_iff)
  have "nbytes xs = nbytes ((a, n) # xs) - block a (unat n)" using r1 by (fastforce simp: block_def)
  moreover have "nbytes zs = nbytes ((b, m) # zs) - block b (unat m)" using r2 by (fastforce simp: block_def)
  ultimately have "nbytes xs = nbytes zs" using oks(3) eqs by simp
  with Cons.IH[of _ _ zs] oks show ?case by (auto simp: x ys eqs)
qed

lemma alloc_post_bytes: "alloc_post L p n L' \<Longrightarrow> block p n \<subseteq> lmm_bytes L"
  by (auto simp: alloc_post_def lmm_bytes_def)

lemma lmm_ok_region: "lmm_ok L \<Longrightarrow> r \<in> set L \<Longrightarrow> region_ok r"
  by (induction L) auto

lemma alloc_post_span:
  "lmm_ok L \<Longrightarrow> alloc_post L p n L' \<Longrightarrow> \<exists>r\<in>set L. block p n \<subseteq> span r"
  using lmm_ok_region nbytes_span by (fastforce simp: alloc_post_def)

lemma alloc_post_nonzero: "lmm_ok L \<Longrightarrow> alloc_post L p n L' \<Longrightarrow> p \<noteq> 0"
proof
  assume ok: "lmm_ok L" and post: "alloc_post L p n L'" and "p = 0"
  from alloc_post_span[OF ok post] obtain r where r: "r \<in> set L" "block p n \<subseteq> span r" by blast
  moreover have "0 \<in> block p n" using post \<open>p = 0\<close> by (simp add: alloc_post_def block_def)
  ultimately show False using lmm_ok_region[OF ok r(1)] by (auto simp: span_def region_ok_def)
qed

lemma aligned_block: "block p n \<subseteq> block (align_down p) (round8 (unat p mod 8 + n))"
proof -
  have "unat p mod 8 + n \<le> round8 (unat p mod 8 + n)" by (rule round8(2))
  moreover have "unat (align_down p) + unat p mod 8 = unat p" by (simp add: unat_align_down)
  ultimately show ?thesis by (auto simp: block_def)
qed

lemma heads_map_simps: "map (\<lambda>r. r\<lparr>rnodes := [], rfree := 0\<rparr>) L = heads L" by (simp add: heads_def)

text \<open>Two pools with the same regions and the same free bytes are equal.\<close>

lemma lmm_canonical:
  "lmm_ok L \<Longrightarrow> lmm_ok L' \<Longrightarrow> heads L = heads L' \<Longrightarrow> lmm_bytes L = lmm_bytes L' \<Longrightarrow> L = L'"
proof (induction L arbitrary: L')
  case Nil
  then show ?case by (cases L') auto
next
  case (Cons r rs)
  from Cons.prems(3) obtain r' rs' where L': "L' = r' # rs'"
    and h: "r\<lparr>rnodes := [], rfree := 0\<rparr> = r'\<lparr>rnodes := [], rfree := 0\<rparr>" "heads rs = heads rs'"
    by (cases L') auto
  have "rmin (r\<lparr>rnodes := [], rfree := 0\<rparr>) = rmin (r'\<lparr>rnodes := [], rfree := 0\<rparr>)"
    "rmax (r\<lparr>rnodes := [], rfree := 0\<rparr>) = rmax (r'\<lparr>rnodes := [], rfree := 0\<rparr>)" using h(1) by simp_all
  then have mm: "rmin r = rmin r'" "rmax r = rmax r'" by simp_all
  then have sp: "span r = span r'" by (simp add: span_def)
  have ok: "region_ok r" "region_ok r'" using Cons.prems by (simp_all add: L')
  have d: "nbytes (rnodes r) \<subseteq> span r" "nbytes (rnodes r') \<subseteq> span r"
    "span r \<inter> lmm_bytes rs = {}" "span r \<inter> lmm_bytes rs' = {}"
    using nbytes_span[OF ok(1)] nbytes_span[OF ok(2)] lmm_head_disjoint[OF Cons.prems(1)] lmm_head_disjoint[of r' rs'] Cons.prems(2)
    by (simp_all add: sp L')
  have "nbytes (rnodes r) \<union> lmm_bytes rs = nbytes (rnodes r') \<union> lmm_bytes rs'" using Cons.prems(4) by (simp add: L')
  with d have nb: "nbytes (rnodes r) = nbytes (rnodes r')" and bs: "lmm_bytes rs = lmm_bytes rs'" by blast+
  have nodes: "rnodes r = rnodes r'"
    using nodes_ok_canonical[OF _ _ nb] ok unfolding region_ok_def by blast
  then have "unat (rfree r) = unat (rfree r')" using ok by (simp add: region_ok_def)
  then have "rfree r = rfree r'" by (simp add: word_unat_eq_iff)
  with nodes h(1) have "r = r'" by (cases r; cases r') simp
  moreover have "rs = rs'" using Cons.IH[of rs'] Cons.prems h(2) bs by (simp add: L')
  ultimately show ?case by (simp add: L')
qed

lemma lmm_alloc_spec:
  assumes ok: "lmm_ok L" and sz: "0 < unat sz" "unat sz + 7 < 2 ^ 32"
  shows "\<exists>p L'. lmm_alloc L sz fl = Inr (p, L') \<and>
    ((p = 0 \<and> L' = L \<and> (\<forall>r\<in>set L. fl AND NOT (rflags r) = 0 \<longrightarrow> (\<forall>(a, n)\<in>set (rnodes r). n < align_up sz)))
     \<or> (p \<noteq> 0 \<and> 8 dvd unat p \<and> alloc_post L p (round8 (unat sz)) L'))"
proof -
  have u: "unat (align_up sz) = round8 (unat sz)" by (rule unat_align_up[OF sz(2)])
  then have "8 dvd unat (align_up sz)" "0 < unat (align_up sz)"
    using round8(1,2)[of "unat sz"] sz(1) by (metis, linarith)
  from alloc_regions_spec[OF this ok, of fl] u alloc_post_nonzero[OF ok] sz(1) show ?thesis
    by (fastforce simp: lmm_alloc_def assertL_def word_less_nat_alt)
qed

lemma lmm_free_spec:
  assumes ok: "lmm_ok L" and sz: "0 < unat sz" and p: "0 < unat p"
    and small: "unat p mod 8 + unat sz + 7 < 2 ^ 32"
    and blk: "b = block (align_down p) (round8 (unat p mod 8 + unat sz))"
    and sp: "\<exists>r\<in>set L. b \<subseteq> span r" and dis: "b \<inter> lmm_bytes L = {}"
  shows "\<exists>L'. lmm_free L p sz = Inr L' \<and> free_post L (align_down p) (round8 (unat p mod 8 + unat sz)) L'"
proof -
  let ?s = "((p AND ALIGN_MASK) + sz + ALIGN_MASK) AND NOT ALIGN_MASK"
  have u: "unat ?s = round8 (unat p mod 8 + unat sz)" by (rule unat_round_ofs[OF small])
  have al: "8 dvd unat (align_down p)" "8 dvd unat ?s" "0 < unat ?s"
    using round8(1,2)[of "unat p mod 8 + unat sz"] sz unfolding u by (auto simp: unat_align_down)
  have "lmm_free L p sz = free_regions (align_down p) ?s L"
    using sz p by (auto simp: lmm_free_def assertL_def word_less_nat_alt)
  then show ?thesis
    using free_regions_spec[OF al ok, unfolded u] sp dis unfolding blk by auto
qed

lemma lmm_alloc_free_id:
  assumes ok: "lmm_ok L" and sz: "0 < unat sz" "unat sz + 7 < 2 ^ 32"
    and al: "lmm_alloc L sz fl = Inr (p, L')" "p \<noteq> 0"
  shows "lmm_free L' p sz = Inr L"
proof -
  from lmm_alloc_spec[OF ok sz, of fl] al have p8: "8 dvd unat p"
    and post: "alloc_post L p (round8 (unat sz)) L'" by auto
  have down: "align_down p = p" using p8 by (simp add: word_unat_eq_iff unat_align_down)
  have m: "unat p mod 8 = 0" using p8 by simp
  have ok': "lmm_ok L'" and h: "heads L' = heads L" and by': "lmm_bytes L' = lmm_bytes L - block p (round8 (unat sz))"
    using post by (simp_all add: alloc_post_def)
  obtain r where r: "r \<in> set L" "block p (round8 (unat sz)) \<subseteq> span r" using alloc_post_span[OF ok post] by blast
  have "span r \<in> set (spans L')" using r(1) heads_spans[OF h] by (metis image_eqI list.set_map)
  then have sp: "\<exists>r\<in>set L'. block (align_down p) (round8 (unat p mod 8 + unat sz)) \<subseteq> span r"
    using r(2) unfolding down m by auto
  have p0: "0 < unat p" using al(2) by (simp add: unat_gt_0)
  have small: "unat p mod 8 + unat sz + 7 < 2 ^ 32" using m sz(2) by simp
  have "block (align_down p) (round8 (unat p mod 8 + unat sz)) \<inter> lmm_bytes L' = {}"
    unfolding down m by' by auto
  from lmm_free_spec[OF ok' sz(1) p0 small refl sp this, unfolded down m add_0] obtain L''
    where L'': "lmm_free L' p sz = Inr L''" "free_post L' p (round8 (unat sz)) L''"
    by blast
  have b: "lmm_bytes L'' = lmm_bytes L" using L''(2) by' alloc_post_bytes[OF post] by (auto simp: free_post_def)
  have "lmm_ok L''" "heads L'' = heads L" using L''(2) h by (simp_all add: free_post_def)
  from lmm_canonical[OF this(1) ok this(2) b] have "L'' = L" .
  with L''(1) show ?thesis by simp
qed

lemma lmm_alloc_aligned_spec:
  assumes ok: "lmm_ok L" and sz: "0 < unat sz" and room: "2 ^ bits + unat sz \<le> 2 ^ 32"
  shows "\<exists>p L'. lmm_alloc_aligned L sz fl bits ofs = Inr (p, L') \<and>
    ((p = 0 \<and> L' = L) \<or> (p \<noteq> 0 \<and> take_bit bits p = take_bit bits ofs
       \<and> unat p + unat sz \<le> 2 ^ 32 \<and> alloc_post L (align_down p) (round8 (unat p mod 8 + unat sz)) L'))"
proof -
  have "(2::nat) ^ bits \<le> 2 ^ 32" using room by linarith
  then have bits: "bits \<le> 32" by (simp only: power_increasing_iff)
  have "unat (0 :: u32) + 2 ^ bits + unat sz \<le> 2 ^ 32" using room by simp
  from gen_regions_spec[OF bits this sz ok, of fl ofs "0 + -1"] obtain p L' where
    g: "gen_regions sz fl bits ofs 0 (0 + -1) L = Inr (p, L')" and
    c: "(p = 0 \<and> L' = L) \<or> (gen_post sz bits ofs 0 (0 + -1) p
       \<and> alloc_post L (align_down p) (round8 (unat p mod 8 + unat sz)) L')" by blast
  have "p \<noteq> 0" if "alloc_post L (align_down p) n L'" for n
    using alloc_post_nonzero[OF ok that] by (auto simp: align_down_def)
  moreover have "unat x \<le> 2 ^ 32" for x :: u32 using unsigned_less[of x, where 'a=nat] by simp
  ultimately show ?thesis
    using g c sz by (fastforce simp: lmm_alloc_aligned_def lmm_alloc_gen_def assertL_def word_less_nat_alt gen_post_def
        dest: order_trans)
qed

section \<open>Building a pool\<close>

lemma spans_apart:
  "region_ok r \<Longrightarrow> region_ok r' \<Longrightarrow> span r \<inter> span r' = {} \<Longrightarrow> rmax r \<le> rmin r' \<or> rmin r \<ge> rmax r'"
proof (rule ccontr)
  assume "region_ok r" "region_ok r'" "span r \<inter> span r' = {}" "\<not> (rmax r \<le> rmin r' \<or> rmin r \<ge> rmax r')"
  then have "max (unat (rmin r)) (unat (rmin r')) \<in> span r \<inter> span r'"
    by (auto simp: span_def word_le_nat_alt region_ok_def)
  with \<open>span r \<inter> span r' = {}\<close> show False by simp
qed

lemma insert_region_spec:
  "lmm_ok L \<Longrightarrow> region_ok reg \<Longrightarrow> \<forall>r\<in>set L. span reg \<inter> span r = {} \<and> rid r \<noteq> rid reg
    \<Longrightarrow> \<exists>L'. insert_region reg L = Inr L' \<and> lmm_ok L' \<and> set L' = insert reg (set L)"
proof (induction L)
  case (Cons r rs)
  then obtain L' where L': "insert_region reg rs = Inr L'" "lmm_ok L'" "set L' = insert reg (set rs)" by auto
  have "rmax reg \<le> rmin r \<or> rmin reg \<ge> rmax r" using spans_apart[of reg r] Cons.prems by simp
  with L' Cons.prems show ?case by (auto simp: assertL_def)
qed simp

lemma lmm_ok_nth_disjoint: "lmm_ok L \<Longrightarrow> i < j \<Longrightarrow> j < length L \<Longrightarrow> span (L ! i) \<inter> span (L ! j) = {}"
proof (induction L arbitrary: i j)
  case (Cons r rs)
  then show ?case by (cases i; cases j) auto
qed simp

definition bytes_between :: "u32 \<Rightarrow> u32 \<Rightarrow> nat set" where "bytes_between mn mx = {unat mn..<unat mx}"

lemma region_share:
  assumes r: "region_ok r" and al: "8 dvd unat mn" "8 dvd unat mx"
    and ov: "mx > rmin r \<and> mn < rmax r" and ne: "mn < mx"
    and a: "a = (if mn < rmin r then rmin r else mn)" and b: "b = (if mx > rmax r then rmax r else mx)"
  shows "a < b" "block a (unat (b - a)) = bytes_between mn mx \<inter> span r" "8 dvd unat a" "8 dvd unat (b - a)"
proof -
  have ua: "unat a = max (unat mn) (unat (rmin r))" and ub: "unat b = min (unat mx) (unat (rmax r))"
    by (simp_all add: a b word_less_nat_alt)
  have lt: "unat a < unat b"
    using ov ne r unfolding ua ub by (auto simp: word_less_nat_alt region_ok_def)
  then show "a < b" by (simp add: word_less_nat_alt)
  have d: "unat (b - a) = unat b - unat a" using lt by (simp add: unat_sub word_le_nat_alt)
  show "block a (unat (b - a)) = bytes_between mn mx \<inter> span r"
    using lt unfolding d by (auto simp: block_def bytes_between_def span_def ua ub)
  show a8: "8 dvd unat a" using al r unfolding ua by (auto simp: max_def region_ok_def)
  have "8 dvd unat b" using al r unfolding ub by (auto simp: min_def region_ok_def)
  with a8 show "8 dvd unat (b - a)" unfolding d by (simp add: dvd_diff_nat)
qed

lemma add_free_loop_spec:
  assumes al: "8 dvd unat mn" "8 dvd unat mx" and ne: "mn < mx"
  shows "lmm_ok L \<Longrightarrow> k + todo = length L \<Longrightarrow> \<forall>j. k \<le> j \<and> j < length L \<longrightarrow> bytes_between mn mx \<inter> span (L ! j) \<inter> lmm_bytes L = {}
    \<Longrightarrow> \<exists>L'. add_free_loop todo k mn mx L = Inr L' \<and> lmm_ok L' \<and> heads L' = heads L
       \<and> lmm_bytes L' = lmm_bytes L \<union> (bytes_between mn mx \<inter> (\<Union>j\<in>{k..<length L}. span (L ! j)))"
proof (induction todo arbitrary: k L)
  case (Suc todo)
  let ?r = "L ! k"
  from Suc.prems(2) have k: "k < length L" by simp
  have r: "region_ok ?r" using lmm_ok_region[OF Suc.prems(1)] k by simp
  have asr: "rmin ?r < rmax ?r \<and> rmin ?r AND ALIGN_MASK = 0 \<and> rmax ?r AND ALIGN_MASK = 0"
    using r by (simp add: region_ok_def aligned8_iff word_less_nat_alt)
  have un: "(\<Union>j\<in>{k..<length L}. span (L ! j)) = span ?r \<union> (\<Union>j\<in>{Suc k..<length L}. span (L ! j))"
  proof -
    have "{k..<length L} = insert k {Suc k..<length L}" using k by auto
    then show ?thesis by simp
  qed
  show ?case
  proof (cases "mx > rmin ?r \<and> mn < rmax ?r")
    case False
    then have "bytes_between mn mx \<inter> span ?r = {}"
      by (auto simp: bytes_between_def span_def word_less_nat_alt)
    moreover have "add_free_loop (Suc todo) k mn mx L = add_free_loop todo (Suc k) mn mx L"
      using asr False by (auto simp: assertL_def)
    ultimately show ?thesis
      using Suc.IH[OF Suc.prems(1), of "Suc k"] Suc.prems(2,3) unfolding un by auto
  next
    case True
    define a where "a = (if mn < rmin ?r then rmin ?r else mn)"
    define b where "b = (if mx > rmax ?r then rmax ?r else mx)"
    note sh = region_share[OF r al True ne a_def b_def]
    have a0: "0 < unat a" using r by (auto simp: a_def region_ok_def word_less_nat_alt)
    have am: "unat a mod 8 = 0" "align_down a = a"
      using sh(3) by (simp_all add: word_unat_eq_iff unat_align_down)
    have u: "unat (b - a) = unat b - unat a" using sh(1) by (simp add: unat_sub word_le_nat_alt word_less_nat_alt)
    have r8: "round8 (unat (b - a)) = unat (b - a)"
      using sh(4) round8[of "unat (b - a)"] by (metis dvd8_le le_antisym)
    have "unat b < 2 ^ 32" using unsigned_less[of b, where 'a=nat] by simp
    then have small: "unat a mod 8 + unat (b - a) + 7 < 2 ^ 32"
      using sh(1,3,4) a0 am u by (auto simp: word_less_nat_alt elim!: dvdE)
    have pos: "0 < unat (b - a)" using sh(1) u by (simp add: word_less_nat_alt)
    let ?b = "block (align_down a) (round8 (unat a mod 8 + unat (b - a)))"
    have beq: "?b = bytes_between mn mx \<inter> span ?r" using sh(2) am r8 by simp
    have "\<exists>r\<in>set L. ?b \<subseteq> span r" using beq k by (intro bexI[of _ ?r]) auto
    moreover have "?b \<inter> lmm_bytes L = {}" unfolding beq using Suc.prems(3) k by blast
    ultimately obtain L1 where L1: "lmm_free L a (b - a) = Inr L1" "free_post L (align_down a) (round8 (unat a mod 8 + unat (b - a))) L1"
      using lmm_free_spec[OF Suc.prems(1) pos a0 small refl] by blast
    have ok1: "lmm_ok L1" and h1: "heads L1 = heads L" and b1: "lmm_bytes L1 = lmm_bytes L \<union> (bytes_between mn mx \<inter> span ?r)"
      using L1(2) unfolding free_post_def beq by simp_all
    have len: "length L1 = length L" using h1 by (metis heads_def length_map)
    have sp: "span (L1 ! j) = span (L ! j)" if "j < length L" for j
      using heads_spans[OF h1] len that by (metis nth_map)
    have "\<forall>j. Suc k \<le> j \<and> j < length L1 \<longrightarrow> bytes_between mn mx \<inter> span (L1 ! j) \<inter> lmm_bytes L1 = {}"
    proof (intro allI impI)
      fix j assume j: "Suc k \<le> j \<and> j < length L1"
      then have "span ?r \<inter> span (L ! j) = {}" using lmm_ok_nth_disjoint[OF Suc.prems(1), of k j] len by simp
      moreover have "bytes_between mn mx \<inter> span (L ! j) \<inter> lmm_bytes L = {}" using Suc.prems(3) j len by simp
      moreover have "span (L1 ! j) = span (L ! j)" using sp j len by simp
      ultimately show "bytes_between mn mx \<inter> span (L1 ! j) \<inter> lmm_bytes L1 = {}" unfolding b1 by auto
    qed
    from Suc.IH[OF ok1 _ this] Suc.prems(2) len obtain L' where L': "add_free_loop todo (Suc k) mn mx L1 = Inr L'"
      "lmm_ok L'" "heads L' = heads L1"
      "lmm_bytes L' = lmm_bytes L1 \<union> (bytes_between mn mx \<inter> (\<Union>j\<in>{Suc k..<length L1}. span (L1 ! j)))" by auto
    have "add_free_loop (Suc todo) k mn mx L = Inr L'"
      using asr True sh(1) L1(1) L'(1) unfolding add_free_loop.simps Let_def
      by (simp add: assertL_def flip: a_def b_def)
    moreover have "(\<Union>j\<in>{Suc k..<length L1}. span (L1 ! j)) = (\<Union>j\<in>{Suc k..<length L}. span (L ! j))"
      using sp len by simp
    ultimately show ?thesis using L' h1 b1 unfolding un by auto
  qed
qed simp

lemma dump_nodes_ok:
  "nodes_ok lo (unat mx) ns \<Longrightarrow> unat c + nsum ns < 2 ^ 32 \<Longrightarrow> \<exists>t. dump_nodes mx ns c = Inr t \<and> unat t = unat c + nsum ns"
proof (induction ns arbitrary: lo c)
  case (Cons x ns)
  obtain a n where x: "x = (a, n)" by force
  note ok = Cons.prems(1)[unfolded x]
  have na: "node_asserts mx a n ns" by (rule node_asserts_ok[OF ok])
  have u: "unat (c + n) = unat c + unat n" using Cons.prems(2) by (simp add: x unat_plus_if')
  have "8 \<le> unat n" using ok by (auto elim!: dvdE)
  then have "ALIGN_SIZE \<le> n" by (simp add: ALIGN_SIZE_def word_le_nat_alt)
  moreover have "nodes_ok (unat a + unat n + 1) (unat mx) ns" using ok by simp
  then obtain t where "dump_nodes mx ns (c + n) = Inr t" "unat t = unat (c + n) + nsum ns"
    using Cons.IH[of _ "c + n"] Cons.prems(2) u by (auto simp: x add.assoc)
  ultimately show ?case using na u by (auto simp: x assertL_def node_asserts_def)
qed simp

text \<open>A pool of one region that is all free, for the witnesses.\<close>

definition pool1 :: lmm where
  "pool1 = [\<lparr>rid = 0, rnodes = [(0x100000, 0x100000)], rmin = 0x100000, rmax = 0x200000,
             rflags = 0, rpri = 0, rfree = 0x100000\<rparr>]"

lemma pool1_ok: "lmm_ok pool1"
  by (simp add: pool1_def region_ok_def)

section \<open>Properties\<close>

text \<open>C27: \<open>lmm_alloc\<close> on a well-formed pool and a size that does not wrap never fails an
  assertion. It returns 0 and leaves the pool alone only when no free block of a region with the
  requested flags is large enough; otherwise it returns an 8-byte aligned address, the bytes of
  the block were free, exactly the rounded block leaves the free memory, and the pool stays well
  formed.\<close>

theorem lmm_alloc_correct:
  assumes "lmm_ok L" and "0 < unat sz" and "unat sz + 7 < 2 ^ 32"
  shows "\<exists>p L'. lmm_alloc L sz fl = Inr (p, L') \<and> lmm_ok L' \<and>
    (if p = 0 then L' = L \<and> (\<forall>r\<in>set L. fl AND NOT (rflags r) = 0 \<longrightarrow> (\<forall>(a, n)\<in>set (rnodes r). n < align_up sz))
     else 8 dvd unat p \<and> block p (round8 (unat sz)) \<subseteq> lmm_bytes L
       \<and> lmm_bytes L' = lmm_bytes L - block p (round8 (unat sz)))"
proof -
  from lmm_alloc_spec[OF assms, of fl] obtain p L' where l: "lmm_alloc L sz fl = Inr (p, L')"
    and c: "(p = 0 \<and> L' = L \<and> (\<forall>r\<in>set L. fl AND NOT (rflags r) = 0 \<longrightarrow> (\<forall>(a, n)\<in>set (rnodes r). n < align_up sz)))
     \<or> (p \<noteq> 0 \<and> 8 dvd unat p \<and> alloc_post L p (round8 (unat sz)) L')" by blast
  show ?thesis
  proof (intro exI conjI)
    show "lmm_ok L'" using c assms(1) by (auto simp: alloc_post_def)
    show "if p = 0 then L' = L \<and> (\<forall>r\<in>set L. fl AND NOT (rflags r) = 0 \<longrightarrow> (\<forall>(a, n)\<in>set (rnodes r). n < align_up sz))
     else 8 dvd unat p \<and> block p (round8 (unat sz)) \<subseteq> lmm_bytes L
       \<and> lmm_bytes L' = lmm_bytes L - block p (round8 (unat sz))"
      using c alloc_post_bytes[of L p _ L'] by (simp add: alloc_post_def) metis
  qed (rule l)
qed

theorem lmm_alloc_correct_witness:
  "\<exists>p L'. lmm_alloc pool1 100 0 = Inr (p, L') \<and> lmm_ok L'"
proof -
  have "0 < unat (100 :: u32)" "unat (100 :: u32) + 7 < 2 ^ 32" by simp_all
  from lmm_alloc_correct[OF pool1_ok this, of 0] show ?thesis by blast
qed

text \<open>C28: freeing what \<open>lmm_alloc\<close> returned, with the same size, restores the pool exactly:
  the free list is coalesced back to the list it was before.\<close>

theorem lmm_free_undoes_alloc:
  assumes "lmm_ok L" and "0 < unat sz" and "unat sz + 7 < 2 ^ 32"
    and "lmm_alloc L sz fl = Inr (p, L')" and "p \<noteq> 0"
  shows "lmm_free L' p sz = Inr L"
  using assms by (rule lmm_alloc_free_id)

theorem lmm_free_undoes_alloc_witness:
  "lmm_alloc pool1 100 0 = Inr (0x100000, [(hd pool1)\<lparr>rnodes := [(0x100068, 0xFFF98)], rfree := 0xFFF98\<rparr>])
   \<and> lmm_free [(hd pool1)\<lparr>rnodes := [(0x100068, 0xFFF98)], rfree := 0xFFF98\<rparr>] 0x100000 100 = Inr pool1"
proof -
  have a: "lmm_alloc pool1 100 0 = Inr (0x100000, [(hd pool1)\<lparr>rnodes := [(0x100068, 0xFFF98)], rfree := 0xFFF98\<rparr>])"
    by (simp add: lmm_alloc_def pool1_def assertL_def region_asserts_def first_addr_def align_up_def
        ALIGN_MASK_def ALIGN_SIZE_def node_asserts_def)
  have "0 < unat (100 :: u32)" "unat (100 :: u32) + 7 < 2 ^ 32" by simp_all
  from lmm_free_undoes_alloc[OF pool1_ok this a] a show ?thesis by simp
qed

text \<open>\<open>lmm_alloc_aligned\<close> returns 0 with the pool unchanged, or an address whose low
  \<open>align_bits\<close> bits are those of \<open>align_ofs\<close>; the whole requested block was free before and
  none of it is free afterwards, and no assertion fails.\<close>

theorem lmm_alloc_aligned_correct:
  assumes "lmm_ok L" and "0 < unat sz" and "2 ^ bits + unat sz \<le> 2 ^ 32"
  shows "\<exists>p L'. lmm_alloc_aligned L sz fl bits ofs = Inr (p, L') \<and> lmm_ok L' \<and>
    (if p = 0 then L' = L
     else take_bit bits p = take_bit bits ofs \<and> block p (unat sz) \<subseteq> lmm_bytes L
       \<and> block p (unat sz) \<inter> lmm_bytes L' = {} \<and> lmm_bytes L' \<subseteq> lmm_bytes L)"
proof -
  from lmm_alloc_aligned_spec[OF assms, of fl ofs] obtain p L' where
    l: "lmm_alloc_aligned L sz fl bits ofs = Inr (p, L')" and
    c: "(p = 0 \<and> L' = L) \<or> (p \<noteq> 0 \<and> take_bit bits p = take_bit bits ofs
       \<and> unat p + unat sz \<le> 2 ^ 32 \<and> alloc_post L (align_down p) (round8 (unat p mod 8 + unat sz)) L')" by blast
  with aligned_block[of p "unat sz"] alloc_post_bytes[of L "align_down p" _ L'] assms(1) show ?thesis
    by (intro exI[of _ p] exI[of _ L'] conjI) (auto simp: alloc_post_def)
qed

theorem lmm_alloc_aligned_correct_witness:
  "\<exists>p L'. lmm_alloc_aligned pool1 4100 0 12 4092 = Inr (p, L') \<and> lmm_ok L'"
proof -
  have "0 < unat (4100 :: u32)" "2 ^ 12 + unat (4100 :: u32) \<le> 2 ^ 32" by simp_all
  from lmm_alloc_aligned_correct[OF pool1_ok this, of 0 4092] show ?thesis by blast
qed

text \<open>\<open>lmm_free\<close> of a block that lies in one region and contains no free byte, rounded out
  to 8-byte units as the code does, makes exactly its bytes free and fails no assertion.\<close>

theorem lmm_free_correct:
  assumes "lmm_ok L" and "0 < unat sz" and "0 < unat p" and "unat p mod 8 + unat sz + 7 < 2 ^ 32"
    and "b = block (align_down p) (round8 (unat p mod 8 + unat sz))"
    and "\<exists>r\<in>set L. b \<subseteq> span r" and "b \<inter> lmm_bytes L = {}"
  shows "\<exists>L'. lmm_free L p sz = Inr L' \<and> lmm_ok L' \<and> lmm_bytes L' = lmm_bytes L \<union> b"
  using lmm_free_spec[OF assms] assms(5) by (auto simp: free_post_def)

theorem lmm_free_correct_witness:
  "\<exists>L'. lmm_free [(hd pool1)\<lparr>rnodes := [], rfree := 0\<rparr>] 0x100010 13 = Inr L' \<and> lmm_ok L'"
proof -
  let ?L = "[(hd pool1)\<lparr>rnodes := [], rfree := 0\<rparr>]"
  have r: "round8 13 = 16" by (simp add: round8_def)
  have d: "align_down 0x100010 = 0x100010" by (simp add: word_unat_eq_iff unat_align_down)
  have "lmm_ok ?L" by (simp add: pool1_def region_ok_def)
  moreover have "block (align_down 0x100010) (round8 (unat (0x100010 :: u32) mod 8 + unat (13 :: u32))) \<subseteq> span (hd pool1)"
    unfolding d by (simp add: r block_def span_def pool1_def)
  ultimately show ?thesis
    using lmm_free_correct[of ?L 13 "0x100010" "block (align_down 0x100010) (round8 (unat (0x100010 :: u32) mod 8 + unat (13 :: u32)))"]
    by (fastforce simp: span_def)
qed

text \<open>\<open>lmm_add_free\<close> hands a range to the pool: every byte of its 8-byte aligned part that
  lies in some region becomes free, and nothing else changes, provided none of them was free.\<close>

theorem lmm_add_free_correct:
  assumes "lmm_ok L" and "unat start + 7 < 2 ^ 32" and "unat start + unat sz < 2 ^ 32"
    and "align_up start \<le> align_down (start + sz)"
    and "bytes_between (align_up start) (align_down (start + sz)) \<inter> lmm_bytes L = {}"
  shows "\<exists>L'. lmm_add_free L start sz = Inr L' \<and> lmm_ok L' \<and>
    lmm_bytes L' = lmm_bytes L \<union>
      (bytes_between (align_up start) (align_down (start + sz)) \<inter> (\<Union>r\<in>set L. span r))"
proof (cases "align_up start = align_down (start + sz)")
  case True
  then show ?thesis using assms by (simp add: lmm_add_free_def Let_def assertL_def bytes_between_def)
next
  case False
  have al: "8 dvd unat (align_up start)" "8 dvd unat (align_down (start + sz))"
    using round8(1) by (simp_all add: unat_align_up[OF assms(2)] unat_align_down)
  have lt: "align_up start < align_down (start + sz)" using assms(4) False by simp
  have sp: "(\<Union>j\<in>{0..<length L}. span (L ! j)) = (\<Union>r\<in>set L. span r)"
  proof -
    have "set L = (!) L ` {0..<length L}" by (metis list.set_map map_nth set_upt)
    then show ?thesis by (simp only: image_image)
  qed
  have "\<forall>j. 0 \<le> j \<and> j < length L \<longrightarrow>
      bytes_between (align_up start) (align_down (start + sz)) \<inter> span (L ! j) \<inter> lmm_bytes L = {}"
    using assms(5) by blast
  from add_free_loop_spec[OF al lt assms(1) _ this, of "length L"] show ?thesis
    using False assms(4) unfolding sp by (auto simp: lmm_add_free_def Let_def assertL_def)
qed

theorem lmm_add_free_correct_witness:
  "\<exists>L'. lmm_add_free [(hd pool1)\<lparr>rnodes := [], rfree := 0\<rparr>] 0x100010 0x1000 = Inr L' \<and> lmm_ok L'"
proof -
  let ?L = "[(hd pool1)\<lparr>rnodes := [], rfree := 0\<rparr>]"
  have "lmm_ok ?L" by (simp add: pool1_def region_ok_def)
  moreover have "align_up 0x100010 \<le> align_down (0x100010 + 0x1000)"
    by (simp add: align_up_def align_down_def ALIGN_MASK_def ALIGN_SIZE_def)
  moreover have "lmm_bytes ?L = {}" by simp
  ultimately show ?thesis using lmm_add_free_correct[of ?L "0x100010" "0x1000"] by (simp del: lmm_ok.simps) metis
qed

text \<open>The invariant is at least as strong as the pool's own consistency check: on a
  well-formed pool every assertion of \<open>lmm_dump\<close> holds, the counter of free bytes included.\<close>

theorem lmm_dump_passes:
  assumes "lmm_ok L"
  shows "lmm_dump L = Inr ()"
  using assms
proof (induction L)
  case (Cons r rs)
  then have r: "region_ok r" by simp
  then have ok: "nodes_ok (unat (rmin r)) (unat (rmax r)) (rnodes r)" by (simp add: region_ok_def)
  have "unat (rfree r) < 2 ^ 32" using unsigned_less[of "rfree r", where 'a=nat] by simp
  then obtain t where t: "dump_nodes (rmax r) (rnodes r) 0 = Inr t" "unat t = nsum (rnodes r)"
    using dump_nodes_ok[OF ok, of 0] r by (auto simp: region_ok_def)
  then have "rfree r = t" using r by (simp add: region_ok_def word_unat_eq_iff)
  moreover have "first_addr (rnodes r) = 0 \<or> first_addr (rnodes r) \<ge> rmin r \<and> first_addr (rnodes r) < rmax r"
    using ok by (cases "rnodes r") (auto simp: first_addr_def word_le_nat_alt word_less_nat_alt)
  ultimately show ?case
    using Cons t region_asserts_ok[OF r] by (auto simp: assertL_def region_asserts_def)
qed simp

theorem lmm_dump_passes_witness: "lmm_dump pool1 = Inr ()"
  by (rule lmm_dump_passes[OF pool1_ok])

text \<open>A request of more than \<open>2 ^ 32 - 8\<close> bytes is rounded to size 0: instead of failing,
  \<open>lmm_alloc\<close> returns the first free block of the first region with the flags and leaves that
  block in the free list, so the next allocation can return it again.\<close>

theorem lmm_alloc_huge_not_refused:
  assumes "lmm_ok (r # rs)" and "fl AND NOT (rflags r) = 0" and "rnodes r \<noteq> []" and "2 ^ 32 - 7 \<le> unat sz"
  shows "\<exists>p L'. lmm_alloc (r # rs) sz fl = Inr (p, L') \<and> unat p \<in> lmm_bytes L' \<and> L' = r # rs"
proof -
  obtain a n ns where rn: "rnodes r = (a, n) # ns" using assms(3) by (cases "rnodes r") auto
  from assms(1) have r: "region_ok r" by simp
  then have na: "node_asserts (rmax r) a n ns" using node_asserts_ok by (auto simp: region_ok_def rn)
  have "unat sz < 2 ^ 32" using unsigned_less[of sz, where 'a=nat] by simp
  with assms(4) have "(unat sz + 7) mod 2 ^ 32 < 8"
    by (subst le_mod_geq) auto
  then have "unat (sz + ALIGN_MASK) < 8"
    by (simp add: unat_word_ariths ALIGN_MASK_def ALIGN_SIZE_def)
  then have z: "align_up sz = 0"
    unfolding align_up_def by (simp add: word_unat_eq_iff unat_clear_low3)
  have "sz > 0" "n > 0" using assms(4) r by (auto simp: word_less_nat_alt region_ok_def rn)
  then show ?thesis
    using na region_asserts_ok[OF r] assms(2) r
    by (auto simp: lmm_alloc_def z assertL_def rn block_def region_ok_def)
qed

theorem lmm_alloc_huge_not_refused_witness:
  "\<exists>p. lmm_alloc pool1 0xFFFFFFFA 0 = Inr (p, pool1)"
proof -
  have "lmm_ok (hd pool1 # [])" using pool1_ok by (simp add: pool1_def)
  from lmm_alloc_huge_not_refused[OF this, of 0 "0xFFFFFFFA"] show ?thesis by (auto simp: pool1_def)
qed

end
