(* ===== verification/Malloc.thy ===== *)
theory Malloc
  imports Scheduler Lmm_Correct
begin

text \<open>
  The kernel allocator: the functions of \<open>410kern/malloc\<close> on top of the list memory manager, and
  the locked versions of \<open>kern/malloc_wrappers.c\<close>. A chunk of \<open>malloc\<close> and \<open>memalign\<close> starts with
  its size in four bytes; \<open>hmem\<close> holds the bytes of the allocated memory (the links the list
  memory manager threads through free memory are in \<open>Lmm\<close>'s lists instead). The locale
  \<open>page_heap\<close> is what the paging code relies on: pages that are aligned, disjoint from every
  page still in use, and can be given back.
\<close>

unbundle bit_operations_syntax

section \<open>Operations\<close>

record kheap = kcore +
  malloc_lmm :: lmm
  hmem :: "u32 \<Rightarrow> u8"

definition store32 :: "u32 \<Rightarrow> u32 \<Rightarrow> (u32 \<Rightarrow> u8) \<Rightarrow> (u32 \<Rightarrow> u8)" where
  "store32 a v m = m(a := ucast v, a + 1 := ucast (drop_bit 8 v), a + 2 := ucast (drop_bit 16 v),
                     a + 3 := ucast (drop_bit 24 v))"

definition load32 :: "u32 \<Rightarrow> (u32 \<Rightarrow> u8) \<Rightarrow> u32" where
  "load32 a m = ucast (m a) OR push_bit 8 (ucast (m (a + 1))) OR push_bit 16 (ucast (m (a + 2)))
                OR push_bit 24 (ucast (m (a + 3)))"

definition zero_bytes :: "u32 \<Rightarrow> nat \<Rightarrow> (u32 \<Rightarrow> u8) \<Rightarrow> (u32 \<Rightarrow> u8)" where
  "zero_bytes a n m = fold (\<lambda>i m. m(a + of_nat i := 0)) [0..<n] m"

definition copy_bytes :: "u32 \<Rightarrow> u32 \<Rightarrow> nat \<Rightarrow> (u32 \<Rightarrow> u8) \<Rightarrow> (u32 \<Rightarrow> u8)" where
  "copy_bytes dst src n m = fold (\<lambda>i m. m(dst + of_nat i := m (src + of_nat i))) [0..<n] m"

definition pool_alloc :: "(lmm \<Rightarrow> fault + (u32 \<times> lmm)) \<Rightarrow> ('a kheap_scheme, u32) kop" where
  "pool_alloc f s =
     (case f (malloc_lmm s) of Inl e \<Rightarrow> Inl e | Inr (p, L) \<Rightarrow> Inr (p, s\<lparr>malloc_lmm := L\<rparr>))"

definition pool_free :: "u32 \<Rightarrow> u32 \<Rightarrow> ('a kheap_scheme, unit) kop" where
  "pool_free p sz s =
     (case lmm_free (malloc_lmm s) p sz of Inl e \<Rightarrow> Inl e | Inr L \<Rightarrow> Inr ((), s\<lparr>malloc_lmm := L\<rparr>))"

definition poke :: "((u32 \<Rightarrow> u8) \<Rightarrow> (u32 \<Rightarrow> u8)) \<Rightarrow> ('a kheap_scheme, unit) kop" where
  "poke f = modifyK (\<lambda>s. s\<lparr>hmem := f (hmem s)\<rparr>)"

definition u_malloc :: "u32 \<Rightarrow> ('a kheap_scheme, u32) kop" where
  "u_malloc sz0 =
     (let sz = sz0 + 4 in
      bindK (pool_alloc (\<lambda>L. lmm_alloc L sz 0)) (\<lambda>chunk.
        if chunk = 0 then returnK 0
        else bindK (poke (store32 chunk sz)) (\<lambda>_. returnK (chunk + 4))))"

definition u_mustmalloc :: "u32 \<Rightarrow> ('a kheap_scheme, u32) kop" where
  "u_mustmalloc sz = bindK (u_malloc sz) (\<lambda>buf. if buf = 0 then failK Assert_Failed else returnK buf)"

text \<open>The loop \<open>for (shift = 0; (1 << shift) < alignment; shift++)\<close>; above \<open>2 ^ 31\<close> no shift
  ends it.\<close>

definition align_shift :: "u32 \<Rightarrow> fault + nat" where
  "align_shift alignment =
     (case List.find (\<lambda>k. \<not> push_bit k 1 < alignment) [0..<32] of None \<Rightarrow> Inl Diverges | Some k \<Rightarrow> Inr k)"

definition u_memalign :: "u32 \<Rightarrow> u32 \<Rightarrow> ('a kheap_scheme, u32) kop" where
  "u_memalign alignment sz0 =
     bindK (liftF (align_shift alignment)) (\<lambda>shift.
     let sz = sz0 + 4 in
     bindK (pool_alloc (\<lambda>L. lmm_alloc_aligned L sz 0 shift (push_bit shift 1 - 4))) (\<lambda>chunk.
       if chunk = 0 then returnK 0
       else bindK (poke (store32 chunk sz)) (\<lambda>_. returnK (chunk + 4))))"

definition u_calloc :: "u32 \<Rightarrow> u32 \<Rightarrow> ('a kheap_scheme, u32) kop" where
  "u_calloc nelt eltsize =
     (let allocsize = nelt * eltsize in
      bindK (u_malloc allocsize) (\<lambda>ptr.
        if ptr = 0 then returnK 0
        else bindK (poke (zero_bytes ptr (unat allocsize))) (\<lambda>_. returnK ptr)))"

definition u_mustcalloc :: "u32 \<Rightarrow> u32 \<Rightarrow> ('a kheap_scheme, u32) kop" where
  "u_mustcalloc nelt eltsize =
     bindK (u_calloc nelt eltsize) (\<lambda>buf. if buf = 0 then failK Assert_Failed else returnK buf)"

definition u_realloc :: "u32 \<Rightarrow> u32 \<Rightarrow> ('a kheap_scheme, u32) kop" where
  "u_realloc buf new_size0 =
     (if buf = 0 then u_malloc new_size0
      else
        let op = buf - 4; new_size = new_size0 + 4 in
        bindK (readK (\<lambda>s. load32 op (hmem s))) (\<lambda>old_size.
        bindK (pool_alloc (\<lambda>L. lmm_alloc L new_size 0)) (\<lambda>np.
          if np = 0 then returnK 0
          else
            bindK (poke (copy_bytes np op (unat (if old_size < new_size then old_size else new_size)))) (\<lambda>_.
            bindK (pool_free op old_size) (\<lambda>_.
            bindK (poke (store32 np new_size)) (\<lambda>_. returnK (np + 4)))))))"

definition u_free :: "u32 \<Rightarrow> ('a kheap_scheme, unit) kop" where
  "u_free chunk_ptr =
     (let chunk = chunk_ptr - 4 in bindK (readK (\<lambda>s. load32 chunk (hmem s))) (\<lambda>sz. pool_free chunk sz))"

definition u_smalloc :: "u32 \<Rightarrow> ('a kheap_scheme, u32) kop" where
  "u_smalloc sz = pool_alloc (\<lambda>L. lmm_alloc L sz 0)"

definition u_smemalign :: "u32 \<Rightarrow> u32 \<Rightarrow> ('a kheap_scheme, u32) kop" where
  "u_smemalign alignment sz =
     bindK (liftF (align_shift alignment)) (\<lambda>shift. pool_alloc (\<lambda>L. lmm_alloc_aligned L sz 0 shift 0))"

definition u_sfree :: "u32 \<Rightarrow> u32 \<Rightarrow> ('a kheap_scheme, unit) kop" where
  "u_sfree chunk sz = pool_free chunk sz"

section \<open>The locked versions\<close>

definition malloc_init :: "('a kheap_scheme, unit) kop" where
  "malloc_init = bindK (mutex_init Malloc_mutex) (\<lambda>_. returnK ())"

definition locked :: "('a kheap_scheme, 'b) kop \<Rightarrow> ('a kheap_scheme, 'b) kop" where
  "locked m =
     bindK (mutex_lock Malloc_mutex) (\<lambda>_. bindK m (\<lambda>r. bindK (mutex_unlock Malloc_mutex) (\<lambda>_. returnK r)))"

definition malloc :: "u32 \<Rightarrow> ('a kheap_scheme, u32) kop" where "malloc sz = locked (u_malloc sz)"
definition memalign :: "u32 \<Rightarrow> u32 \<Rightarrow> ('a kheap_scheme, u32) kop" where
  "memalign alignment sz = locked (u_memalign alignment sz)"
definition calloc :: "u32 \<Rightarrow> u32 \<Rightarrow> ('a kheap_scheme, u32) kop" where
  "calloc nelt eltsize = locked (u_calloc nelt eltsize)"
definition realloc :: "u32 \<Rightarrow> u32 \<Rightarrow> ('a kheap_scheme, u32) kop" where
  "realloc buf new_size = locked (u_realloc buf new_size)"
definition free :: "u32 \<Rightarrow> ('a kheap_scheme, unit) kop" where "free buf = locked (u_free buf)"
definition smemalign :: "u32 \<Rightarrow> u32 \<Rightarrow> ('a kheap_scheme, u32) kop" where
  "smemalign alignment sz = locked (u_smemalign alignment sz)"
definition sfree :: "u32 \<Rightarrow> u32 \<Rightarrow> ('a kheap_scheme, unit) kop" where "sfree buf sz = locked (u_sfree buf sz)"

text \<open>\<open>smalloc\<close> calls itself where the others call the unlocked version.\<close>

partial_function (option) smalloc ::
  "u32 \<Rightarrow> 'a kheap_scheme \<Rightarrow> (fault + (u32 \<times> 'a kheap_scheme)) option" where
  "smalloc sz s =
     (case mutex_lock Malloc_mutex s of
        Inl e \<Rightarrow> Some (Inl e)
      | Inr (u, s1) \<Rightarrow>
          Option.bind (smalloc sz s1) (\<lambda>r.
            Some (case r of
                    Inl e \<Rightarrow> Inl e
                  | Inr (p, s2) \<Rightarrow> bindK (mutex_unlock Malloc_mutex) (\<lambda>_. returnK p) s2)))"

section \<open>Sizes in memory\<close>

lemma offsets_distinct:
  "(a :: u32) + 1 \<noteq> a" "a + 2 \<noteq> a" "a + 3 \<noteq> a" "a + 1 \<noteq> a + 2" "a + 1 \<noteq> a + 3" "a + 2 \<noteq> a + 3"
  by simp_all

lemma bytes_of_word:
  "ucast (ucast v :: u8) OR push_bit 8 (ucast (ucast (drop_bit 8 v) :: u8)) OR push_bit 16 (ucast (ucast (drop_bit 16 v) :: u8))
   OR push_bit 24 (ucast (ucast (drop_bit 24 v) :: u8)) = (v :: u32)" (is "?l = v")
proof (rule bit_eqI)
  fix n assume "possible_bit TYPE(u32) n"
  then have "n < 32" by simp
  then consider "n < 8" | "8 \<le> n" "n < 16" | "16 \<le> n" "n < 24" | "24 \<le> n" "n < 32" by linarith
  then show "bit ?l n = bit v n"
    by cases (simp_all only: bit_or_iff bit_push_bit_iff bit_ucast_iff bit_drop_bit_eq o_apply, auto)
qed

lemma load_store32: "load32 a (store32 a v m) = v"
  unfolding load32_def store32_def using bytes_of_word[of v] by (simp add: offsets_distinct)

section \<open>Allocation and release\<close>

definition heap_ok :: "'a kheap_scheme \<Rightarrow> bool" where
  "heap_ok s \<longleftrightarrow> lmm_ok (malloc_lmm s) \<and> quiet Malloc_mutex s"

abbreviation heap_bytes :: "'a kheap_scheme \<Rightarrow> nat set" where
  "heap_bytes s \<equiv> lmm_bytes (malloc_lmm s)"

lemma kheap_held [simp]: "malloc_lmm (held m s) = malloc_lmm s" "hmem (held m s) = hmem s"
  by (simp_all add: held_def)

lemma kheap_released [simp]: "malloc_lmm (released m s) = malloc_lmm s" "hmem (released m s) = hmem s"
  by (simp_all add: released_def)

text \<open>A locked operation that leaves lists and mutexes alone runs as the unlocked one.\<close>

lemma locked_run:
  assumes "quiet Malloc_mutex s" "m (held Malloc_mutex s) = Inr (r, s1)" "lh s1 = lh s"
  shows "locked m s = Inr (r, released Malloc_mutex s1)"
  using assms by (simp add: locked_def quiet_def)

lemma quiet_released: "lh s1 = lh s \<Longrightarrow> quiet m s \<Longrightarrow> quiet m (released m s1)"
  by (simp add: quiet_def released_def)

definition heap_step :: "'a kheap_scheme \<Rightarrow> lmm \<Rightarrow> (u32 \<Rightarrow> u8) \<Rightarrow> 'a kheap_scheme" where
  "heap_step s L hm = (released Malloc_mutex s)\<lparr>malloc_lmm := L, hmem := hm\<rparr>"

lemma heap_step_frame [simp]:
  "malloc_lmm (heap_step s L hm) = L" "hmem (heap_step s L hm) = hm" "lh (heap_step s L hm) = lh s"
  "tcbs (heap_step s L hm) = tcbs s" "pcbs (heap_step s L hm) = pcbs s" "vas (heap_step s L hm) = vas s"
  "current_thread (heap_step s L hm) = current_thread s"
  "next_tid (heap_step s L hm) = next_tid s" "next_pid (heap_step s L hm) = next_pid s"
  "numTicks (heap_step s L hm) = numTicks s" "interrupts (heap_step s L hm) = interrupts s"
  "esp0 (heap_step s L hm) = esp0 s" "cr3 (heap_step s L hm) = cr3 s" "user_mode (heap_step s L hm) = user_mode s"
  "kheap.more (heap_step s L hm) = kheap.more s"
  by (simp_all add: heap_step_def released_def)

lemma heap_step_mutex [simp]:
  "m \<noteq> Malloc_mutex \<Longrightarrow> mutexes (heap_step s L hm) m = mutexes s m"
  "m_status (mutexes (heap_step s L hm) Malloc_mutex) = 0"
  by (simp_all add: heap_step_def released_def)

lemma heap_step_ok: "heap_ok s \<Longrightarrow> lmm_ok L \<Longrightarrow> heap_ok (heap_step s L hm)"
  by (simp add: heap_ok_def quiet_def)

lemma malloc_run:
  assumes ok: "heap_ok s" and a: "lmm_alloc (malloc_lmm s) (sz + 4) 0 = Inr (p, L)"
  shows "malloc sz s = Inr (if p = 0 then 0 else p + 4,
     heap_step s L (if p = 0 then hmem s else store32 p (sz + 4) (hmem s)))"
proof -
  have "u_malloc sz (held Malloc_mutex s) = Inr (if p = 0 then 0 else p + 4, (held Malloc_mutex s)\<lparr>malloc_lmm := L,
      hmem := (if p = 0 then hmem s else store32 p (sz + 4) (hmem s))\<rparr>)"
    using a by (simp add: u_malloc_def pool_alloc_def poke_def Let_def)
  from locked_run[where m = "u_malloc sz", OF _ this] ok show ?thesis
    by (simp add: malloc_def heap_ok_def heap_step_def released_def held_def)
qed

lemma free_run:
  assumes ok: "heap_ok s" and f: "lmm_free (malloc_lmm s) (p - 4) (load32 (p - 4) (hmem s)) = Inr L"
  shows "free p s = Inr ((), heap_step s L (hmem s))"
proof -
  have "u_free p (held Malloc_mutex s) = Inr ((), (held Malloc_mutex s)\<lparr>malloc_lmm := L\<rparr>)"
    using f by (simp add: u_free_def pool_free_def Let_def)
  from locked_run[where m = "u_free p", OF _ this] ok show ?thesis
    by (simp add: free_def heap_ok_def heap_step_def released_def held_def)
qed

lemma sfree_run:
  assumes ok: "heap_ok s" and f: "lmm_free (malloc_lmm s) p sz = Inr L"
  shows "sfree p sz s = Inr ((), heap_step s L (hmem s))"
proof -
  have "u_sfree p sz (held Malloc_mutex s) = Inr ((), (held Malloc_mutex s)\<lparr>malloc_lmm := L\<rparr>)"
    using f by (simp add: u_sfree_def pool_free_def)
  from locked_run[where m = "u_sfree p sz", OF _ this] ok show ?thesis
    by (simp add: sfree_def heap_ok_def heap_step_def released_def held_def)
qed

lemma memalign_run:
  assumes ok: "heap_ok s" and sh: "align_shift al = Inr k"
    and a: "lmm_alloc_aligned (malloc_lmm s) (sz + 4) 0 k (push_bit k 1 - 4) = Inr (p, L)"
  shows "memalign al sz s = Inr (if p = 0 then 0 else p + 4,
     heap_step s L (if p = 0 then hmem s else store32 p (sz + 4) (hmem s)))"
proof -
  have "u_memalign al sz (held Malloc_mutex s) = Inr (if p = 0 then 0 else p + 4, (held Malloc_mutex s)\<lparr>malloc_lmm := L,
      hmem := (if p = 0 then hmem s else store32 p (sz + 4) (hmem s))\<rparr>)"
    using a sh by (simp add: u_memalign_def pool_alloc_def poke_def Let_def)
  from locked_run[where m = "u_memalign al sz", OF _ this] ok show ?thesis
    by (simp add: memalign_def heap_ok_def heap_step_def released_def held_def)
qed

lemma align_shift_4096: "align_shift 4096 = Inr 12"
  by (simp add: align_shift_def upt_conv_Cons)

lemma take_bit_unat: "take_bit k (x :: u32) = take_bit k y \<Longrightarrow> unat x mod 2 ^ k = unat y mod 2 ^ k"
  by (metis take_bit_eq_mod unsigned_take_bit_eq)

lemma memalign_page_spec:
  assumes ok: "heap_ok s"
  obtains L hm where "memalign 4096 4096 s = Inr (0, heap_step s L hm)" "heap_ok (heap_step s L hm)" "L = malloc_lmm s"
  | p L hm where "memalign 4096 4096 s = Inr (p, heap_step s L hm)" "heap_ok (heap_step s L hm)" "p \<noteq> 0"
    "4096 dvd unat p" "block p 4096 \<subseteq> heap_bytes s" "block p 4096 \<inter> lmm_bytes L = {}" "lmm_bytes L \<subseteq> heap_bytes s"
    "heads L = heads (malloc_lmm s)" "\<exists>r\<in>set (malloc_lmm s). block p 4096 \<subseteq> span r"
proof -
  have lo: "lmm_ok (malloc_lmm s)" using ok by (simp add: heap_ok_def)
  have u: "0 < unat (4096 + 4 :: u32)" "2 ^ 12 + unat (4096 + 4 :: u32) \<le> 2 ^ 32" by simp_all
  from lmm_alloc_aligned_spec[OF lo u, of 0 "push_bit 12 1 - 4"] obtain q L where
    a: "lmm_alloc_aligned (malloc_lmm s) (4096 + 4) 0 12 (push_bit 12 1 - 4) = Inr (q, L)" and
    c: "(q = 0 \<and> L = malloc_lmm s) \<or> (q \<noteq> 0 \<and> take_bit 12 q = take_bit 12 (push_bit 12 1 - 4)
       \<and> unat q + unat (4096 + 4 :: u32) \<le> 2 ^ 32
       \<and> alloc_post (malloc_lmm s) (align_down q) (round8 (unat q mod 8 + unat (4096 + 4 :: u32))) L)" by blast
  note run = memalign_run[OF ok align_shift_4096 a]
  show ?thesis
  proof (cases "q = 0")
    case True
    with c have L: "L = malloc_lmm s" using alloc_post_nonzero[OF lo] by auto
    show ?thesis using True run that(1)[of L] L heap_step_ok[OF ok lo] by simp
  next
    case False
    with c have tb: "take_bit 12 q = take_bit 12 (push_bit 12 1 - 4 :: u32)" and fits: "unat q + 4100 \<le> 2 ^ 32"
      and post: "alloc_post (malloc_lmm s) (align_down q) (round8 (unat q mod 8 + 4100)) L" by auto
    have m: "unat q mod 4096 = 4092" using take_bit_unat[OF tb] by simp
    have up: "unat (q + 4) = unat q + 4" using fits by (simp add: unat_plus_if')
    have sub: "block (q + 4) 4096 \<subseteq> block q 4100" by (auto simp: block_def up)
    have blk: "block (q + 4) 4096 \<subseteq> block (align_down q) (round8 (unat q mod 8 + 4100))"
      using sub aligned_block[of q 4100] by blast
    show ?thesis
    proof (rule that(2)[of "q + 4" L "store32 q (4096 + 4) (hmem s)"])
      show "memalign 4096 4096 s = Inr (q + 4, heap_step s L (store32 q (4096 + 4) (hmem s)))" using False run by simp
      show "heap_ok (heap_step s L (store32 q (4096 + 4) (hmem s)))"
        using post ok by (intro heap_step_ok) (simp_all add: alloc_post_def)
      show "q + 4 \<noteq> 0" using up by auto
      show "4096 dvd unat (q + 4)" using mod_add_left_eq[of "unat q" 4096 4] m unfolding up dvd_eq_mod_eq_0 by simp
      show "block (q + 4) 4096 \<subseteq> heap_bytes s" using blk alloc_post_bytes[OF post] by blast
      show "block (q + 4) 4096 \<inter> lmm_bytes L = {}" "lmm_bytes L \<subseteq> heap_bytes s" "heads L = heads (malloc_lmm s)"
        using blk post by (auto simp: alloc_post_def)
      show "\<exists>r\<in>set (malloc_lmm s). block (q + 4) 4096 \<subseteq> span r" using blk alloc_post_span[OF lo post] by blast
    qed
  qed
qed

lemma sfree_page_spec:
  assumes ok: "heap_ok s" and p: "p \<noteq> 0" "4096 dvd unat p"
    and sp: "\<exists>r\<in>set (malloc_lmm s). block p 4096 \<subseteq> span r" and dis: "block p 4096 \<inter> heap_bytes s = {}"
  obtains L where "sfree p 4096 s = Inr ((), heap_step s L (hmem s))" "heap_ok (heap_step s L (hmem s))"
    "heads L = heads (malloc_lmm s)" "lmm_bytes L = heap_bytes s \<union> block p 4096"
proof -
  have lo: "lmm_ok (malloc_lmm s)" using ok by (simp add: heap_ok_def)
  have "8 dvd unat p" using p(2) by (rule dvd_trans[rotated]) simp
  then have m: "unat p mod 8 = 0" "align_down p = p"
    by (simp_all add: word_unat_eq_iff unat_align_down)
  have r: "round8 4096 = 4096" by (simp add: round8_def)
  have "0 < unat p" using p(1) by (simp add: unat_gt_0)
  then obtain L where L: "lmm_free (malloc_lmm s) p 4096 = Inr L" "free_post (malloc_lmm s) p 4096 L"
    using lmm_free_spec[OF lo, of 4096 p "block p 4096"] m r sp dis by auto
  show ?thesis
    using that[of L] sfree_run[OF ok L(1)] L(2) heap_step_ok[OF ok] by (simp add: free_post_def)
qed

section \<open>The contract of the page supply\<close>

text \<open>\<open>managed\<close> says that a set of bytes lies in memory the allocator manages, as every block it
  hands out does.\<close>

locale page_heap =
  fixes ok :: "'st \<Rightarrow> bool" and free_bytes :: "'st \<Rightarrow> nat set" and managed :: "'st \<Rightarrow> nat set \<Rightarrow> bool"
    and get_page :: "('st, u32) kop" and put_page :: "u32 \<Rightarrow> ('st, unit) kop"
  assumes get_law: "ok s \<Longrightarrow> \<exists>p s'. get_page s = Inr (p, s') \<and> ok s' \<and> managed s' = managed s \<and>
      (if p = 0 then free_bytes s' = free_bytes s
       else 4096 dvd unat p \<and> block p 4096 \<subseteq> free_bytes s \<and> block p 4096 \<inter> free_bytes s' = {}
         \<and> free_bytes s' \<subseteq> free_bytes s \<and> managed s (block p 4096))"
    and put_law: "ok s \<Longrightarrow> p \<noteq> 0 \<Longrightarrow> 4096 dvd unat p \<Longrightarrow> managed s (block p 4096)
      \<Longrightarrow> block p 4096 \<inter> free_bytes s = {} \<Longrightarrow>
      \<exists>s'. put_page p s = Inr ((), s') \<and> ok s' \<and> managed s' = managed s \<and> free_bytes s' = free_bytes s \<union> block p 4096"
begin

definition in_use :: "'st \<Rightarrow> u32 \<Rightarrow> bool" where
  "in_use s p \<longleftrightarrow> p \<noteq> 0 \<and> 4096 dvd unat p \<and> managed s (block p 4096) \<and> block p 4096 \<inter> free_bytes s = {}"

lemma get_fresh:
  assumes "ok s" "get_page s = Inr (p, s')" "p \<noteq> 0"
  shows "ok s'" "in_use s' p" "\<And>q. in_use s q \<Longrightarrow> in_use s' q \<and> q \<noteq> p"
proof -
  have "0 < (4096::nat)" by simp
  then have ne: "unat p \<in> block p 4096" by (simp add: block_def)
  from get_law[OF assms(1)] assms(2,3)
  have "ok s'" "managed s' = managed s" "4096 dvd unat p" "block p 4096 \<subseteq> free_bytes s"
    "block p 4096 \<inter> free_bytes s' = {}" "free_bytes s' \<subseteq> free_bytes s" "managed s (block p 4096)" by auto
  then show "ok s'" "in_use s' p" "\<And>q. in_use s q \<Longrightarrow> in_use s' q \<and> q \<noteq> p"
    using assms(3) ne by (auto simp: in_use_def)
qed

lemma put_after_get:
  assumes "ok s" "get_page s = Inr (p, s1)" "p \<noteq> 0"
  shows "\<exists>s2. put_page p s1 = Inr ((), s2) \<and> ok s2 \<and> free_bytes s2 \<subseteq> free_bytes s
    \<and> (\<forall>q. in_use s q \<longrightarrow> in_use s2 q)"
proof -
  note f = get_fresh[OF assms]
  obtain s2 where s2: "put_page p s1 = Inr ((), s2)" "ok s2" "managed s2 = managed s1" "free_bytes s2 = free_bytes s1 \<union> block p 4096"
    using put_law[OF f(1) assms(3)] f(2) by (auto simp: in_use_def)
  have l: "block p 4096 \<subseteq> free_bytes s" "free_bytes s1 \<subseteq> free_bytes s" "managed s1 = managed s"
    using get_law[OF assms(1)] assms(2,3) by auto
  with s2 show ?thesis by (auto simp: in_use_def)
qed

end

definition managed_by :: "'a kheap_scheme \<Rightarrow> nat set \<Rightarrow> bool" where
  "managed_by s B \<longleftrightarrow> (\<exists>r\<in>set (malloc_lmm s). B \<subseteq> span r)"

lemma managed_by_heads: "heads (malloc_lmm s') = heads (malloc_lmm s) \<Longrightarrow> managed_by s' = managed_by s"
proof -
  assume h: "heads (malloc_lmm s') = heads (malloc_lmm s)"
  have "(\<exists>r\<in>set (malloc_lmm s'). B \<subseteq> span r) = (\<exists>r\<in>set (malloc_lmm s). B \<subseteq> span r)" for B
    using heads_spans[OF h] by (metis (no_types, lifting) imageE image_eqI list.set_map)
  then show ?thesis by (auto simp: managed_by_def fun_eq_iff)
qed

text \<open>\<open>memalign\<close> and \<open>sfree\<close> of one page keep the contract.\<close>

interpretation kh: page_heap heap_ok heap_bytes managed_by "memalign 4096 4096" "\<lambda>p. sfree p 4096"
proof unfold_locales
  fix s :: "'a kheap_scheme" assume ok: "heap_ok s"
  show "\<exists>p s'. memalign 4096 4096 s = Inr (p, s') \<and> heap_ok s' \<and> managed_by s' = managed_by s \<and>
      (if p = 0 then heap_bytes s' = heap_bytes s
       else 4096 dvd unat p \<and> block p 4096 \<subseteq> heap_bytes s \<and> block p 4096 \<inter> heap_bytes s' = {}
         \<and> heap_bytes s' \<subseteq> heap_bytes s \<and> managed_by s (block p 4096))"
  proof (rule memalign_page_spec[OF ok])
    fix L hm assume "memalign 4096 4096 s = Inr (0, heap_step s L hm)" "heap_ok (heap_step s L hm)" "L = malloc_lmm s"
    then show ?thesis using managed_by_heads[of "heap_step s L hm" s] by simp
  next
    fix p L hm assume "memalign 4096 4096 s = Inr (p, heap_step s L hm)" "heap_ok (heap_step s L hm)" "p \<noteq> 0"
      "4096 dvd unat p" "block p 4096 \<subseteq> heap_bytes s" "block p 4096 \<inter> lmm_bytes L = {}" "lmm_bytes L \<subseteq> heap_bytes s"
      "heads L = heads (malloc_lmm s)" "\<exists>r\<in>set (malloc_lmm s). block p 4096 \<subseteq> span r"
    then show ?thesis using managed_by_heads[of "heap_step s L hm" s] by (auto simp: managed_by_def)
  qed
next
  fix s :: "'a kheap_scheme" and p :: u32
  assume a: "heap_ok s" "p \<noteq> 0" "4096 dvd unat p" "managed_by s (block p 4096)" "block p 4096 \<inter> heap_bytes s = {}"
  show "\<exists>s'. sfree p 4096 s = Inr ((), s') \<and> heap_ok s' \<and> managed_by s' = managed_by s
      \<and> heap_bytes s' = heap_bytes s \<union> block p 4096"
  proof (rule sfree_page_spec[OF a(1-3) _ a(5)])
    show "\<exists>r\<in>set (malloc_lmm s). block p 4096 \<subseteq> span r" using a(4) by (simp add: managed_by_def)
    fix L assume "sfree p 4096 s = Inr ((), heap_step s L (hmem s))" "heap_ok (heap_step s L (hmem s))"
      "heads L = heads (malloc_lmm s)" "lmm_bytes L = heap_bytes s \<union> block p 4096"
    then show ?thesis using managed_by_heads[of "heap_step s L (hmem s)" s] by auto
  qed
qed

definition demo_heap :: "kheap" where
  "demo_heap = kcore.extend (empty_core\<lparr>current_thread := 8\<rparr>) \<lparr>malloc_lmm = pool1, hmem = (\<lambda>_. 0)\<rparr>"

lemma demo_heap_ok: "heap_ok demo_heap"
  by (simp add: heap_ok_def demo_heap_def pool1_ok quiet_def kcore.extend_def empty_core_def empty_lheap_def)

section \<open>Properties\<close>

text \<open>C29: \<open>free\<close> undoes \<open>malloc\<close>: from a well-formed heap, when \<open>malloc\<close> returns a block,
  \<open>free\<close> finds its size in the word before it and restores the pool exactly; both leave the mutex
  free.\<close>

theorem free_undoes_malloc:
  assumes "heap_ok s" and "unat sz + 11 < 2 ^ 32" and "malloc sz s = Inr (p, s1)" and "p \<noteq> 0"
  shows "\<exists>s2. free p s1 = Inr ((), s2) \<and> malloc_lmm s2 = malloc_lmm s \<and> heap_ok s2"
proof -
  have lo: "lmm_ok (malloc_lmm s)" using assms(1) by (simp add: heap_ok_def)
  have u: "unat (sz + 4) = unat sz + 4" using assms(2) by (simp add: unat_plus_if')
  then have sz: "0 < unat (sz + 4)" "unat (sz + 4) + 7 < 2 ^ 32" using assms(2) by simp_all
  from lmm_alloc_spec[OF lo sz, of 0] obtain q L where a: "lmm_alloc (malloc_lmm s) (sz + 4) 0 = Inr (q, L)"
    and c: "q \<noteq> 0 \<Longrightarrow> alloc_post (malloc_lmm s) q (round8 (unat (sz + 4))) L" by blast
  from malloc_run[OF assms(1) a] assms(3,4) have q: "q \<noteq> 0" and p: "p = q + 4"
    and s1: "s1 = heap_step s L (store32 q (sz + 4) (hmem s))" by (auto split: if_splits)
  have "lmm_ok L" using c[OF q] by (simp add: alloc_post_def)
  then have ok1: "heap_ok s1" unfolding s1 by (rule heap_step_ok[OF assms(1)])
  have "lmm_free L q (sz + 4) = Inr (malloc_lmm s)" using lmm_alloc_free_id[OF lo sz a q] .
  then have "lmm_free (malloc_lmm s1) (p - 4) (load32 (p - 4) (hmem s1)) = Inr (malloc_lmm s)"
    by (simp add: s1 p load_store32)
  from free_run[OF ok1 this] show ?thesis using heap_step_ok[OF ok1 lo] by auto
qed

theorem free_undoes_malloc_witness:
  "\<exists>p s1 s2. malloc 60 demo_heap = Inr (p, s1) \<and> free p s1 = Inr ((), s2) \<and> malloc_lmm s2 = pool1"
proof -
  have "lmm_alloc (malloc_lmm demo_heap) (60 + 4) 0 = Inr (0x100000, [(hd pool1)\<lparr>rnodes := [(0x100040, 0xFFFC0)], rfree := 0xFFFC0\<rparr>])"
    by (simp add: demo_heap_def kcore.extend_def lmm_alloc_def pool1_def assertL_def region_asserts_def first_addr_def
        align_up_def ALIGN_MASK_def ALIGN_SIZE_def node_asserts_def)
  from malloc_run[OF demo_heap_ok this] obtain s1 where m: "malloc 60 demo_heap = Inr (0x100004, s1)" by simp
  from free_undoes_malloc[OF demo_heap_ok _ m] m show ?thesis by (auto simp: demo_heap_def kcore.extend_def)
qed

text \<open>\<open>memalign(4096, 4096)\<close> supplies the page tables with page-aligned pages that overlap no
  page still in use, and pages in use stay in use; it reports an exhausted heap with NULL.\<close>

theorem memalign_page_fresh:
  assumes "heap_ok s"
  shows "\<exists>p s'. memalign 4096 4096 s = Inr (p, s') \<and> heap_ok s' \<and>
    (p = 0 \<or> (4096 dvd unat p \<and> block p 4096 \<subseteq> heap_bytes s \<and> block p 4096 \<inter> heap_bytes s' = {}
      \<and> heap_bytes s' \<subseteq> heap_bytes s))"
  using kh.get_law[OF assms] by (auto split: if_splits)

theorem memalign_page_fresh_witness:
  "\<exists>p s'. memalign 4096 4096 demo_heap = Inr (p, s') \<and> heap_ok s'"
  using memalign_page_fresh[OF demo_heap_ok] by blast

text \<open>\<open>smalloc\<close> never returns: it takes the allocator's mutex and then calls itself, so the
  second call waits for the mutex the first one holds, forever; every later allocation of any
  thread waits with it.\<close>

theorem smalloc_deadlocks: "smalloc sz s = Some (Inl Would_Block)"
proof -
  have held: "smalloc sz s' = Some (Inl Would_Block)" if "m_status (mutexes s' Malloc_mutex) \<noteq> 0" for s' :: "'a kheap_scheme"
    using that by (subst smalloc.simps) (simp add: mutex_lock_def)
  show ?thesis
  proof (cases "m_status (mutexes s Malloc_mutex) = 0")
    case True
    have "smalloc sz (Mutex.held Malloc_mutex s) = Some (Inl Would_Block)"
      by (rule held) (simp add: Mutex.held_def)
    with True show ?thesis by (subst smalloc.simps) simp
  qed (rule held)
qed

end
