(* ===== verification/Heap_Room.thy ===== *)
theory Heap_Room
  imports Malloc
begin

text \<open>
  When the allocator has a page left. \<open>memalign(4096, 4096)\<close> returns NULL exactly when no region has a free page with
  the four bytes before it that take the size word (\<open>page_left\<close>); and a pool in which large free nodes are left can
  supply as many pages as \<open>page_room\<close> counts. These are the conditions under which the paging code does not run out of
  memory for page tables.
\<close>

unbundle bit_operations_syntax

section \<open>A run of free bytes lies in one node\<close>

lemma run_in_node:
  assumes "nodes_ok lo hi ns" "{x..<y} \<subseteq> nbytes ns" "x < y"
  shows "\<exists>(a, n)\<in>set ns. unat a \<le> x \<and> y \<le> unat a + unat n"
  using assms
proof (induction ns arbitrary: lo)
  case (Cons z ns)
  obtain a n where z: "z = (a, n)" by force
  have ok: "nodes_ok (unat a + unat n + 1) hi ns" using Cons.prems(1) by (simp add: z)
  have later: "v \<in> nbytes ns \<Longrightarrow> unat a + unat n < v" for v using nbytes_range[OF ok] by fastforce
  show ?case
  proof (cases "x \<in> block a (unat n)")
    case True
    have "unat a + unat n \<notin> nbytes (z # ns)" using later by (auto simp: z block_def)
    then have "unat a + unat n \<notin> {x..<y}" using Cons.prems(2) by blast
    then show ?thesis using True by (auto simp: z block_def)
  next
    case False
    then have "unat a + unat n < x" using Cons.prems(2,3) later[of x] by (auto simp: z)
    then have "{x..<y} \<subseteq> nbytes ns" using Cons.prems(2) by (auto simp: z block_def)
    from Cons.IH[OF ok this Cons.prems(3)] show ?thesis by auto
  qed
qed auto

section \<open>The aligned search finds what there is\<close>

lemma align_addr_least:
  assumes bits: "bits \<le> 32" and fit: "unat a + unat n < 2 ^ 32"
    and q: "unat a \<le> q" "q + unat sz \<le> unat a + unat n" "q mod 2 ^ bits = unat ofs mod 2 ^ bits"
  shows "\<not> n < sz" "\<not> align_addr bits ofs a - a + sz > n"
proof -
  obtain d where d: "align_addr bits ofs a = a + of_nat d" "d < 2 ^ bits" using align_addr_raise[OF bits] by blast
  define e where "e = q - unat a"
  have mm: "x mod 2 ^ 32 mod 2 ^ bits = x mod 2 ^ bits" for x :: nat
    using mod_mod_cancel[OF le_imp_power_dvd[OF bits, of "2 :: nat"], of x] .
  have "unat (a + of_nat d) mod 2 ^ bits = unat ofs mod 2 ^ bits"
    using align_addr_agrees[OF bits, of ofs a] unfolding d(1) by (rule take_bit_unat)
  moreover have "unat (a + of_nat d) mod 2 ^ bits = (unat a + d) mod 2 ^ bits"
    using mm[of "unat a + d"] by (simp add: unat_word_ariths unat_of_nat mod_add_right_eq)
  ultimately have c: "(unat a + d) mod 2 ^ bits = (unat a + e) mod 2 ^ bits" using q by (simp add: e_def)
  have "d \<le> e"
  proof (rule ccontr)
    assume "\<not> d \<le> e"
    then obtain k where k: "d = e + k" "0 < k" using less_imp_add_positive[of e d] by auto
    with c have "2 ^ bits dvd k" using mod_eq_dvd_iff_nat[of "unat a + e" "unat a + d" "2 ^ bits"] by simp
    with k d(2) show False by (auto dest: dvd_imp_le)
  qed
  then have le: "d + unat sz \<le> unat n" using q by (simp add: e_def)
  then have u: "unat (of_nat d + sz :: u32) = d + unat sz" using fit by (simp add: unat_word_ariths unat_of_nat)
  show "\<not> n < sz" using le by (simp add: word_less_nat_alt)
  have "align_addr bits ofs a - a + sz = of_nat d + sz" by (simp add: d(1))
  then show "\<not> align_addr bits ofs a - a + sz > n" using le by (simp only: word_less_nat_alt u)
qed

definition node_fits :: "nat \<Rightarrow> nat \<Rightarrow> nat \<Rightarrow> lmm_node \<Rightarrow> bool" where
  "node_fits sz bits ofs = (\<lambda>(a, n). \<exists>q. unat a \<le> q \<and> q + sz \<le> unat a + unat n \<and> q mod 2 ^ bits = ofs mod 2 ^ bits)"

lemma take_gen_finds:
  assumes bits: "bits \<le> 32" and ok: "nodes_ok lo (unat mx) ns" and fits: "\<exists>x\<in>set ns. node_fits (unat sz) bits (unat ofs) x"
  shows "take_gen mx sz bits ofs 0 (-1) ns \<noteq> Inr None"
  using ok fits
proof (induction ns arbitrary: lo)
  case (Cons x ns)
  obtain a n where x: "x = (a, n)" by force
  have hi: "unat mx < 2 ^ 32" using unsigned_less[of mx, where 'a=nat] by simp
  have f: "unat a + unat n < 2 ^ 32" using Cons.prems(1) hi by (simp add: x)
  have na: "node_asserts mx a n ns" using Cons.prems(1) node_asserts_ok by (simp add: x)
  have top: "\<not> w > (-1 :: u32)" for w by (simp add: not_less word_order.extremum)
  let ?addr = "align_addr bits ofs a"
  show ?case
  proof (cases "n < sz \<or> ?addr - a + sz > n")
    case True
    then have "\<not> node_fits (unat sz) bits (unat ofs) (a, n)"
      using align_addr_least[OF bits f] by (auto simp: node_fits_def)
    then have "\<exists>x\<in>set ns. node_fits (unat sz) bits (unat ofs) x" using Cons.prems(2) by (auto simp: x)
    with Cons.IH[of "unat a + unat n + 1"] Cons.prems(1) have "take_gen mx sz bits ofs 0 (-1) ns \<noteq> Inr None" by (simp add: x)
    then show ?thesis using True na by (cases "take_gen mx sz bits ofs 0 (-1) ns") (auto simp: x assertL_def Let_def)
  next
    case False
    then show ?thesis using na top by (cases "carve ?addr sz a n ns") (auto simp: x assertL_def Let_def)
  qed
qed simp


section \<open>How many pages a pool can supply\<close>

text \<open>A page with its size word takes a node of 8200 bytes at most: fewer than 4096 to get to the alignment, and 4104.\<close>

definition nroom :: "lmm_node list \<Rightarrow> nat" where
  "nroom ns = sum_list (map (\<lambda>(a, n). unat n div 8200) ns)"

definition lmm_room :: "lmm \<Rightarrow> nat" where
  "lmm_room L = sum_list (map (\<lambda>r. nroom (rnodes r)) L)"

lemma nroom_simps [simp]: "nroom [] = 0" "nroom ((a, n) # ns) = unat n div 8200 + nroom ns" "nroom (ns @ ms) = nroom ns + nroom ms"
  by (simp_all add: nroom_def)

lemma lmm_room_simps [simp]: "lmm_room [] = 0" "lmm_room (r # rs) = nroom (rnodes r) + lmm_room rs"
  by (simp_all add: lmm_room_def)

lemma big_node_fits: "8200 \<le> unat n \<Longrightarrow> node_fits 4100 12 4092 (a, n)"
proof -
  assume n: "8200 \<le> unat n"
  define q where "q = unat a + (4092 + (4096 - unat a mod 4096)) mod 4096"
  have m: "unat a mod 4096 < 4096" by simp
  have "q mod 4096 = (unat a + (4092 + (4096 - unat a mod 4096))) mod 4096" unfolding q_def by (rule mod_add_right_eq)
  also have "unat a + (4092 + (4096 - unat a mod 4096)) = 4096 * (unat a div 4096) + 8188"
    using m mult_div_mod_eq[of 4096 "unat a"] by linarith
  also have "(4096 * (unat a div 4096) + 8188) mod 4096 = 4092" by simp
  finally have "q mod 2 ^ 12 = 4092 mod 2 ^ 12" by simp
  moreover have "unat a \<le> q" "q < unat a + 4096" by (simp_all add: q_def)
  ultimately show ?thesis using n by (auto simp: node_fits_def intro!: exI[of _ q])
qed

lemma nroom_fits: "0 < nroom ns \<Longrightarrow> \<exists>x\<in>set ns. node_fits 4100 12 4092 x"
proof (induction ns)
  case (Cons x ns)
  obtain a n where x: "x = (a, n)" by force
  show ?case
  proof (cases "8200 \<le> unat n")
    case True
    then show ?thesis using big_node_fits by (auto simp: x)
  next
    case False
    then show ?thesis using Cons by (simp add: x)
  qed
qed simp

lemma carve_room:
  assumes ok: "nodes_ok lo hi ((a, n) # ns)" and hi: "hi < 2 ^ 32" and addr: "unat addr = unat a + d" "d < 4096"
    "unat addr mod 4096 = 4092" "unat addr + 4100 \<le> unat a + unat n"
    and cv: "carve addr 4100 a n ns = Inr (sz', ns')"
  shows "nroom ((a, n) # ns) \<le> Suc (nroom ns')"
proof -
  have m8: "unat addr mod 8 = 4" using addr(3) mod_mod_cancel[of 8 4096 "unat addr"] by simp
  let ?b = "align_down addr"
  let ?s = "((addr AND ALIGN_MASK) + 4100 + ALIGN_MASK) AND NOT ALIGN_MASK"
  have "unat ?b = unat addr - 4" by (simp only: unat_align_down m8)
  then have ub: "unat ?b = unat a + d - 4" by (simp only: addr(1))
  obtain k where "unat a = 8 * k" using ok by (auto elim: dvdE)
  then have "d mod 8 = 4" using m8 addr(1) by simp
  then have d4: "4 \<le> d" using mod_less_eq_dividend[of d 8] by simp
  have us: "unat ?s = 4104" using unat_round_ofs[of addr 4100] m8 by (simp add: round8_def)
  define as where "as = (if ?b > a then n - (?b - a) else n)"
  have fit: "unat a + unat n < 2 ^ 32" using ok hi by simp
  have sub: "unat (?b - a) = d - 4"
    using ub d4 by (subst unat_sub) (auto simp: word_le_nat_alt)
  have ua: "unat as = unat n - (d - 4)"
  proof (cases "?b > a")
    case True
    have "?b - a \<le> n" using sub addr(1,4) by (simp add: word_le_nat_alt)
    with True show ?thesis by (simp add: as_def unat_sub sub)
  next
    case False
    then have "d - 4 = 0" using ub d4 by (auto simp: word_less_nat_alt)
    with False show ?thesis by (simp add: as_def)
  qed
  have ns': "ns' = (if ?b > a then [(a, ?b - a)] else []) @ (if as > ?s then [(?b + ?s, as - ?s)] else []) @ ns"
    using cv by (auto simp: carve_def Let_def assertL_def as_def split: if_splits)
  have after: "unat n div 8200 \<le> Suc (if as > ?s then unat (as - ?s) div 8200 else 0)"
  proof (cases "as > ?s")
    case True
    then have "unat (as - ?s) = unat as - 4104" by (simp add: unat_sub us less_imp_le)
    then have "unat n \<le> unat (as - ?s) + 8200" using ua addr(2) by simp
    then have "unat n div 8200 \<le> (unat (as - ?s) + 8200) div 8200" by (rule div_le_mono)
    then show ?thesis using True by simp
  next
    case False
    then have "unat as \<le> 4104" by (simp add: word_less_nat_alt us)
    then have "unat n < 8200 + 8200" using ua addr(2) by simp
    then show ?thesis using False by simp
  qed
  then show ?thesis by (auto simp: ns')
qed


lemma page_search_candidate:
  assumes fit: "unat a + unat n < 2 ^ 32" and ok: "\<not> align_addr 12 4092 a - a + 4100 > n"
  obtains d where "unat (align_addr 12 4092 a) = unat a + d" "d < 4096" "unat (align_addr 12 4092 a) mod 4096 = 4092"
    "unat (align_addr 12 4092 a) + 4100 \<le> unat a + unat n"
proof -
  let ?addr = "align_addr 12 4092 a"
  have "unat (0 :: u32) + 2 ^ 12 + unat (4100 :: u32) \<le> 2 ^ 32" "(12 :: nat) \<le> 32" by simp_all
  from aligned_candidate[OF this(2,1) fit refl, of 4092] ok
  have c: "unat a \<le> unat ?addr" "unat ?addr + 4100 \<le> unat a + unat n" by simp_all
  obtain d where d: "?addr = a + of_nat d" "d < 4096" using align_addr_raise[of 12 4092 a] by auto
  have "unat ?addr = (unat a + d) mod 2 ^ 32" using d by (simp add: unat_word_ariths unat_of_nat mod_add_right_eq)
  moreover have "unat a + d < 2 ^ 32"
  proof (rule ccontr)
    assume big: "\<not> unat a + d < 2 ^ 32"
    then have "unat ?addr = unat a + d - 2 ^ 32"
      using \<open>unat ?addr = (unat a + d) mod 2 ^ 32\<close> d(2) fit by (simp add: le_mod_geq)
    with c(1) d(2) fit big show False by simp
  qed
  ultimately have "unat ?addr = unat a + d" by simp
  moreover have "unat ?addr mod 4096 = 4092"
    using take_bit_unat[OF align_addr_agrees[of 12 4092 a]] by simp
  ultimately show thesis using that c(2) d(2) by blast
qed

lemma take_gen_room:
  assumes "nodes_ok lo (unat mx) ns" "take_gen mx 4100 12 4092 0 (-1) ns = Inr (Some (p, sz', ns'))"
  shows "nroom ns \<le> Suc (nroom ns')"
  using assms
proof (induction ns arbitrary: lo ns')
  case (Cons x ns)
  obtain a n where x: "x = (a, n)" by force
  have hi: "unat mx < 2 ^ 32" using unsigned_less[of mx, where 'a=nat] by simp
  have fit: "unat a + unat n < 2 ^ 32" and ok: "nodes_ok (unat a + unat n + 1) (unat mx) ns"
    using Cons.prems(1) hi by (simp_all add: x)
  let ?addr = "align_addr 12 4092 a"
  show ?case
  proof (cases "n < 4100 \<or> ?addr - a + 4100 > n")
    case True
    then obtain ns'' where "take_gen mx 4100 12 4092 0 (-1) ns = Inr (Some (p, sz', ns''))" "ns' = (a, n) # ns''"
      using Cons.prems(2) by (cases "take_gen mx 4100 12 4092 0 (-1) ns") (auto simp: x assertL_def Let_def split: if_splits)
    with Cons.IH[OF ok] show ?thesis by (auto simp: x)
  next
    case False
    then obtain d where d: "unat ?addr = unat a + d" "d < 4096" "unat ?addr mod 4096 = 4092"
      "unat ?addr + 4100 \<le> unat a + unat n" using page_search_candidate[OF fit] by blast
    have "carve ?addr 4100 a n ns = Inr (sz', ns')"
      using False Cons.prems(2) by (cases "carve ?addr 4100 a n ns") (auto simp: x assertL_def Let_def split: if_splits)
    from carve_room[OF Cons.prems(1)[unfolded x] hi d this] show ?thesis by (simp add: x)
  qed
qed simp

lemma gen_regions_room:
  assumes "lmm_ok L" "gen_regions 4100 0 12 4092 0 (-1) L = Inr (p, L')"
  shows "(p = 0 \<longrightarrow> (\<forall>r\<in>set L. \<forall>x\<in>set (rnodes r). \<not> node_fits 4100 12 4092 x))
    \<and> lmm_room L \<le> lmm_room L' + (if p = 0 then 0 else 1)"
  using assms
proof (induction L arbitrary: p L')
  case (Cons r rs)
  let ?t = "take_gen (rmax r) 4100 12 4092 0 (-1) (rnodes r)"
  have r: "region_ok r" "nodes_ok (unat (rmin r)) (unat (rmax r)) (rnodes r)" and rs: "lmm_ok rs"
    using Cons.prems(1) by (simp_all add: region_ok_def)
  have no: "\<not> (0 AND NOT (rflags r) \<noteq> 0 \<or> rmin r \<ge> -1 \<or> rmax r \<le> 0)"
  proof -
    have lt: "rmin r < rmax r" using r(1) by (simp add: region_ok_def word_less_nat_alt)
    have "rmin r < -1" by (rule less_le_trans[OF lt word_order.extremum])
    moreover have "0 < rmax r" by (rule le_less_trans[OF word_zero_le lt])
    ultimately show ?thesis by (simp add: not_le)
  qed
  have "unat (0 :: u32) + 2 ^ 12 + unat (4100 :: u32) \<le> 2 ^ 32" "(12 :: nat) \<le> 32" "0 < unat (4100 :: u32)" by simp_all
  from take_gen_spec[OF this(2,1,3) r(2), of 4092 "-1"] obtain res where res: "?t = Inr res" and
    post: "\<forall>p sz' ns'. res = Some (p, sz', ns') \<longrightarrow> gen_post 4100 12 4092 0 (-1) p" by (auto split: option.splits)
  show ?case
  proof (cases res)
    case None
    then obtain L'' where g: "gen_regions 4100 0 12 4092 0 (-1) rs = Inr (p, L'')" "L' = r # L''"
      using Cons.prems(2) no res by (cases "gen_regions 4100 0 12 4092 0 (-1) rs") (auto simp: assertL_def Let_def split: if_splits)
    have nf: "\<forall>x\<in>set (rnodes r). \<not> node_fits 4100 12 4092 x"
      using take_gen_finds[OF _ r(2), of 12 4100 4092] res None by auto
    with nroom_fits[of "rnodes r"] have "nroom (rnodes r) = 0" by auto
    then show ?thesis using Cons.IH[OF rs g(1)] nf g(2) by simp
  next
    case (Some y)
    obtain q sz' ns' where y: "y = (q, sz', ns')" by (cases y) auto
    have q: "q = p" "L' = r\<lparr>rnodes := ns', rfree := rfree r - sz'\<rparr> # rs"
      using Cons.prems(2) no res Some y by (auto simp: assertL_def Let_def split: if_splits)
    have "take_bit 12 p = take_bit 12 4092" using post Some y q by (simp add: gen_post_def)
    then have "p \<noteq> 0" by auto
    moreover have "nroom (rnodes r) \<le> Suc (nroom ns')" using take_gen_room[OF r(2)] res Some y by blast
    ultimately show ?thesis using q by simp
  qed
qed simp


section \<open>The page supply\<close>

definition page_left :: "'a kheap_scheme \<Rightarrow> bool" where
  "page_left s \<longleftrightarrow> (\<exists>r\<in>set (malloc_lmm s). \<exists>p\<ge>4. 4096 dvd p \<and> {p - 4..<p + 4096} \<subseteq> nbytes (rnodes r))"

definition page_room :: "'a kheap_scheme \<Rightarrow> nat" where
  "page_room s = lmm_room (malloc_lmm s)"

lemma node_in_nbytes: "(a, n) \<in> set ns \<Longrightarrow> block a (unat n) \<subseteq> nbytes ns"
  by (induction ns) auto

lemma fits_page_left:
  assumes "r \<in> set (malloc_lmm s)" "(a, n) \<in> set (rnodes r)" "node_fits 4100 12 4092 (a, n)"
  shows "page_left s"
proof -
  obtain q where q: "unat a \<le> q" "q + 4100 \<le> unat a + unat n" "q mod 4096 = 4092" using assms(3) by (auto simp: node_fits_def)
  have "q + 4 = 4096 * (q div 4096 + 1)" using q(3) mult_div_mod_eq[of 4096 q] by simp
  then have "4096 dvd q + 4" by (metis dvd_triv_left)
  moreover have "{q + 4 - 4..<q + 4 + 4096} \<subseteq> nbytes (rnodes r)"
    using node_in_nbytes[OF assms(2)] q(1,2) by (fastforce simp: block_def)
  ultimately show ?thesis using assms(1) unfolding page_left_def by (intro bexI[of _ r] exI[of _ "q + 4"]) auto
qed

lemma sum_list_pos_ex: "0 < sum_list (map f xs) \<Longrightarrow> \<exists>x\<in>set xs. 0 < (f x :: nat)"
  by (induction xs) auto

lemma page_room_left: "0 < page_room s \<Longrightarrow> page_left s"
proof -
  assume "0 < page_room s"
  then have "\<exists>r\<in>set (malloc_lmm s). 0 < nroom (rnodes r)" unfolding page_room_def lmm_room_def by (rule sum_list_pos_ex)
  then show "page_left s" using nroom_fits fits_page_left by (metis surj_pair)
qed

lemma page_left_fits:
  assumes "heap_ok s" "page_left s"
  shows "\<exists>r\<in>set (malloc_lmm s). \<exists>x\<in>set (rnodes r). node_fits 4100 12 4092 x"
proof -
  obtain r p where r: "r \<in> set (malloc_lmm s)" and p: "4 \<le> p" "4096 dvd p" "{p - 4..<p + 4096} \<subseteq> nbytes (rnodes r)"
    using assms(2) unfolding page_left_def by blast
  have lt: "p - 4 < p + 4096" by simp
  have "nodes_ok (unat (rmin r)) (unat (rmax r)) (rnodes r)"
    using lmm_ok_region[OF _ r] assms(1) by (simp add: heap_ok_def region_ok_def)
  from run_in_node[OF this p(3) lt] obtain a n where an: "(a, n) \<in> set (rnodes r)" "unat a \<le> p - 4" "p + 4096 \<le> unat a + unat n" by auto
  obtain k where k: "p = 4096 * k" using p(2) by (auto elim: dvdE)
  with p(1) have "p - 4 = 4096 * (k - 1) + 4092" by (cases k) simp_all
  then have "(p - 4) mod 4096 = 4092" by simp
  then have "node_fits 4100 12 4092 (a, n)" using an p(1) by (auto simp: node_fits_def intro!: exI[of _ "p - 4"])
  with r an(1) show ?thesis by blast
qed

text \<open>\<open>memalign\<close> of a page fails exactly when no page is left, and uses up at most one page of the room.\<close>

lemma memalign_page:
  assumes ok: "heap_ok s" and m: "memalign 4096 4096 s = Inr (p, s')"
  shows "p = 0 \<longleftrightarrow> \<not> page_left s" "page_room s \<le> page_room s' + (if p = 0 then 0 else 1)"
proof -
  have lo: "lmm_ok (malloc_lmm s)" using ok by (simp add: heap_ok_def)
  have "0 < unat (4100 :: u32)" "2 ^ 12 + unat (4100 :: u32) \<le> 2 ^ 32" by simp_all
  from lmm_alloc_aligned_spec[OF lo this, of 0 4092] obtain q L where
    a: "lmm_alloc_aligned (malloc_lmm s) 4100 0 12 4092 = Inr (q, L)" and
    c: "(q = 0 \<and> L = malloc_lmm s) \<or> (q \<noteq> 0 \<and> take_bit 12 q = take_bit 12 4092 \<and> unat q + unat (4100 :: u32) \<le> 2 ^ 32
       \<and> alloc_post (malloc_lmm s) (align_down q) (round8 (unat q mod 8 + unat (4100 :: u32))) L)" by blast
  have g: "gen_regions 4100 0 12 4092 0 (-1) (malloc_lmm s) = Inr (q, L)"
    using a by (simp add: lmm_alloc_aligned_def lmm_alloc_gen_def assertL_def)
  note gr = gen_regions_room[OF lo g]
  have "lmm_alloc_aligned (malloc_lmm s) (4096 + 4) 0 12 (push_bit 12 1 - 4) = Inr (q, L)" using a by simp
  from memalign_run[OF ok align_shift_4096 this] m have pq: "p = (if q = 0 then 0 else q + 4)" and s': "malloc_lmm s' = L" by auto
  have p0: "p = 0 \<longleftrightarrow> q = 0"
  proof (cases "q = 0")
    case False
    then have "unat (q + 4) = unat q + 4" using c by (auto simp: unat_plus_if')
    then have "q + 4 \<noteq> 0" by auto
    with False pq show ?thesis by simp
  qed (simp add: pq)
  show "page_room s \<le> page_room s' + (if p = 0 then 0 else 1)" using gr p0 by (simp add: page_room_def s')
  show "p = 0 \<longleftrightarrow> \<not> page_left s"
  proof (cases "q = 0")
    case True
    with gr page_left_fits[OF ok] show ?thesis using p0 by blast
  next
    case False
    with c have m: "unat q mod 2 ^ 12 = unat (4092 :: u32) mod 2 ^ 12" using take_bit_unat by blast
    from False c obtain r where r: "r \<in> set (malloc_lmm s)" "block (align_down q) (round8 (unat q mod 8 + 4100)) \<subseteq> nbytes (rnodes r)"
      by (auto simp: alloc_post_def)
    have "block q 4100 \<subseteq> nbytes (rnodes r)" using aligned_block[of q 4100] r(2) by blast
    then have "{unat q + 4 - 4..<unat q + 4 + 4096} \<subseteq> nbytes (rnodes r)" by (simp add: block_def add.commute)
    moreover have "unat q = 4096 * (unat q div 4096) + 4092" using m mult_div_mod_eq[of 4096 "unat q"] by simp
    then have "unat q + 4 = 4096 * (unat q div 4096 + 1)" by simp
    then have "4096 dvd unat q + 4" by (metis dvd_triv_left)
    ultimately have "page_left s" using r(1) unfolding page_left_def by (intro bexI[of _ r] exI[of _ "unat q + 4"]) auto
    then show ?thesis using False p0 by simp
  qed
qed


text \<open>A small block can be had as long as there is room for a page.\<close>

lemma malloc_small:
  assumes ok: "heap_ok s" and sz: "unat sz + 11 < 8192" and m: "malloc sz s = Inr (0, s')"
  shows "page_room s = 0"
proof -
  have lo: "lmm_ok (malloc_lmm s)" using ok by (simp add: heap_ok_def)
  have u: "unat (sz + 4) = unat sz + 4" using sz by (simp add: unat_plus_if')
  then have s4: "0 < unat (sz + 4)" "unat (sz + 4) + 7 < 2 ^ 32" using sz by simp_all
  from lmm_alloc_spec[OF lo s4, of 0] obtain q L where a: "lmm_alloc (malloc_lmm s) (sz + 4) 0 = Inr (q, L)" and
    c: "q = 0 \<and> (\<forall>r\<in>set (malloc_lmm s). \<forall>(a, n)\<in>set (rnodes r). n < align_up (sz + 4)) \<or> q \<noteq> 0 \<and> 8 dvd unat q" by auto
  have "q = 0"
  proof (rule ccontr)
    assume q: "q \<noteq> 0"
    then have "q + 4 = 0" using malloc_run[OF ok a] m by simp
    then have "unat (q + 4) = 0" by simp
    then have "(unat q + 4) mod 2 ^ 32 = 0" by (simp add: unat_word_ariths)
    moreover obtain k where "unat q = 8 * k" using c q by (auto elim: dvdE)
    ultimately have "(8 * k + 4) mod 4294967296 mod 8 = 0" by simp
    then show False using mod_mod_cancel[of 8 4294967296 "8 * k + 4"] by simp
  qed
  then have "unat n < 8200" if "r \<in> set (malloc_lmm s)" "(a, n) \<in> set (rnodes r)" for r a n
  proof -
    have "unat n < unat (align_up (sz + 4))" using c that \<open>q = 0\<close> by (auto simp: word_less_nat_alt)
    also have "\<dots> = round8 (unat sz + 4)" using unat_align_up[OF s4(2)] u by simp
    finally show ?thesis using round8(3)[of "unat sz + 4"] sz by simp
  qed
  then have "\<forall>r\<in>set (malloc_lmm s). nroom (rnodes r) = 0" unfolding nroom_def by fastforce
  then show ?thesis by (simp add: page_room_def lmm_room_def)
qed

end
