(* ===== verification/Paging.thy ===== *)
theory Paging
  imports Frames Heap_Room
begin

text \<open>
  Page directories and page tables, \<open>kern/memory/vm_routines.c\<close> and \<open>vm_routines.h\<close>. Kernel
  memory is mapped one to one, so a table is the array of 1024 entries at its address:
  \<open>tables base i\<close> is \<open>((uint32_t * )base)[i]\<close>, an index above 1023 leaves the array and a base
  of 0 is a NULL dereference. \<open>pages\<close> holds the bytes of the physical frames. User addresses
  are translated by walking the tables from \<open>cr3\<close>; the TLB is not modelled, nor are the
  protection bits of supervisor accesses, which the kernel runs with switched off.

  The record \<open>kvm\<close> extends the kernel state with the frames, the tables and the pages; page
  tables and directories come from the kernel heap of \<open>Malloc\<close>.
\<close>

unbundle bit_operations_syntax

section \<open>State\<close>

definition PAGE_LEN :: nat where "PAGE_LEN = 1024"

definition DEFLAG_ADDR :: "u32 \<Rightarrow> u32" where "DEFLAG_ADDR x = x AND 0xfffff000"
definition ADDFLAG :: "u32 \<Rightarrow> u32 \<Rightarrow> u32" where "ADDFLAG x flag = x OR flag"
definition GET_FLAG :: "u32 \<Rightarrow> u32" where "GET_FLAG x = x AND 0xfff"
definition VA_PD_IND :: "u32 \<Rightarrow> nat" where "VA_PD_IND x = unat (drop_bit 22 x)"
definition VA_PT_IND :: "u32 \<Rightarrow> nat" where "VA_PT_IND x = unat (drop_bit 12 (x AND 0x3ff000))"

record kvm = kheap +
  frs :: frames
  tables :: "u32 \<Rightarrow> nat \<Rightarrow> u32"
  pages :: "nat \<Rightarrow> nat \<Rightarrow> u8"
  cr0_pg :: bool
  cr4_pge :: bool

definition on_frames :: "(frames, 'b) kop \<Rightarrow> ('a kvm_scheme, 'b) kop" where
  "on_frames m = zoomK frs (\<lambda>f s. s\<lparr>frs := f\<rparr>) m"

definition tab_read :: "u32 \<Rightarrow> nat \<Rightarrow> ('a kvm_scheme, u32) kop" where
  "tab_read base i s =
     (if base = 0 then Inl Null_Deref else if i \<ge> PAGE_LEN then Inl Out_Of_Bounds
      else Inr (tables s base i, s))"

definition tab_write :: "u32 \<Rightarrow> nat \<Rightarrow> u32 \<Rightarrow> ('a kvm_scheme, unit) kop" where
  "tab_write base i v s =
     (if base = 0 then Inl Null_Deref else if i \<ge> PAGE_LEN then Inl Out_Of_Bounds
      else Inr ((), s\<lparr>tables := (tables s)(base := (tables s base)(i := v))\<rparr>))"

definition tab_clear :: "u32 \<Rightarrow> ('a kvm_scheme, unit) kop" where
  "tab_clear base s =
     (if base = 0 then Inl Null_Deref else Inr ((), s\<lparr>tables := (tables s)(base := (\<lambda>_. 0))\<rparr>))"

definition set_cr3 :: "u32 \<Rightarrow> ('a kcore_scheme, unit) kop" where
  "set_cr3 pd = modifyK (\<lambda>s. s\<lparr>cr3 := pd\<rparr>)"

section \<open>Address translation\<close>

text \<open>The frame the hardware finds for a virtual address: both entries must be present.\<close>

definition mmu_walk :: "'a kvm_scheme \<Rightarrow> u32 \<Rightarrow> nat option" where
  "mmu_walk s va =
     (let pde = tables s (cr3 s) (VA_PD_IND va)
      in if \<not> bit pde 0 then None
         else let pte = tables s (DEFLAG_ADDR pde) (VA_PT_IND va)
              in if \<not> bit pte 0 then None else Some (frame_index (DEFLAG_ADDR pte)))"

definition memset_page :: "u32 \<Rightarrow> ('a kvm_scheme, unit) kop" where
  "memset_page va s =
     (case mmu_walk s va of
        None \<Rightarrow> Inl Page_Fault
      | Some fr \<Rightarrow> Inr ((), s\<lparr>pages := (pages s)(fr := (\<lambda>_. 0))\<rparr>))"

definition vaddr :: "nat \<Rightarrow> nat \<Rightarrow> u32" where
  "vaddr pd_index pt_index = push_bit 22 (of_nat pd_index) OR push_bit 12 (of_nat pt_index)"

section \<open>Mapping and unmapping one page\<close>

definition virtual_map_physical :: "u32 \<Rightarrow> nat \<Rightarrow> nat \<Rightarrow> ('a kvm_scheme, int) kop" where
  "virtual_map_physical PD pd_index pt_index =
     bindK (tab_read PD pd_index) (\<lambda>pde.
       let zfod = bindK (memset_page (vaddr pd_index pt_index)) (\<lambda>_. returnK 0)
       in if pde \<noteq> 0 then
            bindK (tab_read (DEFLAG_ADDR pde) pt_index) (\<lambda>pte.
              if pte = 0 then
                bindK (on_frames acquire_free_frame) (\<lambda>free_frame_addr.
                  if free_frame_addr = 0 then returnK (-1)
                  else bindK (tab_write (DEFLAG_ADDR pde) pt_index (free_frame_addr OR 0x7)) (\<lambda>_. zfod))
              else returnK (-1))
          else
            bindK (on_frames acquire_free_frame) (\<lambda>free_frame_addr.
              if free_frame_addr = 0 then returnK (-1)
              else
                bindK (memalign 4096 4096) (\<lambda>PT.
                bindK (tab_clear PT) (\<lambda>_.
                bindK (tab_write PT pt_index (free_frame_addr OR 0x7)) (\<lambda>_.
                bindK (tab_write PD pd_index (PT OR 0x7)) (\<lambda>_. zfod))))))"

definition virtual_unmap_physical :: "u32 \<Rightarrow> nat \<Rightarrow> nat \<Rightarrow> ('a kvm_scheme, int) kop" where
  "virtual_unmap_physical PD pd_index pt_index =
     bindK (tab_read PD pd_index) (\<lambda>pde.
       if pde = 0 then returnK (-1)
       else
         bindK (tab_read (DEFLAG_ADDR pde) pt_index) (\<lambda>pte.
           if pte = 0 then returnK (-1)
           else
             bindK (on_frames (release_free_frame (DEFLAG_ADDR pte))) (\<lambda>_.
             bindK (tab_write (DEFLAG_ADDR pde) pt_index 0) (\<lambda>_. returnK 0))))"

section \<open>Ranges of pages\<close>

text \<open>Number of pages touched by \<open>sz\<close> bytes at \<open>virtual_addr\<close>, in \<open>uint32_t\<close> arithmetic.\<close>

definition page_times :: "u32 \<Rightarrow> u32 \<Rightarrow> nat" where
  "page_times virtual_addr sz =
     (let total_size = (virtual_addr AND 0xfff) + sz
      in unat (if total_size mod 4096 = 0 then total_size div 4096 else total_size div 4096 + 1))"

text \<open>The loop that \<open>allocate_pages\<close>, \<open>free_pages\<close> and \<open>map_readonly\<close> share.\<close>

definition for_range :: "u32 \<Rightarrow> u32 \<Rightarrow> (nat \<Rightarrow> nat \<Rightarrow> ('st, unit) kop) \<Rightarrow> ('st, unit) kop" where
  "for_range virtual_addr sz body =
     forK [0..<page_times virtual_addr sz] (\<lambda>i.
       let actual_offset = VA_PT_IND virtual_addr + i
       in body (VA_PD_IND virtual_addr + actual_offset div PAGE_LEN) (actual_offset mod PAGE_LEN))"

text \<open>
  The result of the mapping step is not assigned to the variable \<open>result\<close> that the loop
  tests, so the loop goes on and the function returns 0 whatever the step returned.
\<close>

definition allocate_pages :: "u32 \<Rightarrow> u32 \<Rightarrow> u32 \<Rightarrow> ('a kvm_scheme, int) kop" where
  "allocate_pages pd virtual_addr sz =
     bindK (for_range virtual_addr sz (\<lambda>pdi pti.
       bindK (virtual_map_physical pd pdi pti) (\<lambda>_. returnK ()))) (\<lambda>_. returnK 0)"

definition free_pages :: "u32 \<Rightarrow> u32 \<Rightarrow> u32 \<Rightarrow> ('a kvm_scheme, int) kop" where
  "free_pages pd virtual_addr sz =
     bindK (for_range virtual_addr sz (\<lambda>pdi pti.
       bindK (virtual_unmap_physical pd pdi pti) (\<lambda>_. returnK ()))) (\<lambda>_. returnK 0)"

definition map_readonly_pages :: "u32 \<Rightarrow> nat \<Rightarrow> nat \<Rightarrow> ('a kvm_scheme, unit) kop" where
  "map_readonly_pages PD pd_index pt_index =
     bindK (tab_read PD pd_index) (\<lambda>pde.
     bindK (tab_read (pde AND 0xfffff000) pt_index) (\<lambda>pte.
     bindK (tab_write (pde AND 0xfffff000) pt_index (pte AND 0xfffffffd)) (\<lambda>_.
     bindK (tab_read PD pd_index) (\<lambda>pde'.
     tab_write PD pd_index (pde' AND 0xfffffffd)))))"

definition map_readonly :: "u32 \<Rightarrow> u32 \<Rightarrow> u32 \<Rightarrow> ('a kvm_scheme, unit) kop" where
  "map_readonly pd virtual_addr sz = for_range virtual_addr sz (map_readonly_pages pd)"

section \<open>Whole directories\<close>

definition init_pd :: "('a kvm_scheme, u32) kop" where
  "init_pd =
     bindK (memalign 4096 4096) (\<lambda>pd.
     bindK (tab_clear pd) (\<lambda>_.
     bindK (forK [0..<4] (\<lambda>i.
       bindK (readK cr3) (\<lambda>old.
       bindK (tab_read old i) (\<lambda>e. tab_write pd i (DEFLAG_ADDR e OR 0x107))))) (\<lambda>_.
     bindK (set_cr3 pd) (\<lambda>_. returnK pd))))"

definition destroy_page_table :: "u32 \<Rightarrow> ('a kvm_scheme, unit) kop" where
  "destroy_page_table pt =
     bindK (forK [0..<PAGE_LEN] (\<lambda>i.
       bindK (tab_read pt i) (\<lambda>pte.
         if pte = 0 then returnK ()
         else bindK (on_frames (release_free_frame (DEFLAG_ADDR pte))) (\<lambda>_. tab_write pt i 0)))) (\<lambda>_.
     sfree pt 4096)"

definition destroy_page_directory :: "u32 \<Rightarrow> ('a kvm_scheme, unit) kop" where
  "destroy_page_directory pd =
     forK [4..<PAGE_LEN] (\<lambda>i.
       bindK (tab_read pd i) (\<lambda>pde.
         if pde = 0 then returnK ()
         else bindK (destroy_page_table (DEFLAG_ADDR pde)) (\<lambda>_. tab_write pd i 0)))"

text \<open>
  \<open>mm_init\<close>: the frame array and the kernel directory come from the heap (the directory with
  16 bytes, for the four entries that are written), the first 4096 frames are entered in four
  page tables, and paging is switched on.
\<close>

definition mm_init :: "int \<Rightarrow> nat option \<Rightarrow> ('a kvm_scheme, unit) kop" where
  "mm_init machine_phys_frames uninit =
     bindK (memalign 4096 (8 * 65536)) (\<lambda>frame_base.
     if frame_base = 0 then failK Null_Deref
     else
       bindK (modifyK (\<lambda>s. s\<lparr>frs := init_free_frame machine_phys_frames uninit\<rparr>)) (\<lambda>_.
       bindK (memalign 4096 (4 * 4)) (\<lambda>kern_pd.
       bindK (set_cr3 kern_pd) (\<lambda>_.
       bindK (forK [0..<4] (\<lambda>i.
         bindK (memalign 4096 4096) (\<lambda>current_pt.
         bindK (forK [0..<PAGE_LEN] (\<lambda>j.
           bindK (on_frames acquire_free_frame) (\<lambda>k. tab_write current_pt j (k OR 0x103)))) (\<lambda>_.
         tab_write kern_pd i (current_pt OR 0x107))))) (\<lambda>_.
       modifyK (\<lambda>s. s\<lparr>cr4_pge := True, cr0_pg := True\<rparr>))))))"

section \<open>Checks on user pointers\<close>

definition is_user_addr :: "u32 \<Rightarrow> bool" where
  "is_user_addr addr = (if addr = 0 then False else addr \<ge> 0x01000000)"

definition addr_has_mapping :: "u32 \<Rightarrow> ('a kvm_scheme, bool) kop" where
  "addr_has_mapping addr =
     (if addr = 0 then returnK False
      else
        bindK (readK current_thread) (\<lambda>me.
        bindK (get_tcb me) (\<lambda>t.
        bindK (get_pcb (t_pcb t)) (\<lambda>p.
          if p_PD p = 0 then returnK False
          else
            bindK (tab_read (p_PD p) (VA_PD_IND addr)) (\<lambda>pde.
              if DEFLAG_ADDR pde = 0 then returnK False
              else bindK (tab_read (DEFLAG_ADDR pde) (VA_PT_IND addr)) (\<lambda>pte.
                returnK (DEFLAG_ADDR pte \<noteq> 0)))))))"

section \<open>Bits of addresses and entries\<close>

lemma DEFLAG_eq: "DEFLAG_ADDR x = x AND NOT (mask 12)"
proof -
  have "(0xfffff000 :: u32) = NOT (mask 12)" by (simp add: mask_eq_exp_minus_1)
  then show ?thesis by (simp add: DEFLAG_ADDR_def)
qed

lemma aligned_take_bit: "PAGE_SIZE dvd unat (a :: u32) \<longleftrightarrow> take_bit 12 a = 0"
proof -
  have "unat (take_bit 12 a) = unat a mod 4096" by (simp add: take_bit_eq_mod unat_mod)
  then show ?thesis by (metis PAGE_SIZE_def dvd_eq_mod_eq_0 unat_eq_zero)
qed

lemma bit_mask12: "bit (0xfff :: u32) n \<longleftrightarrow> n < 12"
proof -
  have "(0xfff :: u32) = mask 12" by (simp add: mask_eq_exp_minus_1)
  then show ?thesis by (simp only: bit_mask_iff) auto
qed

lemma DEFLAG_aligned: "PAGE_SIZE dvd unat (DEFLAG_ADDR x)"
  by (simp add: aligned_take_bit DEFLAG_eq bit_eq_iff bit_take_bit_iff bit_and_iff bit_not_iff bit_mask_iff)

lemma aligned_low_bit: "PAGE_SIZE dvd unat (a :: u32) \<Longrightarrow> n < 12 \<Longrightarrow> \<not> bit a n"
  by (metis aligned_take_bit bit_0_eq bit_take_bit_iff bot_apply bot_bool_def)

lemma DEFLAG_or_flag:
  assumes "PAGE_SIZE dvd unat a" "take_bit 12 fl = fl"
  shows "DEFLAG_ADDR (a OR fl) = a"
proof (rule bit_eqI)
  fix n assume "possible_bit TYPE(u32) n"
  have "bit fl n \<Longrightarrow> n < 12" using assms(2) by (metis bit_take_bit_iff)
  then show "bit (DEFLAG_ADDR (a OR fl)) n = bit a n"
    using aligned_low_bit[OF assms(1), of n] \<open>possible_bit TYPE(u32) n\<close>
    by (auto simp: DEFLAG_eq bit_and_iff bit_or_iff bit_not_iff bit_mask_iff)
qed

lemma t7: "take_bit 12 (7::u32) = 7" "take_bit 12 (0x107::u32) = 0x107" "take_bit 12 (0x103::u32) = 0x103"
  by simp_all

lemma bit_or7: "bit ((a::u32) OR 7) 0" by (simp add: bit_or_iff)

lemma vaddr_unat: 
  assumes "i < 1024" "j < 1024"
  shows "unat (vaddr i j) = i * 2^22 + j * 2^12"
proof -
  have b: "bit (of_nat j :: u32) n \<Longrightarrow> n < 10" for n
  proof -
    assume "bit (of_nat j :: u32) n"
    then have "bit j n" by (simp add: bit_of_nat_iff)
    then have "2^n \<le> j" by (metis bit_iff_odd div_less even_zero not_le)
    with assms(2) have "(2::nat)^n < 2^10" by simp
    then show ?thesis by (simp only: power_strict_increasing_iff)
  qed
  have "push_bit 22 (of_nat i :: u32) AND push_bit 12 (of_nat j) = 0"
    by (rule bit_eqI) (auto simp: bit_and_iff bit_push_bit_iff dest!: b)
  then have "vaddr i j = push_bit 22 (of_nat i) + push_bit 12 (of_nat j)"
    by (simp add: vaddr_def disjunctive_add_eq_or)
  also have "\<dots> = of_nat (i * 2^22 + j * 2^12)"
    by (simp add: push_bit_eq_mult)
  finally have "unat (vaddr i j) = (i * 2^22 + j * 2^12) mod 2 ^ LENGTH(32)"
    by (simp only: unat_of_nat)
  with assms show ?thesis by simp
qed

lemma VA_PD_unat: "VA_PD_IND x = unat x div 2^22"
  by (simp add: VA_PD_IND_def drop_bit_eq_div unat_div)

lemma VA_PT_unat: "VA_PT_IND x = (unat x div 2^12) mod 1024"
proof -
  have m: "(0x3ff000 :: u32) = push_bit 12 (mask 10)" by (simp add: mask_eq_exp_minus_1)
  have "drop_bit 12 (x AND 0x3ff000) = take_bit 10 (drop_bit 12 x)"
    unfolding m by (rule bit_eqI) (simp only: bit_drop_bit_eq o_apply bit_and_iff bit_push_bit_iff bit_mask_iff bit_take_bit_iff, auto dest: bit_imp_possible_bit)
  then show ?thesis by (simp add: VA_PT_IND_def drop_bit_eq_div take_bit_eq_mod unat_mod unat_div)
qed

lemma VA_vaddr [simp]: "i < 1024 \<Longrightarrow> j < 1024 \<Longrightarrow> VA_PD_IND (vaddr i j) = i"
   "i < 1024 \<Longrightarrow> j < 1024 \<Longrightarrow> VA_PT_IND (vaddr i j) = j"
  by (simp_all add: VA_PD_unat VA_PT_unat vaddr_unat)

lemma VA_bounds [simp]: "VA_PD_IND x < PAGE_LEN" "VA_PT_IND x < PAGE_LEN"
proof -
  have "unat x < 2 ^ 32" using unsigned_less[of x, where 'a=nat] by simp
  then show "VA_PD_IND x < PAGE_LEN" "VA_PT_IND x < PAGE_LEN" by (simp_all add: VA_PD_unat VA_PT_unat PAGE_LEN_def)
qed

section \<open>Address spaces\<close>

text \<open>The entry for page \<open>j\<close> of table \<open>i\<close> of a directory, 0 when there is none; a well-formed
  directory is a page of its own, its tables are present, pages of their own, and pairwise
  different.\<close>

definition pte_of :: "'a kvm_scheme \<Rightarrow> u32 \<Rightarrow> nat \<Rightarrow> nat \<Rightarrow> u32" where
  "pte_of s pd i j = (if tables s pd i = 0 then 0 else tables s (DEFLAG_ADDR (tables s pd i)) j)"

abbreviation used_page :: "'a kvm_scheme \<Rightarrow> u32 \<Rightarrow> bool" where
  "used_page \<equiv> kh.in_use"

definition space_ok :: "'a kvm_scheme \<Rightarrow> u32 \<Rightarrow> bool" where
  "space_ok s pd \<longleftrightarrow> used_page s pd \<and>
     (\<forall>i<PAGE_LEN. tables s pd i \<noteq> 0 \<longrightarrow>
        bit (tables s pd i) 0 \<and> used_page s (DEFLAG_ADDR (tables s pd i)) \<and> DEFLAG_ADDR (tables s pd i) \<noteq> pd
        \<and> (\<forall>i'<PAGE_LEN. i' \<noteq> i \<and> tables s pd i' \<noteq> 0 \<longrightarrow> DEFLAG_ADDR (tables s pd i') \<noteq> DEFLAG_ADDR (tables s pd i)))"

lemma used_page_nz: "used_page s p \<Longrightarrow> p \<noteq> 0 \<and> PAGE_SIZE dvd unat p"
  by (simp add: kh.in_use_def PAGE_SIZE_def)

lemma used_page_cong: "malloc_lmm s' = malloc_lmm s \<Longrightarrow> used_page s' = used_page s"
  by (auto simp: kh.in_use_def managed_by_def fun_eq_iff)

lemma space_ok_table:
  "space_ok s pd \<Longrightarrow> i < PAGE_LEN \<Longrightarrow> tables s pd i \<noteq> 0 \<Longrightarrow>
    DEFLAG_ADDR (tables s pd i) \<noteq> 0 \<and> DEFLAG_ADDR (tables s pd i) \<noteq> pd \<and> bit (tables s pd i) 0"
  using used_page_nz unfolding space_ok_def by blast

lemma space_ok_pd: "space_ok s pd \<Longrightarrow> pd \<noteq> 0"
  using used_page_nz unfolding space_ok_def by blast

lemma space_ok_mono:
  assumes "space_ok s pd" "tables s' pd = tables s pd" "\<And>q. used_page s q \<Longrightarrow> used_page s' q"
  shows "space_ok s' pd"
  using assms(1,3) unfolding space_ok_def assms(2) by blast

section \<open>Mapping one page\<close>

definition vm_ok :: "'a kvm_scheme \<Rightarrow> bool" where
  "vm_ok s \<longleftrightarrow> heap_ok s \<and> frames_ok (frs s) \<and> 0 \<in> live (frs s)"

lemma acquire_vm:
  assumes "vm_ok s" "2 \<le> avail (frs s)"
  obtains a f where "on_frames acquire_free_frame s = Inr (a, s\<lparr>frs := f\<rparr>)" "a \<noteq> 0" "PAGE_SIZE dvd unat a"
    "frame_index a < TOTAL_PHYS_FRAMES" "refcount (frs s) (frame_index a) = 0"
    "refcount f = (refcount (frs s))(frame_index a := 1)" "frames_ok f" "avail f = avail (frs s) - 1"
    "free_frame_num f = free_frame_num (frs s) - 1"
proof -
  from acquire_spec[of "frs s"] assms obtain a f where a: "acquire_free_frame (frs s) = Inr (a, f)" "frames_ok f"
    "avail f = avail (frs s) - 1" "PAGE_SIZE dvd unat a" "frame_index a < TOTAL_PHYS_FRAMES" "frame_index a \<notin> live (frs s)"
    "refcount f = (refcount (frs s))(frame_index a := 1)" "free_frame_num f = free_frame_num (frs s) - 1"
    by (auto simp: vm_ok_def)
  have "a \<noteq> 0" using a(6) assms(1) by (auto simp: vm_ok_def frame_index_def)
  with a that[of a f] show ?thesis by (simp add: on_frames_def live_def)
qed

text \<open>The effect of a successful mapping: page \<open>(i, j)\<close> now has the frame at \<open>a\<close>, which was not in
  use and is zeroed; no other page of the address space and no other frame changes.\<close>

definition mapped_post :: "'a kvm_scheme \<Rightarrow> u32 \<Rightarrow> nat \<Rightarrow> nat \<Rightarrow> u32 \<Rightarrow> 'a kvm_scheme \<Rightarrow> bool" where
  "mapped_post s pd i j a s' \<longleftrightarrow>
     vm_ok s' \<and> space_ok s' pd \<and> cr3 s' = pd \<and> avail (frs s') = avail (frs s) - 1
     \<and> a \<noteq> 0 \<and> PAGE_SIZE dvd unat a \<and> refcount (frs s) (frame_index a) = 0
     \<and> refcount (frs s') = (refcount (frs s))(frame_index a := 1)
     \<and> pte_of s' pd i j = a OR 7
     \<and> (\<forall>i'<PAGE_LEN. \<forall>j'<PAGE_LEN. (i', j') \<noteq> (i, j) \<longrightarrow> pte_of s' pd i' j' = pte_of s pd i' j')
     \<and> pages s' = (pages s)(frame_index a := (\<lambda>_. 0))
     \<and> current_thread s' = current_thread s \<and> tcbs s' = tcbs s \<and> pcbs s' = pcbs s \<and> lh s' = lh s
     \<and> (\<forall>q. used_page s q \<longrightarrow> used_page s' q)
     \<and> (\<forall>i'<PAGE_LEN. tables s' pd i' = 0 \<longleftrightarrow> tables s pd i' = 0 \<and> i' \<noteq> i)
     \<and> page_room s \<le> page_room s' + (if tables s pd i = 0 then 1 else 0)"

lemma page_left_cong: "malloc_lmm s' = malloc_lmm s \<Longrightarrow> page_left s' = page_left s"
  by (simp add: page_left_def)

lemma page_room_cong: "malloc_lmm s' = malloc_lmm s \<Longrightarrow> page_room s' = page_room s"
  by (simp add: page_room_def)

lemma memset_page_ok:
  assumes "i < PAGE_LEN" "j < PAGE_LEN" "bit (tables s (cr3 s) i) 0" "PAGE_SIZE dvd unat a"
    "tables s (DEFLAG_ADDR (tables s (cr3 s) i)) j = a OR 7"
  shows "memset_page (vaddr i j) s = Inr ((), s\<lparr>pages := (pages s)(frame_index a := (\<lambda>_. 0))\<rparr>)"
  using assms by (simp add: memset_page_def mmu_walk_def Let_def PAGE_LEN_def bit_or7 DEFLAG_or_flag t7)

lemma or7_nz: "(a :: u32) OR 7 \<noteq> 0"
  using bit_or7[of a] by (metis bit_0_eq bot_apply bot_bool_def)

text \<open>Into an existing table.\<close>

lemma map_existing_run:
  assumes vm: "vm_ok s" and sp: "space_ok s pd" and c: "cr3 s = pd" and av: "2 \<le> avail (frs s)"
    and ij: "i < PAGE_LEN" "j < PAGE_LEN" and pde: "tables s pd i \<noteq> 0" and pte: "pte_of s pd i j = 0"
    and pt: "pt = DEFLAG_ADDR (tables s pd i)"
  obtains a f where "virtual_map_physical pd i j s = Inr (0, s\<lparr>frs := f, tables := (tables s)(pt := (tables s pt)(j := a OR 7)),
      pages := (pages s)(frame_index a := (\<lambda>_. 0))\<rparr>)"
    "a \<noteq> 0" "PAGE_SIZE dvd unat a" "refcount (frs s) (frame_index a) = 0" "refcount f = (refcount (frs s))(frame_index a := 1)"
    "frames_ok f" "avail f = avail (frs s) - 1"
proof -
  have t: "pt \<noteq> 0" "pd \<noteq> pt" "pt \<noteq> pd" "bit (tables s pd i) 0"
    using space_ok_table[OF sp ij(1) pde] by (auto simp: pt)
  obtain a f where a: "on_frames acquire_free_frame s = Inr (a, s\<lparr>frs := f\<rparr>)" "a \<noteq> 0" "PAGE_SIZE dvd unat a"
    "refcount (frs s) (frame_index a) = 0" "refcount f = (refcount (frs s))(frame_index a := 1)" "frames_ok f"
    "avail f = avail (frs s) - 1" by (rule acquire_vm[OF vm av])
  let ?s = "s\<lparr>frs := f, tables := (tables s)(pt := (tables s pt)(j := a OR 7))\<rparr>"
  have zf: "memset_page (vaddr i j) ?s = Inr ((), ?s\<lparr>pages := (pages s)(frame_index a := (\<lambda>_. 0))\<rparr>)"
    using memset_page_ok[of i j ?s a] ij a(3) t c by (simp add: pt[symmetric])
  have "tab_read pd i s = Inr (tables s pd i, s)" "tab_read pt j s = Inr (0, s)"
    using space_ok_pd[OF sp] ij pde pte t by (simp_all add: tab_read_def pte_of_def pt)
  moreover have "tab_write pt j (a OR 7) (s\<lparr>frs := f\<rparr>) = Inr ((), ?s)" using t ij by (simp add: tab_write_def)
  ultimately have "virtual_map_physical pd i j s = Inr (0, ?s\<lparr>pages := (pages s)(frame_index a := (\<lambda>_. 0))\<rparr>)"
    using pde a(1,2) zf by (simp add: virtual_map_physical_def Let_def pt[symmetric])
  with a that[of a f] show ?thesis by simp
qed

lemma map_existing:
  assumes vm: "vm_ok s" and sp: "space_ok s pd" and c: "cr3 s = pd" and av: "2 \<le> avail (frs s)"
    and ij: "i < PAGE_LEN" "j < PAGE_LEN" and pde: "tables s pd i \<noteq> 0" and pte: "pte_of s pd i j = 0"
  obtains a s' where "virtual_map_physical pd i j s = Inr (0, s')" "mapped_post s pd i j a s'"
proof -
  define pt where "pt = DEFLAG_ADDR (tables s pd i)"
  have t: "pt \<noteq> 0" "pd \<noteq> pt" "pt \<noteq> pd" "bit (tables s pd i) 0"
    using space_ok_table[OF sp ij(1) pde] by (auto simp: pt_def)
  obtain a f where run: "virtual_map_physical pd i j s = Inr (0, s\<lparr>frs := f, tables := (tables s)(pt := (tables s pt)(j := a OR 7)),
      pages := (pages s)(frame_index a := (\<lambda>_. 0))\<rparr>)" (is "_ = Inr (0, ?s')") and
    a: "a \<noteq> 0" "PAGE_SIZE dvd unat a"
    "refcount (frs s) (frame_index a) = 0" "refcount f = (refcount (frs s))(frame_index a := 1)" "frames_ok f"
    "avail f = avail (frs s) - 1" by (rule map_existing_run[OF assms pt_def])
  have up: "used_page ?s' = used_page s" by (rule used_page_cong) simp
  have "space_ok ?s' pd" using sp by (rule space_ok_mono) (use t up in auto)
  moreover have "pte_of ?s' pd i' j' = pte_of s pd i' j'" if "i' < PAGE_LEN" "(i', j') \<noteq> (i, j)" for i' j'
  proof -
    have "DEFLAG_ADDR (tables s pd i') \<noteq> pt" if "i' \<noteq> i" "tables s pd i' \<noteq> 0"
      using that \<open>i' < PAGE_LEN\<close> sp pde ij unfolding space_ok_def pt_def by blast
    with \<open>(i', j') \<noteq> (i, j)\<close> t show ?thesis by (cases "i' = i") (auto simp: pte_of_def pt_def[symmetric])
  qed
  moreover have "pte_of ?s' pd i j = a OR 7" using pde t by (simp add: pte_of_def pt_def[symmetric])
  moreover have "vm_ok ?s'" using vm a by (auto simp: vm_ok_def heap_ok_def quiet_def live_def)
  moreover have "\<forall>i'<PAGE_LEN. tables ?s' pd i' = 0 \<longleftrightarrow> tables s pd i' = 0 \<and> i' \<noteq> i" using t(2) pde by auto
  moreover have "page_room ?s' = page_room s" by (rule page_room_cong) simp
  ultimately have "mapped_post s pd i j a ?s'" using a c up by (simp add: mapped_post_def)
  with run that show ?thesis by blast
qed

lemma heap_step_vm [simp]:
  "frs (heap_step s L hm) = frs s" "tables (heap_step s L hm) = tables s" "pages (heap_step s L hm) = pages s"
  by (simp_all add: heap_step_def released_def)

text \<open>Into a fresh table; a heap with no page left makes the code write through NULL.\<close>

lemma map_new:
  assumes vm: "vm_ok s" and sp: "space_ok s pd" and c: "cr3 s = pd" and av: "2 \<le> avail (frs s)"
    and ij: "i < PAGE_LEN" "j < PAGE_LEN" and pde: "tables s pd i = 0"
  obtains "virtual_map_physical pd i j s = Inl Null_Deref" "\<not> page_left s"
  | a s' where "virtual_map_physical pd i j s = Inr (0, s')" "mapped_post s pd i j a s'" "page_left s"
proof -
  obtain a f where a: "on_frames acquire_free_frame s = Inr (a, s\<lparr>frs := f\<rparr>)" "a \<noteq> 0" "PAGE_SIZE dvd unat a"
    "refcount (frs s) (frame_index a) = 0" "refcount f = (refcount (frs s))(frame_index a := 1)" "frames_ok f"
    "avail f = avail (frs s) - 1" by (rule acquire_vm[OF vm av])
  let ?s1 = "s\<lparr>frs := f\<rparr>"
  have ok1: "heap_ok ?s1" using vm by (simp add: vm_ok_def heap_ok_def quiet_def)
  have r1: "tab_read pd i s = Inr (0, s)" using space_ok_pd[OF sp] ij pde by (simp add: tab_read_def)
  have u1: "used_page ?s1 = used_page s" by (rule used_page_cong) simp
  have l1: "page_left ?s1 = page_left s" "page_room ?s1 = page_room s" by (rule page_left_cong page_room_cong, simp)+
  show ?thesis
  proof (rule memalign_page_spec[OF ok1])
    fix L hm assume m: "memalign 4096 4096 ?s1 = Inr (0, heap_step ?s1 L hm)"
    have "\<not> page_left s" using memalign_page(1)[OF ok1 m] l1 by simp
    with m r1 a(1,2) that(1) show ?thesis by (simp add: virtual_map_physical_def tab_clear_def Let_def)
  next
    fix PT L hm assume m: "memalign 4096 4096 ?s1 = Inr (PT, heap_step ?s1 L hm)" "heap_ok (heap_step ?s1 L hm)" "PT \<noteq> 0"
    let ?s2 = "heap_step ?s1 L hm"
    note fresh = kh.get_fresh[OF ok1 m(1,3), unfolded u1]
    have pt: "pd \<noteq> PT" "PAGE_SIZE dvd unat PT" using fresh(2,3) sp used_page_nz by (auto simp: space_ok_def)
    let ?T = "(tables s)(PT := (\<lambda>_. 0)(j := a OR 7), pd := (tables s pd)(i := PT OR 7))"
    let ?s3 = "?s2\<lparr>tables := ?T\<rparr>" and ?s' = "?s2\<lparr>tables := ?T, pages := (pages s)(frame_index a := (\<lambda>_. 0))\<rparr>"
    have dp: "DEFLAG_ADDR (PT OR 7) = PT" using pt(2) by (simp add: DEFLAG_or_flag t7)
    have zf: "memset_page (vaddr i j) ?s3 = Inr ((), ?s')"
      using memset_page_ok[of i j ?s3 a] ij a(3) pt(1) c dp by (simp add: bit_or7)
    have run: "virtual_map_physical pd i j s = Inr (0, ?s')"
    proof -
      have "tab_clear PT ?s2 = Inr ((), ?s2\<lparr>tables := (tables s)(PT := (\<lambda>_. 0))\<rparr>)" using m(3) by (simp add: tab_clear_def)
      moreover have "tab_write PT j (a OR 7) (?s2\<lparr>tables := (tables s)(PT := (\<lambda>_. 0))\<rparr>)
          = Inr ((), ?s2\<lparr>tables := (tables s)(PT := (\<lambda>_. 0)(j := a OR 7))\<rparr>)" using m(3) ij by (simp add: tab_write_def)
      moreover have "tab_write pd i (PT OR 7) (?s2\<lparr>tables := (tables s)(PT := (\<lambda>_. 0)(j := a OR 7))\<rparr>) = Inr ((), ?s3)"
        using space_ok_pd[OF sp] ij pt(1) by (simp add: tab_write_def)
      ultimately show ?thesis
        using r1 a(1,2) m(1) zf by (simp add: virtual_map_physical_def Let_def)
    qed
    have u': "used_page ?s' = used_page ?s2" by (rule used_page_cong) simp
    have keep: "used_page s q \<Longrightarrow> used_page ?s' q \<and> q \<noteq> PT" for q using fresh(3) u' by simp
    have old: "tables s pd i' \<noteq> 0 \<Longrightarrow> i' < PAGE_LEN \<Longrightarrow> used_page s (DEFLAG_ADDR (tables s pd i')) \<and> DEFLAG_ADDR (tables s pd i') \<noteq> pd" for i'
      using sp by (simp add: space_ok_def)
    have "space_ok ?s' pd"
      using sp keep fresh(2) u' pt dp old unfolding space_ok_def by (auto simp: bit_or7)
    moreover have "pte_of ?s' pd i' j' = pte_of s pd i' j'" if "i' < PAGE_LEN" "(i', j') \<noteq> (i, j)" for i' j'
      using that pde pt(1) dp old[of i'] keep by (auto simp: pte_of_def)
    moreover have "pte_of ?s' pd i j = a OR 7" using pt(1) dp or7_nz by (simp add: pte_of_def)
    moreover have "vm_ok ?s'" using vm a m(2) by (auto simp: vm_ok_def heap_ok_def quiet_def live_def)
    moreover have "page_room ?s' = page_room ?s2" by (rule page_room_cong) simp
    then have "page_room s \<le> page_room ?s' + 1" using memalign_page(2)[OF ok1 m(1)] l1 m(3) by simp
    moreover have "\<forall>i'<PAGE_LEN. tables ?s' pd i' = 0 \<longleftrightarrow> tables s pd i' = 0 \<and> i' \<noteq> i"
      using or7_nz[of PT] by auto
    ultimately have "mapped_post s pd i j a ?s'" using a c keep pde by (simp add: mapped_post_def)
    with run that(2) memalign_page(1)[OF ok1 m(1)] l1 m(3) show ?thesis by blast
  qed
qed

lemma virtual_map_spec:
  assumes "vm_ok s" "space_ok s pd" "cr3 s = pd" "2 \<le> avail (frs s)" "i < PAGE_LEN" "j < PAGE_LEN" "pte_of s pd i j = 0"
  obtains "virtual_map_physical pd i j s = Inl Null_Deref" "tables s pd i = 0" "\<not> page_left s"
  | a s' where "virtual_map_physical pd i j s = Inr (0, s')" "mapped_post s pd i j a s'" "tables s pd i \<noteq> 0 \<or> page_left s"
proof (cases "tables s pd i = 0")
  case True
  from map_new[OF assms(1-6) this] that True show ?thesis by blast
next
  case False
  from map_existing[OF assms(1-6) this assms(7)] that False show ?thesis by blast
qed

text \<open>A page that is mapped already is refused.\<close>

lemma virtual_map_mapped:
  assumes "space_ok s pd" "i < PAGE_LEN" "j < PAGE_LEN" "pte_of s pd i j \<noteq> 0"
  shows "virtual_map_physical pd i j s = Inr (-1, s)"
proof -
  have pde: "tables s pd i \<noteq> 0" and pte: "tables s (DEFLAG_ADDR (tables s pd i)) j \<noteq> 0"
    using assms(4) by (auto simp: pte_of_def split: if_splits)
  have "tab_read pd i s = Inr (tables s pd i, s)"
    "tab_read (DEFLAG_ADDR (tables s pd i)) j s = Inr (tables s (DEFLAG_ADDR (tables s pd i)) j, s)"
    using space_ok_pd[OF assms(1)] space_ok_table[OF assms(1,2) pde] assms(2,3) by (simp_all add: tab_read_def)
  with pde pte show ?thesis by (simp add: virtual_map_physical_def Let_def)
qed

section \<open>Unmapping\<close>

lemma virtual_unmap_spec:
  assumes vm: "vm_ok s" and sp: "space_ok s pd" and ij: "i < PAGE_LEN" "j < PAGE_LEN" and pte: "pte_of s pd i j \<noteq> 0"
    and fr: "fr = frame_index (DEFLAG_ADDR (pte_of s pd i j))" and fok: "fr < TOTAL_PHYS_FRAMES" "fr \<in> live (frs s)"
  obtains s' where "virtual_unmap_physical pd i j s = Inr (0, s')" "space_ok s' pd" "pte_of s' pd i j = 0"
    "frames_ok (frs s')" "heap_ok s'" "pages s' = pages s"
    "\<And>i' j'. i' < PAGE_LEN \<Longrightarrow> (i', j') \<noteq> (i, j) \<Longrightarrow> pte_of s' pd i' j' = pte_of s pd i' j'"
    "refcount (frs s') = (refcount (frs s))(fr := refcount (frs s) fr - 1)"
proof -
  have pde: "tables s pd i \<noteq> 0" using pte by (auto simp: pte_of_def split: if_splits)
  define pt where "pt = DEFLAG_ADDR (tables s pd i)"
  have t: "pt \<noteq> 0" "pd \<noteq> pt" "pt \<noteq> pd" using space_ok_table[OF sp ij(1) pde] by (auto simp: pt_def)
  have e: "pte_of s pd i j = tables s pt j" using pde by (simp add: pte_of_def pt_def)
  obtain f where f: "release_free_frame (DEFLAG_ADDR (tables s pt j)) (frs s) = Inr ((), f)" "frames_ok f"
    "refcount f = (refcount (frs s))(fr := refcount (frs s) fr - 1)"
    using release_spec[of "frs s" "DEFLAG_ADDR (tables s pt j)"] vm fok fr e by (auto simp: vm_ok_def)
  let ?s' = "s\<lparr>frs := f, tables := (tables s)(pt := (tables s pt)(j := 0))\<rparr>"
  have "tab_read pd i s = Inr (tables s pd i, s)" "tab_read pt j s = Inr (tables s pt j, s)"
    using space_ok_pd[OF sp] ij t by (simp_all add: tab_read_def)
  moreover have "on_frames (release_free_frame (DEFLAG_ADDR (tables s pt j))) s = Inr ((), s\<lparr>frs := f\<rparr>)"
    using f(1) by (simp add: on_frames_def)
  moreover have "tab_write pt j 0 (s\<lparr>frs := f\<rparr>) = Inr ((), ?s')" using t ij by (simp add: tab_write_def)
  ultimately have run: "virtual_unmap_physical pd i j s = Inr (0, ?s')"
    using pde pte e by (simp add: virtual_unmap_physical_def pt_def[symmetric])
  have up: "used_page ?s' = used_page s" by (rule used_page_cong) simp
  show ?thesis
  proof (rule that[OF run])
    show "space_ok ?s' pd" using sp by (rule space_ok_mono) (use t up in auto)
    show "pte_of ?s' pd i j = 0" using t by (simp add: pte_of_def pt_def[symmetric])
    show "pte_of ?s' pd i' j' = pte_of s pd i' j'" if "i' < PAGE_LEN" "(i', j') \<noteq> (i, j)" for i' j'
    proof -
      have "DEFLAG_ADDR (tables s pd i') \<noteq> pt" if "i' \<noteq> i" "tables s pd i' \<noteq> 0"
        using that \<open>i' < PAGE_LEN\<close> sp pde ij unfolding space_ok_def pt_def by blast
      with \<open>(i', j') \<noteq> (i, j)\<close> t show ?thesis by (cases "i' = i") (auto simp: pte_of_def pt_def[symmetric])
    qed
  qed (use f vm in \<open>simp_all add: vm_ok_def heap_ok_def quiet_def\<close>)
qed

section \<open>Ranges\<close>

text \<open>Pages by number: page \<open>q\<close> of the address space is entry \<open>q mod 1024\<close> of table
  \<open>q div 1024\<close>.\<close>

definition PAGES :: nat where "PAGES = 2 ^ 20"

definition pte_at :: "'a kvm_scheme \<Rightarrow> u32 \<Rightarrow> nat \<Rightarrow> u32" where
  "pte_at s pd q = pte_of s pd (q div PAGE_LEN) (q mod PAGE_LEN)"

lemma page_number:
  "VA_PD_IND va + (VA_PT_IND va + k) div PAGE_LEN = (unat va div 4096 + k) div PAGE_LEN"
  "(VA_PT_IND va + k) mod PAGE_LEN = (unat va div 4096 + k) mod PAGE_LEN"
proof -
  define P where "P = unat va div 4096"
  have pd: "VA_PD_IND va = P div PAGE_LEN" unfolding P_def VA_PD_unat PAGE_LEN_def by (simp add: div_mult2_eq[symmetric])
  have pt: "VA_PT_IND va = P mod PAGE_LEN" unfolding P_def VA_PT_unat PAGE_LEN_def by simp
  have P: "P div PAGE_LEN * PAGE_LEN + P mod PAGE_LEN = P" by simp
  show "VA_PD_IND va + (VA_PT_IND va + k) div PAGE_LEN = (P + k) div PAGE_LEN"
    unfolding pd pt using P by (metis PAGE_LEN_def add.assoc add.commute div_mult_self3 zero_neq_numeral)
  show "(VA_PT_IND va + k) mod PAGE_LEN = (P + k) mod PAGE_LEN" unfolding pt by (simp add: mod_add_left_eq)
qed

lemma for_range_pages:
  "for_range va sz body = forK [0..<page_times va sz]
     (\<lambda>k. body ((unat va div 4096 + k) div PAGE_LEN) ((unat va div 4096 + k) mod PAGE_LEN))"
  by (simp add: for_range_def Let_def page_number)

lemma page_index: "q < PAGES \<Longrightarrow> q div PAGE_LEN < PAGE_LEN" "q mod PAGE_LEN < PAGE_LEN"
  by (simp_all add: PAGES_def PAGE_LEN_def)

lemma page_split: "(q div PAGE_LEN, q mod PAGE_LEN) = (r div PAGE_LEN, r mod PAGE_LEN) \<longleftrightarrow> q = r"
  by (metis Pair_inject div_mult_mod_eq)

text \<open>The directory entries of the range that have no table yet.\<close>

definition new_tables :: "'a kvm_scheme \<Rightarrow> u32 \<Rightarrow> nat \<Rightarrow> nat \<Rightarrow> nat set" where
  "new_tables s pd P n = {i. tables s pd i = 0 \<and> (\<exists>k<n. (P + k) div PAGE_LEN = i)}"

lemma new_tables_Suc: "new_tables s pd P (Suc m) =
    (if tables s pd ((P + m) div PAGE_LEN) = 0 then insert ((P + m) div PAGE_LEN) (new_tables s pd P m) else new_tables s pd P m)"
  by (auto simp: new_tables_def less_Suc_eq)

lemma new_tables_finite: "finite (new_tables s pd P n)"
  by (rule finite_subset[of _ "(\<lambda>k. (P + k) div PAGE_LEN) ` {..<n}"]) (auto simp: new_tables_def)

lemma new_tables_mono: "m \<le> n \<Longrightarrow> card (new_tables s pd P m) \<le> card (new_tables s pd P n)"
  by (rule card_mono[OF new_tables_finite]) (auto simp: new_tables_def dest: less_le_trans)

lemma new_tables_le: "card (new_tables s pd P n) \<le> n"
proof -
  have "new_tables s pd P n \<subseteq> (\<lambda>k. (P + k) div PAGE_LEN) ` {..<n}" by (auto simp: new_tables_def)
  then have "card (new_tables s pd P n) \<le> card ((\<lambda>k. (P + k) div PAGE_LEN) ` {..<n})" by (intro card_mono) simp_all
  also have "\<dots> \<le> n" using card_image_le[of "{..<n}" "\<lambda>k. (P + k) div PAGE_LEN"] by simp
  finally show ?thesis .
qed

definition alloc_inv :: "'a kvm_scheme \<Rightarrow> u32 \<Rightarrow> nat \<Rightarrow> nat \<Rightarrow> (nat \<Rightarrow> u32) \<Rightarrow> 'a kvm_scheme \<Rightarrow> bool" where
  "alloc_inv s0 pd P m A s \<longleftrightarrow>
     vm_ok s \<and> space_ok s pd \<and> cr3 s = pd \<and> avail (frs s) = avail (frs s0) - m
     \<and> (\<forall>q<PAGES. \<not> (P \<le> q \<and> q < P + m) \<longrightarrow> pte_at s pd q = pte_at s0 pd q)
     \<and> (\<forall>k<m. A k \<noteq> 0 \<and> PAGE_SIZE dvd unat (A k) \<and> pte_at s pd (P + k) = A k OR 7
          \<and> refcount (frs s0) (frame_index (A k)) = 0 \<and> refcount (frs s) (frame_index (A k)) = 1
          \<and> pages s (frame_index (A k)) = (\<lambda>_. 0))
     \<and> inj_on (\<lambda>k. frame_index (A k)) {..<m}
     \<and> (\<forall>f. refcount (frs s0) f \<noteq> 0 \<longrightarrow> refcount (frs s) f = refcount (frs s0) f \<and> pages s f = pages s0 f)"

text \<open>What the mapping of the first \<open>m\<close> pages has taken from the heap.\<close>

definition alloc_room :: "'a kvm_scheme \<Rightarrow> u32 \<Rightarrow> nat \<Rightarrow> nat \<Rightarrow> 'a kvm_scheme \<Rightarrow> bool" where
  "alloc_room s0 pd P m s \<longleftrightarrow> (\<forall>i<PAGE_LEN. tables s pd i = 0 \<longleftrightarrow> tables s0 pd i = 0 \<and> i \<notin> new_tables s0 pd P m)
     \<and> page_room s0 \<le> page_room s + card (new_tables s0 pd P m)"

lemma alloc_inv_step:
  assumes inv: "alloc_inv s0 pd P m A s" and room: "alloc_room s0 pd P m s" and q: "P + m < PAGES" and av: "m + 2 \<le> avail (frs s0)"
    and un: "pte_at s0 pd (P + m) = 0"
  shows "virtual_map_physical pd ((P + m) div PAGE_LEN) ((P + m) mod PAGE_LEN) s = Inl Null_Deref
      \<and> page_room s0 < card (new_tables s0 pd P (Suc m))
    \<or> (\<exists>r s' A'. virtual_map_physical pd ((P + m) div PAGE_LEN) ((P + m) mod PAGE_LEN) s = Inr (r, s')
         \<and> alloc_inv s0 pd P (Suc m) A' s' \<and> alloc_room s0 pd P (Suc m) s')"
proof -
  let ?i = "(P + m) div PAGE_LEN" and ?j = "(P + m) mod PAGE_LEN"
  have s: "vm_ok s" "space_ok s pd" "cr3 s = pd" "2 \<le> avail (frs s)" using inv av by (auto simp: alloc_inv_def)
  have "pte_of s pd ?i ?j = 0" using inv q un by (auto simp: alloc_inv_def pte_at_def)
  have i: "?i < PAGE_LEN" by (rule page_index(1)[OF q])
  have grow: "card (new_tables s0 pd P (Suc m)) = card (new_tables s0 pd P m) + (if tables s pd ?i = 0 then 1 else 0)"
  proof -
    have "tables s pd ?i = 0 \<longleftrightarrow> tables s0 pd ?i = 0 \<and> ?i \<notin> new_tables s0 pd P m" using room i by (simp add: alloc_room_def)
    then show ?thesis by (simp add: new_tables_Suc card_insert_if new_tables_finite)
  qed
  from virtual_map_spec[OF s page_index(1)[OF q] page_index(2) \<open>pte_of s pd ?i ?j = 0\<close>]
  show ?thesis
  proof cases
    case 1
    then have "page_room s = 0" using page_room_left[of s] by blast
    then show ?thesis using 1 grow room by (simp add: alloc_room_def)
  next
    case (2 a s')
    have old: "pte_at s' pd r = pte_at s pd r" if "r < PAGES" "r \<noteq> P + m" for r
    proof -
      have "(r div PAGE_LEN, r mod PAGE_LEN) \<noteq> (?i, ?j)" using page_split[of r "P + m"] that(2) by simp
      with 2(2) page_index(1)[OF that(1)] page_index(2) show ?thesis by (auto simp: mapped_post_def pte_at_def)
    qed
    have new: "pte_at s' pd (P + m) = a OR 7" using 2(2) by (simp add: mapped_post_def pte_at_def)
    have a: "a \<noteq> 0" "PAGE_SIZE dvd unat a" "refcount (frs s) (frame_index a) = 0" "vm_ok s'" "space_ok s' pd" "cr3 s' = pd"
      "refcount (frs s') = (refcount (frs s))(frame_index a := 1)" "pages s' = (pages s)(frame_index a := (\<lambda>_. 0))"
      "avail (frs s') = avail (frs s) - 1" using 2(2) by (simp_all add: mapped_post_def)
    have diff: "frame_index (A k) \<noteq> frame_index a" if "k < m" for k
      using inv that a(3) by (auto simp: alloc_inv_def)
    have free0: "refcount (frs s0) (frame_index a) = 0" using inv a(3) by (auto simp: alloc_inv_def)
    have "alloc_inv s0 pd P (Suc m) (A(m := a)) s'"
      unfolding alloc_inv_def
    proof (intro conjI)
      show "avail (frs s') = avail (frs s0) - Suc m" using inv a(9) by (simp add: alloc_inv_def)
      show "\<forall>q<PAGES. \<not> (P \<le> q \<and> q < P + Suc m) \<longrightarrow> pte_at s' pd q = pte_at s0 pd q"
        using inv old by (auto simp: alloc_inv_def)
      show "\<forall>k<Suc m. (A(m := a)) k \<noteq> 0 \<and> PAGE_SIZE dvd unat ((A(m := a)) k) \<and> pte_at s' pd (P + k) = (A(m := a)) k OR 7
          \<and> refcount (frs s0) (frame_index ((A(m := a)) k)) = 0 \<and> refcount (frs s') (frame_index ((A(m := a)) k)) = 1
          \<and> pages s' (frame_index ((A(m := a)) k)) = (\<lambda>_. 0)"
        using inv a(1,2,7,8) free0 new diff old q by (auto simp: alloc_inv_def less_Suc_eq)
      show "inj_on (\<lambda>k. frame_index ((A(m := a)) k)) {..<Suc m}"
        using inv diff by (auto simp: alloc_inv_def inj_on_def less_Suc_eq) metis+
      show "\<forall>f. refcount (frs s0) f \<noteq> 0 \<longrightarrow> refcount (frs s') f = refcount (frs s0) f \<and> pages s' f = pages s0 f"
        using inv free0 a(7,8) by (auto simp: alloc_inv_def)
    qed (use a in simp_all)
    moreover have "alloc_room s0 pd P (Suc m) s'"
      using room 2(2) grow by (auto simp: alloc_room_def mapped_post_def new_tables_Suc split: if_splits)
    ultimately show ?thesis using 2(1) by blast
  qed
qed

lemma allocate_pages_spec:
  assumes s: "vm_ok s" "space_ok s pd" "cr3 s = pd" and n: "n = page_times va sz" and P: "P = unat va div 4096"
    and rng: "P + n \<le> PAGES" and av: "n + 1 \<le> avail (frs s)" and un: "\<forall>k<n. pte_at s pd (P + k) = 0"
  shows "allocate_pages pd va sz s = Inl Null_Deref \<and> page_room s < card (new_tables s pd P n)
    \<or> (\<exists>s' A. allocate_pages pd va sz s = Inr (0, s') \<and> alloc_inv s pd P n A s' \<and> alloc_room s pd P n s')"
proof -
  let ?f = "\<lambda>k. bindK (virtual_map_physical pd ((P + k) div PAGE_LEN) ((P + k) mod PAGE_LEN)) (\<lambda>_. returnK ())"
  let ?I = "\<lambda>m t. (\<exists>A. alloc_inv s pd P m A t) \<and> alloc_room s pd P m t"
  define Q where "Q \<longleftrightarrow> page_room s < card (new_tables s pd P n)"
  have "(forK [0..<n] ?f s = Inl Null_Deref \<and> Q) \<or> (\<exists>s'. forK [0..<n] ?f s = Inr ((), s') \<and> ?I n s')"
  proof (rule forK_invariant_fault)
    show "?I 0 s" using s by (auto simp: alloc_inv_def alloc_room_def new_tables_def)
    show "(?f m t = Inl Null_Deref \<and> Q) \<or> (\<exists>s'. ?f m t = Inr ((), s') \<and> ?I (Suc m) s')"
      if "m < n" "?I m t" for m t
    proof -
      from that(2) obtain A where A: "alloc_inv s pd P m A t" "alloc_room s pd P m t" by blast
      have "P + m < PAGES" "m + 2 \<le> avail (frs s)" "pte_at s pd (P + m) = 0" using that(1) rng av un by auto
      from alloc_inv_step[OF A this] show ?thesis
        using new_tables_mono[of "Suc m" n s pd P] that(1) by (auto simp: Q_def)
    qed
  qed
  then show ?thesis by (auto simp: allocate_pages_def for_range_pages n[symmetric] P[symmetric] Q_def)
qed

section \<open>A concrete address space\<close>

definition demo_vm :: kvm where
  "demo_vm = kheap.extend (kcore.extend (empty_core\<lparr>current_thread := 8, cr3 := 0x300000,
       tcbs := (\<lambda>_. empty_tcb\<lparr>t_pcb := 16\<rparr>), pcbs := (\<lambda>_. empty_pcb\<lparr>p_PD := 0x300000\<rparr>)\<rparr>)
       \<lparr>malloc_lmm = pool1 @ [\<lparr>rid = 1, rnodes = [], rmin = 0x300000, rmax = 0x400000, rflags = 0, rpri = 0, rfree = 0\<rparr>],
        hmem = (\<lambda>_. 0)\<rparr>)
     \<lparr>frs = init_free_frame 65536 None\<lparr>refcount := (\<lambda>i. if i < 4096 then 1 else 0), free_frame := Some 4096\<rparr>,
      tables = (\<lambda>_ _. 0), pages = (\<lambda>_ _. 0), cr0_pg = True, cr4_pge = True\<rparr>"

lemmas demo_vm_defs = demo_vm_def kheap.extend_def kcore.extend_def empty_core_def empty_lheap_def init_free_frame_def

lemma demo_vm_lmm:
  "lmm_ok (pool1 @ [\<lparr>rid = 1, rnodes = [], rmin = 0x300000, rmax = 0x400000, rflags = 0, rpri = 0, rfree = 0\<rparr>])"
  by (simp add: pool1_def region_ok_def span_def)

lemma demo_vm_ok: "vm_ok demo_vm"
proof -
  have "heap_ok demo_vm"
    unfolding heap_ok_def quiet_def using demo_vm_lmm by (simp add: demo_vm_defs)
  moreover have "frames_ok (frs demo_vm)" by (simp add: frames_ok_def demo_vm_defs TOTAL_PHYS_FRAMES_def)
  moreover have "0 \<in> live (frs demo_vm)" by (simp add: live_def demo_vm_defs)
  ultimately show ?thesis by (simp add: vm_ok_def)
qed

lemma demo_vm_avail: "avail (frs demo_vm) = 61440"
proof -
  have "reachable_free (frs demo_vm) = {4096..<65536}"
    by (auto simp: reachable_free_def demo_vm_defs TOTAL_PHYS_FRAMES_def split: if_splits)
  then show ?thesis by (simp add: avail_def)
qed

lemma demo_vm_space: "space_ok demo_vm 0x300000" "cr3 demo_vm = 0x300000" "pte_of demo_vm 0x300000 i j = 0"
  "pte_at demo_vm 0x300000 q = 0"
proof -
  have "used_page demo_vm 0x300000"
    by (auto simp: kh.in_use_def managed_by_def demo_vm_defs block_def pool1_def span_def)
  then show "space_ok demo_vm 0x300000" by (simp add: space_ok_def) (simp add: demo_vm_defs)
qed (simp_all add: pte_of_def pte_at_def demo_vm_defs)

lemma demo_vm_room: "page_room demo_vm = 127"
  by (simp add: page_room_def demo_vm_defs pool1_def)

section \<open>Properties\<close>





text \<open>\<open>virtual_unmap_physical\<close> on a mapped page whose frame is in use clears exactly that
  entry, drops one reference of exactly that frame and returns 0; on an unmapped page it returns -1
  and changes nothing.\<close>

theorem virtual_unmap_physical_correct:
  assumes "vm_ok s" and "space_ok s pd" and "i < PAGE_LEN" and "j < PAGE_LEN"
    and "fr = frame_index (DEFLAG_ADDR (pte_of s pd i j))"
    and "pte_of s pd i j \<noteq> 0 \<longrightarrow> fr < TOTAL_PHYS_FRAMES \<and> fr \<in> live (frs s)"
  shows "if pte_of s pd i j = 0 then virtual_unmap_physical pd i j s = Inr (-1, s)
    else \<exists>s'. virtual_unmap_physical pd i j s = Inr (0, s') \<and> space_ok s' pd \<and> pte_of s' pd i j = 0
      \<and> (\<forall>i'<PAGE_LEN. \<forall>j'. (i', j') \<noteq> (i, j) \<longrightarrow> pte_of s' pd i' j' = pte_of s pd i' j')
      \<and> refcount (frs s') = (refcount (frs s))(fr := refcount (frs s) fr - 1)"
proof (cases "pte_of s pd i j = 0")
  case True
  have r: "tab_read pd i s = Inr (tables s pd i, s)"
    using space_ok_pd[OF assms(2)] assms(3) by (simp add: tab_read_def)
  show ?thesis
  proof (cases "tables s pd i = 0")
    case pde: False
    have "tab_read (DEFLAG_ADDR (tables s pd i)) j s = Inr (0, s)"
      using True pde space_ok_table[OF assms(2,3) pde] assms(4) by (simp add: tab_read_def pte_of_def)
    with r pde True show ?thesis by (simp add: virtual_unmap_physical_def)
  qed (use r True in \<open>simp add: virtual_unmap_physical_def\<close>)
next
  case False
  then have "fr < TOTAL_PHYS_FRAMES" "fr \<in> live (frs s)" using assms(6) by simp_all
  then obtain s' where "virtual_unmap_physical pd i j s = Inr (0, s')" "space_ok s' pd" "pte_of s' pd i j = 0"
    "\<And>i' j'. i' < PAGE_LEN \<Longrightarrow> (i', j') \<noteq> (i, j) \<Longrightarrow> pte_of s' pd i' j' = pte_of s pd i' j'"
    "refcount (frs s') = (refcount (frs s))(fr := refcount (frs s) fr - 1)"
    by (rule virtual_unmap_spec[OF assms(1-4) False assms(5)]) blast
  with False show ?thesis by auto
qed

theorem virtual_unmap_physical_correct_witness:
  "virtual_unmap_physical 0x300000 5 7 demo_vm = Inr (-1, demo_vm)"
  using virtual_unmap_physical_correct[OF demo_vm_ok demo_vm_space(1), of 5 7]
  by (simp add: demo_vm_space PAGE_LEN_def)

text \<open>\<open>addr_has_mapping\<close> answers whether the entry of the address in the running process's
  directory has a frame address, and never faults or changes the state when that directory is well
  formed.\<close>

theorem addr_has_mapping_correct:
  assumes "current_thread s \<noteq> 0" and "t_pcb (tcbs s (current_thread s)) \<noteq> 0"
    and "space_ok s (p_PD (pcbs s (t_pcb (tcbs s (current_thread s)))))" and "va \<noteq> 0"
  shows "addr_has_mapping va s =
    Inr (DEFLAG_ADDR (pte_of s (p_PD (pcbs s (t_pcb (tcbs s (current_thread s))))) (VA_PD_IND va) (VA_PT_IND va)) \<noteq> 0, s)"
proof -
  let ?pd = "p_PD (pcbs s (t_pcb (tcbs s (current_thread s))))"
  let ?pde = "tables s ?pd (VA_PD_IND va)"
  have r: "tab_read ?pd (VA_PD_IND va) s = Inr (?pde, s)"
    using space_ok_pd[OF assms(3)] by (simp add: tab_read_def VA_bounds not_le)
  have z: "DEFLAG_ADDR 0 = 0" by (simp add: DEFLAG_ADDR_def)
  show ?thesis
  proof (cases "?pde = 0")
    case True
    with r z assms space_ok_pd[OF assms(3)] show ?thesis by (simp add: addr_has_mapping_def pte_of_def)
  next
    case False
    note t = space_ok_table[OF assms(3) VA_bounds(1) False]
    then have "tab_read (DEFLAG_ADDR ?pde) (VA_PT_IND va) s = Inr (tables s (DEFLAG_ADDR ?pde) (VA_PT_IND va), s)"
      by (simp add: tab_read_def VA_bounds not_le)
    with r t False assms space_ok_pd[OF assms(3)] show ?thesis by (simp add: addr_has_mapping_def pte_of_def)
  qed
qed

theorem addr_has_mapping_correct_witness: "addr_has_mapping 0x01000000 demo_vm = Inr (False, demo_vm)"
proof -
  have d: "current_thread demo_vm = 8" "t_pcb (tcbs demo_vm 8) = 16" "p_PD (pcbs demo_vm 16) = 0x300000"
    by (simp_all add: demo_vm_defs empty_tcb_def empty_pcb_def)
  have "DEFLAG_ADDR 0 = 0" by (simp add: DEFLAG_ADDR_def)
  then show ?thesis
    using addr_has_mapping_correct[of demo_vm "0x01000000"] demo_vm_space by (simp add: d)
qed

end
