(* ===== verification/Thread_Calls.thy ===== *)
theory Thread_Calls
  imports Paging
begin

text \<open>
  The thread management system calls of \<open>kern/thread/sys_thread_management.c\<close> and the thread
  constructors of \<open>kern/thread/thread_basic.c\<close>. User memory is read and written byte by byte
  through the page tables of the current address space; an unmapped byte is a page fault. The value
  a call returns is what its caller finds when it runs again.
\<close>

unbundle bit_operations_syntax

section \<open>User memory\<close>

definition user_read :: "u32 \<Rightarrow> ('a kvm_scheme, u8) kop" where
  "user_read va s = (case mmu_walk s va of None \<Rightarrow> Inl Page_Fault | Some fr \<Rightarrow> Inr (pages s fr (unat va mod 4096), s))"

definition user_write :: "u32 \<Rightarrow> u8 \<Rightarrow> ('a kvm_scheme, unit) kop" where
  "user_write va b s =
     (case mmu_walk s va of
        None \<Rightarrow> Inl Page_Fault
      | Some fr \<Rightarrow> Inr ((), s\<lparr>pages := (pages s)(fr := (pages s fr)(unat va mod 4096 := b))\<rparr>))"

definition user_read32 :: "u32 \<Rightarrow> ('a kvm_scheme, u32) kop" where
  "user_read32 va =
     bindK (user_read va) (\<lambda>b0. bindK (user_read (va + 1)) (\<lambda>b1.
     bindK (user_read (va + 2)) (\<lambda>b2. bindK (user_read (va + 3)) (\<lambda>b3.
     returnK (ucast b0 OR push_bit 8 (ucast b1) OR push_bit 16 (ucast b2) OR push_bit 24 (ucast b3))))))"

definition user_write32 :: "u32 \<Rightarrow> u32 \<Rightarrow> ('a kvm_scheme, unit) kop" where
  "user_write32 va v =
     bindK (user_write va (ucast v)) (\<lambda>_. bindK (user_write (va + 1) (ucast (drop_bit 8 v))) (\<lambda>_.
     bindK (user_write (va + 2) (ucast (drop_bit 16 v))) (\<lambda>_. user_write (va + 3) (ucast (drop_bit 24 v)))))"

definition lock_me :: "('a kcore_scheme, unit) kop" where
  "lock_me = bindK (readK current_thread) (\<lambda>me. mutex_lock (Tcb_mutex me))"

definition unlock_me :: "('a kcore_scheme, unit) kop" where
  "unlock_me = bindK (readK current_thread) (\<lambda>me. mutex_unlock (Tcb_mutex me))"

definition set_my_state :: "int \<Rightarrow> ('a kcore_scheme, unit) kop" where
  "set_my_state st = bindK (readK current_thread) (\<lambda>me. set_tcb me (\<lambda>t. t\<lparr>t_state := st\<rparr>))"

section \<open>yield, deschedule, make_runnable\<close>

definition sys_yield :: "int \<Rightarrow> ('a kcore_scheme, int) kop" where
  "sys_yield tid =
     (if tid < -1 then returnK (-1)
      else if tid = -1 then bindK (schedule (-1)) (\<lambda>_. returnK 0)
      else
        bindK (mutex_lock Blocked_queue_lock) (\<lambda>_.
        bindK (search entry_thread Blocked_queue (\<lambda>s t. t_tid (tcbs s t) = tid)) (\<lambda>b.
        bindK (mutex_unlock Blocked_queue_lock) (\<lambda>_.
          if b \<noteq> None then returnK (-1)
          else
            bindK lock_me (\<lambda>_.
            bindK (readK current_thread) (\<lambda>me.
            bindK (get_tcb me) (\<lambda>t.
            bindK unlock_me (\<lambda>_.
              if t_tid t = tid then returnK (-1)
              else
                bindK (mutex_lock Runnable_queue_lock) (\<lambda>_.
                bindK (search entry_thread Runnable_queue (\<lambda>s t. t_tid (tcbs s t) = tid)) (\<lambda>r.
                bindK (mutex_unlock Runnable_queue_lock) (\<lambda>_.
                  if r = None then returnK (-1)
                  else bindK (schedule tid) (\<lambda>_. returnK 0))))))))))))"

definition sys_deschedule :: "u32 \<Rightarrow> ('a kvm_scheme, int) kop" where
  "sys_deschedule reject =
     (if \<not> is_user_addr reject then returnK (-1)
      else bindK (addr_has_mapping reject) (\<lambda>ok.
        if \<not> ok then returnK (-1)
        else
          bindK (mutex_lock Deschedule_lock) (\<lambda>_.
          bindK (user_read32 reject) (\<lambda>v.
            if v \<noteq> 0 then bindK (mutex_unlock Deschedule_lock) (\<lambda>_. returnK 0)
            else
              bindK lock_me (\<lambda>_.
              bindK (set_my_state THREAD_BLOCKED) (\<lambda>_.
              bindK unlock_me (\<lambda>_.
              bindK (schedule (-1)) (\<lambda>_. returnK 0))))))))"

definition sys_make_runnable :: "int \<Rightarrow> ('a kcore_scheme, int) kop" where
  "sys_make_runnable tid =
     (if tid \<le> 0 then returnK (-1)
      else
        bindK (mutex_lock Runnable_queue_lock) (\<lambda>_.
        bindK (search entry_thread Runnable_queue
                 (\<lambda>s t. t_tid (tcbs s t) = tid \<and> t_state (tcbs s t) = THREAD_RUNNABLE)) (\<lambda>r.
        bindK (mutex_unlock Runnable_queue_lock) (\<lambda>_.
          if r \<noteq> None then returnK (-1)
          else
            bindK (mutex_lock Blocked_queue_lock) (\<lambda>_.
            bindK (search entry_thread Blocked_queue
                     (\<lambda>s t. t_tid (tcbs s t) = tid \<and> t_state (tcbs s t) = THREAD_BLOCKED)) (\<lambda>b.
            bindK (mutex_unlock Blocked_queue_lock) (\<lambda>_.
              case b of
                None \<Rightarrow> returnK (-1)
              | Some target \<Rightarrow>
                  bindK (mutex_lock Deschedule_lock) (\<lambda>_.
                  bindK (mutex_lock (Tcb_mutex target)) (\<lambda>_.
                  bindK (set_tcb target (\<lambda>t. t\<lparr>t_state := THREAD_RUNNABLE\<rparr>)) (\<lambda>_.
                  bindK (mutex_unlock (Tcb_mutex target)) (\<lambda>_.
                  bindK (mutex_lock Blocked_queue_lock) (\<lambda>_.
                  bindK (delete_node Blocked_queue (Thread_list_node target)) (\<lambda>_.
                  bindK (mutex_unlock Blocked_queue_lock) (\<lambda>_.
                  bindK (mutex_lock Runnable_queue_lock) (\<lambda>_.
                  bindK (insert_last Runnable_queue (Thread_list_node target)) (\<lambda>_.
                  bindK (mutex_unlock Runnable_queue_lock) (\<lambda>_.
                  bindK (mutex_unlock Deschedule_lock) (\<lambda>_. returnK 0))))))))))))))))))"

section \<open>gettid, sleep\<close>

definition sys_gettid :: "('a kcore_scheme, int) kop" where
  "sys_gettid = bindK (readK current_thread) (\<lambda>me. bindK (get_tcb me) (\<lambda>t. returnK (t_tid t)))"

definition sys_sleep :: "int \<Rightarrow> ('a kcore_scheme, int) kop" where
  "sys_sleep ticks =
     (if ticks < 0 then returnK (-1)
      else if ticks = 0 then returnK 0
      else
        bindK lock_me (\<lambda>_.
        bindK (readK current_thread) (\<lambda>me.
        bindK sys_get_ticks (\<lambda>now.
        bindK (set_tcb me (\<lambda>t. t\<lparr>t_duration := word_of_int ticks, t_start_ticks := now,
                                 t_state := THREAD_SLEEPING\<rparr>)) (\<lambda>_.
        bindK unlock_me (\<lambda>_.
        bindK (schedule (-1)) (\<lambda>_. returnK 0)))))))"

section \<open>swexn\<close>

definition SEGSEL_USER_CS :: u32 where "SEGSEL_USER_CS = 0x23"
definition SEGSEL_USER_DS :: u32 where "SEGSEL_USER_DS = 0x2b"
definition ALLOWED_BITS :: u32 where
  "ALLOWED_BITS = 0x1 OR 0x4 OR 0x10 OR 0x40 OR 0x80 OR 0x400 OR 0x800 OR 0x40000"

definition swexn_causes :: "u32 list" where
  "swexn_causes = [0x00, 0x01, 0x03, 0x04, 0x05, 0x06, 0x07, 0x0B, 0x0D, 0x0E, 0x10, 0x11, 0x13]"

definition valid_newureg :: "u32 \<Rightarrow> u32 \<Rightarrow> ureg \<Rightarrow> bool" where
  "valid_newureg kern_stack_high original_eflags r =
     (let changedbit = r_eflags r XOR original_eflags; mask = changedbit XOR ALLOWED_BITS
      in r_cause r \<in> set swexn_causes
         \<and> r_cs r = SEGSEL_USER_CS \<and> r_ds r = SEGSEL_USER_DS
         \<and> \<not> r_ebp r \<le> kern_stack_high \<and> \<not> r_esp r \<le> kern_stack_high \<and> \<not> r_eip r \<le> kern_stack_high
         \<and> \<not> (changedbit OR mask) \<noteq> ALLOWED_BITS)"

text \<open>The registers at a user address, in the order of \<open>ureg_t\<close>.\<close>

fun read_words :: "u32 \<Rightarrow> nat \<Rightarrow> ('a kvm_scheme, u32 list) kop" where
  "read_words va 0 = returnK []"
| "read_words va (Suc n) = bindK (user_read32 va) (\<lambda>w. bindK (read_words (va + 4) n) (\<lambda>ws. returnK (w # ws)))"

definition ureg_of :: "u32 list \<Rightarrow> ureg" where
  "ureg_of w = \<lparr>r_cause = w ! 0, r_cr2 = w ! 1, r_ds = w ! 2, r_es = w ! 3, r_fs = w ! 4, r_gs = w ! 5,
     r_edi = w ! 6, r_esi = w ! 7, r_ebp = w ! 8, r_zero = w ! 9, r_ebx = w ! 10, r_edx = w ! 11, r_ecx = w ! 12,
     r_eax = w ! 13, r_error_code = w ! 14, r_eip = w ! 15, r_cs = w ! 16, r_eflags = w ! 17, r_esp = w ! 18, r_ss = w ! 19\<rparr>"

definition is_valid_newureg :: "u32 \<Rightarrow> ('a kvm_scheme, bool) kop" where
  "is_valid_newureg newureg =
     (if newureg = 0 then returnK True
      else
        bindK (readK esp0) (\<lambda>high.
        bindK (readK current_thread) (\<lambda>me.
        bindK (get_tcb me) (\<lambda>t.
        bindK (read_words newureg 20) (\<lambda>w.
        returnK (valid_newureg high (i_eflags (t_swexn_info t)) (ureg_of w)))))))"

definition sys_swexn :: "u32 \<Rightarrow> u32 \<Rightarrow> u32 \<Rightarrow> u32 \<Rightarrow> ('a kvm_scheme, int) kop" where
  "sys_swexn esp3 eip arg newureg =
     bindK (is_valid_newureg newureg) (\<lambda>valid.
       if \<not> valid then returnK (-1)
       else
         bindK (readK current_thread) (\<lambda>me.
           if esp3 = 0 \<or> eip = 0
           then bindK (set_tcb me (\<lambda>t. t\<lparr>t_swexn_info := empty_swexninfo\<rparr>)) (\<lambda>_. returnK 0)
           else bindK (set_tcb me (\<lambda>t. t\<lparr>t_swexn_info := (t_swexn_info t)\<lparr>i_esp3 := esp3, i_eip := eip, i_arg := arg,
                    i_newureg := newureg, i_installed_flag := 1\<rparr>\<rparr>)) (\<lambda>_. returnK 0)))"

section \<open>Creating threads\<close>

definition thr_init :: "('a kcore_scheme, unit) kop" where
  "thr_init =
     bindK (init_list Runnable_queue) (\<lambda>_.
     bindK (init_list Blocked_queue) (\<lambda>_.
     bindK (mutex_init Blocked_queue_lock) (\<lambda>_.
     bindK (mutex_init Runnable_queue_lock) (\<lambda>_.
     bindK (mutex_init Deschedule_lock) (\<lambda>_.
     modifyK (\<lambda>s. s\<lparr>next_tid := 1\<rparr>))))))"

text \<open>\<open>eflags\<close> is what \<open>get_eflags()\<close> reads; \<open>TCB_SIZE\<close> is \<open>sizeof(TCB)\<close>. Fields that the code
  does not set keep what the block of \<open>malloc\<close> held, here the old entry of the table.\<close>

definition TCB_SIZE :: u32 where "TCB_SIZE = 180"

definition initial_eflags :: "u32 \<Rightarrow> u32" where
  "initial_eflags eflags = ((eflags OR 0x2) AND NOT 0x40000) OR 0x200"

definition thr_create :: "u32 \<Rightarrow> u32 \<Rightarrow> bool \<Rightarrow> ('a kheap_scheme, u32) kop" where
  "thr_create eflags eip run =
     bindK (malloc TCB_SIZE) (\<lambda>tcb.
     bindK (readK next_tid) (\<lambda>tid.
     bindK (set_tcb tcb (\<lambda>t. t\<lparr>t_tid := sint tid\<rparr>)) (\<lambda>_.
     bindK (modifyK (\<lambda>s. s\<lparr>next_tid := next_tid s + 1\<rparr>)) (\<lambda>_.
     bindK (mutex_init (Tcb_mutex tcb)) (\<lambda>_.
     bindK (smemalign 4096 4096) (\<lambda>stack_base.
     bindK (set_tcb tcb (\<lambda>t. t\<lparr>t_state := THREAD_RUNNING, t_stack_size := 4096, t_stack_base := stack_base,
       t_esp := 4096 + stack_base - 4,
       t_registers := (t_registers t)\<lparr>r_ds := SEGSEL_USER_DS, r_es := SEGSEL_USER_DS, r_fs := SEGSEL_USER_DS,
         r_gs := SEGSEL_USER_DS, r_edi := 0, r_esi := 0, r_ebp := 0xffffffff, r_ebx := 0, r_edx := 0, r_ecx := 0,
         r_eax := 0, r_eip := eip, r_cs := SEGSEL_USER_CS, r_eflags := initial_eflags eflags,
         r_esp := 0xffffff10, r_ss := SEGSEL_USER_DS\<rparr>\<rparr>)) (\<lambda>_.
     if run then returnK tcb
     else
       bindK (insert_last Runnable_queue (Thread_list_node tcb)) (\<lambda>_.
       bindK (set_tcb tcb (\<lambda>t. t\<lparr>t_state := THREAD_INIT\<rparr>)) (\<lambda>_. returnK tcb)))))))))"

section \<open>Calls that take free locks\<close>

definition all_quiet :: "'a kcore_scheme \<Rightarrow> bool" where
  "all_quiet s \<longleftrightarrow> (\<forall>m. quiet m s)"

lemma all_quietD:
  "all_quiet s \<Longrightarrow> m_status (mutexes s m) = 0" "all_quiet s \<Longrightarrow> length_l (headers (lh s) (Waiting_queue m)) = 0"
  by (simp_all add: all_quiet_def quiet_def)

lemma mutexes_held [simp]:
  "mutexes (held m s) = (mutexes s)(m := \<lparr>m_status = 1, m_tid = t_tid (tcbs s (current_thread s))\<rparr>)"
  "mutexes (released m s) = (mutexes s)(m := \<lparr>m_status = 0, m_tid = -1\<rparr>)"
  by (simp_all add: held_def released_def)

lemma sched_inv_locks [simp]:
  "sched_inv (held m s) rs bs = sched_inv s rs bs" "sched_inv (released m s) rs bs = sched_inv s rs bs"
  by (simp_all add: sched_inv_def)

lemma all_quiet_released [simp]: "all_quiet s \<Longrightarrow> all_quiet (released m s)"
  by (auto simp: all_quiet_def quiet_def)

lemma woken_released [simp]: "woken (released m s) bs = woken s bs"
  by (simp add: woken_def wake_due_def)

lemma search_sched:
  assumes "sched_inv s rs bs"
  shows "search entry_thread Runnable_queue P s = Inr (List.find (P s) rs, s)"
    "search entry_thread Blocked_queue P s = Inr (List.find (P s) bs, s)"
  using sched_lists_of[OF assms] assms by (auto intro!: search_threads simp: sched_inv_def)

text \<open>Reading one of the queues under its lock.\<close>

lemma locked_search:
  assumes "sched_inv s rs bs" "all_quiet s"
  shows "bindK (mutex_lock Runnable_queue_lock) (\<lambda>_. bindK (search entry_thread Runnable_queue P)
      (\<lambda>r. bindK (mutex_unlock Runnable_queue_lock) (\<lambda>_. f r))) s
      = f (List.find (P (held Runnable_queue_lock s)) rs) (released Runnable_queue_lock s)"
    "bindK (mutex_lock Blocked_queue_lock) (\<lambda>_. bindK (search entry_thread Blocked_queue P)
      (\<lambda>r. bindK (mutex_unlock Blocked_queue_lock) (\<lambda>_. f r))) s
      = f (List.find (P (held Blocked_queue_lock s)) bs) (released Blocked_queue_lock s)"
  using search_sched[of "held Runnable_queue_lock s" rs bs P] search_sched[of "held Blocked_queue_lock s" rs bs P] assms
  by (simp_all add: all_quietD)

definition tids :: "'a kcore_scheme \<Rightarrow> u32 list \<Rightarrow> int set" where
  "tids s ts = (\<lambda>t. t_tid (tcbs s t)) ` set ts"

lemma find_tid_None: "(List.find (\<lambda>t. t_tid (tcbs s t) = tid) ts = None) = (tid \<notin> tids s ts)"
  by (auto simp: find_None_iff tids_def)

lemma find_tid_Some: "(\<exists>y. List.find (\<lambda>t. t_tid (tcbs s t) = tid) ts = Some y) = (tid \<in> tids s ts)"
  using find_tid_None[of s tid ts] by auto

lemma sys_yield_eval:
  assumes inv: "sched_inv s rs bs" and q: "all_quiet s" and tid: "0 \<le> tid"
  shows "sys_yield tid s =
    (let s1 = released Blocked_queue_lock s; s2 = released (Tcb_mutex (current_thread s)) s1; s3 = released Runnable_queue_lock s2
     in if tid \<in> tids s bs then Inr (-1, s1) else if t_tid (tcbs s (current_thread s)) = tid then Inr (-1, s2)
        else if tid \<notin> tids s rs then Inr (-1, s3) else bindK (schedule tid) (\<lambda>_. returnK 0) s3)"
proof -
  have me: "current_thread s \<noteq> 0" using inv by (simp add: sched_inv_def)
  define s2 where "s2 = released (Tcb_mutex (current_thread s)) (released Blocked_queue_lock s)"
  have i2: "sched_inv s2 rs bs" "all_quiet s2" "tcbs s2 = tcbs s" using inv q by (simp_all add: s2_def)
  have own: "bindK lock_me (\<lambda>_. bindK (readK current_thread) (\<lambda>me. bindK (get_tcb me) (\<lambda>t. bindK unlock_me (\<lambda>_. f t))))
      (released Blocked_queue_lock s) = f (tcbs s (current_thread s)) s2" for f :: "TCB \<Rightarrow> ('a kcore_scheme, int) kop"
    using me q by (simp add: lock_me_def unlock_me_def s2_def all_quietD)
  show ?thesis
    using tid by (simp add: sys_yield_def locked_search[OF inv q] locked_search[OF i2(1,2)] own i2(3) find_tid_None find_tid_Some Let_def s2_def[symmetric])
qed

text \<open>The second half of \<open>sys_make_runnable\<close>: the state, the blocked queue and the runnable
  queue are changed under their locks, inside \<open>deschedule_lock\<close>.\<close>

lemma make_runnable_moves:
  assumes q: "all_quiet s" and t: "t \<noteq> 0"
  shows "bindK (mutex_lock Deschedule_lock) (\<lambda>_.
      bindK (mutex_lock (Tcb_mutex t)) (\<lambda>_.
      bindK (set_tcb t (\<lambda>t. t\<lparr>t_state := THREAD_RUNNABLE\<rparr>)) (\<lambda>_.
      bindK (mutex_unlock (Tcb_mutex t)) (\<lambda>_.
      bindK (mutex_lock Blocked_queue_lock) (\<lambda>_.
      bindK (delete_node Blocked_queue (Thread_list_node t)) (\<lambda>_.
      bindK (mutex_unlock Blocked_queue_lock) (\<lambda>_.
      bindK (mutex_lock Runnable_queue_lock) (\<lambda>_.
      bindK (insert_last Runnable_queue (Thread_list_node t)) (\<lambda>_.
      bindK (mutex_unlock Runnable_queue_lock) (\<lambda>_.
      bindK (mutex_unlock Deschedule_lock) (\<lambda>_. returnK (0::int)))))))))))) s
    = Inr (0, released Deschedule_lock (released Runnable_queue_lock (released Blocked_queue_lock
        (released (Tcb_mutex t) (wake_thread t s)))))"
  using t all_quietD[OF q]
  by (simp add: delete_node_def insert_last_def held_def released_def wake_thread_def fun_upd_twist)

lemma sys_make_runnable_eval:
  assumes inv: "sched_inv s rs bs" and q: "all_quiet s" and tid: "0 < tid"
  shows "sys_make_runnable tid s =
    (let s1 = released Runnable_queue_lock s; s2 = released Blocked_queue_lock s1
     in if List.find (\<lambda>t. t_tid (tcbs s t) = tid \<and> t_state (tcbs s t) = THREAD_RUNNABLE) rs \<noteq> None then Inr (-1, s1)
        else case List.find (\<lambda>t. t_tid (tcbs s t) = tid \<and> t_state (tcbs s t) = THREAD_BLOCKED) bs of
          None \<Rightarrow> Inr (-1, s2)
        | Some t \<Rightarrow> Inr (0, released Deschedule_lock (released Runnable_queue_lock (released Blocked_queue_lock
            (released (Tcb_mutex t) (wake_thread t s2))))))"
proof -
  let ?s1 = "released Runnable_queue_lock s" let ?s2 = "released Blocked_queue_lock ?s1"
  have i1: "sched_inv ?s1 rs bs" "all_quiet ?s1" "all_quiet ?s2" using inv q by simp_all
  have nz: "t \<noteq> 0" if "List.find P bs = Some t" for t P
    using that inv by (auto simp: sched_inv_def find_Some_iff) (metis nth_mem)
  show ?thesis
    using tid nz
    by (simp add: sys_make_runnable_def locked_search[OF inv q] locked_search[OF i1(1,2)] make_runnable_moves[OF i1(3)] Let_def
      del: not_None_eq split: option.split)
qed

text \<open>C33: \<open>sys_yield\<close> from a well-formed state with no lock taken. With -1 the first runnable thread runs
  and the call returns 0, where some thread is runnable. With the number of a runnable thread that is neither blocked nor the
  caller, that thread runs and the call returns 0. In both cases the caller goes to the queue its state asks for. With any
  other number the call returns -1, the caller goes on and no thread changes queue or state.\<close>

theorem sys_yield_correct:
  assumes inv: "sched_inv s rs bs" and q: "all_quiet s" and rs: "tid = -1 \<Longrightarrow> rs \<noteq> []"
  shows "if tid = -1 \<or> 0 \<le> tid \<and> tid \<in> tids s rs - tids s (current_thread s # bs)
    then \<exists>s' t rs' bs'. sys_yield tid s = Inr (0, s') \<and> t \<in> set rs
           \<and> (if tid = -1 then t = hd rs else t_tid (tcbs s t) = tid)
           \<and> current_thread s' = t \<and> interrupts s' \<and> sched_inv s' rs' bs'
           \<and> (rs', bs') = requeue_seq (t_state (tcbs s (current_thread s))) (current_thread s)
               (remove1 t (fst (after_wake s rs bs))) (snd (after_wake s rs bs))
    else \<exists>s'. sys_yield tid s = Inr (-1, s') \<and> sched_inv s' rs bs \<and> tcbs s' = tcbs s
           \<and> current_thread s' = current_thread s"
proof -
  define s3 where "s3 = (if tid = -1 then s
    else released Runnable_queue_lock (released (Tcb_mutex (current_thread s)) (released Blocked_queue_lock s)))"
  have i3: "sched_inv s3 rs bs" "all_quiet s3" "tcbs s3 = tcbs s" "current_thread s3 = current_thread s"
    "numTicks s3 = numTicks s" using inv q by (simp_all add: s3_def)
  have aw: "after_wake s3 rs bs = after_wake s rs bs" using i3(3,5) by (simp add: after_wake_def woken_def wake_due_def)
  have run: "\<exists>s' rs' bs'. schedule tid s3 = Inr ((), s') \<and> current_thread s' = t \<and> interrupts s' \<and> sched_inv s' rs' bs'
      \<and> (rs', bs') = requeue_seq (t_state (tcbs s (current_thread s))) (current_thread s)
               (remove1 t (fst (after_wake s rs bs))) (snd (after_wake s rs bs))"
    if p: "pick_seq tid s3 (fst (after_wake s rs bs)) = Some t" for t
  proof -
    let ?q = "requeue_seq (t_state (tcbs s (current_thread s))) (current_thread s)
               (remove1 t (fst (after_wake s rs bs))) (snd (after_wake s rs bs))"
    obtain rs' bs' where rq: "?q = (rs', bs')" by (cases ?q)
    obtain s' where "schedule tid s3 = Inr ((), s')" "sched_inv s' rs' bs'" "current_thread s' = t" "interrupts s'"
      by (rule schedule_spec[of s3 rs bs "fst (after_wake s rs bs)" "snd (after_wake s rs bs)" tid t rs' bs'])
        (use i3 rq aw p all_quietD(2)[OF i3(2)] in simp_all)
    then show ?thesis using rq by metis
  qed
  consider (first) "tid = -1" | (named) "0 \<le> tid" "tid \<in> tids s rs - tids s (current_thread s # bs)"
    | (no) "tid \<noteq> -1" "0 \<le> tid \<longrightarrow> tid \<notin> tids s rs - tids s (current_thread s # bs)" by blast
  then show ?thesis
  proof cases
    case no
    show ?thesis
    proof (cases "0 \<le> tid")
      case True
      then show ?thesis using no inv by (auto simp: sys_yield_eval[OF inv q True] Let_def tids_def)
    next
      case False
      then show ?thesis using no inv by (auto simp: sys_yield_def)
    qed
  next
    case first
    then obtain t rs0 where r: "rs = t # rs0" using rs by (cases rs) auto
    have p: "pick_seq tid s3 (fst (after_wake s rs bs)) = Some t"
      using first by (auto simp: pick_seq_def after_wake_def r split: option.splits)
    have y: "sys_yield tid s = bindK (schedule tid) (\<lambda>_. returnK 0) s3" using first by (simp add: sys_yield_def s3_def)
    obtain s' rs' bs' where "schedule tid s3 = Inr ((), s')" "current_thread s' = t" "interrupts s'" "sched_inv s' rs' bs'"
      "(rs', bs') = requeue_seq (t_state (tcbs s (current_thread s))) (current_thread s)
               (remove1 t (fst (after_wake s rs bs))) (snd (after_wake s rs bs))" using run[OF p] by blast
    then show ?thesis using y r first by auto
  next
    case named
    then have "List.find (\<lambda>t. t_tid (tcbs s t) = tid) rs \<noteq> None" by (simp only: find_tid_None) simp
    then obtain t where t: "List.find (\<lambda>t. t_tid (tcbs s t) = tid) rs = Some t" by blast
    obtain xs where xs: "fst (after_wake s rs bs) = rs @ xs" using after_wake_fst[of s rs bs] by auto
    have p: "pick_seq tid s3 (fst (after_wake s rs bs)) = Some t"
      using t named(1) by (simp add: pick_seq_def i3(3) xs find_append_Some)
    have "sys_yield tid s = bindK (schedule tid) (\<lambda>_. returnK 0) s3"
      using named by (simp add: sys_yield_eval[OF inv q] s3_def tids_def)
    moreover have "t \<in> set rs" "t_tid (tcbs s t) = tid" using t by (auto simp: find_Some_iff)
    moreover obtain s' rs' bs' where "schedule tid s3 = Inr ((), s')" "current_thread s' = t" "interrupts s'" "sched_inv s' rs' bs'"
      "(rs', bs') = requeue_seq (t_state (tcbs s (current_thread s))) (current_thread s)
               (remove1 t (fst (after_wake s rs bs))) (snd (after_wake s rs bs))" using run[OF p] by blast
    ultimately show ?thesis using named by auto
  qed
qed

theorem sys_yield_correct_witness:
  "(\<exists>s' t. sys_yield 24 (demo_core 8 [16, 24] [32]) = Inr (0, s') \<and> t_tid (tcbs (demo_core 8 [16, 24] [32]) t) = 24 \<and> current_thread s' = t)
   \<and> (\<exists>s'. sys_yield (-1) (demo_core 8 [16, 24] [32]) = Inr (0, s') \<and> current_thread s' = 16)"
proof -
  let ?s = "demo_core 8 [16, 24] [32]"
  have i: "sched_inv ?s [16, 24] [32]" by (rule demo_core_inv) simp_all
  have q: "all_quiet ?s" by (simp add: all_quiet_def quiet_def demo_core_quiet) (simp add: demo_core_def empty_core_def)
  have "24 \<in> tids ?s [16, 24] - tids ?s (current_thread ?s # [32])" by (simp add: tids_def demo_core_def)
  then show ?thesis using sys_yield_correct[OF i q, of 24] sys_yield_correct[OF i q, of "-1"] by auto
qed

lemma make_runnable_spec:
  assumes inv: "sched_inv s rs bs" and q: "all_quiet s" and tid: "0 < tid"
    and b: "\<exists>t\<in>set bs. t_tid (tcbs s t) = tid \<and> t_state (tcbs s t) = THREAD_BLOCKED"
    and r: "\<not> (\<exists>u\<in>set rs. t_tid (tcbs s u) = tid \<and> t_state (tcbs s u) = THREAD_RUNNABLE)"
  shows "\<exists>t s'. sys_make_runnable tid s = Inr (0, s') \<and> t \<in> set bs \<and> t_tid (tcbs s t) = tid
    \<and> sched_inv s' (rs @ [t]) (remove1 t bs) \<and> all_quiet s' \<and> current_thread s' = current_thread s
    \<and> tcbs s' = (tcbs s)(t := (tcbs s t)\<lparr>t_state := THREAD_RUNNABLE\<rparr>)"
proof -
  let ?r = "\<lambda>t. t_tid (tcbs s t) = tid \<and> t_state (tcbs s t) = THREAD_RUNNABLE"
  let ?b = "\<lambda>t. t_tid (tcbs s t) = tid \<and> t_state (tcbs s t) = THREAD_BLOCKED"
  let ?s2 = "released Blocked_queue_lock (released Runnable_queue_lock s)"
  note eval = sys_make_runnable_eval[OF inv q tid]
  have nr: "List.find ?r rs = None" and "List.find ?b bs \<noteq> None" using b r by (auto simp: find_None_iff)
  then obtain t where f: "List.find ?b bs = Some t" by blast
  then have t: "t \<in> set bs" "?b t" by (auto simp: find_Some_iff)
  let ?s' = "released Deschedule_lock (released Runnable_queue_lock (released Blocked_queue_lock (released (Tcb_mutex t) (wake_thread t ?s2))))"
  have "sys_make_runnable tid s = Inr (0, ?s')" using nr f by (simp add: eval Let_def)
  moreover have "sched_inv ?s' (rs @ [t]) (remove1 t bs)" using wake_thread_inv[of ?s2 rs bs t] inv t by simp
  moreover have "all_quiet (wake_thread t ?s2)" using q by (simp add: all_quiet_def quiet_def wake_thread_def)
  moreover have "tcbs ?s' = (tcbs s)(t := (tcbs s t)\<lparr>t_state := THREAD_RUNNABLE\<rparr>)" by (simp add: wake_thread_def)
  moreover have "all_quiet ?s'" "current_thread ?s' = current_thread s"
    using calculation(3) by (simp_all add: wake_thread_def[of t ?s2])
  ultimately show ?thesis
    using t by (intro exI[of _ t] exI[of _ ?s']) simp
qed

text \<open>C34: \<open>sys_make_runnable\<close>, from a well-formed state with no lock taken: if no runnable thread
  has the number and a descheduled one has, that thread leaves the blocked queue, becomes runnable
  and goes to the end of the runnable queue, and the call returns 0; otherwise it returns -1 and no
  thread changes. No lock is left taken.\<close>

theorem sys_make_runnable_correct:
  assumes inv: "sched_inv s rs bs" and q: "all_quiet s" and tid: "0 < tid"
  shows "if (\<exists>t\<in>set bs. t_tid (tcbs s t) = tid \<and> t_state (tcbs s t) = THREAD_BLOCKED)
        \<and> \<not> (\<exists>u\<in>set rs. t_tid (tcbs s u) = tid \<and> t_state (tcbs s u) = THREAD_RUNNABLE)
    then \<exists>t s'. sys_make_runnable tid s = Inr (0, s') \<and> t \<in> set bs \<and> t_tid (tcbs s t) = tid
          \<and> sched_inv s' (rs @ [t]) (remove1 t bs) \<and> all_quiet s' \<and> current_thread s' = current_thread s
          \<and> tcbs s' = (tcbs s)(t := (tcbs s t)\<lparr>t_state := THREAD_RUNNABLE\<rparr>)
    else \<exists>s'. sys_make_runnable tid s = Inr (-1, s') \<and> sched_inv s' rs bs \<and> all_quiet s'
          \<and> current_thread s' = current_thread s \<and> tcbs s' = tcbs s"
proof -
  let ?r = "\<lambda>t. t_tid (tcbs s t) = tid \<and> t_state (tcbs s t) = THREAD_RUNNABLE"
  let ?b = "\<lambda>t. t_tid (tcbs s t) = tid \<and> t_state (tcbs s t) = THREAD_BLOCKED"
  note eval = sys_make_runnable_eval[OF inv q tid]
  show ?thesis
  proof (cases "(\<exists>t\<in>set bs. ?b t) \<and> \<not> (\<exists>u\<in>set rs. ?r u)")
    case True
    then have "\<exists>t s'. sys_make_runnable tid s = Inr (0, s') \<and> t \<in> set bs \<and> t_tid (tcbs s t) = tid
          \<and> sched_inv s' (rs @ [t]) (remove1 t bs) \<and> all_quiet s' \<and> current_thread s' = current_thread s
          \<and> tcbs s' = (tcbs s)(t := (tcbs s t)\<lparr>t_state := THREAD_RUNNABLE\<rparr>)"
      using make_runnable_spec[OF inv q tid] by blast
    then show ?thesis using True by (simp only: if_True simp_thms)
  next
    case False
    then consider u where "List.find ?r rs = Some u" | "List.find ?r rs = None" "List.find ?b bs = None"
      by (cases "List.find ?r rs"; cases "List.find ?b bs") (auto simp: find_None_iff find_Some_iff)
    then have "\<exists>s'. sys_make_runnable tid s = Inr (-1, s') \<and> sched_inv s' rs bs \<and> all_quiet s'
          \<and> current_thread s' = current_thread s \<and> tcbs s' = tcbs s"
      using inv q by cases (simp_all add: eval Let_def)
    then show ?thesis using False by (simp only: if_False)
  qed
qed

theorem sys_make_runnable_correct_witness:
  "\<exists>t s'. sys_make_runnable 32 ((demo_core 8 [16] [32])\<lparr>tcbs := (\<lambda>t. empty_tcb\<lparr>t_pcb := 4096, t_tid := uint t, t_state := THREAD_BLOCKED\<rparr>)\<rparr>)
     = Inr (0, s') \<and> sched_inv s' ([16] @ [t]) (remove1 t [32])"
proof -
  let ?s = "(demo_core 8 [16] [32])\<lparr>tcbs := (\<lambda>t. empty_tcb\<lparr>t_pcb := 4096, t_tid := uint t, t_state := THREAD_BLOCKED\<rparr>)\<rparr>"
  have "sched_inv (demo_core 8 [16] [32]) [16] [32]" by (rule demo_core_inv) simp_all
  then have "sched_inv ?s [16] [32]" by (simp add: sched_inv_def)
  moreover have "all_quiet ?s"
    using demo_core_quiet[of 8 "[16]" "[32]"] by (simp add: all_quiet_def quiet_def) (simp add: demo_core_def empty_core_def)
  ultimately show ?thesis
    using sys_make_runnable_correct[of ?s "[16]" "[32]" 32] by (simp add: thread_states del: append.simps remove1.simps) metis
qed

section \<open>Registering a software exception handler\<close>

text \<open>The test of the flags, \<open>(changed | (changed ^ ALLOWED_BITS)) == ALLOWED_BITS\<close>, against its purpose: the numbers of the bits
  that a program may change.\<close>

definition user_flags :: "nat set" where
  "user_flags = {0, 2, 4, 6, 7, 10, 11, 18}"

lemma bit_allowed: "bit ALLOWED_BITS n = (n \<in> user_flags)"
proof -
  have e: "ALLOWED_BITS = 2 ^ 0 OR 2 ^ 2 OR 2 ^ 4 OR 2 ^ 6 OR 2 ^ 7 OR 2 ^ 10 OR 2 ^ 11 OR 2 ^ 18" by (simp add: ALLOWED_BITS_def)
  have "bit ALLOWED_BITS n = (n < 32 \<and> (n = 0 \<or> n = 2 \<or> n = 4 \<or> n = 6 \<or> n = 7 \<or> n = 10 \<or> n = 11 \<or> n = 18))"
    unfolding e bit_or_iff bit_exp_iff by (auto simp: possible_bit_word)
  then show ?thesis by (auto simp: user_flags_def)
qed

lemma flags_test:
  fixes new old :: u32
  shows "((new XOR old) OR ((new XOR old) XOR ALLOWED_BITS) = ALLOWED_BITS) = (\<forall>n. bit new n \<noteq> bit old n \<longrightarrow> n \<in> user_flags)"
proof -
  have "((new XOR old) OR ((new XOR old) XOR ALLOWED_BITS) = ALLOWED_BITS)
      = (\<forall>n<32. (bit new n \<noteq> bit old n) \<or> ((bit new n \<noteq> bit old n) \<noteq> bit ALLOWED_BITS n) \<longleftrightarrow> bit ALLOWED_BITS n)"
    by (auto simp: bit_eq_iff bit_simps)
  also have "\<dots> = (\<forall>n<32. bit new n \<noteq> bit old n \<longrightarrow> n \<in> user_flags)" by (auto simp: bit_allowed)
  also have "\<dots> = (\<forall>n. bit new n \<noteq> bit old n \<longrightarrow> n \<in> user_flags)"
    using bit_imp_le_length[of new] bit_imp_le_length[of old] by fastforce
  finally show ?thesis .
qed

definition may_resume :: "u32 \<Rightarrow> u32 \<Rightarrow> ureg \<Rightarrow> bool" where
  "may_resume high old r \<longleftrightarrow> r_cause r \<in> set swexn_causes \<and> r_cs r = SEGSEL_USER_CS \<and> r_ds r = SEGSEL_USER_DS
     \<and> high < r_ebp r \<and> high < r_esp r \<and> high < r_eip r \<and> (\<forall>n. bit (r_eflags r) n \<noteq> bit old n \<longrightarrow> n \<in> user_flags)"

text \<open>C37: \<open>swexn\<close>. New registers, when given, are accepted exactly when what the kernel checks holds:
  the cause is one it knows, \<open>cs\<close> and \<open>ds\<close> are the user's selectors, \<open>ebp\<close>, \<open>esp\<close> and \<open>eip\<close> lie above
  the top of the kernel stack (\<open>esp0\<close>), and of the flags only those a program may change differ from the flags at the
  last fault. The other selectors are not looked at, and kernel addresses above the kernel stack pass. When they are refused the
  call returns -1 and changes nothing; otherwise the handler is removed if its stack or its entry is NULL and installed if
  not, for the running thread only.\<close>

theorem sys_swexn_correct:
  assumes me: "current_thread s \<noteq> 0" and w: "newureg = 0 \<or> read_words newureg 20 s = Inr (w, s)"
  shows "sys_swexn esp3 eip arg newureg s =
    (let me = current_thread s; t = tcbs s me; info = t_swexn_info t
     in if newureg \<noteq> 0 \<and> \<not> may_resume (esp0 s) (i_eflags info) (ureg_of w) then Inr (-1, s)
        else Inr (0, s\<lparr>tcbs := (tcbs s)(me := t\<lparr>t_swexn_info :=
          (if esp3 = 0 \<or> eip = 0 then empty_swexninfo
           else info\<lparr>i_esp3 := esp3, i_eip := eip, i_arg := arg, i_newureg := newureg, i_installed_flag := 1\<rparr>)\<rparr>)\<rparr>))"
proof -
  have v: "valid_newureg high old r = may_resume high old r" for high old r
    by (auto simp: valid_newureg_def may_resume_def Let_def flags_test not_le)
  show ?thesis
    using assms by (auto simp: sys_swexn_def is_valid_newureg_def v Let_def)
qed

text \<open>A page of user memory that starts with a register structure: a page fault, with the given code selector and the
  flags, stack and entry of a program.\<close>

definition demo_ureg :: "u8 \<Rightarrow> kvm" where
  "demo_ureg sel = demo_vm\<lparr>tables := (\<lambda>_ _. 0x400007),
     pages := (\<lambda>_. (\<lambda>_. 0)(0 := 0x0E, 8 := 0x2B, 35 := 2, 63 := 1, 64 := sel, 75 := 2))\<rparr>"

lemma read_words_map:
  assumes "\<And>va. user_read32 va s = Inr (w va, s)"
  shows "read_words va n s = Inr (map (\<lambda>i. w (va + 4 * of_nat i)) [0..<n], s)"
  using assms by (induction n arbitrary: va) (simp_all add: upt_conv_Cons map_Suc_upt[symmetric] o_def algebra_simps del: upt_Suc map_Suc_upt)

lemma demo_ureg_read:
  "read_words 0x01000000 20 (demo_ureg sel) =
     Inr ([0x0E, 0, 0x2B, 0, 0, 0, 0, 0, 0x02000000, 0, 0, 0, 0, 0, 0, 0x01000000, ucast sel, 0, 0x02000000, 0], demo_ureg sel)"
proof -
  define f :: "nat \<Rightarrow> u8" where "f = (\<lambda>_. 0)(0 := 0x0E, 8 := 0x2B, 35 := 2, 63 := 1, 64 := sel, 75 := 2)"
  define w where "w va = (ucast (f (unat va mod 4096)) OR push_bit 8 (ucast (f (unat (va + 1) mod 4096)))
    OR push_bit 16 (ucast (f (unat (va + 2) mod 4096))) OR push_bit 24 (ucast (f (unat (va + 3) mod 4096))) :: u32)" for va :: u32
  have m: "mmu_walk (demo_ureg sel) va = Some (frame_index 0x400000)" for va
    by (simp add: mmu_walk_def DEFLAG_ADDR_def Let_def demo_ureg_def)
  have "user_read va (demo_ureg sel) = Inr (f (unat va mod 4096), demo_ureg sel)" for va
    unfolding user_read_def m by (simp add: demo_ureg_def f_def)
  then have "user_read32 va (demo_ureg sel) = Inr (w va, demo_ureg sel)" for va
    by (simp add: user_read32_def w_def)
  then have "read_words 0x01000000 20 (demo_ureg sel) = Inr (map (\<lambda>i. w (0x01000000 + 4 * of_nat i)) [0..<20], demo_ureg sel)"
    by (rule read_words_map)
  moreover have twenty: "[0..<20] = [0, 1, 2, 3, 4, 5, 6, 7, 8, 9, 10, 11, 12, 13, 14, 15, 16, 17, 18, 19 :: nat]"
    by code_simp
  moreover have "map (\<lambda>i. w (0x01000000 + 4 * of_nat i)) [0..<20] =
      [0x0E, 0, 0x2B, 0, 0, 0, 0, 0, 0x02000000, 0, 0, 0, 0, 0, 0, 0x01000000, ucast sel, 0, 0x02000000, 0]"
    by (simp add: twenty w_def f_def)
  ultimately show ?thesis by simp
qed

theorem sys_swexn_correct_witness:
  "sys_swexn 0x02000000 0x01000000 7 0x01000000 (demo_ureg 0x23) = Inr (0, (demo_ureg 0x23)\<lparr>tcbs := (tcbs (demo_ureg 0x23))(8 := (tcbs (demo_ureg 0x23) 8)\<lparr>t_swexn_info :=
     (t_swexn_info (tcbs (demo_ureg 0x23) 8))\<lparr>i_esp3 := 0x02000000, i_eip := 0x01000000, i_arg := 7, i_newureg := 0x01000000, i_installed_flag := 1\<rparr>\<rparr>)\<rparr>)
   \<and> sys_swexn 0x02000000 0x01000000 7 0x01000000 (demo_ureg 0x10) = Inr (-1, demo_ureg 0x10)"
proof -
  have c: "current_thread (demo_ureg sel) = 8" "esp0 (demo_ureg sel) = 0" "i_eflags (t_swexn_info (tcbs (demo_ureg sel) 8)) = 0" for sel
    by (simp_all add: demo_ureg_def demo_vm_defs empty_tcb_def empty_swexninfo_def)
  show ?thesis
    using sys_swexn_correct[OF _ disjI2[OF demo_ureg_read[of "0x23"]], where ?esp3.0 = "0x02000000" and eip = "0x01000000" and arg = 7]
      sys_swexn_correct[OF _ disjI2[OF demo_ureg_read[of "0x10"]], where ?esp3.0 = "0x02000000" and eip = "0x01000000" and arg = 7]
    by (simp add: c Let_def may_resume_def ureg_of_def swexn_causes_def SEGSEL_USER_CS_def SEGSEL_USER_DS_def)
qed

end
