(* ===== verification/Life_Cycle.thy ===== *)
theory Life_Cycle
  imports Thread_Calls
begin

text \<open>
  The life cycle system calls of \<open>kern/process/sys_life_cycle.c\<close>: \<open>thread_fork\<close>,
  \<open>set_status\<close>, \<open>vanish\<close> and \<open>wait\<close>. The code copies list headers into local variables and then
  works on the copies; the model keeps such a copy under \<open>Local_copy\<close>, so changes of its head,
  tail and length are lost with it while changes of the nodes stay. \<open>wait\<close> is modelled as two
  operations, before and after its call of the scheduler: the second is what the caller does when it
  is the current thread again.
\<close>

section \<open>thread_fork, set_status\<close>

definition trap_word :: "u32 \<Rightarrow> nat \<Rightarrow> 'a kheap_scheme \<Rightarrow> u32" where
  "trap_word me i s = load32 (t_stack_base (tcbs s me) + t_stack_size (tcbs s me) - 60 + 4 * of_nat i) (hmem s)"

text \<open>The registers the trap wrapper pushed on the kernel stack of the caller.\<close>

definition save_trap_frame :: "('a kheap_scheme, unit) kop" where
  "save_trap_frame =
     bindK (readK current_thread) (\<lambda>me.
     bindK (readK (\<lambda>s. (\<lambda>i. trap_word me i s))) (\<lambda>kernel_stack.
     set_tcb me (\<lambda>t. t\<lparr>t_registers := (t_registers t)\<lparr>r_ss := kernel_stack 14, r_esp := kernel_stack 13,
       r_eflags := kernel_stack 12, r_cs := kernel_stack 11, r_eip := kernel_stack 10, r_ebp := kernel_stack 9,
       r_edi := kernel_stack 8, r_esi := kernel_stack 7, r_edx := kernel_stack 6, r_ecx := kernel_stack 5,
       r_ebx := kernel_stack 4\<rparr>\<rparr>)))"



definition sys_thread_fork :: "('a kheap_scheme, int) kop" where
  "sys_thread_fork =
     bindK save_trap_frame (\<lambda>_.
     bindK (readK current_thread) (\<lambda>me.
     bindK (get_tcb me) (\<lambda>cur.
     bindK (get_pcb (t_pcb cur)) (\<lambda>_.
     bindK (copy_header (Threads (t_pcb cur))) (\<lambda>_.
     bindK (malloc TCB_SIZE) (\<lambda>child.
     bindK (readK next_tid) (\<lambda>tid.
     bindK (set_tcb child (\<lambda>t. t\<lparr>t_pcb := t_pcb cur, t_tid := sint tid\<rparr>)) (\<lambda>_.
     bindK (modifyK (\<lambda>s. s\<lparr>next_tid := next_tid s + 1\<rparr>)) (\<lambda>_.
     bindK (memalign 4 (t_stack_size cur)) (\<lambda>stack_base.
     bindK (set_tcb child (\<lambda>t. t\<lparr>t_state := THREAD_INIT, t_stack_size := t_stack_size cur, t_stack_base := stack_base,
       t_esp := stack_base + t_stack_size cur, t_registers := (t_registers cur)\<lparr>r_eax := 0\<rparr>\<rparr>)) (\<lambda>_.
     bindK (set_tcb me (\<lambda>t. t\<lparr>t_registers := (t_registers t)\<lparr>r_eax := tid\<rparr>\<rparr>)) (\<lambda>_.
     bindK (insert_last Local_copy (Peer_threads_node child)) (\<lambda>_.
     bindK (insert_last Runnable_queue (Thread_list_node child)) (\<lambda>_.
     bindK (get_tcb child) (\<lambda>t. returnK (t_tid t))))))))))))))))"

definition sys_set_status :: "int \<Rightarrow> ('a kcore_scheme, unit) kop" where
  "sys_set_status status =
     bindK lock_me (\<lambda>_.
     bindK (readK current_thread) (\<lambda>me.
     bindK (get_tcb me) (\<lambda>t.
     bindK (set_pcb (t_pcb t) (\<lambda>p. p\<lparr>p_return_state := status\<rparr>)) (\<lambda>_.
     unlock_me))))"

section \<open>vanish\<close>

text \<open>The counting loop over the peers.\<close>

partial_function (option) count_live ::
  "(u32 \<Rightarrow> TCB) \<Rightarrow> (list_id, node_id) lheap \<Rightarrow> node_id option \<Rightarrow> nat \<Rightarrow> (fault + nat) option" where
  "count_live tcb h n live_count =
     (if n = None then Some (Inr live_count)
      else case entry_peer n of
             Inl e \<Rightarrow> Some (Inl e)
           | Inr t \<Rightarrow> if t = 0 then Some (Inl Null_Deref)
                      else count_live tcb h (next_n (nodes h (the n)))
                             (if t_state (tcb t) \<noteq> THREAD_EXIT then live_count + 1 else live_count))"

definition live_peers :: "('a kcore_scheme, nat) kop" where
  "live_peers s =
     (case count_live (tcbs s) (lh s) (list_begin (lh s) Local_copy) 0 of
        None \<Rightarrow> Inl Diverges | Some (Inl e) \<Rightarrow> Inl e | Some (Inr k) \<Rightarrow> Inr (k, s))"

text \<open>Reaping one exited peer: all three deletions are given the node of the peer list.\<close>

definition reap_peer :: "node_id \<Rightarrow> u32 \<Rightarrow> ('a kheap_scheme, unit) kop" where
  "reap_peer n t =
     bindK (delete_node Local_copy n) (\<lambda>_.
     bindK (delete_node Blocked_queue n) (\<lambda>_.
     bindK (delete_node Runnable_queue n) (\<lambda>_.
     bindK (get_tcb t) (\<lambda>tcb.
     bindK (sfree (t_stack_base tcb) (t_stack_size tcb)) (\<lambda>_. free t)))))"

partial_function (option) reap_loop ::
  "node_id option \<Rightarrow> 'a kheap_scheme \<Rightarrow> (fault + (unit \<times> 'a kheap_scheme)) option" where
  "reap_loop n s =
     (if n = None then Some (Inr ((), s))
      else case entry_peer n of
             Inl e \<Rightarrow> Some (Inl e)
           | Inr t \<Rightarrow>
               (case (if t = 0 then Inl Null_Deref
                      else if t_tid (tcbs s t) \<noteq> t_tid (tcbs s (current_thread s)) then reap_peer (the n) t s
                      else Inr ((), s)) of
                  Inl e \<Rightarrow> Some (Inl e)
                | Inr (_, s') \<Rightarrow> reap_loop (next_n (nodes (lh s') (the n))) s'))"

definition reap_peers :: "('a kheap_scheme, unit) kop" where
  "reap_peers s = (case reap_loop (list_begin (lh s) Local_copy) s of None \<Rightarrow> Inl Diverges | Some r \<Rightarrow> r)"

definition wake_blocked :: "u32 \<Rightarrow> ('a kcore_scheme, unit) kop" where
  "wake_blocked t =
     bindK (mutex_lock Blocked_queue_lock) (\<lambda>_.
     bindK (delete_node Blocked_queue (Thread_list_node t)) (\<lambda>_.
     bindK (mutex_unlock Blocked_queue_lock) (\<lambda>_.
     bindK (mutex_lock (Tcb_mutex t)) (\<lambda>_.
     bindK (set_tcb t (\<lambda>t. t\<lparr>t_state := THREAD_RUNNABLE\<rparr>)) (\<lambda>_.
     bindK (mutex_unlock (Tcb_mutex t)) (\<lambda>_.
     bindK (mutex_lock Runnable_queue_lock) (\<lambda>_.
     bindK (insert_last Runnable_queue (Thread_list_node t)) (\<lambda>_.
     mutex_unlock Runnable_queue_lock))))))))"

definition wake_if_found :: "u32 option \<Rightarrow> ('a kcore_scheme, unit) kop" where
  "wake_if_found r = (case r of None \<Rightarrow> returnK () | Some t \<Rightarrow> wake_blocked t)"

text \<open>Reporting the exit: to the thread with number 2 when there is no living parent, else to the
  first thread of the parent that waits.\<close>

definition report_exit :: "u32 \<Rightarrow> ('a kcore_scheme, unit) kop" where
  "report_exit parent =
     bindK (readK (\<lambda>s. parent = 0 \<or> p_state (pcbs s parent) = PROCESS_EXIT)) (\<lambda>orphan.
       if orphan
       then bindK (search entry_thread Blocked_queue (\<lambda>s t. t_tid (tcbs s t) = 2)) wake_if_found
       else
         bindK (copy_header (Threads parent)) (\<lambda>_.
         bindK (search entry_peer Local_copy (\<lambda>s t. t_state (tcbs s t) = THREAD_WAITING)) wake_if_found))"

definition sys_vanish :: "('a kheap_scheme, unit) kop" where
  "sys_vanish =
     bindK lock_me (\<lambda>_.
     bindK (readK current_thread) (\<lambda>me.
     bindK (get_tcb me) (\<lambda>t.
     bindK (get_pcb (t_pcb t)) (\<lambda>_.
     bindK (copy_header (Threads (t_pcb t))) (\<lambda>_.
     bindK live_peers (\<lambda>live_count.
     bindK (if live_count = 1
            then
              bindK reap_peers (\<lambda>_.
              bindK (set_pcb (t_pcb t) (\<lambda>p. p\<lparr>p_state := PROCESS_EXIT\<rparr>)) (\<lambda>_.
              bindK (mutex_lock Process_queue_lock) (\<lambda>_.
              bindK (delete_node Process_queue (All_processes_node (t_pcb t))) (\<lambda>_.
              bindK (mutex_unlock Process_queue_lock) (\<lambda>_.
              bindK (get_pcb (t_pcb t)) (\<lambda>p.
              report_exit (p_parent p)))))))
            else returnK ()) (\<lambda>_.
     bindK (set_my_state THREAD_EXIT) (\<lambda>_.
     bindK unlock_me (\<lambda>_.
     schedule (-1))))))))))"

section \<open>wait\<close>

definition reap_child :: "u32 \<Rightarrow> u32 \<Rightarrow> u32 \<Rightarrow> ('a kvm_scheme, int) kop" where
  "reap_child current_pcb status_ptr child =
     bindK (get_pcb child) (\<lambda>p.
     bindK (if status_ptr \<noteq> 0 then user_write32 status_ptr (word_of_int (p_return_state p)) else returnK ()) (\<lambda>_.
     bindK (delete_node (Children current_pcb) (Peer_processes_node child)) (\<lambda>_.
     bindK (set_pcb current_pcb (\<lambda>q. q\<lparr>p_children_count := p_children_count q - 1\<rparr>)) (\<lambda>_.
     bindK (destroy_page_directory (p_PD p)) (\<lambda>_.
     bindK (sfree (p_PD p) 4096) (\<lambda>_.
     bindK (free child) (\<lambda>_. returnK (p_pid p))))))))"

definition exited_child :: "u32 \<Rightarrow> ('a kcore_scheme, u32 option) kop" where
  "exited_child current_pcb = search entry_process (Children current_pcb) (\<lambda>s p. p_state (pcbs s p) = PROCESS_EXIT)"

definition sys_wait_before :: "u32 \<Rightarrow> ('a kvm_scheme, int option) kop" where
  "sys_wait_before status_ptr =
     (if status_ptr \<noteq> 0 \<and> \<not> is_user_addr status_ptr then returnK (Some (-1))
      else
        bindK (readK current_thread) (\<lambda>me.
        bindK (get_tcb me) (\<lambda>t.
        bindK (get_pcb (t_pcb t)) (\<lambda>current_pcb.
          if p_children_count current_pcb = 0 then returnK (Some (-1))
          else
            bindK (exited_child (t_pcb t)) (\<lambda>r.
              case r of
                Some child \<Rightarrow> bindK (reap_child (t_pcb t) status_ptr child) (\<lambda>pid. returnK (Some pid))
              | None \<Rightarrow>
                  bindK lock_me (\<lambda>_.
                  bindK (set_my_state THREAD_WAITING) (\<lambda>_.
                  bindK unlock_me (\<lambda>_.
                  bindK (schedule (-1)) (\<lambda>_. returnK None)))))))))"

text \<open>The empty loop over the runnable queue in the second half changes nothing and is left out.\<close>

definition sys_wait_after :: "u32 \<Rightarrow> ('a kvm_scheme, int) kop" where
  "sys_wait_after status_ptr =
     bindK (readK current_thread) (\<lambda>me.
     bindK (get_tcb me) (\<lambda>t.
     bindK (exited_child (t_pcb t)) (\<lambda>r.
       case r of
         Some child \<Rightarrow> reap_child (t_pcb t) status_ptr child
       | None \<Rightarrow> returnK (-1))))"

end
