(* ===== verification/Elf.thy ===== *)
theory Elf
  imports Prelude
begin

unbundle bit_operations_syntax

text \<open>
  The program files of the kernel image and the ELF reader: \<open>getbytes\<close> of \<open>kern/loader.c\<close> and
  \<open>410kern/elf/load_helper.c\<close>. The table of contents \<open>exec2obj_userapp_TOC\<close> is generated by the
  build; it is an argument here, a list of names and contents. \<open>getbytes\<close> does not compare the range
  with the length of the file: a read past its end is an \<open>Out_Of_Bounds\<close> fault. The code compares
  names with \<open>strcmp\<close>; names are byte lists without the final NUL.
\<close>

type_synonym bytes = "u8 list"
type_synonym toc = "(bytes \<times> bytes) list"

fun getbytes :: "toc \<Rightarrow> bytes \<Rightarrow> int \<Rightarrow> int \<Rightarrow> fault + bytes option" where
  "getbytes [] filename offset sz = Inr None"
| "getbytes ((execname, execbytes) # toc) filename offset sz =
     (if execname = filename
      then if offset < 0 \<or> sz < 0 \<or> offset + sz > int (length execbytes) then Inl Out_Of_Bounds
           else Inr (Some (take (nat sz) (drop (nat offset) execbytes)))
      else getbytes toc filename offset sz)"

definition ELF_NOTELF :: int where "ELF_NOTELF = -1"
definition ELF_SUCCESS :: int where "ELF_SUCCESS = 0"
definition NOT_PRESENT :: int where "NOT_PRESENT = -2"

definition le16 :: "bytes \<Rightarrow> nat \<Rightarrow> u16" where
  "le16 b i = ucast (b ! i) OR push_bit 8 (ucast (b ! (i + 1)))"

definition le32 :: "bytes \<Rightarrow> nat \<Rightarrow> u32" where
  "le32 b i = ucast (b ! i) OR push_bit 8 (ucast (b ! (i + 1))) OR push_bit 16 (ucast (b ! (i + 2)))
     OR push_bit 24 (ucast (b ! (i + 3)))"

text \<open>The headers, with their layout in the file. \<open>Elf32_Ehdr\<close> has 52 bytes, \<open>Elf32_Shdr\<close> 40.\<close>

record Elf32_Ehdr =
  eh_ident :: bytes
  eh_type :: u16
  eh_machine :: u16
  eh_version :: u32
  eh_entry :: u32
  eh_phoff :: u32
  eh_shoff :: u32
  eh_flags :: u32
  eh_ehsize :: u16
  eh_phentsize :: u16
  eh_phnum :: u16
  eh_shentsize :: u16
  eh_shnum :: u16
  eh_shstrndx :: u16

record Elf32_Shdr =
  sh_name :: u32
  sh_type :: u32
  sh_flags :: u32
  sh_addr :: u32
  sh_offset :: u32
  sh_size :: u32
  sh_link :: u32
  sh_info :: u32
  sh_addralign :: u32
  sh_entsize :: u32

definition ehdr_of :: "bytes \<Rightarrow> Elf32_Ehdr" where
  "ehdr_of b = \<lparr>eh_ident = take 16 b, eh_type = le16 b 16, eh_machine = le16 b 18, eh_version = le32 b 20,
     eh_entry = le32 b 24, eh_phoff = le32 b 28, eh_shoff = le32 b 32, eh_flags = le32 b 36, eh_ehsize = le16 b 40,
     eh_phentsize = le16 b 42, eh_phnum = le16 b 44, eh_shentsize = le16 b 46, eh_shnum = le16 b 48, eh_shstrndx = le16 b 50\<rparr>"

definition shdr_of :: "bytes \<Rightarrow> Elf32_Shdr" where
  "shdr_of b = \<lparr>sh_name = le32 b 0, sh_type = le32 b 4, sh_flags = le32 b 8, sh_addr = le32 b 12, sh_offset = le32 b 16,
     sh_size = le32 b 20, sh_link = le32 b 24, sh_info = le32 b 28, sh_addralign = le32 b 32, sh_entsize = le32 b 36\<rparr>"

record simple_elf =
  e_fname :: bytes
  e_entry :: u32
  e_txtoff :: u32
  e_txtlen :: u32
  e_txtstart :: u32
  e_datoff :: u32
  e_datlen :: u32
  e_datstart :: u32
  e_rodatoff :: u32
  e_rodatlen :: u32
  e_rodatstart :: u32
  e_bsslen :: u32
  e_bssstart :: u32

definition zero_elf :: simple_elf where
  "zero_elf = \<lparr>e_fname = [], e_entry = 0, e_txtoff = 0, e_txtlen = 0, e_txtstart = 0, e_datoff = 0, e_datlen = 0,
     e_datstart = 0, e_rodatoff = 0, e_rodatlen = 0, e_rodatstart = 0, e_bsslen = 0, e_bssstart = 0\<rparr>"

definition ascii :: "string \<Rightarrow> bytes" where
  "ascii cs = map (of_char :: char \<Rightarrow> u8) cs"

text \<open>\<open>strcmp\<close> of a literal of at most nine characters with the ten byte buffer of the section name.\<close>

definition section_is :: "string \<Rightarrow> bytes \<Rightarrow> bool" where
  "section_is lit buf \<longleftrightarrow> takeWhile (\<lambda>b. b \<noteq> 0) buf = ascii lit"

definition record_section :: "Elf32_Shdr \<Rightarrow> bytes \<Rightarrow> simple_elf \<Rightarrow> simple_elf" where
  "record_section h section_name se =
     (if section_is ''.text'' section_name
      then se\<lparr>e_txtoff := sh_offset h, e_txtlen := sh_size h, e_txtstart := sh_addr h\<rparr>
      else if section_is ''.rodata'' section_name
      then se\<lparr>e_rodatoff := sh_offset h, e_rodatlen := sh_size h, e_rodatstart := sh_addr h\<rparr>
      else if section_is ''.data'' section_name
      then se\<lparr>e_datoff := sh_offset h, e_datlen := sh_size h, e_datstart := sh_addr h\<rparr>
      else if section_is ''.bss'' section_name
      then se\<lparr>e_bsslen := sh_size h, e_bssstart := sh_addr h\<rparr>
      else se)"

text \<open>\<open>getbytes(fname, \<dots>)\<close> with an unsigned offset, converted to \<open>int\<close>; the continuation gets the
  bytes, or the caller returns \<open>ELF_NOTELF\<close>.\<close>

definition read_or_notelf :: "toc \<Rightarrow> bytes \<Rightarrow> u32 \<Rightarrow> int \<Rightarrow> simple_elf \<Rightarrow> (bytes \<Rightarrow> fault + int \<times> simple_elf)
    \<Rightarrow> fault + int \<times> simple_elf" where
  "read_or_notelf toc fname offset sz se k =
     (case getbytes toc fname (sint offset) sz of
        Inl e \<Rightarrow> Inl e
      | Inr None \<Rightarrow> Inr (ELF_NOTELF, se)
      | Inr (Some b) \<Rightarrow> k b)"

fun section_loop :: "toc \<Rightarrow> bytes \<Rightarrow> u32 \<Rightarrow> u32 \<Rightarrow> nat list \<Rightarrow> simple_elf \<Rightarrow> fault + int \<times> simple_elf" where
  "section_loop toc fname shoff string_offset [] se = Inr (ELF_SUCCESS, se)"
| "section_loop toc fname shoff string_offset (i # is) se =
     read_or_notelf toc fname (shoff + of_nat i * 40) 40 se (\<lambda>b.
       let h = shdr_of b in
       if sh_name h = 0 then section_loop toc fname shoff string_offset is se
       else
         read_or_notelf toc fname (string_offset + sh_name h) 10 se (\<lambda>section_name.
           section_loop toc fname shoff string_offset is (record_section h section_name se)))"

definition elf_load_helper :: "toc \<Rightarrow> bytes \<Rightarrow> fault + int \<times> simple_elf" where
  "elf_load_helper toc fname =
     read_or_notelf toc fname 0 52 zero_elf (\<lambda>b.
       let elf_hdr = ehdr_of b; se = zero_elf\<lparr>e_entry := eh_entry elf_hdr, e_fname := fname\<rparr> in
       read_or_notelf toc fname (eh_shoff elf_hdr + ucast (eh_shstrndx elf_hdr) * 40) 40 se (\<lambda>c.
         section_loop toc fname (eh_shoff elf_hdr) (sh_offset (shdr_of c)) [0..<unat (eh_shnum elf_hdr)] se))"

definition elf_check_header :: "toc \<Rightarrow> bytes \<Rightarrow> fault + int" where
  "elf_check_header toc fname =
     (case getbytes toc fname 0 52 of
        Inl e \<Rightarrow> Inl e
      | Inr None \<Rightarrow> Inr ELF_NOTELF
      | Inr (Some b) \<Rightarrow>
          let h = ehdr_of b in
          if take 4 (eh_ident h) \<noteq> [0x7f, 0x45, 0x4c, 0x46] then Inr ELF_NOTELF
          else if eh_type h \<noteq> 2 then Inr ELF_NOTELF
          else if eh_machine h \<noteq> 3 then Inr ELF_NOTELF
          else if eh_version h \<noteq> 1 then Inr ELF_NOTELF
          else Inr ELF_SUCCESS)"

section \<open>What the reader finds\<close>

text \<open>The sections of a file as a list: for each header with a name, the header and the bytes of the name.\<close>

definition file_of :: "toc \<Rightarrow> bytes \<Rightarrow> bytes option" where
  "file_of toc fname = map_of toc fname"

definition slice :: "nat \<Rightarrow> nat \<Rightarrow> bytes \<Rightarrow> bytes" where
  "slice off len f = take len (drop off f)"

lemma getbytes_file:
  "getbytes toc fname off sz =
     (case file_of toc fname of
        None \<Rightarrow> Inr None
      | Some f \<Rightarrow> if off < 0 \<or> sz < 0 \<or> off + sz > int (length f) then Inl Out_Of_Bounds else Inr (Some (slice (nat off) (nat sz) f)))"
  by (induction toc fname off sz rule: getbytes.induct) (simp_all add: file_of_def slice_def)

definition elf_sections :: "bytes \<Rightarrow> (Elf32_Shdr \<times> bytes) list" where
  "elf_sections f =
     (let h = ehdr_of (slice 0 52 f); shoff = unat (eh_shoff h);
          strtab = unat (sh_offset (shdr_of (slice (shoff + unat (eh_shstrndx h) * 40) 40 f)));
          hdrs = map (\<lambda>i. shdr_of (slice (shoff + i * 40) 40 f)) [0..<unat (eh_shnum h)]
      in map (\<lambda>s. (s, slice (strtab + unat (sh_name s)) 10 f)) (filter (\<lambda>s. sh_name s \<noteq> 0) hdrs))"

text \<open>A file in which every range the reader asks for lies inside the file and below \<open>2 ^ 31\<close>.\<close>

definition well_placed :: "bytes \<Rightarrow> bool" where
  "well_placed f \<longleftrightarrow>
     (let h = ehdr_of (slice 0 52 f); shoff = unat (eh_shoff h);
          strtab = unat (sh_offset (shdr_of (slice (shoff + unat (eh_shstrndx h) * 40) 40 f)))
      in length f < 2 ^ 31 \<and> 52 \<le> length f \<and> shoff + unat (eh_shstrndx h) * 40 + 40 \<le> length f
         \<and> shoff + unat (eh_shnum h) * 40 \<le> length f
         \<and> (\<forall>i<unat (eh_shnum h). sh_name (shdr_of (slice (shoff + i * 40) 40 f)) \<noteq> 0 \<longrightarrow>
              strtab + unat (sh_name (shdr_of (slice (shoff + i * 40) 40 f))) + 10 \<le> length f))"

text \<open>The last section of a given name.\<close>

definition section_named :: "string \<Rightarrow> bytes \<Rightarrow> Elf32_Shdr option" where
  "section_named lit f = map_option fst (List.find (\<lambda>(h, n). section_is lit n) (rev (elf_sections f)))"

lemma ascii_distinct:
  "ascii ''.text'' \<noteq> ascii ''.rodata''" "ascii ''.text'' \<noteq> ascii ''.data''" "ascii ''.text'' \<noteq> ascii ''.bss''"
  "ascii ''.rodata'' \<noteq> ascii ''.data''" "ascii ''.rodata'' \<noteq> ascii ''.bss''" "ascii ''.data'' \<noteq> ascii ''.bss''"
  by code_simp+

lemma section_is_unique:
  "section_is ''.text'' n \<Longrightarrow> \<not> section_is ''.rodata'' n \<and> \<not> section_is ''.data'' n \<and> \<not> section_is ''.bss'' n"
  "section_is ''.rodata'' n \<Longrightarrow> \<not> section_is ''.data'' n \<and> \<not> section_is ''.bss'' n"
  "section_is ''.data'' n \<Longrightarrow> \<not> section_is ''.bss'' n"
  using ascii_distinct by (simp_all add: section_is_def)

definition found :: "string \<Rightarrow> (Elf32_Shdr \<times> bytes) list \<Rightarrow> Elf32_Shdr option" where
  "found lit secs = map_option fst (List.find (\<lambda>(h, n). section_is lit n) (rev secs))"

lemma found_simps [simp]:
  "found lit [] = None"
  "found lit (xs @ [(h, n)]) = (if section_is lit n then Some h else found lit xs)"
  by (simp_all add: found_def)

lemma record_sections:
  "let se' = fold (\<lambda>(h, n). record_section h n) secs se in
     e_entry se' = e_entry se \<and> e_fname se' = e_fname se
   \<and> (e_txtoff se', e_txtlen se', e_txtstart se') = (case found ''.text'' secs of None \<Rightarrow> (e_txtoff se, e_txtlen se, e_txtstart se)
        | Some h \<Rightarrow> (sh_offset h, sh_size h, sh_addr h))
   \<and> (e_rodatoff se', e_rodatlen se', e_rodatstart se') = (case found ''.rodata'' secs of None \<Rightarrow> (e_rodatoff se, e_rodatlen se, e_rodatstart se)
        | Some h \<Rightarrow> (sh_offset h, sh_size h, sh_addr h))
   \<and> (e_datoff se', e_datlen se', e_datstart se') = (case found ''.data'' secs of None \<Rightarrow> (e_datoff se, e_datlen se, e_datstart se)
        | Some h \<Rightarrow> (sh_offset h, sh_size h, sh_addr h))
   \<and> (e_bsslen se', e_bssstart se') = (case found ''.bss'' secs of None \<Rightarrow> (e_bsslen se, e_bssstart se)
        | Some h \<Rightarrow> (sh_size h, sh_addr h))"
proof (induction secs rule: rev_induct)
  case Nil
  then show ?case by simp
next
  case (snoc x xs)
  obtain h n where x: "x = (h, n)" by force
  show ?case using snoc section_is_unique[of n] unfolding x Let_def record_section_def
    by (auto split: option.splits)
qed

text \<open>A read that stays inside a file shorter than \<open>2 ^ 31\<close> bytes.\<close>

lemma read_ok:
  assumes "file_of toc fname = Some f" "length f < 2 ^ 31" "unat off + sz \<le> length f"
  shows "read_or_notelf toc fname off (int sz) se k = k (slice (unat off) sz f)"
proof -
  have "sint off = int (unat off)" using assms(2,3) by (intro sint_small) linarith
  moreover have "int (unat off) + int sz \<le> int (length f)" using assms(3) by linarith
  ultimately show ?thesis using assms(1) by (simp add: read_or_notelf_def getbytes_file)
qed

lemma offset_unat:
  fixes a :: u32 shows "unat a + i * 40 < 2 ^ 31 \<Longrightarrow> unat (a + of_nat i * 40) = unat a + i * 40"
proof -
  assume b: "unat a + i * 40 < 2 ^ 31"
  have "unat (of_nat i * 40 :: u32) = i * 40" using unat_of_nat_eq[of "i * 40"] b by simp
  then show ?thesis using b by (simp add: unat_plus_if')
qed

lemma section_loop_fold:
  fixes shoff strtab :: u32
  defines "hdr i f \<equiv> shdr_of (slice (unat shoff + i * 40) 40 f)"
  assumes f: "file_of toc fname = Some f" "length f < 2 ^ 31"
  shows "(\<forall>i\<in>set is. unat shoff + i * 40 + 40 \<le> length f
           \<and> (sh_name (hdr i f) \<noteq> 0 \<longrightarrow> unat strtab + unat (sh_name (hdr i f)) + 10 \<le> length f))
    \<Longrightarrow> section_loop toc fname shoff strtab is se =
      Inr (ELF_SUCCESS, fold (\<lambda>(h, n). record_section h n)
        (map (\<lambda>s. (s, slice (unat strtab + unat (sh_name s)) 10 f)) (filter (\<lambda>s. sh_name s \<noteq> 0) (map (\<lambda>i. hdr i f) is))) se)"
proof (induction "is" arbitrary: se)
  case (Cons i "is")
  have off: "unat (shoff + of_nat i * 40) = unat shoff + i * 40" using Cons.prems f(2) by (intro offset_unat) auto
  have str: "unat (strtab + sh_name (hdr i f)) = unat strtab + unat (sh_name (hdr i f))" if "sh_name (hdr i f) \<noteq> 0"
    using Cons.prems that f(2) by (auto simp: unat_plus_if')
  have r1: "read_or_notelf toc fname (shoff + of_nat i * 40) 40 se k = k (slice (unat shoff + i * 40) 40 f)" for k
    using read_ok[OF f, of "shoff + of_nat i * 40" 40] Cons.prems off by simp
  have r2: "read_or_notelf toc fname (strtab + sh_name (hdr i f)) 10 se k = k (slice (unat strtab + unat (sh_name (hdr i f))) 10 f)"
    if "sh_name (hdr i f) \<noteq> 0" for k
    using read_ok[OF f, of "strtab + sh_name (hdr i f)" 10] Cons.prems str that by simp
  show ?case
    using Cons r2 by (simp add: r1 hdr_def[symmetric] Let_def)
qed simp

text \<open>A file of 102 bytes with one section, whose name is \<open>.text\<close>.\<close>

definition tiny_elf :: bytes where
  "tiny_elf = replicate 24 0 @ [0x10, 0, 0, 1] @ replicate 4 0 @ [52, 0, 0, 0] @ replicate 12 0 @ [1, 0, 0, 0]
     @ [1, 0, 0, 0] @ replicate 8 0 @ [0, 0, 0, 1] @ [91, 0, 0, 0] @ [5, 0, 0, 0] @ replicate 16 0
     @ [46, 116, 101, 120, 116, 0, 0, 0, 0, 0]"

text \<open>the ELF reader fills in the simplified header from the sections of the file: for a file whose
  headers and section names lie inside it, each of the text, rodata, data and bss fields comes from
  the last section of that name, or is zero when there is none, and the entry point from the file header.\<close>

theorem elf_load_helper_correct:
  assumes "file_of toc fname = Some f" and "well_placed f"
  shows "\<exists>se. elf_load_helper toc fname = Inr (ELF_SUCCESS, se) \<and> e_entry se = eh_entry (ehdr_of (slice 0 52 f)) \<and> e_fname se = fname
   \<and> (e_txtoff se, e_txtlen se, e_txtstart se) = (case section_named ''.text'' f of None \<Rightarrow> (0, 0, 0) | Some h \<Rightarrow> (sh_offset h, sh_size h, sh_addr h))
   \<and> (e_rodatoff se, e_rodatlen se, e_rodatstart se) = (case section_named ''.rodata'' f of None \<Rightarrow> (0, 0, 0) | Some h \<Rightarrow> (sh_offset h, sh_size h, sh_addr h))
   \<and> (e_datoff se, e_datlen se, e_datstart se) = (case section_named ''.data'' f of None \<Rightarrow> (0, 0, 0) | Some h \<Rightarrow> (sh_offset h, sh_size h, sh_addr h))
   \<and> (e_bsslen se, e_bssstart se) = (case section_named ''.bss'' f of None \<Rightarrow> (0, 0) | Some h \<Rightarrow> (sh_size h, sh_addr h))"
proof -
  let ?h = "ehdr_of (slice 0 52 f)" let ?shoff = "eh_shoff ?h"
  let ?c = "shdr_of (slice (unat ?shoff + unat (eh_shstrndx ?h) * 40) 40 f)"
  let ?se = "zero_elf\<lparr>e_entry := eh_entry ?h, e_fname := fname\<rparr>"
  have w: "length f < 2 ^ 31" "52 \<le> length f" "unat ?shoff + unat (eh_shstrndx ?h) * 40 + 40 \<le> length f"
    "unat ?shoff + unat (eh_shnum ?h) * 40 \<le> length f"
    "\<forall>i<unat (eh_shnum ?h). sh_name (shdr_of (slice (unat ?shoff + i * 40) 40 f)) \<noteq> 0 \<longrightarrow>
       unat (sh_offset ?c) + unat (sh_name (shdr_of (slice (unat ?shoff + i * 40) 40 f))) + 10 \<le> length f"
    using assms(2) by (simp_all add: well_placed_def Let_def)
  have cast: "(ucast (eh_shstrndx ?h) :: u32) = of_nat (unat (eh_shstrndx ?h))" by simp
  have off: "unat (?shoff + ucast (eh_shstrndx ?h) * 40) = unat ?shoff + unat (eh_shstrndx ?h) * 40"
    unfolding cast using w(1,3) by (intro offset_unat) linarith
  have loop: "section_loop toc fname ?shoff (sh_offset ?c) [0..<unat (eh_shnum ?h)] ?se
      = Inr (ELF_SUCCESS, fold (\<lambda>(h, n). record_section h n) (elf_sections f) ?se)"
  proof -
    have "unat ?shoff + i * 40 + 40 \<le> length f" if "i < unat (eh_shnum ?h)" for i
      using w(4) that by (intro order_trans[OF _ w(4)]) simp
    then show ?thesis
      using section_loop_fold[OF assms(1) w(1), of "[0..<unat (eh_shnum ?h)]" ?shoff "sh_offset ?c" ?se] w(5)
      by (simp add: elf_sections_def Let_def)
  qed
  have run: "elf_load_helper toc fname = Inr (ELF_SUCCESS, fold (\<lambda>(h, n). record_section h n) (elf_sections f) ?se)"
    using read_ok[OF assms(1) w(1), of 0 52] read_ok[OF assms(1) w(1), of "?shoff + ucast (eh_shstrndx ?h) * 40" 40] w(2,3) off loop
    by (simp add: elf_load_helper_def Let_def)
  have se0: "e_entry ?se = eh_entry ?h" "e_fname ?se = fname" "e_txtoff ?se = 0" "e_txtlen ?se = 0" "e_txtstart ?se = 0"
    "e_rodatoff ?se = 0" "e_rodatlen ?se = 0" "e_rodatstart ?se = 0" "e_datoff ?se = 0" "e_datlen ?se = 0" "e_datstart ?se = 0"
    "e_bsslen ?se = 0" "e_bssstart ?se = 0" by (simp_all add: zero_elf_def)
  note R = record_sections[of "elf_sections f" ?se, unfolded Let_def se0 found_def section_named_def[symmetric]]
  show ?thesis by (rule exI, rule conjI, rule run, rule R)
qed

theorem elf_load_helper_correct_witness:
  "\<exists>se. elf_load_helper [([105], tiny_elf)] [105] = Inr (ELF_SUCCESS, se) \<and> e_entry se = 0x01000010
     \<and> (e_txtoff se, e_txtlen se, e_txtstart se) = (91, 5, 0x01000000)"
proof -
  have h: "eh_shoff (ehdr_of (slice 0 52 tiny_elf)) = 52" "eh_shstrndx (ehdr_of (slice 0 52 tiny_elf)) = 0"
    "eh_shnum (ehdr_of (slice 0 52 tiny_elf)) = 1" "sh_name (shdr_of (slice 52 40 tiny_elf)) = 1"
    "sh_offset (shdr_of (slice 52 40 tiny_elf)) = 91" by code_simp+
  have "length tiny_elf = 102" by (simp add: tiny_elf_def)
  then have "well_placed tiny_elf" by (simp add: well_placed_def h Let_def)
  moreover have "section_named ''.text'' tiny_elf = Some (shdr_of (slice 52 40 tiny_elf))" by code_simp
  moreover have "sh_offset (shdr_of (slice 52 40 tiny_elf)) = 91" "sh_size (shdr_of (slice 52 40 tiny_elf)) = 5"
    "sh_addr (shdr_of (slice 52 40 tiny_elf)) = 0x01000000" "eh_entry (ehdr_of (slice 0 52 tiny_elf)) = 0x01000010" by code_simp+
  ultimately show ?thesis
    using elf_load_helper_correct[of "[([105], tiny_elf)]" "[105]" tiny_elf] by (auto simp: file_of_def)
qed

end
