(* ===== verification/Process.thy ===== *)
theory Process
  imports Life_Cycle Elf
begin

text \<open>
  Processes and program loading, \<open>kern/process/process.c\<close>. Programs are loaded through the page tables
  of the new address space, which \<open>init_pd\<close> has made the current one. \<open>eflags\<close> is what
  \<open>get_eflags()\<close> reads. \<open>enter_user_mode\<close> does not come back: the model records the registers that
  user mode starts with in \<open>user_mode\<close>.
\<close>

definition PCB_SIZE :: u32 where "PCB_SIZE = 76"

fun user_write_bytes :: "u32 \<Rightarrow> bytes \<Rightarrow> ('a kvm_scheme, unit) kop" where
  "user_write_bytes va [] = returnK ()"
| "user_write_bytes va (b # bs) = bindK (user_write va b) (\<lambda>_. user_write_bytes (va + 1) bs)"

definition copy_from_file :: "toc \<Rightarrow> bytes \<Rightarrow> u32 \<Rightarrow> u32 \<Rightarrow> u32 \<Rightarrow> ('a kvm_scheme, int) kop" where
  "copy_from_file toc fname offset sz buf =
     bindK (liftF (getbytes toc fname (sint offset) (sint sz))) (\<lambda>r.
       case r of
         None \<Rightarrow> returnK (-1)
       | Some bs \<Rightarrow> bindK (user_write_bytes buf bs) (\<lambda>_. returnK (sint sz)))"

definition process_init :: "('a kcore_scheme, unit) kop" where
  "process_init =
     bindK (init_list Process_queue) (\<lambda>_.
     bindK (mutex_init Process_queue_lock) (\<lambda>_.
     bindK (mutex_init Print_lock) (\<lambda>_.
     modifyK (\<lambda>s. s\<lparr>next_pid := 1\<rparr>))))"

definition program_loader :: "toc \<Rightarrow> simple_elf \<Rightarrow> u32 \<Rightarrow> ('a kvm_scheme, u32) kop" where
  "program_loader toc se_hdr process =
     bindK (get_pcb process) (\<lambda>p.
     bindK (allocate_pages (p_PD p) (e_txtstart se_hdr) (e_txtlen se_hdr)) (\<lambda>_.
     bindK (allocate_pages (p_PD p) (e_rodatstart se_hdr) (e_rodatlen se_hdr)) (\<lambda>_.
     bindK (allocate_pages (p_PD p) (e_bssstart se_hdr) (e_bsslen se_hdr)) (\<lambda>_.
     bindK (allocate_pages (p_PD p) (e_datstart se_hdr) (e_datlen se_hdr)) (\<lambda>_.
     bindK (allocate_pages (p_PD p) 0xffffe000 8192) (\<lambda>_.
     bindK (copy_from_file toc (e_fname se_hdr) (e_datoff se_hdr) (e_datlen se_hdr) (e_datstart se_hdr)) (\<lambda>r1.
     bindK (copy_from_file toc (e_fname se_hdr) (e_txtoff se_hdr) (e_txtlen se_hdr) (e_txtstart se_hdr)) (\<lambda>r2.
     bindK (copy_from_file toc (e_fname se_hdr) (e_rodatoff se_hdr) (e_rodatlen se_hdr) (e_rodatstart se_hdr)) (\<lambda>r3.
     if \<not> r1 + r2 + r3 > 0 then failK Assert_Failed
     else
       bindK (user_write_bytes (e_bssstart se_hdr) (replicate (unat (e_bsslen se_hdr)) 0)) (\<lambda>_.
       returnK (e_entry se_hdr)))))))))))"

text \<open>A word stored at the saved user stack pointer, which then moves down.\<close>

definition push_user :: "u32 \<Rightarrow> u32 \<Rightarrow> u32 \<Rightarrow> ('a kvm_scheme, unit) kop" where
  "push_user thread v down =
     bindK (get_tcb thread) (\<lambda>t.
     bindK (user_write32 (r_esp (t_registers t)) v) (\<lambda>_.
     set_tcb thread (\<lambda>t. t\<lparr>t_registers := (t_registers t)\<lparr>r_esp := r_esp (t_registers t) - down\<rparr>\<rparr>)))"

definition enter_user_mode :: "u32 \<Rightarrow> ('a kcore_scheme, unit) kop" where
  "enter_user_mode thread =
     bindK (get_tcb thread) (\<lambda>t. modifyK (\<lambda>s. s\<lparr>user_mode := Some (t_registers t)\<rparr>))"

definition process_create :: "toc \<Rightarrow> u32 \<Rightarrow> bytes \<Rightarrow> bool \<Rightarrow> ('a kvm_scheme, int) kop" where
  "process_create toc eflags filename run =
     bindK (malloc PCB_SIZE) (\<lambda>process.
     bindK init_pd (\<lambda>pd.
     bindK (set_pcb process (\<lambda>p. p\<lparr>p_PD := pd\<rparr>)) (\<lambda>_.
     bindK (liftF (elf_load_helper toc filename)) (\<lambda>(result, se_hdr).
     if result = NOT_PRESENT \<or> result = ELF_NOTELF then returnK (-1)
     else
       bindK (readK next_pid) (\<lambda>pid.
       bindK (set_pcb process (\<lambda>p. p\<lparr>p_state := PROCESS_RUNNABLE, p_pid := sint pid, p_return_state := 0,
                p_children_count := 0, p_parent := 0\<rparr>)) (\<lambda>_.
       bindK (modifyK (\<lambda>s. s\<lparr>next_pid := next_pid s + 1\<rparr>)) (\<lambda>_.
       bindK (init_list (Threads process)) (\<lambda>_.
       bindK (init_list (Children process)) (\<lambda>_.
       bindK (insert_last Process_queue (All_processes_node process)) (\<lambda>_.
       bindK (program_loader toc se_hdr process) (\<lambda>eip.
       bindK (thr_create eflags eip run) (\<lambda>thread.
       bindK (insert_last (Threads process) (Peer_threads_node thread)) (\<lambda>_.
       bindK (set_tcb thread (\<lambda>t. t\<lparr>t_pcb := process\<rparr>)) (\<lambda>_.
       bindK (get_tcb thread) (\<lambda>t.
       bindK (modifyK (\<lambda>s. s\<lparr>esp0 := t_stack_base t + t_stack_size t\<rparr>)) (\<lambda>_.
       bindK (push_user thread 0xffffc000 4) (\<lambda>_.
       bindK (push_user thread 0xffffffff 12) (\<lambda>_.
       if \<not> run then returnK 0
       else
         bindK (modifyK (\<lambda>s. s\<lparr>current_thread := thread\<rparr>)) (\<lambda>_.
         bindK (enter_user_mode thread) (\<lambda>_. returnK 0))))))))))))))))))))"

end
