(* ===== verification/Fork.thy ===== *)
theory Fork
  imports Process
begin

unbundle bit_operations_syntax

text \<open>
  \<open>kern/process/sys_fork.c\<close>. The new directory and the new tables come from \<open>memalign\<close> and are not
  cleared: entries that the copying loop does not write keep what the heap held there. The static
  variable \<open>entry\<close> is set by \<open>find_free_entry\<close> before every use and is modelled as its result.
\<close>

definition find_free_entry :: "u32 \<Rightarrow> ('a kvm_scheme, (nat \<times> nat) option) kop" where
  "find_free_entry parent_directory =
     forE [4..<PAGE_LEN] (\<lambda>i.
       bindK (tab_read parent_directory i) (\<lambda>pde.
         let current_pde = DEFLAG_ADDR pde in
         if current_pde = 0 then returnK None
         else
           forE [0..<PAGE_LEN] (\<lambda>j.
             bindK (tab_read current_pde j) (\<lambda>pte.
               returnK (if DEFLAG_ADDR pte = 0 then Some (i, j) else None)))))"

text \<open>\<open>memcpy\<close> of a whole page through the current page tables.\<close>

definition copy_page :: "u32 \<Rightarrow> u32 \<Rightarrow> ('a kvm_scheme, unit) kop" where
  "copy_page dst src s =
     (case (mmu_walk s dst, mmu_walk s src) of
        (Some d, Some f) \<Rightarrow> Inr ((), s\<lparr>pages := (pages s)(d := pages s f)\<rparr>)
      | _ \<Rightarrow> Inl Page_Fault)"

text \<open>One entry of a page table: a fresh frame is mapped at the spare address, filled, entered in the
  child's table with the flags of the parent's entry, and taken out of the parent's table again.\<close>

definition fork_page :: "u32 \<Rightarrow> nat \<times> nat \<Rightarrow> u32 \<Rightarrow> u32 \<Rightarrow> nat \<Rightarrow> nat \<Rightarrow> ('a kvm_scheme, int option) kop" where
  "fork_page parent_directory entry pt_addr child_de i j =
     bindK (tab_read pt_addr j) (\<lambda>phys_addr_raw.
       if DEFLAG_ADDR phys_addr_raw = 0 then returnK None
       else
         bindK (virtual_map_physical parent_directory (fst entry) (snd entry)) (\<lambda>result.
           if result = -1 then returnK (Some (-1))
           else
             bindK (tab_read parent_directory (fst entry)) (\<lambda>pde.
             let found_table = DEFLAG_ADDR pde in
             bindK (tab_read found_table (snd entry)) (\<lambda>new_phys_addr.
             bindK (copy_page (vaddr (fst entry) (snd entry)) (vaddr i j)) (\<lambda>_.
             bindK (tab_write child_de j (ADDFLAG (DEFLAG_ADDR new_phys_addr) (GET_FLAG phys_addr_raw))) (\<lambda>_.
             bindK (tab_write found_table (snd entry) 0) (\<lambda>_.
             bindK (set_cr3 parent_directory) (\<lambda>_. returnK None))))))))"

definition fork_table :: "u32 \<Rightarrow> nat \<times> nat \<Rightarrow> u32 \<Rightarrow> nat \<Rightarrow> ('a kvm_scheme, int option) kop" where
  "fork_table parent_directory entry child_pd i =
     bindK (tab_read parent_directory i) (\<lambda>parent_de_raw.
       let pt_addr = DEFLAG_ADDR parent_de_raw in
       if pt_addr = 0 then returnK None
       else
         bindK (memalign 4096 4096) (\<lambda>child_de.
           if child_de = 0 then returnK (Some (-1))
           else
             bindK (tab_write child_pd i (ADDFLAG child_de (GET_FLAG parent_de_raw))) (\<lambda>_.
             forE [0..<PAGE_LEN] (fork_page parent_directory entry pt_addr child_de i))))"

text \<open>Steps 3 and 4: the control blocks of the child. The parent's \<open>eax\<close> is set from the pid field of
  the child before that is assigned.\<close>

definition fork_blocks :: "u32 \<Rightarrow> u32 \<Rightarrow> u32 \<Rightarrow> ('a kvm_scheme, bool) kop" where
  "fork_blocks me child_pcb child_tcb =
     bindK (get_tcb me) (\<lambda>parent.
     bindK (mutex_init (Tcb_mutex child_tcb)) (\<lambda>_.
     bindK (set_pcb child_pcb (\<lambda>p. p\<lparr>p_children_count := 0\<rparr>)) (\<lambda>_.
     bindK (readK next_tid) (\<lambda>tid.
     bindK (modifyK (\<lambda>s. s\<lparr>next_tid := next_tid s + 1\<rparr>)) (\<lambda>_.
     bindK (set_tcb child_tcb (\<lambda>t. t\<lparr>t_pcb := child_pcb, t_tid := sint tid, t_state := THREAD_INIT,
              t_stack_size := t_stack_size parent\<rparr>)) (\<lambda>_.
     bindK (memalign 4 (t_stack_size parent)) (\<lambda>stack_base.
     bindK (set_tcb child_tcb (\<lambda>t. t\<lparr>t_stack_base := stack_base\<rparr>)) (\<lambda>_.
     if stack_base = 0 then returnK False
     else
       bindK (set_tcb child_tcb (\<lambda>t. t\<lparr>t_esp := stack_base + t_stack_size t, t_registers := (t_registers parent)\<lparr>r_eax := 0\<rparr>\<rparr>)) (\<lambda>_.
       bindK (get_pcb child_pcb) (\<lambda>p.
       bindK (set_tcb me (\<lambda>t. t\<lparr>t_registers := (t_registers t)\<lparr>r_eax := word_of_int (p_pid p)\<rparr>\<rparr>)) (\<lambda>_.
       bindK (init_list (Threads child_pcb)) (\<lambda>_.
       bindK (init_list (Va child_pcb)) (\<lambda>_.
       bindK (insert_last (Threads child_pcb) (Peer_threads_node child_tcb)) (\<lambda>_.
       bindK (init_list (Children child_pcb)) (\<lambda>_.
       bindK (readK next_pid) (\<lambda>pid.
       bindK (modifyK (\<lambda>s. s\<lparr>next_pid := next_pid s + 1\<rparr>)) (\<lambda>_.
       bindK (set_pcb child_pcb (\<lambda>p. p\<lparr>p_pid := sint pid, p_state := PROCESS_RUNNING, p_parent := t_pcb parent\<rparr>)) (\<lambda>_.
       bindK (insert_last (Children (t_pcb parent)) (Peer_processes_node child_pcb)) (\<lambda>_.
       bindK (set_pcb (t_pcb parent) (\<lambda>p. p\<lparr>p_children_count := p_children_count p + 1\<rparr>)) (\<lambda>_.
       returnK True))))))))))))))))))))"

definition sys_fork :: "('a kvm_scheme, int) kop" where
  "sys_fork =
     bindK save_trap_frame (\<lambda>_.
     bindK (readK current_thread) (\<lambda>me.
     bindK (malloc PCB_SIZE) (\<lambda>child_pcb.
     if child_pcb = 0 then returnK (-1)
     else
       bindK (malloc TCB_SIZE) (\<lambda>child_tcb.
       if child_tcb = 0 then returnK (-1)
       else
         bindK (get_tcb me) (\<lambda>t.
         bindK (get_pcb (t_pcb t)) (\<lambda>parent.
         let parent_directory = p_PD parent in
         bindK (find_free_entry parent_directory) (\<lambda>found.
         case found of
           None \<Rightarrow> returnK (-1)
         | Some entry \<Rightarrow>
             bindK (fork_blocks me child_pcb child_tcb) (\<lambda>ok.
             if \<not> ok then returnK (-1)
             else
               bindK (memalign 4096 4096) (\<lambda>child_pd.
               bindK (set_pcb child_pcb (\<lambda>p. p\<lparr>p_PD := child_pd\<rparr>)) (\<lambda>_.
               if child_pd = 0 then returnK (-1)
               else
                 bindK (forK [0..<4] (\<lambda>i. bindK (tab_read parent_directory i) (tab_write child_pd i))) (\<lambda>_.
                 bindK (forE [4..<PAGE_LEN] (fork_table parent_directory entry child_pd)) (\<lambda>r.
                 case r of
                   Some v \<Rightarrow> returnK v
                 | None \<Rightarrow>
                     bindK (insert_last Process_queue (All_processes_node child_pcb)) (\<lambda>_.
                     bindK (insert_last Runnable_queue (Thread_list_node child_tcb)) (\<lambda>_.
                     bindK (get_pcb child_pcb) (\<lambda>p. returnK (p_pid p))))))))))))))))"

end
