(* ===== verification/User_Memory.thy ===== *)
theory User_Memory
  imports Process
begin

text \<open>
  Bytes of the current address space, written through the page tables and read back: the facts behind every
  system call that copies data to or from a program.
\<close>

definition put_byte :: "'a kvm_scheme \<Rightarrow> u32 \<Rightarrow> u8 \<Rightarrow> nat \<Rightarrow> nat \<Rightarrow> u8" where
  "put_byte s va b = (case mmu_walk s va of None \<Rightarrow> pages s
     | Some fr \<Rightarrow> (pages s)(fr := (pages s fr)(unat va mod 4096 := b)))"

lemma mmu_walk_frame [simp]:
  "mmu_walk (s\<lparr>pages := p\<rparr>) va = mmu_walk s va" "mmu_walk (s\<lparr>interrupts := i\<rparr>) va = mmu_walk s va"
  by (simp_all add: mmu_walk_def Let_def)

lemma user_write_run: "mmu_walk s va \<noteq> None \<Longrightarrow> user_write va b s = Inr ((), s\<lparr>pages := put_byte s va b\<rparr>)"
  by (auto simp: user_write_def put_byte_def)

lemma put_byte_twice: "put_byte (s\<lparr>pages := put_byte s va b\<rparr>) va b' = put_byte s va b'"
  by (auto simp: put_byte_def split: option.split)

text \<open>What a program finds at an address, and where that is: the frame and the offset.\<close>

definition peek :: "'a kvm_scheme \<Rightarrow> u32 \<Rightarrow> u8 option" where
  "peek s va = map_option (\<lambda>fr. pages s fr (unat va mod 4096)) (mmu_walk s va)"

definition place :: "'a kvm_scheme \<Rightarrow> u32 \<Rightarrow> nat option \<times> nat" where
  "place s va = (mmu_walk s va, unat va mod 4096)"

lemma place_frame [simp]: "place (s\<lparr>pages := p\<rparr>) va = place s va"
  by (simp add: place_def)

lemma peek_put_byte:
  "mmu_walk s va \<noteq> None \<Longrightarrow>
   peek (s\<lparr>pages := put_byte s va b\<rparr>) x = (if place s x = place s va then Some b else peek s x)"
  by (cases "mmu_walk s x") (auto simp: peek_def place_def put_byte_def)

lemma write_bytes_peek:
  assumes "user_write_bytes va bs s = Inr ((), s\<lparr>pages := p\<rparr>)" "inj_on (\<lambda>i. place s (va + of_nat i)) {..<length bs}"
  shows "(\<forall>i<length bs. peek (s\<lparr>pages := p\<rparr>) (va + of_nat i) = Some (bs ! i))
    \<and> (\<forall>x. (\<forall>i<length bs. place s (va + of_nat i) \<noteq> place s x) \<longrightarrow> peek (s\<lparr>pages := p\<rparr>) x = peek s x)"
  using assms
proof (induction bs arbitrary: va s)
  case Nil
  have "s = s\<lparr>pages := p\<rparr>" using Nil(1) by simp
  from arg_cong[OF this] have "peek s x = peek (s\<lparr>pages := p\<rparr>) x" for x .
  then show ?case by auto
next
  case (Cons b bs)
  let ?s1 = "s\<lparr>pages := put_byte s va b\<rparr>"
  have m: "mmu_walk s va \<noteq> None" using Cons.prems(1) by (auto simp: user_write_def bindK_def split: option.splits)
  then have u: "user_write_bytes (va + 1) bs ?s1 = Inr ((), ?s1\<lparr>pages := p\<rparr>)"
    using Cons.prems(1) by (simp add: user_write_run)
  have shift: "va + 1 + of_nat i = va + of_nat (Suc i)" for i by (simp add: add.assoc)
  have "inj_on (\<lambda>i. place ?s1 (va + 1 + of_nat i)) {..<length bs}"
  proof (rule inj_onI)
    fix i j assume "i \<in> {..<length bs}" "j \<in> {..<length bs}" "place ?s1 (va + 1 + of_nat i) = place ?s1 (va + 1 + of_nat j)"
    then show "i = j" using inj_onD[OF Cons.prems(2), of "Suc i" "Suc j"] by (simp add: add.assoc)
  qed
  note ih = Cons.IH[OF u this, unfolded shift]
  have ne: "place s (va + of_nat (Suc i)) \<noteq> place s va" if "i < length bs" for i
    using inj_onD[OF Cons.prems(2), of "Suc i" 0] that by auto
  then have z: "peek (s\<lparr>pages := p\<rparr>) va = Some b"
    using conjunct2[OF ih, rule_format, of va] peek_put_byte[OF m, of b va] by simp
  have "peek (s\<lparr>pages := p\<rparr>) (va + of_nat i) = Some ((b # bs) ! i)" if "i < length (b # bs)" for i
    using that z conjunct1[OF ih] by (cases i) simp_all
  moreover have "peek (s\<lparr>pages := p\<rparr>) x = peek s x" if x: "\<forall>i<length (b # bs). place s (va + of_nat i) \<noteq> place s x" for x
  proof -
    have "place s va \<noteq> place s x" "\<forall>i<length bs. place s (va + of_nat (Suc i)) \<noteq> place s x"
      using x[rule_format, of 0] x by auto
    then show ?thesis using conjunct2[OF ih, rule_format, of x] peek_put_byte[OF m, of b x] by simp
  qed
  ultimately show ?case by blast
qed

end
