(* ===== verification/Fork_Copy.thy ===== *)
theory Fork_Copy
  imports Fork User_Memory
begin

text \<open>
  What the copying loop of \<open>fork\<close> achieves. \<open>forked\<close> is the invariant of its two nested loops: a
  parent whose tables, frames and bytes are untouched, and a child of which some pages are copied, each into a frame
  that nobody used. \<open>forked_page\<close>, \<open>forked_table\<close> and \<open>forked_all\<close> are the steps of the
  inner loop, of the outer loop, and the whole.
\<close>

unbundle bit_operations_syntax

lemma GET_FLAG_eq: "GET_FLAG x = take_bit 12 x"
proof -
  have "(0xfff :: u32) = mask 12" by (simp add: mask_eq_exp_minus_1)
  then show ?thesis by (simp only: GET_FLAG_def take_bit_eq_mask)
qed

lemma DEFLAG_ADDFLAG: "PAGE_SIZE dvd unat a \<Longrightarrow> DEFLAG_ADDR (a OR GET_FLAG x) = a"
  by (rule DEFLAG_or_flag) (simp_all add: GET_FLAG_eq)

lemma bit0_ADDFLAG: "bit x 0 \<Longrightarrow> bit (a OR GET_FLAG x) 0"
  by (simp add: GET_FLAG_eq bit_or_iff bit_take_bit_iff)

lemma cr3_same: "cr3 s = pd \<Longrightarrow> s\<lparr>cr3 := pd\<rparr> = s"
  by auto

lemma mmu_walk_pte:
  "bit (tables s (cr3 s) i) 0 \<Longrightarrow> i < PAGE_LEN \<Longrightarrow> j < PAGE_LEN \<Longrightarrow> bit (tables s (DEFLAG_ADDR (tables s (cr3 s) i)) j) 0 \<Longrightarrow>
   mmu_walk s (vaddr i j) = Some (frame_index (DEFLAG_ADDR (tables s (DEFLAG_ADDR (tables s (cr3 s) i)) j)))"
  by (simp add: mmu_walk_def Let_def PAGE_LEN_def)

text \<open>The exact effect of copying one page.\<close>

lemma fork_page_run:
  assumes vm: "vm_ok t" and sp: "space_ok t pd" and c: "cr3 t = pd" and av: "2 \<le> avail (frs t)"
    and e: "e1 < PAGE_LEN" "e2 < PAGE_LEN" "tables t pd e1 \<noteq> 0" "pte_of t pd e1 e2 = 0"
    and ij: "i < PAGE_LEN" "j < PAGE_LEN" "tables t pd i \<noteq> 0" and pt: "pt = DEFLAG_ADDR (tables t pd i)"
    and pte: "pte = tables t pt j" "DEFLAG_ADDR pte \<noteq> 0" "bit pte 0" "frame_index (DEFLAG_ADDR pte) \<in> live (frs t)"
    and child: "child \<noteq> 0" "child \<noteq> pd" "\<forall>k<PAGE_LEN. tables t pd k \<noteq> 0 \<longrightarrow> DEFLAG_ADDR (tables t pd k) \<noteq> child"
  obtains a f where "fork_page pd (e1, e2) pt child i j t = Inr (None, t\<lparr>frs := f,
       tables := (tables t)(child := (tables t child)(j := a OR GET_FLAG pte)),
       pages := (pages t)(frame_index a := pages t (frame_index (DEFLAG_ADDR pte)))\<rparr>)"
    "PAGE_SIZE dvd unat a" "refcount (frs t) (frame_index a) = 0" "refcount f = (refcount (frs t))(frame_index a := 1)"
    "frames_ok f" "avail f = avail (frs t) - 1"
proof -
  define ft where "ft = DEFLAG_ADDR (tables t pd e1)"
  obtain a f where m: "virtual_map_physical pd e1 e2 t = Inr (0, t\<lparr>frs := f, tables := (tables t)(ft := (tables t ft)(e2 := a OR 7)),
      pages := (pages t)(frame_index a := (\<lambda>_. 0))\<rparr>)" (is "_ = Inr (0, ?t1)")
    and a: "a \<noteq> 0" "PAGE_SIZE dvd unat a" "refcount (frs t) (frame_index a) = 0" "refcount f = (refcount (frs t))(frame_index a := 1)"
    "frames_ok f" "avail f = avail (frs t) - 1" by (rule map_existing_run[OF vm sp c av e ft_def])
  have ft: "ft \<noteq> 0" "ft \<noteq> pd" "bit (tables t pd e1) 0" "ft \<noteq> child" and ptn: "pt \<noteq> 0" "pt \<noteq> pd" "bit (tables t pd i) 0"
    using space_ok_table[OF sp e(1,3)] space_ok_table[OF sp ij(1,3)] child(3) e(1,3) by (auto simp: ft_def pt)
  have z: "tables t ft e2 = 0" using e(3,4) by (simp add: pte_of_def ft_def)
  then have same: "(ft, e2) \<noteq> (pt, j)" using pte(1,2) by (auto simp: DEFLAG_ADDR_def)
  have src: "tables ?t1 pt j = pte" using same pte(1) by auto
  have ws: "mmu_walk ?t1 (vaddr i j) = Some (frame_index (DEFLAG_ADDR pte))"
    using mmu_walk_pte[of ?t1 i j] src ft ptn ij c pte(3) by (simp add: pt)
  have wd: "mmu_walk ?t1 (vaddr e1 e2) = Some (frame_index a)"
    using mmu_walk_pte[of ?t1 e1 e2] ft e c by (simp add: ft_def[symmetric] bit_or7 DEFLAG_or_flag[OF a(2) t7(1)])
  have fr: "frame_index (DEFLAG_ADDR pte) \<noteq> frame_index a" using pte(4) a(3) by (auto simp: live_def)
  let ?p = "(pages t)(frame_index a := pages t (frame_index (DEFLAG_ADDR pte)))"
  have cp: "copy_page (vaddr e1 e2) (vaddr i j) ?t1 = Inr ((), ?t1\<lparr>pages := ?p\<rparr>)"
    using ws wd fr by (simp add: copy_page_def)
  have tab: "(((tables t)(ft := (tables t ft)(e2 := a OR 7), child := (tables t child)(j := v)))(ft := (tables t ft)(e2 := 0)))
      = (tables t)(child := (tables t child)(j := v))" for v
    using z ft(4) by (auto simp: fun_eq_iff)
  have "fork_page pd (e1, e2) pt child i j t = Inr (None, t\<lparr>frs := f,
       tables := (tables t)(child := (tables t child)(j := a OR GET_FLAG pte)), pages := ?p\<rparr>)"
    using m cp ft ptn child ij e pte(1,2) space_ok_pd[OF sp] tab c a(2)
    by (simp add: fork_page_def tab_read_def tab_write_def ft_def[symmetric] ADDFLAG_def DEFLAG_or_flag t7 set_cr3_def modifyK_def cr3_same)
  from that[OF this a(2-)] show ?thesis .
qed

text \<open>The parent's own pages, and a child under construction: \<open>I\<close> are the directory entries done so
  far, \<open>D i\<close> the child's table for entry \<open>i\<close>, \<open>M\<close> the pages copied so far and \<open>A\<close> the frames that
  hold the copies.\<close>

definition own_pages :: "'a kvm_scheme \<Rightarrow> u32 \<Rightarrow> u32 set" where
  "own_pages s pd = insert pd {DEFLAG_ADDR (tables s pd i) |i. i < PAGE_LEN \<and> tables s pd i \<noteq> 0}"

definition forked :: "'a kvm_scheme \<Rightarrow> u32 \<Rightarrow> u32 \<Rightarrow> nat set \<Rightarrow> (nat \<Rightarrow> u32) \<Rightarrow> (nat \<times> nat) set \<Rightarrow> (nat \<times> nat \<Rightarrow> u32) \<Rightarrow> 'a kvm_scheme \<Rightarrow> bool" where
  "forked s pd cpd I D M A t \<longleftrightarrow>
     vm_ok t \<and> cr3 t = pd \<and> space_ok t pd \<and> used_page t cpd \<and> cpd \<notin> own_pages s pd
     \<and> (\<forall>q\<in>own_pages s pd. tables t q = tables s q)
     \<and> inj_on D I \<and> D ` I \<inter> insert cpd (own_pages s pd) = {}
     \<and> (\<forall>i\<in>I. i < PAGE_LEN \<and> used_page t (D i) \<and> tables t cpd i = D i OR GET_FLAG (tables s pd i))
     \<and> (\<forall>(i, j)\<in>M. i \<in> I \<and> PAGE_SIZE dvd unat (A (i, j)) \<and> tables t (D i) j = A (i, j) OR GET_FLAG (pte_of s pd i j)
          \<and> pages t (frame_index (A (i, j))) = pages s (frame_index (DEFLAG_ADDR (pte_of s pd i j))))
     \<and> finite M \<and> inj_on (\<lambda>p. frame_index (A p)) M
     \<and> live (frs t) = live (frs s) \<union> (\<lambda>p. frame_index (A p)) ` M \<and> (\<lambda>p. frame_index (A p)) ` M \<inter> live (frs s) = {}
     \<and> avail (frs t) + card M = avail (frs s)
     \<and> (\<forall>fr\<in>live (frs s). pages t fr = pages s fr)"

definition mapped_pages :: "'a kvm_scheme \<Rightarrow> u32 \<Rightarrow> (nat \<times> nat) set" where
  "mapped_pages s pd = {(i, j). 4 \<le> i \<and> i < PAGE_LEN \<and> j < PAGE_LEN \<and> DEFLAG_ADDR (pte_of s pd i j) \<noteq> 0}"

text \<open>The frames behind the parent's pages are present and in use.\<close>

definition backed :: "'a kvm_scheme \<Rightarrow> u32 \<Rightarrow> bool" where
  "backed s pd \<longleftrightarrow> (\<forall>(i, j)\<in>mapped_pages s pd. bit (pte_of s pd i j) 0 \<and> frame_index (DEFLAG_ADDR (pte_of s pd i j)) \<in> live (frs s))"

lemma forked_parent:
  assumes "forked s pd cpd I D M A t" "i < PAGE_LEN"
  shows "tables t pd i = tables s pd i" "pte_of t pd i j = pte_of s pd i j"
    "tables s pd i \<noteq> 0 \<Longrightarrow> tables t (DEFLAG_ADDR (tables s pd i)) = tables s (DEFLAG_ADDR (tables s pd i))"
proof -
  have t: "tables t q = tables s q" if "q \<in> own_pages s pd" for q using assms(1) that by (simp add: forked_def)
  have pd: "tables t pd = tables s pd" by (rule t) (simp add: own_pages_def)
  have "tables t (DEFLAG_ADDR (tables s pd i)) = tables s (DEFLAG_ADDR (tables s pd i))" if "tables s pd i \<noteq> 0"
    by (rule t) (use that assms(2) in \<open>auto simp: own_pages_def\<close>)
  with pd show "tables t pd i = tables s pd i" "pte_of t pd i j = pte_of s pd i j"
    "tables s pd i \<noteq> 0 \<Longrightarrow> tables t (DEFLAG_ADDR (tables s pd i)) = tables s (DEFLAG_ADDR (tables s pd i))"
    by (auto simp: pte_of_def)
qed

text \<open>Entering a copy of a page in the child's table.\<close>

lemma forked_write:
  fixes s t :: "'a kvm_scheme" and pd :: u32
  defines "P \<equiv> \<lambda>i j. frame_index (DEFLAG_ADDR (pte_of s pd i j))"
  assumes F: "forked s pd cpd I D M A t" and av: "card M + 2 \<le> avail (frs s)" and ij: "i \<in> I" "(i, j) \<notin> M" "P i j \<in> live (frs s)"
    and a: "PAGE_SIZE dvd unat a" "refcount (frs t) (frame_index a) = 0" "refcount f = (refcount (frs t))(frame_index a := 1)"
      "frames_ok f" "avail f = avail (frs t) - 1"
  shows "forked s pd cpd I D (insert (i, j) M) (A((i, j) := a)) (t\<lparr>frs := f,
       tables := (tables t)(D i := (tables t (D i))(j := a OR GET_FLAG (pte_of s pd i j))),
       pages := (pages t)(frame_index a := pages t (P i j))\<rparr>)" (is "forked _ _ _ _ _ _ ?A ?t")
proof -
  have f: "vm_ok t" "space_ok t pd" "cr3 t = pd" "D i \<notin> insert cpd (own_pages s pd)" "live (frs s) \<subseteq> live (frs t)"
    using F ij(1) by (auto simp: forked_def)
  have up: "used_page ?t = used_page t" by (rule used_page_cong) simp
  have fresh: "frame_index a \<notin> live (frs t)" and lv: "live f = insert (frame_index a) (live (frs t))"
    using a(2,3) by (auto simp: live_def)
  have sp: "space_ok ?t pd" using f(2) by (rule space_ok_mono) (use f(4) up in \<open>auto simp: own_pages_def\<close>)
  have vm: "vm_ok ?t" using f(1) a lv by (auto simp: vm_ok_def heap_ok_def quiet_def)
  have dis: "D k \<noteq> D i" if "k \<in> I" "k \<noteq> i" for k using F that ij(1) by (auto simp: forked_def inj_on_def)
  have old: "frame_index (A p) \<in> live (frs t)" if "p \<in> M" for p using F that by (auto simp: forked_def)
  have tabs: "\<forall>q\<in>insert cpd (own_pages s pd). tables ?t q = tables t q" using f(4) by auto
  have cpy: "pages ?t (frame_index a) = pages s (P i j)" using F ij(3) by (simp add: forked_def P_def)
  have ent: "k \<in> I \<and> PAGE_SIZE dvd unat (?A (k, l)) \<and> tables ?t (D k) l = ?A (k, l) OR GET_FLAG (pte_of s pd k l)
          \<and> pages ?t (frame_index (?A (k, l))) = pages s (P k l)"
    if "(k, l) \<in> insert (i, j) M" for k l
  proof (cases "(k, l) = (i, j)")
    case False
    with that have "(k, l) \<in> M" by auto
    moreover have "frame_index (A (k, l)) \<noteq> frame_index a" using old[OF \<open>(k, l) \<in> M\<close>] fresh by auto
    ultimately show ?thesis using F False dis[of k] by (auto simp: forked_def P_def)
  qed (use a(1) cpy ij(1) in simp)
  have img: "(\<lambda>p. frame_index (?A p)) ` insert (i, j) M = insert (frame_index a) ((\<lambda>p. frame_index (A p)) ` M)"
  proof -
    have "(\<lambda>p. frame_index (?A p)) ` M = (\<lambda>p. frame_index (A p)) ` M" by (rule image_cong) (use ij(2) in auto)
    then show ?thesis by simp
  qed
  have inj: "inj_on (\<lambda>p. frame_index (?A p)) (insert (i, j) M)"
  proof -
    have "inj_on (\<lambda>p. frame_index (A p)) M" using F by (simp add: forked_def)
    then have "inj_on (\<lambda>p. frame_index (?A p)) M" using ij(2) by (simp add: inj_on_def)
    moreover have "frame_index a \<notin> (\<lambda>p. frame_index (?A p)) ` (M - {(i, j)})"
      using old fresh by (auto split: if_splits)
    ultimately show ?thesis by simp
  qed
  have keep: "\<forall>fr\<in>live (frs s). pages ?t fr = pages s fr" using F fresh f(5) by (auto simp: forked_def)
  have frames: "live (frs ?t) = live (frs s) \<union> (\<lambda>p. frame_index (?A p)) ` insert (i, j) M"
    "(\<lambda>p. frame_index (?A p)) ` insert (i, j) M \<inter> live (frs s) = {}"
    using F fresh f(5) unfolding img by (auto simp: forked_def lv)
  have cnt: "avail (frs ?t) + card (insert (i, j) M) = avail (frs s)"
    using F a(5) ij(2) av by (simp add: forked_def)
  have c: "cr3 ?t = pd" using f(3) by simp
  have rest1: "used_page ?t cpd" "cpd \<notin> own_pages s pd" using F by (simp_all add: up forked_def)
  have rest2: "inj_on D I" "D ` I \<inter> insert cpd (own_pages s pd) = {}" "finite (insert (i, j) M)" using F by (simp_all add: forked_def)
  have own': "\<forall>q\<in>own_pages s pd. tables ?t q = tables s q" using tabs F by (simp add: forked_def)
  have tab': "\<forall>i\<in>I. i < PAGE_LEN \<and> used_page ?t (D i) \<and> tables ?t cpd i = D i OR GET_FLAG (tables s pd i)"
    using tabs F unfolding up by (simp add: forked_def)
  have ent': "\<forall>(k, l)\<in>insert (i, j) M. k \<in> I \<and> PAGE_SIZE dvd unat (?A (k, l)) \<and> tables ?t (D k) l = ?A (k, l) OR GET_FLAG (pte_of s pd k l)
          \<and> pages ?t (frame_index (?A (k, l))) = pages s (frame_index (DEFLAG_ADDR (pte_of s pd k l)))"
    using ent unfolding P_def by blast
  show ?thesis
    unfolding forked_def by (intro conjI) (fact vm sp c own' rest1 rest2 tab' ent' inj frames keep cnt)+
qed

lemma forked_page:
  assumes F: "forked s pd cpd I D M A t" and av: "card M + 2 \<le> avail (frs s)" and b: "backed s pd"
    and e: "e1 < PAGE_LEN" "e2 < PAGE_LEN" "tables s pd e1 \<noteq> 0" "pte_of s pd e1 e2 = 0"
    and ij: "i \<in> I" "(i, j) \<in> mapped_pages s pd" "(i, j) \<notin> M"
  shows "\<exists>t' a. fork_page pd (e1, e2) (DEFLAG_ADDR (tables s pd i)) (D i) i j t = Inr (None, t')
     \<and> forked s pd cpd I D (insert (i, j) M) (A((i, j) := a)) t' \<and> malloc_lmm t' = malloc_lmm t"
proof -
  let ?pte = "pte_of s pd i j"
  have i: "i < PAGE_LEN" "j < PAGE_LEN" "DEFLAG_ADDR ?pte \<noteq> 0" "bit ?pte 0" "frame_index (DEFLAG_ADDR ?pte) \<in> live (frs s)"
    using ij(2) b by (auto simp: mapped_pages_def backed_def)
  then have pde: "tables s pd i \<noteq> 0" by (auto simp: pte_of_def DEFLAG_ADDR_def)
  note P = forked_parent[OF F]
  have f: "vm_ok t" "space_ok t pd" "cr3 t = pd" "avail (frs t) = avail (frs s) - card M" "used_page t (D i)"
    "D i \<notin> insert cpd (own_pages s pd)" "used_page t cpd" "live (frs s) \<subseteq> live (frs t)"
    using F ij(1) by (auto simp: forked_def)
  have pt: "tables t (DEFLAG_ADDR (tables s pd i)) j = ?pte" using P[OF i(1)] pde by (simp add: pte_of_def)
  have own: "\<forall>k<PAGE_LEN. tables t pd k \<noteq> 0 \<longrightarrow> DEFLAG_ADDR (tables t pd k) \<noteq> D i" "D i \<noteq> pd"
    using f(6) P(1) by (auto simp: own_pages_def)
  obtain a f' where run: "fork_page pd (e1, e2) (DEFLAG_ADDR (tables s pd i)) (D i) i j t = Inr (None, t\<lparr>frs := f',
       tables := (tables t)(D i := (tables t (D i))(j := a OR GET_FLAG ?pte)),
       pages := (pages t)(frame_index a := pages t (frame_index (DEFLAG_ADDR ?pte)))\<rparr>)" (is "_ = Inr (None, ?t)")
    and a: "PAGE_SIZE dvd unat a" "refcount (frs t) (frame_index a) = 0" "refcount f' = (refcount (frs t))(frame_index a := 1)"
      "frames_ok f'" "avail f' = avail (frs t) - 1"
  proof (rule fork_page_run[OF f(1-3) _ e(1,2) _ _ i(1,2) _ _ _ i(3,4) _ _ own(2,1)])
    show "2 \<le> avail (frs t)" using f(4) av by simp
    show "tables t pd e1 \<noteq> 0" "pte_of t pd e1 e2 = 0" using P[OF e(1)] e(3,4) by auto
    show "tables t pd i \<noteq> 0" "DEFLAG_ADDR (tables s pd i) = DEFLAG_ADDR (tables t pd i)" using P(1)[OF i(1)] pde by auto
    show "frame_index (DEFLAG_ADDR ?pte) \<in> live (frs t)" using i(5) f(8) by auto
    show "D i \<noteq> 0" using f(5) used_page_nz by blast
  qed (use pt in auto)
  have "forked s pd cpd I D (insert (i, j) M) (A((i, j) := a)) ?t"
    using forked_write[OF F av ij(1,3) i(5) a] .
  moreover have "malloc_lmm ?t = malloc_lmm t" by simp
  ultimately show ?thesis using run by blast
qed

lemma finite_mapped: "finite (mapped_pages s pd)"
proof (rule finite_subset)
  show "mapped_pages s pd \<subseteq> {..<PAGE_LEN} \<times> {..<PAGE_LEN}" by (auto simp: mapped_pages_def)
qed simp

lemma forked_table_pages:
  assumes F: "forked s pd cpd I D M A t" and av: "card (mapped_pages s pd) + 1 \<le> avail (frs s)" and b: "backed s pd"
    and e: "e1 < PAGE_LEN" "e2 < PAGE_LEN" "tables s pd e1 \<noteq> 0" "pte_of s pd e1 e2 = 0"
    and i: "i \<in> I" "4 \<le> i" "tables s pd i \<noteq> 0" and M: "M = {p \<in> mapped_pages s pd. fst p < i}"
  shows "\<exists>t' A'. forE [0..<PAGE_LEN] (fork_page pd (e1, e2) (DEFLAG_ADDR (tables s pd i)) (D i) i) t = Inr (None, t')
     \<and> forked s pd cpd I D {p \<in> mapped_pages s pd. fst p < Suc i} A' t' \<and> malloc_lmm t' = malloc_lmm t"
proof -
  define N where "N k = {p \<in> mapped_pages s pd. fst p < i \<or> fst p = i \<and> snd p < k}" for k
  have il: "i < PAGE_LEN" using F i(1) by (auto simp: forked_def)
  have "\<exists>r t'. forE [0..<PAGE_LEN] (fork_page pd (e1, e2) (DEFLAG_ADDR (tables s pd i)) (D i) i) t = Inr (r, t')
    \<and> (case r of None \<Rightarrow> \<exists>A'. forked s pd cpd I D (N PAGE_LEN) A' t' \<and> malloc_lmm t' = malloc_lmm t | Some v \<Rightarrow> False)"
  proof (rule forE_invariant)
    have "N 0 = M" by (simp add: N_def M)
    with F show "\<exists>A'. forked s pd cpd I D (N 0) A' t \<and> malloc_lmm t = malloc_lmm t" by auto
  next
    fix k u assume k: "0 \<le> k" "k < PAGE_LEN" and "\<exists>A'. forked s pd cpd I D (N k) A' u \<and> malloc_lmm u = malloc_lmm t"
    then obtain A' where F': "forked s pd cpd I D (N k) A' u" and same: "malloc_lmm u = malloc_lmm t" by blast
    let ?f = "fork_page pd (e1, e2) (DEFLAG_ADDR (tables s pd i)) (D i) i k"
    have "\<exists>t' A''. ?f u = Inr (None, t') \<and> forked s pd cpd I D (N (Suc k)) A'' t' \<and> malloc_lmm t' = malloc_lmm t"
    proof (cases "(i, k) \<in> mapped_pages s pd")
      case True
      have new: "N (Suc k) = insert (i, k) (N k)" "(i, k) \<notin> N k" using True by (auto simp: N_def less_Suc_eq)
      have "insert (i, k) (N k) \<subseteq> mapped_pages s pd" using True by (auto simp: N_def)
      from card_mono[OF finite_mapped this] new(2) F' have "card (N k) + 2 \<le> avail (frs s)"
        using av by (simp add: forked_def)
      from forked_page[OF F' this b e i(1) True new(2)] new(1) same show ?thesis by auto
    next
      case False
      then have "N (Suc k) = N k" and z: "DEFLAG_ADDR (pte_of s pd i k) = 0"
        using k il i(2) by (auto simp: N_def less_Suc_eq mapped_pages_def)
      moreover have "DEFLAG_ADDR (tables s pd i) \<noteq> 0"
        using F' space_ok_table[of u pd i] il i(3) forked_parent(1)[OF F' il] by (simp add: forked_def)
      then have "?f u = Inr (None, u)"
        using z k forked_parent[OF F' il] i(3) by (simp add: fork_page_def tab_read_def pte_of_def)
      ultimately show ?thesis using F' same by auto
    qed
    then obtain t' A'' where "?f u = Inr (None, t')" "forked s pd cpd I D (N (Suc k)) A'' t'" "malloc_lmm t' = malloc_lmm t" by blast
    then show "\<exists>r t'. ?f u = Inr (r, t')
        \<and> (case r of None \<Rightarrow> \<exists>A'. forked s pd cpd I D (N (Suc k)) A' t' \<and> malloc_lmm t' = malloc_lmm t | Some v \<Rightarrow> False)"
      by (intro exI[of _ None] exI[of _ t']) auto
  qed simp
  moreover have "N PAGE_LEN = {p \<in> mapped_pages s pd. fst p < Suc i}" by (auto simp: N_def mapped_pages_def less_Suc_eq)
  ultimately show ?thesis by (auto split: option.splits)
qed

lemma forked_heap:
  assumes F: "forked s pd cpd I D M A t" and h: "heap_ok (heap_step t L hm)" and u: "\<And>q. used_page t q \<Longrightarrow> used_page (heap_step t L hm) q"
  shows "forked s pd cpd I D M A (heap_step t L hm)"
proof -
  have "space_ok (heap_step t L hm) pd" by (rule space_ok_mono[of t]) (use F u in \<open>auto simp: forked_def\<close>)
  moreover have "vm_ok t" using F by (simp add: forked_def)
  then have "vm_ok (heap_step t L hm)" using h by (simp add: vm_ok_def)
  moreover have "cr3 (heap_step t L hm) = cr3 t" by (simp add: heap_step_def released_def)
  moreover have "\<forall>i\<in>I. i < PAGE_LEN \<and> used_page (heap_step t L hm) (D i) \<and> tables (heap_step t L hm) cpd i = D i OR GET_FLAG (tables s pd i)"
    using F u by (simp add: forked_def)
  moreover have "used_page (heap_step t L hm) cpd" using F u by (simp add: forked_def)
  ultimately show ?thesis using F unfolding forked_def by simp
qed

text \<open>Entering a new table in the child's directory.\<close>

lemma forked_new_table:
  assumes F: "forked s pd cpd I D M A t" and p: "used_page t p" "p \<notin> insert cpd (own_pages s pd) \<union> D ` I"
    and i: "i \<notin> I" "i < PAGE_LEN"
  shows "forked s pd cpd (insert i I) (D(i := p)) M A (t\<lparr>tables := (tables t)(cpd := (tables t cpd)(i := p OR GET_FLAG (tables s pd i)))\<rparr>)"
    (is "forked _ _ _ _ _ _ _ ?t")
proof -
  have up: "used_page ?t = used_page t" by (rule used_page_cong) simp
  have o: "cpd \<notin> own_pages s pd" "pd \<in> own_pages s pd" "cpd \<notin> D ` I" "\<forall>i\<in>I. used_page t (D i)" using F by (auto simp: forked_def own_pages_def)
  have sp: "space_ok ?t pd" by (rule space_ok_mono[of t]) (use F o up in \<open>auto simp: forked_def\<close>)
  have "vm_ok t" using F by (simp add: forked_def)
  then have vm: "vm_ok ?t" by (simp add: vm_ok_def heap_ok_def quiet_def)
  have inj: "inj_on (D(i := p)) (insert i I)" using F p(2) i(1) by (auto simp: forked_def inj_on_def)
  have im: "(D(i := p)) ` insert i I = insert p (D ` I)" using i(1) by auto
  have ent: "\<forall>(k, l)\<in>M. k \<in> insert i I \<and> PAGE_SIZE dvd unat (A (k, l)) \<and> tables ?t ((D(i := p)) k) l = A (k, l) OR GET_FLAG (pte_of s pd k l)
      \<and> pages ?t (frame_index (A (k, l))) = pages s (frame_index (DEFLAG_ADDR (pte_of s pd k l)))"
    using F i(1) o(3) by (force simp: forked_def)
  have tab: "\<forall>k\<in>insert i I. k < PAGE_LEN \<and> used_page ?t ((D(i := p)) k) \<and> tables ?t cpd k = (D(i := p)) k OR GET_FLAG (tables s pd k)"
    using F i p(1) unfolding up by (auto simp: forked_def)
  have own: "\<forall>q\<in>own_pages s pd. tables ?t q = tables s q" using F o(1) by (auto simp: forked_def)
  have dj: "(D(i := p)) ` insert i I \<inter> insert cpd (own_pages s pd) = {}" using F p(2) unfolding im by (auto simp: forked_def)
  show ?thesis using F vm sp inj ent tab own dj up unfolding forked_def by (simp only: kvm.simps kcore.simps) simp
qed

lemma forked_table:
  assumes F: "forked s pd cpd I D M A t" and av: "card (mapped_pages s pd) + 1 \<le> avail (frs s)" and b: "backed s pd"
    and e: "e1 < PAGE_LEN" "e2 < PAGE_LEN" "tables s pd e1 \<noteq> 0" "pte_of s pd e1 e2 = 0"
    and i: "i \<notin> I" "4 \<le> i" "i < PAGE_LEN" "tables s pd i \<noteq> 0" and M: "M = {p \<in> mapped_pages s pd. fst p < i}"
  shows "\<exists>r t'. fork_table pd (e1, e2) cpd i t = Inr (r, t') \<and> (case r of
      None \<Rightarrow> (\<exists>D' A'. forked s pd cpd (insert i I) D' {p \<in> mapped_pages s pd. fst p < Suc i} A' t') \<and> page_room t \<le> page_room t' + 1
    | Some v \<Rightarrow> v = -1 \<and> (\<exists>I D M A. forked s pd cpd I D M A t') \<and> page_room t = 0)"
proof -
  let ?pt = "DEFLAG_ADDR (tables s pd i)"
  have h: "heap_ok t" "space_ok t pd" "used_page t pd" using F by (auto simp: forked_def vm_ok_def space_ok_def)
  note P = forked_parent[OF F i(3)]
  have pt: "?pt \<noteq> 0" using space_ok_table[OF h(2) i(3)] P i(4) by simp
  have rd: "tab_read pd i t = Inr (tables s pd i, t)" using space_ok_pd[OF h(2)] P i(3) by (simp add: tab_read_def)
  have old: "used_page t q" if "q \<in> insert cpd (own_pages s pd) \<union> D ` I" for q
    using that h(2,3) F forked_parent(1)[OF F] by (auto simp: own_pages_def space_ok_def forked_def)
  show ?thesis
  proof (rule memalign_page_spec[OF h(1)])
    fix L hm assume m: "memalign 4096 4096 t = Inr (0, heap_step t L hm)" "heap_ok (heap_step t L hm)" "L = malloc_lmm t"
    have "used_page (heap_step t L hm) = used_page t" by (rule used_page_cong) (simp add: m(3) heap_step_def)
    then have "forked s pd cpd I D M A (heap_step t L hm)" using forked_heap[OF F m(2)] by simp
    moreover have "page_room t = 0" using memalign_page(1)[OF h(1) m(1)] page_room_left[of t] by blast
    ultimately show ?thesis using rd pt m(1) by (auto simp: fork_table_def Let_def)
  next
    fix p L hm assume m: "memalign 4096 4096 t = Inr (p, heap_step t L hm)" "heap_ok (heap_step t L hm)" "p \<noteq> 0"
    note fresh = kh.get_fresh[OF h(1) m(1,3)]
    let ?t = "heap_step t L hm" let ?t' = "?t\<lparr>tables := (tables ?t)(cpd := (tables ?t cpd)(i := p OR GET_FLAG (tables s pd i)))\<rparr>"
    have "p \<notin> insert cpd (own_pages s pd) \<union> D ` I" using fresh(3) old by blast
    then have F': "forked s pd cpd (insert i I) (D(i := p)) M A ?t'"
      using forked_new_table[OF forked_heap[OF F m(2)] fresh(2) _ i(1,3)] fresh(3) by blast
    have "tab_write cpd i (p OR GET_FLAG (tables s pd i)) ?t = Inr ((), ?t')"
      using old[of cpd] used_page_nz i(3) by (auto simp: tab_write_def)
    then have "fork_table pd (e1, e2) cpd i t = forE [0..<PAGE_LEN] (fork_page pd (e1, e2) ?pt p i) ?t'"
      using rd pt m(1,3) by (simp add: fork_table_def Let_def ADDFLAG_def)
    with forked_table_pages[OF F' av b e _ i(2,4) M] obtain t' A' where
      "fork_table pd (e1, e2) cpd i t = Inr (None, t')"
      "forked s pd cpd (insert i I) (D(i := p)) {p \<in> mapped_pages s pd. fst p < Suc i} A' t'" "malloc_lmm t' = malloc_lmm ?t'" by auto
    moreover from this(3) have "page_room t' = page_room ?t" by (intro page_room_cong) simp
    then have "page_room t \<le> page_room t' + 1" using memalign_page(2)[OF h(1) m(1)] m(3) by simp
    ultimately show ?thesis by (intro exI[of _ None] exI[of _ t']) (simp only: option.case, blast)
  qed
qed

lemma forked_start:
  assumes "vm_ok s" "space_ok s pd" "cr3 s = pd" "used_page s cpd" "cpd \<notin> own_pages s pd"
  shows "forked s pd cpd {} D {} A s"
  using assms by (simp add: forked_def)

definition user_tables :: "'a kvm_scheme \<Rightarrow> u32 \<Rightarrow> nat set" where
  "user_tables s pd = {i. 4 \<le> i \<and> i < PAGE_LEN \<and> tables s pd i \<noteq> 0}"

lemma user_tables_finite: "finite (user_tables s pd)"
  by (rule finite_subset[of _ "{..<PAGE_LEN}"]) (auto simp: user_tables_def)

lemma forked_all:
  assumes s: "vm_ok s" "space_ok s pd" "cr3 s = pd" "used_page s cpd" "cpd \<notin> own_pages s pd"
    and av: "card (mapped_pages s pd) + 1 \<le> avail (frs s)" and b: "backed s pd"
    and e: "e1 < PAGE_LEN" "e2 < PAGE_LEN" "tables s pd e1 \<noteq> 0" "pte_of s pd e1 e2 = 0"
  shows "\<exists>r t. forE [4..<PAGE_LEN] (fork_table pd (e1, e2) cpd) s = Inr (r, t) \<and> (case r of
      None \<Rightarrow> \<exists>I D A. forked s pd cpd I D (mapped_pages s pd) A t
    | Some v \<Rightarrow> v = -1 \<and> (\<exists>I D M A. forked s pd cpd I D M A t) \<and> page_room s < card (user_tables s pd))"
proof -
  let ?M = "\<lambda>k. {p \<in> mapped_pages s pd. fst p < k}" and ?I = "\<lambda>k. {i \<in> user_tables s pd. i < k}"
  let ?P = "\<lambda>k t. (\<exists>D A. forked s pd cpd (?I k) D (?M k) A t) \<and> page_room s \<le> page_room t + card (?I k)"
  have "\<exists>r t. forE [4..<PAGE_LEN] (fork_table pd (e1, e2) cpd) s = Inr (r, t) \<and> (case r of
      None \<Rightarrow> ?P PAGE_LEN t
    | Some v \<Rightarrow> v = -1 \<and> (\<exists>I D M A. forked s pd cpd I D M A t) \<and> page_room s < card (user_tables s pd))"
  proof (rule forE_invariant)
    have "?I 4 = {}" "?M 4 = {}" by (auto simp: mapped_pages_def user_tables_def)
    with forked_start[OF s] show "?P 4 s" by (metis le_add1)
  next
    fix k t assume k: "4 \<le> k" "k < PAGE_LEN" and "?P k t"
    then obtain D A where F: "forked s pd cpd (?I k) D (?M k) A t" and room: "page_room s \<le> page_room t + card (?I k)" by blast
    show "\<exists>r t'. fork_table pd (e1, e2) cpd k t = Inr (r, t') \<and> (case r of
        None \<Rightarrow> ?P (Suc k) t'
      | Some v \<Rightarrow> v = -1 \<and> (\<exists>I D M A. forked s pd cpd I D M A t') \<and> page_room s < card (user_tables s pd))"
    proof (cases "tables s pd k = 0")
      case True
      then have same: "?I (Suc k) = ?I k" "?M (Suc k) = ?M k"
        by (auto simp: less_Suc_eq mapped_pages_def pte_of_def DEFLAG_ADDR_def user_tables_def)
      have "space_ok t pd" using F by (simp add: forked_def)
      then have "tab_read pd k t = Inr (0, t)"
        using True k forked_parent(1)[OF F k(2)] space_ok_pd by (auto simp: tab_read_def)
      then have "fork_table pd (e1, e2) cpd k t = Inr (None, t)" by (simp add: fork_table_def Let_def DEFLAG_ADDR_def)
      then show ?thesis using F room unfolding same by auto
    next
      case False
      then have I: "insert k (?I k) = ?I (Suc k)" and kI: "k \<in> user_tables s pd" using k by (auto simp: user_tables_def less_Suc_eq)
      have c: "card (?I (Suc k)) = Suc (card (?I k))" unfolding I[symmetric] using user_tables_finite by simp
      have "card (?I (Suc k)) \<le> card (user_tables s pd)" by (rule card_mono[OF user_tables_finite]) auto
      with c have small: "card (?I k) < card (user_tables s pd)" by simp
      from forked_table[OF F av b e _ k False refl, unfolded I] obtain r t' where
        run: "fork_table pd (e1, e2) cpd k t = Inr (r, t')" and r: "case r of
            None \<Rightarrow> (\<exists>D' A'. forked s pd cpd (?I (Suc k)) D' (?M (Suc k)) A' t') \<and> page_room t \<le> page_room t' + 1
          | Some v \<Rightarrow> v = -1 \<and> (\<exists>I D M A. forked s pd cpd I D M A t') \<and> page_room t = 0" by auto
      show ?thesis
      proof (cases r)
        case None
        with r room c have "?P (Suc k) t'" by auto
        with run None show ?thesis by auto
      next
        case (Some v)
        with r room small have "v = -1 \<and> (\<exists>I D M A. forked s pd cpd I D M A t') \<and> page_room s < card (user_tables s pd)" by auto
        with run Some show ?thesis by auto
      qed
    qed
  qed (simp add: PAGE_LEN_def)
  then obtain r t where run: "forE [4..<PAGE_LEN] (fork_table pd (e1, e2) cpd) s = Inr (r, t)" and r: "case r of
      None \<Rightarrow> ?P PAGE_LEN t
    | Some v \<Rightarrow> v = -1 \<and> (\<exists>I D M A. forked s pd cpd I D M A t) \<and> page_room s < card (user_tables s pd)" by blast
  have M: "?M PAGE_LEN = mapped_pages s pd" by (auto simp: mapped_pages_def)
  from r have "case r of None \<Rightarrow> \<exists>I D A. forked s pd cpd I D (mapped_pages s pd) A t
      | Some v \<Rightarrow> v = -1 \<and> (\<exists>I D M A. forked s pd cpd I D M A t) \<and> page_room s < card (user_tables s pd)"
    unfolding M by (cases r) (simp, blast, simp)
  with run show ?thesis by blast
qed

text \<open>What the parent and the child see.\<close>

lemma forked_parent_sees:
  assumes F: "forked s pd cpd I D M A t" and b: "backed s pd" and va: "(VA_PD_IND va, VA_PT_IND va) \<in> mapped_pages s pd"
    and s: "cr3 s = pd" "space_ok s pd"
  shows "peek t va = peek s va" "mmu_walk s va = Some (frame_index (DEFLAG_ADDR (pte_of s pd (VA_PD_IND va) (VA_PT_IND va))))"
proof -
  let ?i = "VA_PD_IND va" and ?j = "VA_PT_IND va"
  have i: "?i < PAGE_LEN" "bit (pte_of s pd ?i ?j) 0" "frame_index (DEFLAG_ADDR (pte_of s pd ?i ?j)) \<in> live (frs s)"
    using va b by (auto simp: mapped_pages_def backed_def)
  then have pde: "tables s pd ?i \<noteq> 0" by (auto simp: pte_of_def)
  have c: "cr3 t = pd" "pages t fr = pages s fr" if "fr \<in> live (frs s)" for fr using F that by (auto simp: forked_def)
  have p: "bit (tables s pd ?i) 0" using space_ok_table[OF s(2) i(1) pde] by simp
  have w: "mmu_walk s va = Some (frame_index (DEFLAG_ADDR (pte_of s pd ?i ?j)))"
    using p i pde s by (simp add: mmu_walk_def Let_def pte_of_def)
  moreover have "mmu_walk t va = mmu_walk s va"
    using forked_parent[OF F i(1)] pde s F by (simp add: mmu_walk_def Let_def forked_def)
  ultimately show "peek t va = peek s va" "mmu_walk s va = Some (frame_index (DEFLAG_ADDR (pte_of s pd ?i ?j)))"
    using c(2)[OF i(3)] by (simp_all add: peek_def)
qed

lemma forked_child_sees:
  assumes F: "forked s pd cpd I D M A t" and b: "backed s pd" and va: "(VA_PD_IND va, VA_PT_IND va) \<in> mapped_pages s pd \<inter> M"
    and s: "cr3 s = pd" "space_ok s pd"
  shows "mmu_walk (t\<lparr>cr3 := cpd\<rparr>) va = Some (frame_index (A (VA_PD_IND va, VA_PT_IND va)))"
    "peek (t\<lparr>cr3 := cpd\<rparr>) va = peek s va"
proof -
  let ?i = "VA_PD_IND va" and ?j = "VA_PT_IND va"
  have i: "?i < PAGE_LEN" "bit (pte_of s pd ?i ?j) 0" using va b by (auto simp: mapped_pages_def backed_def)
  then have pde: "tables s pd ?i \<noteq> 0" by (auto simp: pte_of_def)
  have m: "?i \<in> I" "PAGE_SIZE dvd unat (A (?i, ?j))" "tables t (D ?i) ?j = A (?i, ?j) OR GET_FLAG (pte_of s pd ?i ?j)"
    "pages t (frame_index (A (?i, ?j))) = pages s (frame_index (DEFLAG_ADDR (pte_of s pd ?i ?j)))"
    using F va by (auto simp: forked_def)
  then have "used_page t (D ?i)" and d2: "tables t cpd ?i = D ?i OR GET_FLAG (tables s pd ?i)"
    using F by (auto simp: forked_def)
  with used_page_nz have d: "PAGE_SIZE dvd unat (D ?i)" by blast
  have "bit (tables s pd ?i) 0" using space_ok_table[OF s(2) i(1) pde] by simp
  then show w: "mmu_walk (t\<lparr>cr3 := cpd\<rparr>) va = Some (frame_index (A (?i, ?j)))"
    using d d2 m(2,3) i(2) by (simp add: mmu_walk_def Let_def DEFLAG_ADDFLAG bit0_ADDFLAG)
  show "peek (t\<lparr>cr3 := cpd\<rparr>) va = peek s va"
    using w m(4) forked_parent_sees(2)[OF F b _ s, of va] va by (simp add: peek_def)
qed

text \<open>C9: the copying loop of \<open>fork\<close>, for a parent whose pages are backed by frames in use, with one
  frame more than it has pages: the parent sees its memory unchanged, and the loop runs to its end; then the child finds at every
  address of the parent the parent's byte, each page in a frame of its own that was not in use before. The only other result
  is -1, and it occurs only when the free memory of the heap cannot hold a page for each page table of the parent.\<close>

theorem fork_copies_address_space:
  assumes "vm_ok s" and "space_ok s pd" and "cr3 s = pd" and "backed s pd" and "used_page s cpd" and "cpd \<notin> own_pages s pd"
    and "card (mapped_pages s pd) + 1 \<le> avail (frs s)"
    and "e1 < PAGE_LEN" and "e2 < PAGE_LEN" and "tables s pd e1 \<noteq> 0" and "pte_of s pd e1 e2 = 0"
  shows "\<exists>r t. forE [4..<PAGE_LEN] (fork_table pd (e1, e2) cpd) s = Inr (r, t) \<and> vm_ok t \<and> space_ok t pd
    \<and> (\<forall>va. (VA_PD_IND va, VA_PT_IND va) \<in> mapped_pages s pd \<longrightarrow> peek t va = peek s va)
    \<and> (r = Some (-1) \<and> page_room s < card (user_tables s pd) \<or> r = None \<and> (\<exists>B. inj_on B (mapped_pages s pd) \<and> B ` mapped_pages s pd \<inter> live (frs s) = {}
        \<and> (\<forall>va. (VA_PD_IND va, VA_PT_IND va) \<in> mapped_pages s pd \<longrightarrow>
             mmu_walk (t\<lparr>cr3 := cpd\<rparr>) va = Some (B (VA_PD_IND va, VA_PT_IND va))
             \<and> peek (t\<lparr>cr3 := cpd\<rparr>) va = peek s va)))"
proof -
  from forked_all[OF assms(1-3,5-7,4,8-)] obtain r t where
    run: "forE [4..<PAGE_LEN] (fork_table pd (e1, e2) cpd) s = Inr (r, t)" and
    r: "case r of None \<Rightarrow> \<exists>I D A. forked s pd cpd I D (mapped_pages s pd) A t
        | Some v \<Rightarrow> v = -1 \<and> (\<exists>I D M A. forked s pd cpd I D M A t) \<and> page_room s < card (user_tables s pd)" by blast
  then obtain I D M A where F: "forked s pd cpd I D M A t" by (auto split: option.splits)
  have ok: "vm_ok t \<and> space_ok t pd \<and> (\<forall>va. (VA_PD_IND va, VA_PT_IND va) \<in> mapped_pages s pd \<longrightarrow> peek t va = peek s va)"
    using F forked_parent_sees(1)[OF F assms(4) _ assms(3,2)] by (simp add: forked_def)
  show ?thesis
  proof (cases r)
    case None
    with r obtain I D A where F: "forked s pd cpd I D (mapped_pages s pd) A t" by auto
    let ?B = "\<lambda>p. frame_index (A p)"
    have "inj_on ?B (mapped_pages s pd) \<and> ?B ` mapped_pages s pd \<inter> live (frs s) = {}
      \<and> (\<forall>va. (VA_PD_IND va, VA_PT_IND va) \<in> mapped_pages s pd \<longrightarrow>
             mmu_walk (t\<lparr>cr3 := cpd\<rparr>) va = Some (?B (VA_PD_IND va, VA_PT_IND va)) \<and> peek (t\<lparr>cr3 := cpd\<rparr>) va = peek s va)"
      using F forked_child_sees[OF F assms(4) _ assms(3,2)] by (simp add: forked_def)
    with None run ok show ?thesis by blast
  next
    case (Some v)
    with r run ok show ?thesis by auto
  qed
qed

definition demo_fork :: kvm where
  "demo_fork = demo_vm\<lparr>tables := (\<lambda>_ _. 0)(0x300000 := (\<lambda>_. 0)(4 := 0x301007), 0x301000 := (\<lambda>_. 0)(0 := 0x1007)),
     pages := (\<lambda>_ _. 0)(1 := (\<lambda>_. 65))\<rparr>"

lemma demo_fork_pages: "mapped_pages demo_fork 0x300000 = {(4, 0)}" "backed demo_fork 0x300000"
  "own_pages demo_fork 0x300000 = {0x300000, 0x301000}"
proof -
  show m: "mapped_pages demo_fork 0x300000 = {(4, 0)}"
    by (auto simp: mapped_pages_def demo_fork_def pte_of_def DEFLAG_ADDR_def PAGE_LEN_def split: if_splits)
  have "pte_of demo_fork 0x300000 4 0 = 0x1007" by (simp add: demo_fork_def pte_of_def DEFLAG_ADDR_def)
  moreover have "1 \<in> live (frs demo_fork)" by (simp add: live_def demo_fork_def demo_vm_defs)
  ultimately show "backed demo_fork 0x300000"
    unfolding backed_def m by (simp add: frame_index_def DEFLAG_ADDR_def PAGE_SIZE_def)
  show "own_pages demo_fork 0x300000 = {0x300000, 0x301000}"
    by (auto simp: own_pages_def demo_fork_def DEFLAG_ADDR_def PAGE_LEN_def split: if_splits)
qed

lemma demo_fork_ok: "vm_ok demo_fork" "space_ok demo_fork 0x300000" "used_page demo_fork 0x302000"
proof -
  show "vm_ok demo_fork" using demo_vm_ok by (simp add: demo_fork_def vm_ok_def heap_ok_def quiet_def)
  have u: "used_page demo_fork q" if "q \<in> {0x300000, 0x301000, 0x302000}" for q
    using that by (auto simp: kh.in_use_def managed_by_def demo_fork_def demo_vm_defs block_def pool1_def span_def)
  then show "used_page demo_fork 0x302000" by simp
  have "tables demo_fork 0x300000 i = (if i = 4 then 0x301007 else 0)" for i by (simp add: demo_fork_def)
  then show "space_ok demo_fork 0x300000" using u by (simp add: space_ok_def DEFLAG_ADDR_def)
qed

theorem fork_copies_address_space_witness:
  "\<exists>t. forE [4..<PAGE_LEN] (fork_table 0x300000 (4, 1) 0x302000) demo_fork = Inr (None, t) \<and> peek t 0x01000000 = Some 65
     \<and> peek (t\<lparr>cr3 := 0x302000\<rparr>) 0x01000000 = Some 65"
proof -
  have va: "(VA_PD_IND 0x01000000, VA_PT_IND 0x01000000) = (4, 0)" by (simp add: VA_PD_unat VA_PT_unat)
  have pk: "peek demo_fork 0x01000000 = Some 65"
    using va by (simp add: peek_def mmu_walk_def demo_fork_def demo_vm_defs DEFLAG_ADDR_def frame_index_def PAGE_SIZE_def)
  have "user_tables demo_fork 0x300000 = {4}" by (auto simp: user_tables_def demo_fork_def PAGE_LEN_def split: if_splits)
  then have room: "\<not> page_room demo_fork < card (user_tables demo_fork 0x300000)"
    using demo_vm_room page_room_cong[of demo_fork demo_vm] by (simp add: demo_fork_def)
  have c: "cr3 demo_fork = 0x300000" "card {(4 :: nat, 0 :: nat)} + 1 \<le> avail (frs demo_fork)"
    "tables demo_fork 0x300000 4 \<noteq> 0" "pte_of demo_fork 0x300000 4 1 = 0" "4 < PAGE_LEN" "1 < PAGE_LEN"
    using demo_vm_space(2) demo_vm_avail by (simp_all add: demo_fork_def pte_of_def DEFLAG_ADDR_def PAGE_LEN_def)
  have n: "0x302000 \<notin> {0x300000, 0x301000 :: u32}" by simp
  show ?thesis
    using fork_copies_address_space[OF demo_fork_ok(1,2) c(1) demo_fork_pages(2) demo_fork_ok(3), unfolded demo_fork_pages(1,3),
      OF n c(2,5,6,3,4)]
  proof (elim exE conjE)
    fix r t
    assume t: "forE [4..<PAGE_LEN] (fork_table 0x300000 (4, 1) 0x302000) demo_fork = Inr (r, t)"
      and p: "\<forall>va. (VA_PD_IND va, VA_PT_IND va) \<in> {(4, 0)} \<longrightarrow> peek t va = peek demo_fork va"
      and r: "r = Some (-1) \<and> page_room demo_fork < card (user_tables demo_fork 0x300000)
        \<or> r = None \<and> (\<exists>B. inj_on B {(4, 0)} \<and> B ` {(4, 0)} \<inter> live (frs demo_fork) = {}
          \<and> (\<forall>va. (VA_PD_IND va, VA_PT_IND va) \<in> {(4, 0)} \<longrightarrow>
             mmu_walk (t\<lparr>cr3 := 0x302000\<rparr>) va = Some (B (VA_PD_IND va, VA_PT_IND va))
             \<and> peek (t\<lparr>cr3 := 0x302000\<rparr>) va = peek demo_fork va))"
    have v: "(VA_PD_IND 0x01000000, VA_PT_IND 0x01000000) \<in> {(4, 0)}" unfolding va by (rule singletonI)
    from r room have "r = None" by blast
    moreover have "peek (t\<lparr>cr3 := 0x302000\<rparr>) 0x01000000 = peek demo_fork 0x01000000" using r room v by blast
    moreover have "peek t 0x01000000 = peek demo_fork 0x01000000" using p v by blast
    ultimately show ?thesis using t pk by (intro exI[of _ t]) simp
  qed
qed

end
