(* ===== verification/Exec.thy ===== *)
theory Exec
  imports User_Memory
begin

text \<open>
  \<open>kern/process/sys_exec.c\<close>. Strings are read byte by byte through the page tables up to their NUL.
  The argument strings that the code copies to arrays on the kernel stack are byte lists here.
  \<open>memcpy(dest, vector, 20)\<close> always copies five words of an array of \<open>argc + 1\<close>; the words behind the array
  are what the kernel stack holds there, the argument \<open>stack_word\<close>.
\<close>

definition ARGC_LIMIT :: nat where "ARGC_LIMIT = 100"
definition ARGV_LIMIT :: nat where "ARGV_LIMIT = 50"

partial_function (option) strlen_loop :: "'a kvm_scheme \<Rightarrow> u32 \<Rightarrow> bytes \<Rightarrow> (fault + bytes) option" where
  "strlen_loop s va acc =
     (case user_read va s of
        Inl e \<Rightarrow> Some (Inl e)
      | Inr (b, _) \<Rightarrow> if b = 0 then Some (Inr acc) else strlen_loop s (va + 1) (acc @ [b]))"

definition user_string :: "u32 \<Rightarrow> ('a kvm_scheme, bytes) kop" where
  "user_string va s =
     (case strlen_loop s va [] of None \<Rightarrow> Inl Diverges | Some (Inl e) \<Rightarrow> Inl e | Some (Inr bs) \<Rightarrow> Inr (bs, s))"

text \<open>The counting loop: the entry after the one that was found is measured, also when it is the NULL
  at the end. \<open>None\<close> is the early return.\<close>

partial_function (option) count_args :: "'a kvm_scheme \<Rightarrow> u32 \<Rightarrow> nat \<Rightarrow> (fault + nat option) option" where
  "count_args s argvec argc =
     (case user_read32 (argvec + 4 * of_nat argc) s of
        Inl e \<Rightarrow> Some (Inl e)
      | Inr (p, _) \<Rightarrow>
          if p = 0 then Some (Inr (Some argc))
          else
            (case bindK (user_read32 (argvec + 4 * of_nat (argc + 1))) user_string s of
               Inl e \<Rightarrow> Some (Inl e)
             | Inr (str, _) \<Rightarrow>
                 if length str > ARGV_LIMIT then Some (Inr None) else count_args s argvec (argc + 1)))"

definition user_argc :: "u32 \<Rightarrow> ('a kvm_scheme, nat option) kop" where
  "user_argc argvec s =
     (case count_args s argvec 0 of None \<Rightarrow> Inl Diverges | Some (Inl e) \<Rightarrow> Inl e | Some (Inr r) \<Rightarrow> Inr (r, s))"

fun user_strings :: "u32 \<Rightarrow> nat \<Rightarrow> ('a kvm_scheme, bytes list) kop" where
  "user_strings argvec 0 = returnK []"
| "user_strings argvec (Suc n) =
     bindK (user_read32 argvec) (\<lambda>p. bindK (user_string p) (\<lambda>str.
     bindK (user_strings (argvec + 4) n) (\<lambda>strs. returnK (str # strs))))"

text \<open>The strings on the new user stack, from \<open>dest\<close> downwards, with the vector of their addresses.\<close>

fun push_strings :: "u32 \<Rightarrow> bytes list \<Rightarrow> ('a kvm_scheme, u32 \<times> u32 list) kop" where
  "push_strings dest [] = returnK (dest, [])"
| "push_strings dest (str # strs) =
     (let dest' = dest - (of_nat (length str) + 1) in
      bindK (user_write_bytes dest' (str @ [0])) (\<lambda>_.
      bindK (push_strings dest' strs) (\<lambda>(d, vector). returnK (d, dest' # vector))))"

fun write_words :: "u32 \<Rightarrow> u32 list \<Rightarrow> ('a kvm_scheme, unit) kop" where
  "write_words va [] = returnK ()"
| "write_words va (w # ws) = bindK (user_write32 va w) (\<lambda>_. write_words (va + 4) ws)"

definition checked_pointer :: "u32 \<Rightarrow> ('a kvm_scheme, bool) kop" where
  "checked_pointer p = (if \<not> is_user_addr p then returnK False else addr_has_mapping p)"

definition sys_exec :: "toc \<Rightarrow> (nat \<Rightarrow> u32) \<Rightarrow> u32 \<Rightarrow> u32 \<Rightarrow> ('a kvm_scheme, int) kop" where
  "sys_exec toc stack_word execname argvec =
     bindK (checked_pointer execname) (\<lambda>ok1.
     if \<not> ok1 then returnK (-1)
     else bindK (checked_pointer argvec) (\<lambda>ok2.
     if \<not> ok2 then returnK (-1)
     else
       bindK (user_string execname) (\<lambda>name.
       bindK (malloc (of_nat (length name) + 1)) (\<lambda>buf.
       bindK (if buf = 0 then failK Null_Deref
              else poke (\<lambda>m a. if unat (a - buf) < length name + 1 then (name @ [0]) ! unat (a - buf) else m a)) (\<lambda>_.
       bindK (liftF (elf_load_helper toc name)) (\<lambda>(result, se_hdr).
       if result = NOT_PRESENT \<or> result = ELF_NOTELF then returnK (-1)
       else
         bindK (user_argc argvec) (\<lambda>counted.
         case counted of
           None \<Rightarrow> returnK (-1)
         | Some argc \<Rightarrow>
             if argc > ARGC_LIMIT then returnK (-1)
             else
               bindK (user_strings argvec argc) (\<lambda>argv.
               bindK (readK current_thread) (\<lambda>me.
               bindK (get_tcb me) (\<lambda>t.
               bindK init_pd (\<lambda>pd.
               bindK (set_pcb (t_pcb t) (\<lambda>p. p\<lparr>p_PD := pd\<rparr>)) (\<lambda>_.
               bindK (program_loader toc se_hdr (t_pcb t)) (\<lambda>eip.
               bindK (set_tcb me (\<lambda>t. t\<lparr>t_registers := (t_registers t)\<lparr>r_eip := eip\<rparr>\<rparr>)) (\<lambda>_.
               bindK (modifyK (\<lambda>s. s\<lparr>esp0 := t_stack_base t + t_stack_size t\<rparr>)) (\<lambda>_.
               bindK (push_strings 0xffffffff argv) (\<lambda>(dest, vector).
               let dest' = dest - 20; words = map (\<lambda>k. if k < argc then vector ! k else if k = argc then 0 else stack_word k) [0..<5] in
               bindK (write_words dest' words) (\<lambda>_.
               bindK (push_user me 0xffffc000 4) (\<lambda>_.
               bindK (push_user me 0xffffffff 4) (\<lambda>_.
               bindK (push_user me dest' 4) (\<lambda>_.
               bindK (push_user me (of_nat argc) 4) (\<lambda>_.
               bindK (enter_user_mode me) (\<lambda>_. returnK 0))))))))))))))))))))))"

section \<open>Strings in user memory\<close>

lemma user_read_peek: "peek s va = Some b \<Longrightarrow> user_read va s = Inr (b, s)"
  by (auto simp: peek_def user_read_def)

definition string_at :: "'a kvm_scheme \<Rightarrow> u32 \<Rightarrow> bytes \<Rightarrow> bool" where
  "string_at s va cs \<longleftrightarrow> 0 \<notin> set cs \<and> (\<forall>i\<le>length cs. peek s (va + of_nat i) = Some ((cs @ [0]) ! i))"

lemma string_at_Cons: "string_at s va (c # cs) \<longleftrightarrow> c \<noteq> 0 \<and> peek s va = Some c \<and> string_at s (va + 1) cs"
proof -
  have "(\<forall>i\<le>length (c # cs). peek s (va + of_nat i) = Some (((c # cs) @ [0]) ! i))
      \<longleftrightarrow> peek s va = Some c \<and> (\<forall>i\<le>length cs. peek s (va + 1 + of_nat i) = Some ((cs @ [0]) ! i))"
    unfolding less_Suc_eq_le[symmetric] length_Cons All_less_Suc2[of "Suc (length cs)"] by (simp add: add.assoc)
  then show ?thesis unfolding string_at_def by auto
qed

lemma string_at_Nil: "string_at s va [] \<longleftrightarrow> peek s va = Some 0"
  by (simp add: string_at_def)

lemma strlen_loop_string: "string_at s va cs \<Longrightarrow> strlen_loop s va acc = Some (Inr (acc @ cs))"
proof (induction cs arbitrary: va acc)
  case Nil
  then show ?case by (subst strlen_loop.simps) (simp add: string_at_Nil user_read_peek)
next
  case (Cons c cs)
  then show ?case by (subst strlen_loop.simps) (simp add: string_at_Cons user_read_peek)
qed

lemma user_string_at: "string_at s va cs \<Longrightarrow> user_string va s = Inr (cs, s)"
  by (simp add: user_string_def strlen_loop_string)

lemma write_bytes_run:
  "(\<And>i. i < length bs \<Longrightarrow> mmu_walk s (va + of_nat i) \<noteq> None) \<Longrightarrow> \<exists>p. user_write_bytes va bs s = Inr ((), s\<lparr>pages := p\<rparr>)"
proof (induction bs arbitrary: va s)
  case Nil
  have "s = s\<lparr>pages := pages s\<rparr>" by simp
  then show ?case by (metis returnK_def user_write_bytes.simps(1))
next
  case (Cons b bs)
  have "mmu_walk s va \<noteq> None" using Cons.prems[of 0] by simp
  moreover have "mmu_walk (s\<lparr>pages := put_byte s va b\<rparr>) (va + 1 + of_nat i) \<noteq> None" if "i < length bs" for i
    using Cons.prems[of "Suc i"] that by (simp add: add.assoc)
  from Cons.IH[OF this] obtain p where "user_write_bytes (va + 1) bs (s\<lparr>pages := put_byte s va b\<rparr>) = Inr ((), s\<lparr>pages := p\<rparr>)" by auto
  ultimately show ?case by (auto simp: user_write_run)
qed

section \<open>Arguments on the new stack\<close>

text \<open>The \<open>n\<close> bytes below \<open>dest\<close> are mapped and no two of them are the same byte of memory.\<close>

definition stack_room :: "'a kvm_scheme \<Rightarrow> u32 \<Rightarrow> nat \<Rightarrow> bool" where
  "stack_room s dest n \<longleftrightarrow> (\<forall>i<n. mmu_walk s (dest - of_nat (Suc i)) \<noteq> None) \<and> inj_on (\<lambda>i. place s (dest - of_nat (Suc i))) {..<n}"

definition total_len :: "bytes list \<Rightarrow> nat" where
  "total_len strs = sum_list (map (\<lambda>str. length str + 1) strs)"

lemma stack_addr:
  "i < n \<Longrightarrow> dest - of_nat n + of_nat i = (dest - of_nat (Suc (n - 1 - i)) :: u32)"
  "dest - of_nat n - of_nat (Suc i) = (dest - of_nat (Suc (n + i)) :: u32)"
proof -
  assume "i < n"
  then have "Suc (n - 1 - i) = n - i" "i \<le> n" by simp_all
  then show "dest - of_nat n + of_nat i = (dest - of_nat (Suc (n - 1 - i)) :: u32)" by (simp only: of_nat_diff) simp
qed simp

lemma stack_room_split:
  assumes "stack_room s dest (n + m)"
  shows "\<And>i. i < n \<Longrightarrow> mmu_walk s (dest - of_nat n + of_nat i) \<noteq> None"
    "inj_on (\<lambda>i. place s (dest - of_nat n + of_nat i)) {..<n}" "stack_room (s\<lparr>pages := p\<rparr>) (dest - of_nat n) m"
    "\<And>i j. i < n \<Longrightarrow> j < m \<Longrightarrow> place s (dest - of_nat n - of_nat (Suc j)) \<noteq> place s (dest - of_nat n + of_nat i)"
proof -
  have m: "\<And>i. i < n + m \<Longrightarrow> mmu_walk s (dest - of_nat (Suc i)) \<noteq> None"
    and inj: "inj_on (\<lambda>i. place s (dest - of_nat (Suc i))) {..<n + m}" using assms by (auto simp: stack_room_def)
  show "mmu_walk s (dest - of_nat n + of_nat i) \<noteq> None" if "i < n" for i
    using m[of "n - 1 - i"] that by (simp only: stack_addr(1)) simp
  show "inj_on (\<lambda>i. place s (dest - of_nat n + of_nat i)) {..<n}"
  proof (rule inj_onI)
    fix i j assume i: "i \<in> {..<n}" and j: "j \<in> {..<n}" and e: "place s (dest - of_nat n + of_nat i) = place s (dest - of_nat n + of_nat j)"
    have ij: "i < n" "j < n" using i j by simp_all
    have "n - 1 - i = n - 1 - j"
      by (rule inj_onD[OF inj e[unfolded stack_addr(1)[OF ij(1)] stack_addr(1)[OF ij(2)]]]) (use ij in simp_all)
    then show "i = j" using i j by auto
  qed
  show "stack_room (s\<lparr>pages := p\<rparr>) (dest - of_nat n) m"
    unfolding stack_room_def stack_addr(2) mmu_walk_frame place_frame
  proof (intro conjI allI impI inj_onI)
    fix i assume "i < m" then show "mmu_walk s (dest - of_nat (Suc (n + i))) \<noteq> None" by (intro m) simp
  next
    fix i j assume "i \<in> {..<m}" "j \<in> {..<m}" "place s (dest - of_nat (Suc (n + i))) = place s (dest - of_nat (Suc (n + j)))"
    then have "n + i = n + j" by (intro inj_onD[OF inj]) auto
    then show "i = j" by simp
  qed
  show "place s (dest - of_nat n - of_nat (Suc j)) \<noteq> place s (dest - of_nat n + of_nat i)" if "i < n" "j < m" for i j
  proof
    assume "place s (dest - of_nat n - of_nat (Suc j)) = place s (dest - of_nat n + of_nat i)"
    then have "n + j = n - 1 - i" using that unfolding stack_addr(2) stack_addr(1)[OF that(1)] by (intro inj_onD[OF inj]) auto
    then show False using that by simp
  qed
qed

lemma push_strings_spec:
  assumes "stack_room s dest (total_len strs)" "\<forall>str\<in>set strs. 0 \<notin> set str"
  shows "\<exists>p vec. push_strings dest strs s = Inr ((dest - of_nat (total_len strs), vec), s\<lparr>pages := p\<rparr>) \<and> length vec = length strs
    \<and> (\<forall>k<length strs. string_at (s\<lparr>pages := p\<rparr>) (vec ! k) (strs ! k))
    \<and> (\<forall>x. (\<forall>i<total_len strs. place s (dest - of_nat (Suc i)) \<noteq> place s x) \<longrightarrow> peek (s\<lparr>pages := p\<rparr>) x = peek s x)"
  using assms
proof (induction strs arbitrary: dest s)
  case Nil
  have "s = s\<lparr>pages := pages s\<rparr>" by simp
  then show ?case by (intro exI[of _ "pages s"]) (simp add: total_len_def)
next
  case (Cons str strs)
  define n where "n = length str + 1" define d where "d = dest - of_nat n"
  have T: "total_len (str # strs) = n + total_len strs" by (simp add: total_len_def n_def)
  note room = stack_room_split[OF Cons.prems(1)[unfolded T], folded d_def]
  have n: "length (str @ [0 :: u8]) = n" by (simp add: n_def)
  obtain p1 where w: "user_write_bytes d (str @ [0]) s = Inr ((), s\<lparr>pages := p1\<rparr>)"
    using write_bytes_run[of "str @ [0]" s d] room(1) unfolding n by blast
  note pk = write_bytes_peek[OF w, unfolded n, OF room(2)]
  let ?s1 = "s\<lparr>pages := p1\<rparr>"
  obtain p2 vec where ih: "push_strings d strs ?s1 = Inr ((d - of_nat (total_len strs), vec), ?s1\<lparr>pages := p2\<rparr>)" "length vec = length strs"
    "\<forall>k<length strs. string_at (?s1\<lparr>pages := p2\<rparr>) (vec ! k) (strs ! k)"
    "\<forall>x. (\<forall>i<total_len strs. place ?s1 (d - of_nat (Suc i)) \<noteq> place ?s1 x) \<longrightarrow> peek (?s1\<lparr>pages := p2\<rparr>) x = peek ?s1 x"
    using Cons.IH[OF room(3)[of p1]] Cons.prems(2) by auto
  let ?s2 = "s\<lparr>pages := p2\<rparr>"
  have "peek ?s2 (d + of_nat i) = Some ((str @ [0]) ! i)" if "i < n" for i
    using ih(4)[rule_format, of "d + of_nat i"] room(4)[OF that] pk that by simp
  then have str: "string_at ?s2 d str" using Cons.prems(2) by (auto simp: string_at_def n_def less_Suc_eq_le)
  have "string_at ?s2 ((d # vec) ! k) ((str # strs) ! k)" if "k < length (str # strs)" for k
    using that str ih(3) by (cases k) simp_all
  moreover have "peek ?s2 x = peek s x" if x: "\<forall>i<n + total_len strs. place s (dest - of_nat (Suc i)) \<noteq> place s x" for x
  proof -
    have "place s (d + of_nat i) \<noteq> place s x" if "i < n" for i
      using x[rule_format, of "n - 1 - i"] that unfolding d_def stack_addr(1)[OF that] by simp
    moreover have "place s (d - of_nat (Suc i)) \<noteq> place s x" if "i < total_len strs" for i
      using x[rule_format, of "n + i"] that unfolding d_def stack_addr(2) by simp
    ultimately show ?thesis using pk ih(4)[rule_format, of x] by simp
  qed
  moreover have "push_strings dest (str # strs) s = Inr ((dest - of_nat (total_len (str # strs)), d # vec), ?s2)"
  proof -
    have "dest - (of_nat (length str) + 1) = d" by (simp add: d_def n_def)
    moreover have "dest - of_nat (n + total_len strs) = d - of_nat (total_len strs)" by (simp add: d_def)
    ultimately show ?thesis using w ih(1) by (simp only: push_strings.simps T Let_def) simp
  qed
  ultimately show ?case unfolding T using ih(2) by (intro exI[of _ p2] exI[of _ "d # vec"]) simp
qed

text \<open>C32: the arguments that \<open>exec\<close> copies to the new stack can be read back. When the bytes below the top of the
  stack are mapped, one byte of memory each, and the strings contain no NUL, the copying loop ends without a fault, the vector it builds
  has one pointer for each string, reading a string at each of these pointers, as the new program does, ends and gives the argument of that number, and no other byte of the address space changes.\<close>

theorem exec_arguments_readable:
  assumes "stack_room s dest (total_len strs)" and "\<forall>str\<in>set strs. 0 \<notin> set str"
  shows "\<exists>vec s'. push_strings dest strs s = Inr ((dest - of_nat (total_len strs), vec), s') \<and> length vec = length strs
    \<and> (\<forall>k<length strs. user_string (vec ! k) s' = Inr (strs ! k, s'))
    \<and> (\<forall>x. (\<forall>i<total_len strs. place s (dest - of_nat (Suc i)) \<noteq> place s x) \<longrightarrow> peek s' x = peek s x)"
proof -
  obtain p vec where "push_strings dest strs s = Inr ((dest - of_nat (total_len strs), vec), s\<lparr>pages := p\<rparr>)" "length vec = length strs"
    "\<forall>k<length strs. string_at (s\<lparr>pages := p\<rparr>) (vec ! k) (strs ! k)"
    "\<forall>x. (\<forall>i<total_len strs. place s (dest - of_nat (Suc i)) \<noteq> place s x) \<longrightarrow> peek (s\<lparr>pages := p\<rparr>) x = peek s x"
    using push_strings_spec[OF assms] by blast
  then show ?thesis using user_string_at by (intro exI[of _ vec] exI[of _ "s\<lparr>pages := p\<rparr>"]) blast
qed

theorem exec_arguments_readable_witness:
  "\<exists>vec s'. push_strings 0xffffffff [[105, 110, 105, 116], [45, 118]] (demo_vm\<lparr>tables := (\<lambda>_ _. 0x400007)\<rparr>)
      = Inr ((0xfffffff7, vec), s') \<and> user_string (vec ! 1) s' = Inr ([45, 118], s')"
proof -
  let ?s = "demo_vm\<lparr>tables := (\<lambda>_ _. 0x400007)\<rparr>"
  have m: "mmu_walk ?s va = Some (frame_index 0x400000)" for va by (simp add: mmu_walk_def DEFLAG_ADDR_def Let_def)
  have T: "total_len [[105, 110, 105, 116], [45, 118]] = 8" by (simp add: total_len_def)
  have a: "unat ((0xffffffff :: u32) - of_nat (Suc i)) mod 4096 = 4094 - i" if "i < 8" for i
  proof -
    have "i = 0 \<or> i = 1 \<or> i = 2 \<or> i = 3 \<or> i = 4 \<or> i = 5 \<or> i = 6 \<or> i = 7" using that by arith
    then show ?thesis by (elim disjE) simp_all
  qed
  have "stack_room ?s 0xffffffff 8"
    unfolding stack_room_def
  proof (intro conjI allI impI inj_onI)
    fix i j :: nat assume "i \<in> {..<8}" "j \<in> {..<8}" "place ?s (0xffffffff - of_nat (Suc i)) = place ?s (0xffffffff - of_nat (Suc j))"
    then have "i < 8" "j < 8" "4094 - i = 4094 - j" unfolding place_def using a[of i] a[of j] by auto
    then show "i = j" by arith
  qed (simp add: m)
  from exec_arguments_readable[OF this[folded T]] obtain vec s' where r:
    "push_strings 0xffffffff [[105, 110, 105, 116], [45, 118]] ?s = Inr ((0xffffffff - of_nat 8, vec), s')"
    "\<forall>k<2. user_string (vec ! k) s' = Inr ([[105, 110, 105, 116], [45, 118]] ! k, s')" unfolding T by auto
  show ?thesis using r(1) r(2)[rule_format, of 1] by (intro exI[of _ vec] exI[of _ s']) simp
qed

end
