(* ===== verification/Preserves.thy ===== *)
theory Preserves
  imports Paging
begin

text \<open>
  What an operation leaves alone: rules that follow the structure of an operation, and with them the fact that the
  heap and the page tables never touch the control blocks and lists of the core.
\<close>

section \<open>Rules\<close>

text \<open>\<open>preserves v m\<close>: whenever \<open>m\<close> comes back, it has not changed the value of \<open>v\<close>. The rules follow the
  structure of the operation.\<close>

definition preserves :: "('s \<Rightarrow> 'v) \<Rightarrow> ('s, 'r) kop \<Rightarrow> bool" where
  "preserves v m \<longleftrightarrow> (\<forall>s r s'. m s = Inr (r, s') \<longrightarrow> v s' = v s)"

named_theorems preserve "rules for preserves"

lemma preservesD: "preserves v m \<Longrightarrow> m s = Inr (r, s') \<Longrightarrow> v s' = v s"
  by (simp add: preserves_def)

lemma preserves_bindK [preserve]: "preserves v m \<Longrightarrow> (\<And>r. preserves v (f r)) \<Longrightarrow> preserves v (bindK m f)"
  by (fastforce simp: preserves_def bindK_def split: sum.splits prod.splits)

lemma preserves_basic [preserve]: "preserves v (returnK r)" "preserves v (failK e)" "preserves v (readK g)"
  by (simp_all add: preserves_def)

lemma preserves_modifyK [preserve]: "(\<And>s. v (g s) = v s) \<Longrightarrow> preserves v (modifyK g)"
  by (simp add: preserves_def)

lemma preserves_if [preserve]: "(c \<Longrightarrow> preserves v m) \<Longrightarrow> (\<not> c \<Longrightarrow> preserves v n) \<Longrightarrow> preserves v (if c then m else n)"
  by simp

lemma preserves_liftF [preserve]: "preserves v (liftF x)"
  by (simp add: preserves_def liftF_def split: sum.split)

lemma preserves_forK [preserve]: "(\<And>i. preserves v (f i)) \<Longrightarrow> preserves v (forK is f)"
  by (induction "is") (auto intro!: preserve)

section \<open>The core of the state\<close>

definition core_of :: "'a kcore_scheme \<Rightarrow> _" where
  "core_of s = (lh s, tcbs s, pcbs s, vas s, current_thread s)"

lemma core_lock [preserve]: "preserves core_of (mutex_lock m)" "preserves core_of (mutex_unlock m)"
  by (auto simp: preserves_def core_of_def mutex_lock_def mutex_unlock_def set_mutex_def split: if_splits option.splits sum.splits)

lemma core_heap [preserve]: "preserves core_of (pool_alloc f)" "preserves core_of (poke g)"
  by (auto simp: preserves_def core_of_def pool_alloc_def poke_def split: sum.splits)

lemma core_locked [preserve]: "preserves core_of m \<Longrightarrow> preserves core_of (locked m)"
  unfolding locked_def by (intro preserve)

lemma core_malloc [preserve]: "preserves core_of (malloc sz)" "preserves core_of (memalign al sz)"
  by (auto simp: malloc_def memalign_def u_malloc_def u_memalign_def Let_def intro!: preserve)

lemma core_vm [preserve]:
  "preserves core_of (on_frames m)" "preserves core_of (tab_read b i)" "preserves core_of (tab_write b i w)"
  "preserves core_of (tab_clear b)" "preserves core_of (memset_page va)"
  by (auto simp: preserves_def core_of_def on_frames_def zoomK_def tab_read_def tab_write_def tab_clear_def memset_page_def
    split: if_splits sum.splits option.splits)

lemma core_allocate [preserve]: "preserves core_of (virtual_map_physical pd i j)" "preserves core_of (allocate_pages pd va sz)"
  by (auto simp: virtual_map_physical_def allocate_pages_def for_range_def Let_def intro!: preserve)

end
