(* ===== verification/Memory_Calls.thy ===== *)
theory Memory_Calls
  imports Process Preserves
begin

unbundle bit_operations_syntax

text \<open>
  \<open>new_pages\<close> and \<open>remove_pages\<close>, \<open>kern/memory/sys_memory_management.c\<close>. Each process keeps a list
  of \<open>VA_INFO\<close> structures, one for every successful \<open>new_pages\<close>.
\<close>

definition VA_INFO_SIZE :: u32 where "VA_INFO_SIZE = 16"

text \<open>The loop that refuses a range in which a page is mapped already. The page number is added to the
  address in 32-bit arithmetic.\<close>

definition range_taken :: "u32 \<Rightarrow> u32 \<Rightarrow> nat \<Rightarrow> ('a kvm_scheme, bool) kop" where
  "range_taken PD addr requested_page_num =
     bindK (forE [0..<requested_page_num] (\<lambda>i.
       let cur_addr = addr + 4096 * of_nat i in
       bindK (tab_read PD (VA_PD_IND cur_addr)) (\<lambda>pde.
         if DEFLAG_ADDR pde = 0 then returnK None
         else bindK (tab_read (DEFLAG_ADDR pde) (VA_PT_IND cur_addr)) (\<lambda>pte.
           returnK (if DEFLAG_ADDR pte \<noteq> 0 then Some () else None))))) (\<lambda>r. returnK (r \<noteq> None))"

definition sys_new_pages :: "u32 \<Rightarrow> int \<Rightarrow> ('a kvm_scheme, int) kop" where
  "sys_new_pages addr len =
     (if \<not> is_user_addr addr then returnK (-1)
      else if addr AND 0xfff \<noteq> 0 then returnK (-1)
      else if len < 0 \<or> len AND 0xfff \<noteq> 0 then returnK (-1)
      else
        let requested_page_num = len div 4096 in
        bindK (readK (\<lambda>s. free_frame_num (frs s))) (\<lambda>free_num.
        if requested_page_num > free_num then returnK (-1)
        else
          bindK (readK current_thread) (\<lambda>me.
          bindK (get_tcb me) (\<lambda>t.
          bindK (get_pcb (t_pcb t)) (\<lambda>p.
          bindK (range_taken (p_PD p) addr (nat requested_page_num)) (\<lambda>taken.
          if taken then returnK (-1)
          else
            bindK (allocate_pages (p_PD p) addr (word_of_int len)) (\<lambda>_.
            bindK (malloc VA_INFO_SIZE) (\<lambda>info.
            if info = 0 then failK Null_Deref
            else
              bindK (modifyK (\<lambda>s. s\<lparr>vas := (vas s)(info := \<lparr>v_virtual_addr = addr, v_len = word_of_int len\<rparr>)\<rparr>)) (\<lambda>_.
              bindK (insert_last (Va (t_pcb t)) (Va_node info)) (\<lambda>_. returnK 0))))))))))"

definition sys_remove_pages :: "u32 \<Rightarrow> ('a kvm_scheme, int) kop" where
  "sys_remove_pages addr =
     (if \<not> is_user_addr addr then returnK (-1)
      else if addr AND 0xfff \<noteq> 0 then returnK (-1)
      else
        bindK (addr_has_mapping addr) (\<lambda>mapped.
        if \<not> mapped then returnK (-1)
        else
          bindK (readK current_thread) (\<lambda>me.
          bindK (get_tcb me) (\<lambda>t.
          bindK (get_pcb (t_pcb t)) (\<lambda>p.
          bindK (tab_read (p_PD p) (VA_PD_IND addr)) (\<lambda>pde.
          bindK (tab_read (DEFLAG_ADDR pde) (VA_PT_IND addr)) (\<lambda>phys_addr_raw.
          if phys_addr_raw AND 0x7 \<noteq> 0x7 then returnK (-1)
          else
            bindK (search entry_va (Va (t_pcb t)) (\<lambda>s v. v_virtual_addr (vas s v) = addr)) (\<lambda>r.
            case r of
              None \<Rightarrow> returnK (-1)
            | Some info \<Rightarrow>
                bindK (readK (\<lambda>s. v_len (vas s info))) (\<lambda>len.
                bindK (free_pages (p_PD p) addr len) (\<lambda>_.
                bindK (delete_node (Va (t_pcb t)) (Va_node info)) (\<lambda>_.
                bindK (set_cr3 (p_PD p)) (\<lambda>_. returnK 0))))))))))))"

section \<open>What new_pages does\<close>

lemma forE_read:
  assumes "\<And>i. i \<in> set is \<Longrightarrow> f i s = Inr (g i, s)"
  shows "\<exists>r. forE is f s = Inr (r, s) \<and> (r \<noteq> None \<longleftrightarrow> (\<exists>i\<in>set is. g i \<noteq> None))"
  using assms
proof (induction "is")
  case (Cons i "is")
  then show ?case by (cases "g i") auto
qed simp

lemma page_addr:
  assumes "unat addr mod 4096 = 0" "unat addr div 4096 + i < PAGES"
  shows "VA_PD_IND (addr + 4096 * of_nat i) = (unat addr div 4096 + i) div PAGE_LEN"
    "VA_PT_IND (addr + 4096 * of_nat i) = (unat addr div 4096 + i) mod PAGE_LEN"
proof -
  have i: "i < 2 ^ 20" "unat addr + 4096 * i < 2 ^ 32" using assms by (simp_all add: PAGES_def PAGE_LEN_def)
  have "unat (of_nat (4096 * i) :: u32) = 4096 * i" using i by (intro unat_of_nat_eq) simp
  then have "unat (4096 * of_nat i :: u32) = 4096 * i" by simp
  then have "unat (addr + 4096 * of_nat i) = unat addr + 4096 * i" using i(2) by (simp add: unat_add_lem[THEN iffD1])
  then have "unat (addr + 4096 * of_nat i) div 4096 = unat addr div 4096 + i" by simp
  then show "VA_PD_IND (addr + 4096 * of_nat i) = (unat addr div 4096 + i) div PAGE_LEN"
    "VA_PT_IND (addr + 4096 * of_nat i) = (unat addr div 4096 + i) mod PAGE_LEN"
    using page_number[of "addr + 4096 * of_nat i" 0] by (simp_all add: VA_PD_unat VA_PT_unat PAGE_LEN_def)
qed

lemma range_taken_spec:
  assumes sp: "space_ok s pd" and al: "unat addr mod 4096 = 0" and P: "P = unat addr div 4096" and n: "P + n \<le> PAGES"
  shows "range_taken pd addr n s = Inr (\<exists>k<n. DEFLAG_ADDR (pte_at s pd (P + k)) \<noteq> 0, s)"
proof -
  have z: "DEFLAG_ADDR 0 = 0" by (simp add: DEFLAG_ADDR_def)
  have pd: "pd \<noteq> 0" using sp used_page_nz by (auto simp: space_ok_def)
  let ?f = "\<lambda>i. let cur_addr = addr + 4096 * of_nat i in
       bindK (tab_read pd (VA_PD_IND cur_addr)) (\<lambda>pde.
         if DEFLAG_ADDR pde = 0 then returnK None
         else bindK (tab_read (DEFLAG_ADDR pde) (VA_PT_IND cur_addr)) (\<lambda>pte.
           returnK (if DEFLAG_ADDR pte \<noteq> 0 then Some () else None)))"
  have "?f i s = Inr (if DEFLAG_ADDR (pte_at s pd (P + i)) \<noteq> 0 then Some () else None, s)" if "i \<in> set [0..<n]" for i
  proof -
    have q: "P + i < PAGES" using that n by simp
    note ix = page_addr[OF al q[unfolded P], folded P] page_index(1)[OF q] page_index(2)[of "P + i"]
    show ?thesis
    proof (cases "tables s pd ((P + i) div PAGE_LEN) = 0")
      case True
      then show ?thesis using pd ix by (simp add: tab_read_def pte_at_def pte_of_def z Let_def)
    next
      case False
      then have "DEFLAG_ADDR (tables s pd ((P + i) div PAGE_LEN)) \<noteq> 0" using sp ix(3) used_page_nz by (auto simp: space_ok_def)
      then have "tab_read (DEFLAG_ADDR (tables s pd ((P + i) div PAGE_LEN))) ((P + i) mod PAGE_LEN) s = Inr (pte_at s pd (P + i), s)"
        using ix(4) False by (simp only: tab_read_def pte_at_def pte_of_def not_le[symmetric] if_False simp_thms)
      then show ?thesis using False pd ix \<open>DEFLAG_ADDR _ \<noteq> 0\<close> by (simp add: tab_read_def[of pd] Let_def)
    qed
  qed
  from forE_read[of "[0..<n]" ?f s, OF this] obtain r where "forE [0..<n] ?f s = Inr (r, s)"
    and "r \<noteq> None \<longleftrightarrow> (\<exists>i\<in>set [0..<n]. (if DEFLAG_ADDR (pte_at s pd (P + i)) \<noteq> 0 then Some () else None) \<noteq> None)" by blast
  moreover from this(2) have "(r \<noteq> None) = (\<exists>k<n. DEFLAG_ADDR (pte_at s pd (P + k)) \<noteq> 0)" by (auto split: if_splits)
  ultimately show ?thesis by (simp only: range_taken_def) simp
qed

lemma malloc_vm:
  assumes ok: "vm_ok s" "space_ok s pd" and sz: "unat sz + 11 < 2 ^ 32"
  shows "\<exists>p L hm. malloc sz s = Inr (p, heap_step s L hm) \<and> vm_ok (heap_step s L hm) \<and> space_ok (heap_step s L hm) pd"
proof -
  have h: "heap_ok s" "lmm_ok (malloc_lmm s)" using ok(1) by (simp_all add: vm_ok_def heap_ok_def)
  have u: "unat (sz + 4) = unat sz + 4" using sz by (simp add: unat_add_lem[THEN iffD1])
  from lmm_alloc_spec[OF h(2), of "sz + 4" 0] u sz obtain p L where a: "lmm_alloc (malloc_lmm s) (sz + 4) 0 = Inr (p, L)"
    and c: "L = malloc_lmm s \<or> alloc_post (malloc_lmm s) p (round8 (unat (sz + 4))) L" by auto
  define hm where "hm = (if p = 0 then hmem s else store32 p (sz + 4) (hmem s))"
  let ?s' = "heap_step s L hm"
  have c': "lmm_ok L" "heads L = heads (malloc_lmm s)" "lmm_bytes L \<subseteq> lmm_bytes (malloc_lmm s)"
    using c h(2) by (auto simp: alloc_post_def)
  have "managed_by ?s' = managed_by s" by (rule managed_by_heads) (simp add: c')
  then have use: "used_page s q \<Longrightarrow> used_page ?s' q" for q using c'(3) by (auto simp: kh.in_use_def)
  have "vm_ok ?s'" using ok(1) heap_step_ok[OF h(1) c'(1)] by (simp add: vm_ok_def)
  moreover have "space_ok ?s' pd" using ok(2) use by (auto simp: space_ok_def)
  ultimately show ?thesis using malloc_run[OF h(1) a, folded hm_def] by blast
qed

lemma pte_at_heap_step [simp]: "pte_at (heap_step s L hm) = pte_at s"
  by (intro ext) (simp add: pte_at_def pte_of_def)

text \<open>The part of \<open>sys_new_pages\<close> behind its checks.\<close>

lemma new_pages_alloc:
  assumes s: "vm_ok s" "space_ok s pd" "cr3 s = pd" and n: "n = page_times va sz" "P = unat va div 4096"
    and rng: "P + n \<le> PAGES" and av: "n + 1 \<le> avail (frs s)" and un: "\<forall>k<n. pte_at s pd (P + k) = 0"
  shows "bindK (allocate_pages pd va sz) (\<lambda>_. malloc VA_INFO_SIZE) s = Inl Null_Deref
      \<and> page_room s < card (new_tables s pd P n)
    \<or> (\<exists>info s' A. bindK (allocate_pages pd va sz) (\<lambda>_. malloc VA_INFO_SIZE) s = Inr (info, s')
        \<and> alloc_inv s pd P n A s' \<and> core_of s' = core_of s \<and> (info = 0 \<longrightarrow> page_room s \<le> card (new_tables s pd P n)))"
proof -
  from allocate_pages_spec[OF s n rng av un] consider "allocate_pages pd va sz s = Inl Null_Deref" "page_room s < card (new_tables s pd P n)"
    | s1 A where "allocate_pages pd va sz s = Inr (0, s1)" "alloc_inv s pd P n A s1" "alloc_room s pd P n s1" by blast
  then show ?thesis
  proof cases
    case 1
    then show ?thesis by simp
  next
    case 2
    have "unat VA_INFO_SIZE + 11 < 2 ^ 32" by (simp add: VA_INFO_SIZE_def)
    with malloc_vm[of s1 pd VA_INFO_SIZE] 2(2) obtain p L hm where m: "malloc VA_INFO_SIZE s1 = Inr (p, heap_step s1 L hm)"
      "vm_ok (heap_step s1 L hm)" "space_ok (heap_step s1 L hm) pd" by (auto simp: alloc_inv_def)
    have "alloc_inv s pd P n A (heap_step s1 L hm)"
      using 2(2) m(2,3) by (simp add: alloc_inv_def)
    moreover have "core_of (heap_step s1 L hm) = core_of s"
      using preservesD[OF core_allocate(2) 2(1)] by (simp add: core_of_def)
    moreover have "page_room s \<le> card (new_tables s pd P n)" if "p = 0"
    proof -
      have "unat VA_INFO_SIZE + 11 < 8192" by (simp add: VA_INFO_SIZE_def)
      moreover have "heap_ok s1" using 2(2) by (simp add: alloc_inv_def vm_ok_def)
      ultimately have "page_room s1 = 0" using malloc_small m(1) that by blast
      then show ?thesis using 2(3) by (simp add: alloc_room_def)
    qed
    ultimately show ?thesis using 2(1) m(1) by auto
  qed
qed

lemma alloc_inv_lists:
  assumes "alloc_inv s0 pd P n A s" "headers h (Waiting_queue Malloc_mutex) = headers (lh s) (Waiting_queue Malloc_mutex)"
  shows "alloc_inv s0 pd P n A (s\<lparr>vas := v, lh := h\<rparr>)"
proof -
  let ?s = "s\<lparr>vas := v, lh := h\<rparr>"
  have u: "used_page ?s = used_page s" by (rule used_page_cong) simp
  have p: "pte_at ?s = pte_at s" by (intro ext) (simp add: pte_at_def pte_of_def)
  have "vm_ok ?s = vm_ok s" using assms(2) by (simp add: vm_ok_def heap_ok_def quiet_def)
  moreover have "space_ok ?s pd = space_ok s pd" by (simp add: space_ok_def u)
  ultimately show ?thesis using assms(1) by (simp add: alloc_inv_def p)
qed

lemma page_aligned: "unat addr mod 4096 = 0 \<Longrightarrow> (addr :: u32) AND 0xfff = 0" "4096 * int n AND 0xfff = 0"
proof -
  have m12: "(0xfff :: u32) = mask 12" "(0xfff :: int) = mask 12" by (simp_all add: mask_eq_exp_minus_1)
  assume "unat addr mod 4096 = 0"
  then have "unat (addr AND 0xfff) = 0"
    unfolding m12 by (simp add: take_bit_eq_mask[symmetric] unsigned_take_bit_eq take_bit_eq_mod unat_mod_distrib)
  then show "addr AND 0xfff = 0" by (simp add: unat_eq_zero)
next
  have m12: "(0xfff :: int) = mask 12" by (simp add: mask_eq_exp_minus_1)
  show "4096 * int n AND 0xfff = 0" unfolding m12 by (simp add: take_bit_eq_mask[symmetric] take_bit_eq_mod)
qed

lemma page_times_pages:
  assumes "unat addr mod 4096 = 0" "n < 2 ^ 19"
  shows "n = page_times addr (of_nat (4096 * n))"
proof -
  have "unat (of_nat (4096 * n) :: u32) = 4096 * n" using assms(2) by (intro unat_of_nat_eq) simp
  then have "unat ((of_nat (4096 * n) :: u32) mod 4096) = 0" "unat ((of_nat (4096 * n) :: u32) div 4096) = n"
    by (simp_all only: unat_mod_distrib unat_div_distrib) simp_all
  then show ?thesis
    by (simp only: page_times_def page_aligned(1)[OF assms(1)] Let_def add_0_left unat_eq_zero simp_thms if_True)
qed

text \<open>The checks of \<open>sys_new_pages\<close>.\<close>

lemma new_pages_eval:
  assumes sp: "space_ok s pd"
    and cur: "current_thread s \<noteq> 0" "t_pcb (tcbs s (current_thread s)) = proc" "proc \<noteq> 0" "p_PD (pcbs s proc) = pd"
    and addr: "is_user_addr addr" "unat addr mod 4096 = 0" "P = unat addr div 4096" and n: "P + n \<le> PAGES"
  shows "sys_new_pages addr (4096 * int n) s =
    (if int n > free_frame_num (frs s) \<or> (\<exists>k<n. DEFLAG_ADDR (pte_at s pd (P + k)) \<noteq> 0) then Inr (-1, s)
     else bindK (bindK (allocate_pages pd addr (of_nat (4096 * n))) (\<lambda>_. malloc VA_INFO_SIZE)) (\<lambda>info.
            if info = 0 then failK Null_Deref
            else
              bindK (modifyK (\<lambda>s. s\<lparr>vas := (vas s)(info := \<lparr>v_virtual_addr = addr, v_len = of_nat (4096 * n)\<rparr>)\<rparr>)) (\<lambda>_.
              bindK (insert_last (Va proc) (Va_node info)) (\<lambda>_. returnK 0))) s)"
    (is "_ = (if _ \<or> ?b then _ else _)")
proof -
  define b where "b = ?b"
  define L where "L = (of_nat (4096 * n) :: u32)"
  have len: "word_of_int (4096 * int n) = (of_nat (4096 * n) :: u32)" by simp
  have t: "range_taken pd addr n s = Inr (b, s)" using range_taken_spec[OF sp addr(2,3) n] by (simp only: b_def)
  show ?thesis
    unfolding sys_new_pages_def len L_def[symmetric] b_def[symmetric] bindK_assoc
    using cur addr(1) page_aligned(1)[OF addr(2)] page_aligned(2)[of n] t by (cases b) (simp_all add: Let_def cong: if_cong)
qed

text \<open>C6: \<open>new_pages\<close> of \<open>n\<close> pages at an aligned user address, inside the address space of the running process. If more pages
  are asked for than the counter says are free, or a page of the range is mapped, the call returns -1 and changes nothing. Otherwise,
  where the free list holds one frame more than are asked for and the entries of the range are zero, it returns 0: each page has a
  frame of its own that no mapping used before, filled with zeros, no other page of the process and no frame in use has changed, and
  the allocation is recorded at the end of the list of the process. The only other outcome is a write through NULL, and it happens only
  when the free memory of the heap cannot hold a page for each page table that is missing in the range and one more for the record.\<close>

theorem new_pages_correct:
  assumes vm: "vm_ok s" "space_ok s pd" "cr3 s = pd"
    and cur: "current_thread s \<noteq> 0" "t_pcb (tcbs s (current_thread s)) = proc" "proc \<noteq> 0" "p_PD (pcbs s proc) = pd"
    and addr: "is_user_addr addr" "unat addr mod 4096 = 0" "P = unat addr div 4096" and n: "n < 2 ^ 19" "P + n \<le> PAGES"
  shows "if int n > free_frame_num (frs s) \<or> (\<exists>k<n. DEFLAG_ADDR (pte_at s pd (P + k)) \<noteq> 0)
    then sys_new_pages addr (4096 * int n) s = Inr (-1, s)
    else n + 1 \<le> avail (frs s) \<and> (\<forall>k<n. pte_at s pd (P + k) = 0) \<longrightarrow>
      sys_new_pages addr (4096 * int n) s = Inl Null_Deref \<and> page_room s < card (new_tables s pd P n) + 1 \<or>
      (\<exists>s' A info. sys_new_pages addr (4096 * int n) s = Inr (0, s') \<and> alloc_inv s pd P n A s'
         \<and> vas s' info = \<lparr>v_virtual_addr = addr, v_len = of_nat (4096 * n)\<rparr>
         \<and> lh s' = list_insert_last (lh s) (Some (Va proc)) (Some (Va_node info)))"
proof -
  note run = new_pages_eval[OF vm(2) cur addr n(2)]
  note pt = page_times_pages[OF addr(2) n(1)]
  show ?thesis
  proof (cases "int n > free_frame_num (frs s) \<or> (\<exists>k<n. DEFLAG_ADDR (pte_at s pd (P + k)) \<noteq> 0)")
    case True
    then show ?thesis using run by (simp only: if_True)
  next
    case False
    note run' = run[unfolded if_not_P[OF False]]
    have "sys_new_pages addr (4096 * int n) s = Inl Null_Deref \<and> page_room s < card (new_tables s pd P n) + 1 \<or>
      (\<exists>s' A info. sys_new_pages addr (4096 * int n) s = Inr (0, s') \<and> alloc_inv s pd P n A s'
         \<and> vas s' info = \<lparr>v_virtual_addr = addr, v_len = of_nat (4096 * n)\<rparr>
         \<and> lh s' = list_insert_last (lh s) (Some (Va proc)) (Some (Va_node info)))"
      if a: "n + 1 \<le> avail (frs s)" "\<forall>k<n. pte_at s pd (P + k) = 0"
    proof -
      from new_pages_alloc[OF vm pt addr(3) n(2) a] consider
        "bindK (allocate_pages pd addr (of_nat (4096 * n))) (\<lambda>_. malloc VA_INFO_SIZE) s = Inl Null_Deref"
          "page_room s < card (new_tables s pd P n)"
        | info s1 A where "bindK (allocate_pages pd addr (of_nat (4096 * n))) (\<lambda>_. malloc VA_INFO_SIZE) s = Inr (info, s1)"
          "alloc_inv s pd P n A s1" "core_of s1 = core_of s" "info = 0 \<longrightarrow> page_room s \<le> card (new_tables s pd P n)" by blast
      then show ?thesis
      proof cases
        case 1
        then show ?thesis unfolding run' by simp
      next
        case 2
        let ?v = "\<lparr>v_virtual_addr = addr, v_len = of_nat (4096 * n)\<rparr>"
        define s' where "s' = s1\<lparr>vas := (vas s1)(info := ?v), lh := list_insert_last (lh s1) (Some (Va proc)) (Some (Va_node info))\<rparr>"
        have "alloc_inv s pd P n A s'" unfolding s'_def by (rule alloc_inv_lists[OF 2(2)]) simp
        moreover have "lh s1 = lh s" using 2(3) by (simp add: core_of_def)
        moreover have "sys_new_pages addr (4096 * int n) s = (if info = 0 then Inl Null_Deref else Inr (0, s'))"
          unfolding run' using 2(1) by (simp add: insert_last_def s'_def)
        ultimately show ?thesis using 2(4) by (cases "info = 0") (auto simp: s'_def)
      qed
    qed
    then show ?thesis using False by (simp only: if_False) blast
  qed
qed

theorem new_pages_correct_witness:
  "\<exists>s' A. sys_new_pages 0x01000000 (4096 * int 2) (demo_vm\<lparr>frs := (frs demo_vm)\<lparr>free_frame_num := 61440\<rparr>\<rparr>) = Inr (0, s')
        \<and> (\<forall>k<2. pte_at s' 0x300000 (4096 + k) = A k OR 7 \<and> pages s' (frame_index (A k)) = (\<lambda>_. 0))"
proof -
  let ?s = "demo_vm\<lparr>frs := (frs demo_vm)\<lparr>free_frame_num := 61440\<rparr>\<rparr>"
  have d: "current_thread ?s = 8" "tcbs ?s 8 = empty_tcb\<lparr>t_pcb := 16\<rparr>" "pcbs ?s 16 = empty_pcb\<lparr>p_PD := 0x300000\<rparr>"
    by (simp_all add: demo_vm_defs)
  have f: "frames_ok (f\<lparr>free_frame_num := m\<rparr>) = frames_ok f" "live (f\<lparr>free_frame_num := m\<rparr>) = live f" "avail (f\<lparr>free_frame_num := m\<rparr>) = avail f" for f m
    by (simp_all add: frames_ok_def live_def avail_def reachable_free_def)
  have vm: "vm_ok ?s" using demo_vm_ok by (simp add: vm_ok_def heap_ok_def quiet_def f)
  have u: "used_page ?s = used_page demo_vm" by (rule used_page_cong) simp
  have sp: "space_ok ?s 0x300000" using demo_vm_space(1) by (simp add: space_ok_def u)
  have cr: "cr3 ?s = 0x300000" using demo_vm_space(2) by simp
  have pt: "pte_at ?s 0x300000 q = 0" for q using demo_vm_space(4)[of q] by (simp add: pte_at_def pte_of_def split: if_splits)
  have z: "DEFLAG_ADDR 0 = 0" by (simp add: DEFLAG_ADDR_def)
  have room: "card (new_tables ?s 0x300000 4096 2) \<le> 2" "page_room ?s = 127"
    using new_tables_le demo_vm_room page_room_cong[of ?s demo_vm] by simp_all
  have "is_user_addr 0x01000000" by (simp add: is_user_addr_def)
  moreover have "(2 :: nat) < 2 ^ 19" "4096 + 2 \<le> PAGES" "avail (frs ?s) = 61440" by (simp_all add: PAGES_def PAGE_LEN_def f demo_vm_avail)
  ultimately show ?thesis
    using new_pages_correct[OF vm sp cr, of 16 "0x01000000" 4096 2] d room
    by (auto simp: pt z alloc_inv_def)
qed

end
