(* ===== verification/Console.thy ===== *)
theory Console
  imports Prelude
begin

text \<open>
  The console driver, \<open>kern/hardware/console.c\<close>. The state is the structure \<open>myCursor\<close>, the
  video memory (bytes at offsets from \<open>CONSOLE_MEM_BASE\<close>) and the log of bytes written to
  I/O ports by \<open>outb\<close>. C \<open>int\<close> values are \<open>int\<close>; the \<open>uint16_t\<close> cursor offset is a
  16-bit word, and characters and attributes are truncated to bytes when they are stored.

  \<open>cursor_next\<close> contains \<open>myCursor.row = myCursor.row ++\<close>, whose result C leaves undefined;
  the Boolean argument \<open>pp\<close> of the printing functions says whether the compiled code keeps
  the increment. The theorems hold for both answers.
\<close>

section \<open>State\<close>

definition CONSOLE_WIDTH :: int where "CONSOLE_WIDTH = 80"
definition CONSOLE_HEIGHT :: int where "CONSOLE_HEIGHT = 25"
definition CRTC_IDX_REG :: u16 where "CRTC_IDX_REG = 0x3d4"
definition CRTC_DATA_REG :: u16 where "CRTC_DATA_REG = 0x3d5"
definition CRTC_CURSOR_LSB_IDX :: u8 where "CRTC_CURSOR_LSB_IDX = 15"
definition CRTC_CURSOR_MSB_IDX :: u8 where "CRTC_CURSOR_MSB_IDX = 14"

lemmas console_consts = CONSOLE_WIDTH_def CONSOLE_HEIGHT_def

record console =
  row :: int
  col :: int
  color :: int
  offset :: u16
  is_visible :: bool
  vram :: "int \<Rightarrow> u8"
  ports :: "(u16 \<times> u8) list"

definition initial_cursor :: "(int \<Rightarrow> u8) \<Rightarrow> console" where
  "initial_cursor m =
     \<lparr>row = 0, col = 0, color = 0x7, offset = 0xFF, is_visible = False, vram = m, ports = []\<rparr>"

definition outb :: "u16 \<Rightarrow> u8 \<Rightarrow> console \<Rightarrow> console" where
  "outb p v c = c\<lparr>ports := ports c @ [(p, v)]\<rparr>"

section \<open>Cursor bookkeeping\<close>

definition update_offset :: "console \<Rightarrow> console" where
  "update_offset c =
     (if \<not> is_visible c then c\<lparr>offset := 0xFFFF\<rparr>
      else c\<lparr>offset := word_of_int (CONSOLE_WIDTH * row c + col c)\<rparr>)"

definition update_cursor :: "console \<Rightarrow> console" where
  "update_cursor c0 =
     (let c = update_offset c0;
          high_bits = ucast (drop_bit 8 (offset c) AND 0x00FF) :: u8;
          low_bits = ucast (offset c AND 0x00FF) :: u8
      in outb CRTC_DATA_REG low_bits (outb CRTC_IDX_REG CRTC_CURSOR_LSB_IDX
           (outb CRTC_DATA_REG high_bits (outb CRTC_IDX_REG CRTC_CURSOR_MSB_IDX c))))"

definition cursor_back :: "console \<Rightarrow> console" where
  "cursor_back c =
     (if col c > 0 then c\<lparr>col := col c - 1\<rparr>
      else if col c = 0 \<and> row c = 0 then c
      else if col c = 0 \<and> row c \<noteq> 0 then c\<lparr>col := CONSOLE_WIDTH - 1, row := row c - 1\<rparr>
      else c)"

definition cursor_next :: "bool \<Rightarrow> console \<Rightarrow> console" where
  "cursor_next pp c =
     (if col c < CONSOLE_WIDTH - 1 then c\<lparr>col := col c + 1\<rparr>
      else c\<lparr>col := 0, row := (if pp then row c + 1 else row c)\<rparr>)"

definition is_screen_full :: "console \<Rightarrow> bool" where
  "is_screen_full c =
     (if row c < CONSOLE_HEIGHT then False
      else if col c > 0 then True
      else is_visible c)"

section \<open>Video memory\<close>

definition put_cell :: "int \<Rightarrow> u8 \<Rightarrow> u8 \<Rightarrow> (int \<Rightarrow> u8) \<Rightarrow> (int \<Rightarrow> u8)" where
  "put_cell a ch attr m = m(a := ch, a + 1 := attr)"

definition cell_addr :: "int \<Rightarrow> int \<Rightarrow> int" where
  "cell_addr i j = 2 * (i * CONSOLE_WIDTH + j)"

definition for_cells ::
  "(int \<Rightarrow> int \<Rightarrow> (int \<Rightarrow> u8) \<Rightarrow> (int \<Rightarrow> u8)) \<Rightarrow> (int \<Rightarrow> u8) \<Rightarrow> (int \<Rightarrow> u8)" where
  "for_cells body m =
     fold (\<lambda>i. fold (\<lambda>j. body (int i) (int j)) [0..<nat CONSOLE_WIDTH]) [0..<nat CONSOLE_HEIGHT] m"

definition clear_console :: "console \<Rightarrow> console" where
  "clear_console c =
     update_cursor (c\<lparr>row := 0, col := 0,
       vram := for_cells (\<lambda>i j. put_cell (cell_addr i j) 0 (word_of_int (color c))) (vram c)\<rparr>)"

definition scroll_cell :: "int \<Rightarrow> int \<Rightarrow> int \<Rightarrow> (int \<Rightarrow> u8) \<Rightarrow> (int \<Rightarrow> u8)" where
  "scroll_cell clr i j m =
     (let cur = cell_addr i j; nxt = cur + 2 * CONSOLE_WIDTH
      in if i = CONSOLE_HEIGHT - 1
         then put_cell cur 0 (word_of_int clr) m
         else let m' = m(cur := m nxt) in m'(cur + 1 := m' (nxt + 1)))"

definition scroll_up :: "console \<Rightarrow> console" where
  "scroll_up c = c\<lparr>row := row c - 1, vram := for_cells (scroll_cell (color c)) (vram c)\<rparr>"

definition store_char :: "u8 \<Rightarrow> console \<Rightarrow> console" where
  "store_char ch c =
     (let off = word_of_int (row c * CONSOLE_WIDTH + col c) :: u16
      in c\<lparr>vram := put_cell (2 * uint off) ch (word_of_int (color c)) (vram c)\<rparr>)"

definition printbyte :: "bool \<Rightarrow> u8 \<Rightarrow> console \<Rightarrow> console" where
  "printbyte pp ch c =
     (let c' = (if ch = 10 then c\<lparr>row := row c + 1, col := 0\<rparr>
                else if ch = 13 then c\<lparr>col := 0\<rparr>
                else if ch = 8 then store_char 0 (cursor_back c)
                else cursor_next pp (store_char ch c))
      in if is_screen_full c' then scroll_up c' else c')"

definition putbyte :: "bool \<Rightarrow> u8 \<Rightarrow> console \<Rightarrow> int \<times> console" where
  "putbyte pp ch c = (0, update_cursor (printbyte pp ch c))"

text \<open>The loop of \<open>putbytes\<close> over \<open>s[i]\<close>, which stops at a NUL byte.\<close>

fun print_loop :: "bool \<Rightarrow> (nat \<Rightarrow> u8) \<Rightarrow> nat \<Rightarrow> nat \<Rightarrow> console \<Rightarrow> console" where
  "print_loop pp s i 0 c = c"
| "print_loop pp s i (Suc n) c =
     (if s i = 0 then c else print_loop pp s (Suc i) n (printbyte pp (s i) c))"

definition putbytes :: "bool \<Rightarrow> (nat \<Rightarrow> u8) option \<Rightarrow> int \<Rightarrow> (console, unit) kop" where
  "putbytes pp sp len c =
     (if len \<le> 0 then Inr ((), c)
      else case sp of
        None \<Rightarrow> Inl Null_Deref
      | Some s \<Rightarrow> Inr ((), update_cursor (print_loop pp s 0 (nat len) c)))"

section \<open>Interface operations\<close>

definition sys_set_term_color :: "int \<Rightarrow> console \<Rightarrow> int \<times> console" where
  "sys_set_term_color clr c =
     (if clr < 0 \<or> clr > 0xFF then (-1, c) else (0, c\<lparr>color := clr\<rparr>))"

text \<open>\<open>get_term_color\<close> and \<open>get_cursor\<close> write through pointers; \<open>None\<close> is NULL, and the
  result says what is stored there.\<close>

definition get_term_color :: "'p option \<Rightarrow> console \<Rightarrow> ('p \<times> int) list" where
  "get_term_color p c = (case p of None \<Rightarrow> [] | Some a \<Rightarrow> [(a, color c)])"

definition get_cursor :: "'p option \<Rightarrow> 'p option \<Rightarrow> console \<Rightarrow> ('p \<times> int) list" where
  "get_cursor rp cp c =
     (case (rp, cp) of (Some r, Some k) \<Rightarrow> [(r, row c), (k, col c)] | _ \<Rightarrow> [])"

definition set_cursor :: "int \<Rightarrow> int \<Rightarrow> console \<Rightarrow> int \<times> console" where
  "set_cursor r k c =
     (if r < 0 \<or> r \<ge> CONSOLE_HEIGHT then (-1, c)
      else if k < 0 \<or> k \<ge> CONSOLE_WIDTH then (-1, c)
      else (0, update_cursor (c\<lparr>row := r, col := k\<rparr>)))"

definition hide_cursor :: "console \<Rightarrow> console" where
  "hide_cursor c = (if \<not> is_visible c then c else update_cursor (c\<lparr>is_visible := False\<rparr>))"

definition show_cursor :: "console \<Rightarrow> console" where
  "show_cursor c = (if is_visible c then c else update_cursor (c\<lparr>is_visible := True\<rparr>))"

definition draw_char :: "int \<Rightarrow> int \<Rightarrow> int \<Rightarrow> int \<Rightarrow> console \<Rightarrow> console" where
  "draw_char r k ch clr c =
     (if r < 0 \<or> r \<ge> CONSOLE_HEIGHT then c
      else if k < 0 \<or> k \<ge> CONSOLE_WIDTH then c
      else if clr < 0 \<or> clr > 0xff then c
      else c\<lparr>vram := put_cell (2 * (r * CONSOLE_WIDTH + k)) (word_of_int ch) (word_of_int clr) (vram c)\<rparr>)"

definition get_char :: "int \<Rightarrow> int \<Rightarrow> console \<Rightarrow> u8" where
  "get_char r k c =
     (if r < 0 \<or> r \<ge> CONSOLE_HEIGHT then 0
      else if k < 0 \<or> k \<ge> CONSOLE_WIDTH then 0
      else vram c (2 * (r * CONSOLE_WIDTH + k)))"

section \<open>Lemmas\<close>

definition on_screen :: "console \<Rightarrow> bool" where
  "on_screen c \<longleftrightarrow>
     is_visible c \<and> 0 \<le> row c \<and> row c < CONSOLE_HEIGHT \<and> 0 \<le> col c \<and> col c < CONSOLE_WIDTH"

definition screen_bytes :: "int set" where
  "screen_bytes = {0..<2 * (CONSOLE_HEIGHT * CONSOLE_WIDTH)}"

lemma update_cursor_frame [simp]:
  "row (update_cursor c) = row c" "col (update_cursor c) = col c"
  "is_visible (update_cursor c) = is_visible c" "vram (update_cursor c) = vram c"
  "color (update_cursor c) = color c"
  by (simp_all add: update_cursor_def update_offset_def outb_def Let_def)

lemma scroll_up_frame [simp]:
  "row (scroll_up c) = row c - 1" "col (scroll_up c) = col c" "is_visible (scroll_up c) = is_visible c"
  "color (scroll_up c) = color c"
  by (simp_all add: scroll_up_def)

lemma store_char_frame [simp]:
  "row (store_char ch c) = row c" "col (store_char ch c) = col c"
  "is_visible (store_char ch c) = is_visible c" "color (store_char ch c) = color c"
  by (simp_all add: store_char_def Let_def)

lemma on_screen_update_cursor [simp]: "on_screen (update_cursor c) = on_screen c"
  by (simp add: on_screen_def)

text \<open>Every character keeps the cursor on the screen, scrolling at the bottom.\<close>

lemma on_screen_printbyte: "on_screen c \<Longrightarrow> on_screen (printbyte pp ch c)"
  by (auto simp: on_screen_def printbyte_def Let_def cursor_back_def cursor_next_def
      is_screen_full_def console_consts)

lemma on_screen_print_loop: "on_screen c \<Longrightarrow> on_screen (print_loop pp s i n c)"
  by (induction pp s i n c rule: print_loop.induct) (auto simp: on_screen_printbyte)

text \<open>Inner and outer loop of \<open>for_cells\<close>, for a body that writes one cell.\<close>

lemma fold_row:
  assumes body: "\<And>j m a. 0 \<le> j \<Longrightarrow> j < CONSOLE_WIDTH \<Longrightarrow>
    f j m a = (if a = cell_addr i j \<or> a = cell_addr i j + 1 then g m a else m a)"
    and g: "\<And>m m' a. cell_addr i 0 \<le> a \<Longrightarrow> a < cell_addr (i + 1) 0
      \<Longrightarrow> (\<And>b. \<not> (cell_addr i 0 \<le> b \<and> b < cell_addr (i + 1) 0) \<Longrightarrow> m b = m' b) \<Longrightarrow> g m a = g m' a"
    and J: "int J \<le> CONSOLE_WIDTH"
  shows "fold (\<lambda>j. f (int j)) [0..<J] m a =
    (if cell_addr i 0 \<le> a \<and> a < cell_addr i (int J) then g m a else m a)"
  using J
proof (induction J arbitrary: a)
  case 0
  then show ?case by auto
next
  case (Suc J)
  let ?m = "fold (\<lambda>j. f (int j)) [0..<J] m"
  have IH: "?m b = (if cell_addr i 0 \<le> b \<and> b < cell_addr i (int J) then g m b else m b)" for b
    using Suc by simp
  have rng: "cell_addr i (int J) = cell_addr i 0 + 2 * int J"
    "cell_addr i (int (Suc J)) = cell_addr i 0 + 2 * int J + 2"
    "cell_addr i (1 + int J) = cell_addr i 0 + 2 * int J + 2"
    "cell_addr (i + 1) 0 = cell_addr i 0 + 160"
    by (simp_all add: cell_addr_def CONSOLE_WIDTH_def)
  have geq: "g ?m b = g m b" if "cell_addr i 0 \<le> b" "b < cell_addr (i + 1) 0" for b
    using that Suc.prems by (intro g) (auto simp: IH rng CONSOLE_WIDTH_def)
  have "fold (\<lambda>j. f (int j)) [0..<Suc J] m a = f (int J) ?m a" by simp
  also have "\<dots> = (if a = cell_addr i (int J) \<or> a = cell_addr i (int J) + 1 then g ?m a else ?m a)"
    using Suc.prems by (intro body) auto
  also have "\<dots> = (if cell_addr i 0 \<le> a \<and> a < cell_addr i (int (Suc J)) then g m a else m a)"
    using Suc.prems geq[of a] by (auto simp: IH rng CONSOLE_WIDTH_def)
  finally show ?case .
qed

lemma fold_rows:
  assumes R: "\<And>i m a. 0 \<le> i \<Longrightarrow> i < CONSOLE_HEIGHT \<Longrightarrow>
    R i m a = (if cell_addr i 0 \<le> a \<and> a < cell_addr (i + 1) 0 then G i m a else m a)"
    and G: "\<And>i m m' a. (\<And>b. cell_addr i 0 \<le> b \<Longrightarrow> m b = m' b)
      \<Longrightarrow> cell_addr i 0 \<le> a \<Longrightarrow> a < cell_addr (i + 1) 0 \<Longrightarrow> G i m a = G i m' a"
    and I: "int I \<le> CONSOLE_HEIGHT"
  shows "fold (\<lambda>i. R (int i)) [0..<I] m a =
    (if 0 \<le> a \<and> a < cell_addr (int I) 0 then G (a div 160) m a else m a)"
  using I
proof (induction I arbitrary: a)
  case 0
  then show ?case by (auto simp: cell_addr_def)
next
  case (Suc I)
  let ?m = "fold (\<lambda>i. R (int i)) [0..<I] m"
  have IH: "?m b = (if 0 \<le> b \<and> b < cell_addr (int I) 0 then G (b div 160) m b else m b)" for b
    using Suc by simp
  have row: "a div 160 = int I" if "cell_addr (int I) 0 \<le> a" "a < cell_addr (int I + 1) 0"
    using that by (simp add: cell_addr_def CONSOLE_WIDTH_def)
  have geq: "G (int I) ?m a = G (int I) m a"
    if "cell_addr (int I) 0 \<le> a" "a < cell_addr (int I + 1) 0"
    using that by (intro G) (auto simp: IH)
  have "fold (\<lambda>i. R (int i)) [0..<Suc I] m a = R (int I) ?m a" by simp
  also have "\<dots> = (if cell_addr (int I) 0 \<le> a \<and> a < cell_addr (int I + 1) 0 then G (int I) ?m a else ?m a)"
    using Suc.prems by (intro R) auto
  also have "\<dots> = (if 0 \<le> a \<and> a < cell_addr (int (Suc I)) 0 then G (a div 160) m a else m a)"
    using row geq by (auto simp: IH cell_addr_def CONSOLE_WIDTH_def)
  finally show ?case .
qed

definition blank_byte :: "int \<Rightarrow> int \<Rightarrow> u8" where
  "blank_byte clr a = (if even a then 0 else word_of_int clr)"

lemma scroll_row:
  "fold (\<lambda>j. scroll_cell clr i (int j)) [0..<80] m a =
    (if cell_addr i 0 \<le> a \<and> a < cell_addr (i + 1) 0
     then (if i = CONSOLE_HEIGHT - 1 then blank_byte clr a else m (a + 160)) else m a)"
proof -
  have "fold (\<lambda>j. scroll_cell clr i (int j)) [0..<80] m a =
    (if cell_addr i 0 \<le> a \<and> a < cell_addr i (int 80)
     then (if i = CONSOLE_HEIGHT - 1 then blank_byte clr a else m (a + 160)) else m a)"
  proof (rule fold_row)
    show "scroll_cell clr i j m a = (if a = cell_addr i j \<or> a = cell_addr i j + 1
      then (if i = CONSOLE_HEIGHT - 1 then blank_byte clr a else m (a + 160)) else m a)"
      if "0 \<le> j" "j < CONSOLE_WIDTH" for j m a
      by (auto simp: scroll_cell_def put_cell_def blank_byte_def cell_addr_def CONSOLE_WIDTH_def Let_def
          algebra_simps)
  qed (auto simp: cell_addr_def console_consts)
  then show ?thesis by (simp add: cell_addr_def CONSOLE_WIDTH_def)
qed

lemma clear_row:
  "fold (\<lambda>j. put_cell (cell_addr i (int j)) 0 (word_of_int clr)) [0..<80] m a =
    (if cell_addr i 0 \<le> a \<and> a < cell_addr (i + 1) 0 then blank_byte clr a else m a)"
proof -
  have "fold (\<lambda>j. (\<lambda>j. put_cell (cell_addr i j) 0 (word_of_int clr)) (int j)) [0..<80] m a =
    (if cell_addr i 0 \<le> a \<and> a < cell_addr i (int 80) then blank_byte clr a else m a)"
    by (rule fold_row) (auto simp: put_cell_def blank_byte_def cell_addr_def CONSOLE_WIDTH_def)
  then show ?thesis by (simp add: cell_addr_def CONSOLE_WIDTH_def)
qed

lemma scroll_up_vram:
  "vram (scroll_up c) a =
     (if a \<in> {0..<3840} then vram c (a + 160)
      else if a \<in> {3840..<4000} then blank_byte (color c) a else vram c a)"
proof -
  have "fold (\<lambda>i. (\<lambda>i. fold (\<lambda>j. scroll_cell (color c) i (int j)) [0..<80]) (int i)) [0..<25] m a =
    (if 0 \<le> a \<and> a < cell_addr (int 25) 0
     then (if a div 160 = CONSOLE_HEIGHT - 1 then blank_byte (color c) a else m (a + 160)) else m a)"
    for m
    by (rule fold_rows) (simp_all only: scroll_row, auto simp: cell_addr_def console_consts)
  moreover have "a div 160 = 24 \<longleftrightarrow> 3840 \<le> a" if "a < 4000"
    using that by linarith
  ultimately show ?thesis
    by (auto simp: scroll_up_def for_cells_def console_consts cell_addr_def)
qed

lemma clear_console_vram:
  "vram (clear_console c) a = (if a \<in> {0..<4000} then blank_byte (color c) a else vram c a)"
proof -
  have "fold (\<lambda>i. (\<lambda>i. fold (\<lambda>j. put_cell (cell_addr i (int j)) 0 (word_of_int (color c))) [0..<80]) (int i))
      [0..<25] m a =
    (if 0 \<le> a \<and> a < cell_addr (int 25) 0 then blank_byte (color c) a else m a)" for m
    by (rule fold_rows) (simp_all only: clear_row, simp_all add: CONSOLE_HEIGHT_def)
  then show ?thesis
    by (simp add: clear_console_def for_cells_def console_consts cell_addr_def)
qed

lemma cell_offset_uint:
  "0 \<le> r \<Longrightarrow> r < CONSOLE_HEIGHT \<Longrightarrow> 0 \<le> k \<Longrightarrow> k < CONSOLE_WIDTH
    \<Longrightarrow> uint (word_of_int (r * CONSOLE_WIDTH + k) :: u16) = r * 80 + k"
  unfolding console_consts by (subst uint_word_of_int) (simp add: take_bit_int_eq_self)

lemma store_char_confined:
  "on_screen c \<Longrightarrow> a \<notin> screen_bytes \<Longrightarrow> vram (store_char ch c) a = vram c a"
  unfolding on_screen_def store_char_def screen_bytes_def Let_def
  by (simp only: cell_offset_uint) (auto simp: put_cell_def console_consts)

lemma on_screen_cursor_back: "on_screen c \<Longrightarrow> on_screen (cursor_back c)"
  by (auto simp: on_screen_def cursor_back_def console_consts)

lemma cursor_moves_vram [simp]:
  "vram (cursor_next pp c) = vram c" "vram (cursor_back c) = vram c"
  by (simp_all add: cursor_next_def cursor_back_def)

lemma scroll_up_confined: "a \<notin> screen_bytes \<Longrightarrow> vram (scroll_up c) a = vram c a"
  by (auto simp: scroll_up_vram screen_bytes_def console_consts)

lemma printbyte_confined:
  "on_screen c \<Longrightarrow> a \<notin> screen_bytes \<Longrightarrow> vram (printbyte pp ch c) a = vram c a"
  by (auto simp: printbyte_def Let_def scroll_up_confined store_char_confined on_screen_cursor_back)

lemma print_loop_confined:
  "on_screen c \<Longrightarrow> a \<notin> screen_bytes \<Longrightarrow> vram (print_loop pp s i n c) a = vram c a"
  by (induction pp s i n c rule: print_loop.induct) (auto simp: on_screen_printbyte printbyte_confined)

lemma put_cell_read [simp]: "put_cell a ch at m a = ch" "put_cell a ch at m (a + 1) = at"
  by (simp_all add: put_cell_def)

section \<open>Properties\<close>

text \<open>\<open>putbytes\<close> on a visible cursor inside the screen never faults, leaves the cursor
  inside the screen whatever bytes it prints, and writes no byte outside the 80 by 25 cells of
  video memory.\<close>

theorem putbytes_stays_on_screen:
  assumes "on_screen c"
  shows "\<exists>c'. putbytes pp (Some s) len c = Inr ((), c') \<and> on_screen c'
    \<and> (\<forall>a. a \<notin> screen_bytes \<longrightarrow> vram c' a = vram c a)"
  using assms by (auto simp: putbytes_def on_screen_print_loop print_loop_confined)

theorem putbytes_stays_on_screen_witness:
  "on_screen (show_cursor (initial_cursor (\<lambda>_. 0)))
   \<and> (\<exists>c'. putbytes True (Some (\<lambda>i. if i < 3 then 10 else 65)) 30 (show_cursor (initial_cursor (\<lambda>_. 0))) = Inr ((), c')
        \<and> on_screen c')"
proof -
  have o: "on_screen (show_cursor (initial_cursor (\<lambda>_. 0)))"
    by (simp add: on_screen_def show_cursor_def initial_cursor_def console_consts)
  from putbytes_stays_on_screen[OF o, of True "\<lambda>i. if i < 3 then 10 else 65" 30] o show ?thesis by blast
qed

text \<open>\<open>scroll_up\<close> moves every row up by one, blanks the bottom row in the current color,
  and leaves memory outside the screen alone: the character and the attribute shown at row
  \<open>r\<close> afterwards are those of row \<open>r + 1\<close> before.\<close>

theorem scroll_up_moves_rows:
  "(\<forall>r k. 0 \<le> r \<and> r < CONSOLE_HEIGHT - 1 \<and> 0 \<le> k \<and> k < CONSOLE_WIDTH \<longrightarrow>
      get_char r k (scroll_up c) = get_char (r + 1) k c
      \<and> vram (scroll_up c) (cell_addr r k + 1) = vram c (cell_addr (r + 1) k + 1))
   \<and> (\<forall>k. 0 \<le> k \<and> k < CONSOLE_WIDTH \<longrightarrow>
      get_char (CONSOLE_HEIGHT - 1) k (scroll_up c) = 0
      \<and> vram (scroll_up c) (cell_addr (CONSOLE_HEIGHT - 1) k + 1) = word_of_int (color c))
   \<and> (\<forall>a. a \<notin> screen_bytes \<longrightarrow> vram (scroll_up c) a = vram c a)
   \<and> row (scroll_up c) = row c - 1"
  unfolding get_char_def scroll_up_vram
  by (auto simp: cell_addr_def console_consts screen_bytes_def blank_byte_def algebra_simps)

theorem scroll_up_moves_rows_witness:
  "get_char 0 3 (scroll_up (initial_cursor (\<lambda>a. word_of_int a))) = 166"
proof -
  have "get_char 0 3 (scroll_up (initial_cursor (\<lambda>a. word_of_int a)))
      = get_char (0 + 1) 3 (initial_cursor (\<lambda>a. word_of_int a))"
    using scroll_up_moves_rows[of "initial_cursor (\<lambda>a. word_of_int a)"]
    by (simp add: console_consts)
  then show ?thesis by (simp add: get_char_def console_consts initial_cursor_def)
qed

text \<open>\<open>update_cursor\<close> programs the CRT controller: it selects register 14 and then 15 and
  sends two bytes that together are the cell number \<open>80 * row + col\<close> of a visible cursor, and
  the off-screen value 0xFFFF of a hidden one.\<close>

theorem update_cursor_programs_crtc:
  assumes "on_screen c \<or> \<not> is_visible c"
  shows "\<exists>hi lo. ports (update_cursor c) =
       ports c @ [(CRTC_IDX_REG, 14), (CRTC_DATA_REG, hi), (CRTC_IDX_REG, 15), (CRTC_DATA_REG, lo)]
     \<and> 256 * uint hi + uint lo = (if is_visible c then 80 * row c + col c else 0xFFFF)"
proof -
  let ?o = "offset (update_offset c)"
  have o: "uint ?o = (if is_visible c then 80 * row c + col c else 0xFFFF)"
    using assms cell_offset_uint[of "row c" "col c"]
    by (auto simp: update_offset_def on_screen_def CONSOLE_WIDTH_def mult.commute)
  have m: "(0xFF :: u16) = mask 8" by (simp add: mask_eq_exp_minus_1)
  have hi: "uint (ucast (drop_bit 8 ?o AND 0x00FF) :: u8) = uint ?o div 256"
  proof -
    have "drop_bit 8 ?o AND 0x00FF = drop_bit 8 ?o"
      unfolding m by (rule bit_eqI) (simp only: bit_and_iff bit_mask_iff bit_drop_bit_eq o_apply, auto dest: bit_imp_le_length)
    moreover have "uint ?o div 256 < 256" using uint_lt2p[of ?o] by simp
    moreover have "0 \<le> uint ?o div 256" by (simp add: pos_imp_zdiv_nonneg_iff)
    ultimately show ?thesis
      by (simp add: unsigned_ucast_eq drop_bit_eq_div uint_div take_bit_int_eq_self)
  qed
  have lo: "uint (ucast (?o AND 0x00FF) :: u8) = uint ?o mod 256"
    unfolding m by (simp add: unsigned_ucast_eq unsigned_and_eq unsigned_take_bit_eq flip: take_bit_eq_mask)
      (simp add: take_bit_eq_mod)
  have "256 * uint (ucast (drop_bit 8 ?o AND 0x00FF) :: u8) + uint (ucast (?o AND 0x00FF) :: u8) = uint ?o"
    unfolding hi lo by simp
  then show ?thesis
    unfolding o by (intro exI conjI) (auto simp: update_cursor_def outb_def Let_def CRTC_CURSOR_LSB_IDX_def
        CRTC_CURSOR_MSB_IDX_def update_offset_def)
qed

theorem update_cursor_programs_crtc_witness:
  "\<exists>hi lo. ports (update_cursor (initial_cursor (\<lambda>_. 0)\<lparr>is_visible := True, row := 3, col := 5\<rparr>))
     = [(CRTC_IDX_REG, 14), (CRTC_DATA_REG, hi), (CRTC_IDX_REG, 15), (CRTC_DATA_REG, lo)]
     \<and> 256 * uint hi + uint lo = 245"
  using update_cursor_programs_crtc[of "initial_cursor (\<lambda>_. 0)\<lparr>is_visible := True, row := 3, col := 5\<rparr>"]
  by (auto simp: on_screen_def console_consts initial_cursor_def)

text \<open>A backspace undoes an ordinary character: printing a byte other than newline,
  carriage return and backspace before the last column and then a backspace puts the cursor back
  and leaves a blank cell in the current color there; no other byte of video memory changes.\<close>

theorem backspace_undoes_character:
  assumes "on_screen c" "col c < CONSOLE_WIDTH - 1" "ch \<notin> {8, 10, 13}"
  shows "let c' = printbyte pp 8 (printbyte pp ch c) in
      row c' = row c \<and> col c' = col c \<and> get_char (row c) (col c) c' = 0
      \<and> (\<forall>a. a \<notin> {cell_addr (row c) (col c), cell_addr (row c) (col c) + 1} \<longrightarrow> vram c' a = vram c a)"
proof -
  have full: "\<not> is_screen_full d" if "row d = row c" for d
    using assms(1) that by (simp add: is_screen_full_def on_screen_def)
  let ?d = "(store_char ch c)\<lparr>col := col c + 1\<rparr>"
  have d: "printbyte pp ch c = ?d"
    using assms full by (simp add: printbyte_def cursor_next_def Let_def)
  have "row (store_char 0 (cursor_back ?d)) = row c"
    using assms by (simp add: cursor_back_def on_screen_def)
  then have "printbyte pp 8 (printbyte pp ch c) = store_char 0 (cursor_back ?d)"
    unfolding d using full by (simp add: printbyte_def Let_def)
  also have "cursor_back ((store_char ch c)\<lparr>col := col c + 1\<rparr>) = store_char ch c"
    using assms by (simp add: cursor_back_def on_screen_def store_char_def Let_def)
  finally show ?thesis
    using assms cell_offset_uint[of "row c" "col c"]
    by (auto simp: store_char_def Let_def on_screen_def get_char_def put_cell_def cell_addr_def console_consts)
qed

theorem backspace_undoes_character_witness:
  "row (printbyte False 8 (printbyte False 65 (show_cursor (initial_cursor (\<lambda>_. 1))))) = 0
   \<and> get_char 0 0 (printbyte False 8 (printbyte False 65 (show_cursor (initial_cursor (\<lambda>_. 1))))) = 0"
  using backspace_undoes_character[of "show_cursor (initial_cursor (\<lambda>_. 1))" 65 False]
  by (simp add: on_screen_def show_cursor_def initial_cursor_def console_consts Let_def)

text \<open>\<open>draw_char\<close> and \<open>get_char\<close> agree: with a valid color, what is drawn at a screen
  position is what is read there and every other position reads as before; outside the screen
  or with an invalid color nothing is drawn.\<close>

theorem draw_char_get_char:
  "get_char r' k' (draw_char r k ch clr c) =
     (if 0 \<le> clr \<and> clr \<le> 0xff \<and> r' = r \<and> k' = k \<and> 0 \<le> r \<and> r < CONSOLE_HEIGHT \<and> 0 \<le> k \<and> k < CONSOLE_WIDTH
      then word_of_int ch else get_char r' k' c)"
proof -
  have inj: "2 * (r' * CONSOLE_WIDTH + k') = 2 * (r * CONSOLE_WIDTH + k) \<longleftrightarrow> r' = r \<and> k' = k"
    if "0 \<le> k'" "k' < CONSOLE_WIDTH" "0 \<le> k" "k < CONSOLE_WIDTH"
  proof
    assume eq: "2 * (r' * CONSOLE_WIDTH + k') = 2 * (r * CONSOLE_WIDTH + k)"
    then have "r' = r" using that by (simp add: CONSOLE_WIDTH_def)
    with eq show "r' = r \<and> k' = k" by simp
  qed simp
  have odd: "2 * (r' * CONSOLE_WIDTH + k') \<noteq> 2 * (r * CONSOLE_WIDTH + k) + 1" by presburger
  show ?thesis
    using inj odd by (auto simp: get_char_def draw_char_def put_cell_def simp del: distrib_left_numeral)
qed

end
