(* ===== verification/Keyboard.thy ===== *)
theory Keyboard
  imports Prelude
begin

text \<open>
  The character buffer of the keyboard driver, \<open>kern/hardware/keyboard.c\<close>: a ring of
  \<open>BUF_LEN\<close> bytes with a read index \<open>start\<close> and a write index \<open>tail\<close>. The ring is shown to
  be a bounded FIFO queue of at most 511 characters that drops its oldest character when a
  new one arrives in a full buffer. The interrupt handler itself works on the thread queues
  and is modelled with the system calls, in \<open>Console_IO\<close>.
\<close>

section \<open>State and operations\<close>

definition BUF_LEN :: nat where "BUF_LEN = 512"

record kbd =
  s_queue :: "u8 list"
  start :: nat
  tail :: nat

text \<open>\<open>setup_keyboard\<close> panics when \<open>calloc\<close> fails; otherwise the buffer is zeroed.\<close>

definition setup_keyboard :: "bool \<Rightarrow> fault + kbd" where
  "setup_keyboard calloc_ok =
     (if \<not> calloc_ok then Inl Assert_Failed
      else Inr \<lparr>s_queue = replicate BUF_LEN 0, start = 0, tail = 0\<rparr>)"

definition queue_empty :: "kbd \<Rightarrow> bool" where
  "queue_empty k \<longleftrightarrow> start k = tail k"

definition enqueue :: "u8 \<Rightarrow> kbd \<Rightarrow> kbd" where
  "enqueue s k =
     (let k1 = k\<lparr>s_queue := (s_queue k)[tail k := s], tail := (tail k + 1) mod BUF_LEN\<rparr>
      in if start k1 = tail k1 then k1\<lparr>start := (start k1 + 1) mod BUF_LEN\<rparr> else k1)"

definition dequeue :: "kbd \<Rightarrow> u8 \<times> kbd" where
  "dequeue k = (s_queue k ! start k, k\<lparr>start := (start k + 1) mod BUF_LEN\<rparr>)"

text \<open>\<open>readchar\<close> returns an \<open>int\<close>: -1, or the dequeued byte read as a signed \<open>char\<close>.\<close>

definition readchar :: "kbd \<Rightarrow> int \<times> kbd" where
  "readchar k = (if queue_empty k then (-1, k) else let (c, k') = dequeue k in (sint c, k'))"

section \<open>Abstraction to a FIFO queue\<close>

definition kbd_inv :: "kbd \<Rightarrow> bool" where
  "kbd_inv k \<longleftrightarrow> length (s_queue k) = BUF_LEN \<and> start k < BUF_LEN \<and> tail k < BUF_LEN"

definition used :: "kbd \<Rightarrow> nat" where
  "used k = (tail k + BUF_LEN - start k) mod BUF_LEN"

definition pending :: "kbd \<Rightarrow> u8 list" where
  "pending k = map (\<lambda>i. s_queue k ! ((start k + i) mod BUF_LEN)) [0..<used k]"

lemma used_less: "used k < BUF_LEN"
  by (simp add: used_def BUF_LEN_def)

lemma length_pending [simp]: "length (pending k) = used k"
  by (simp add: pending_def)

lemma used_cases:
  "kbd_inv k \<Longrightarrow> used k = (if start k \<le> tail k then tail k - start k else tail k + 512 - start k)"
  by (auto simp: used_def kbd_inv_def BUF_LEN_def mod_if)

lemma used_eq_0: "kbd_inv k \<Longrightarrow> used k = 0 \<longleftrightarrow> start k = tail k"
  by (auto simp: used_cases kbd_inv_def BUF_LEN_def)

lemma slot_used: "kbd_inv k \<Longrightarrow> (start k + used k) mod BUF_LEN = tail k"
  by (auto simp: used_cases kbd_inv_def BUF_LEN_def)

lemma wrap_add: "a < 512 \<Longrightarrow> b < 512 \<Longrightarrow> (a + b) mod 512 = (if a + b < 512 then a + b else a + b - (512::nat))"
  by (simp add: mod_if)

lemma slot_not_tail:
  assumes "kbd_inv k" "i < used k"
  shows "(start k + i) mod BUF_LEN \<noteq> tail k"
proof -
  have "start k < 512" "tail k < 512" "i < 512"
    using assms used_less[of k] by (simp_all add: kbd_inv_def BUF_LEN_def)
  with assms(2) used_cases[OF assms(1)] show ?thesis
    unfolding BUF_LEN_def wrap_add[OF \<open>start k < 512\<close> \<open>i < 512\<close>] by (auto split: if_splits)
qed

lemma kbd_inv_enqueue: "kbd_inv k \<Longrightarrow> kbd_inv (enqueue s k)"
  by (auto simp: kbd_inv_def enqueue_def Let_def BUF_LEN_def)

lemma kbd_inv_dequeue: "kbd_inv k \<Longrightarrow> kbd_inv (snd (dequeue k))"
  by (auto simp: kbd_inv_def dequeue_def BUF_LEN_def)

lemma used_enqueue:
  "kbd_inv k \<Longrightarrow> used (enqueue s k) = (if used k = BUF_LEN - 1 then used k else used k + 1)"
proof -
  assume k: "kbd_inv k"
  have "used (enqueue s k) = (if start (enqueue s k) \<le> tail (enqueue s k)
      then tail (enqueue s k) - start (enqueue s k) else tail (enqueue s k) + 512 - start (enqueue s k))"
    using k by (simp add: used_cases kbd_inv_enqueue)
  then show ?thesis
    using k used_cases[OF k]
    by (auto simp: enqueue_def Let_def kbd_inv_def BUF_LEN_def mod_if split: if_splits)
qed

lemma start_enqueue:
  "kbd_inv k \<Longrightarrow> start (enqueue s k) = (if used k = BUF_LEN - 1 then (start k + 1) mod BUF_LEN else start k)"
  using used_cases[of k]
  by (auto simp: enqueue_def Let_def kbd_inv_def BUF_LEN_def mod_if split: if_splits)

lemma queue_enqueue: "s_queue (enqueue s k) = (s_queue k)[tail k := s]"
  by (simp add: enqueue_def Let_def)

lemma pending_enqueue:
  assumes k: "kbd_inv k"
  shows "pending (enqueue s k) = (if used k = BUF_LEN - 1 then tl (pending k) else pending k) @ [s]"
proof -
  have tl: "tail k < length (s_queue k)" using k by (simp add: kbd_inv_def)
  have old: "(s_queue k)[tail k := s] ! ((start k + i) mod BUF_LEN) = pending k ! i"
    if "i < used k" for i
    using that slot_not_tail[OF k that] by (simp add: pending_def)
  have new: "(s_queue k)[tail k := s] ! ((start k + used k) mod BUF_LEN) = s"
    using slot_used[OF k] tl by simp
  show ?thesis
  proof (rule nth_equalityI)
    show "length (pending (enqueue s k))
        = length ((if used k = BUF_LEN - 1 then tl (pending k) else pending k) @ [s])"
      by (auto simp: used_enqueue[OF k] BUF_LEN_def)
  next
    fix i assume "i < length (pending (enqueue s k))"
    then have i: "i < used (enqueue s k)" by simp
    let ?j = "if used k = BUF_LEN - 1 then i + 1 else i"
    have "pending (enqueue s k) ! i = (s_queue k)[tail k := s] ! ((start (enqueue s k) + i) mod BUF_LEN)"
      using i by (simp add: pending_def queue_enqueue)
    also have "(start (enqueue s k) + i) mod BUF_LEN = (start k + ?j) mod BUF_LEN"
      by (simp add: start_enqueue[OF k] mod_simps)
    also have "(s_queue k)[tail k := s] ! ((start k + ?j) mod BUF_LEN)
        = (if ?j < used k then pending k ! ?j else s)"
    proof (cases "?j < used k")
      case True
      then show ?thesis using old[of ?j] by simp
    next
      case False
      with i used_enqueue[OF k, of s] have "?j = used k" by (auto simp: BUF_LEN_def split: if_splits)
      with new False show ?thesis by simp
    qed
    also have "\<dots> = ((if used k = BUF_LEN - 1 then tl (pending k) else pending k) @ [s]) ! i"
      using i used_enqueue[OF k, of s] by (auto simp: nth_append nth_tl BUF_LEN_def)
    finally show "pending (enqueue s k) ! i
        = ((if used k = BUF_LEN - 1 then tl (pending k) else pending k) @ [s]) ! i" .
  qed
qed

lemma pending_dequeue:
  assumes k: "kbd_inv k" and ne: "pending k \<noteq> []"
  shows "fst (dequeue k) = hd (pending k)" and "pending (snd (dequeue k)) = tl (pending k)"
proof -
  have pos: "used k \<noteq> 0" using ne by (simp add: pending_def)
  show "fst (dequeue k) = hd (pending k)"
    using pos k by (simp add: dequeue_def pending_def hd_map kbd_inv_def)
  have u: "used (snd (dequeue k)) = used k - 1"
    using pos k used_cases[OF k] used_cases[OF kbd_inv_dequeue[OF k]]
    by (auto simp: dequeue_def kbd_inv_def BUF_LEN_def mod_if split: if_splits)
  have "pending (snd (dequeue k)) ! i = tl (pending k) ! i" if "i < used k - 1" for i
  proof -
    have "pending (snd (dequeue k)) ! i = s_queue k ! ((start k + 1 + i) mod BUF_LEN)"
      using that u by (simp add: pending_def dequeue_def mod_simps)
    also have "\<dots> = tl (pending k) ! i"
    proof -
      have "Suc i < used k" using that by linarith
      then show ?thesis using that by (simp add: pending_def nth_tl)
    qed
    finally show ?thesis .
  qed
  then show "pending (snd (dequeue k)) = tl (pending k)"
    by (intro nth_equalityI) (simp_all add: u)
qed

section \<open>The queue contract\<close>

text \<open>What the readers of the buffer rely on: a FIFO of bounded capacity.\<close>

locale bounded_fifo =
  fixes inv :: "'q \<Rightarrow> bool" and content :: "'q \<Rightarrow> 'a list" and cap :: nat
    and enq :: "'a \<Rightarrow> 'q \<Rightarrow> 'q" and deq :: "'q \<Rightarrow> 'a \<times> 'q" and is_empty :: "'q \<Rightarrow> bool"
  assumes cap_pos: "0 < cap"
    and content_bound: "inv q \<Longrightarrow> length (content q) \<le> cap"
    and empty_iff: "inv q \<Longrightarrow> is_empty q \<longleftrightarrow> content q = []"
    and inv_enq: "inv q \<Longrightarrow> inv (enq a q)"
    and inv_deq: "inv q \<Longrightarrow> inv (snd (deq q))"
    and content_enq: "inv q \<Longrightarrow>
      content (enq a q) = (if length (content q) = cap then tl (content q) else content q) @ [a]"
    and content_deq: "inv q \<Longrightarrow> content q \<noteq> [] \<Longrightarrow> content q = fst (deq q) # content (snd (deq q))"
begin

lemma inv_fold: "inv q \<Longrightarrow> inv (fold enq xs q)"
  by (induction xs arbitrary: q) (auto intro: inv_enq)

lemma content_fold:
  "inv q \<Longrightarrow> content (fold enq xs q) =
     drop (length (content q) + length xs - cap) (content q @ xs)"
proof (induction xs arbitrary: q)
  case Nil
  then show ?case using content_bound by simp
next
  case (Cons x xs)
  have "content (fold enq (x # xs) q)
      = drop (length (content (enq x q)) + length xs - cap) (content (enq x q) @ xs)"
    using Cons by (simp add: inv_enq)
  also have "\<dots> = drop (length (content q) + length (x # xs) - cap) (content q @ x # xs)"
  proof (cases "length (content q) = cap")
    case True
    then have "content q \<noteq> []" using cap_pos by auto
    then obtain a as where c: "content q = a # as" by (cases "content q") auto
    with True Cons.prems show ?thesis by (simp add: content_enq)
  next
    case False
    with Cons.prems show ?thesis by (simp add: content_enq)
  qed
  finally show ?case .
qed

end

interpretation kq: bounded_fifo kbd_inv pending "BUF_LEN - 1" enqueue dequeue queue_empty
proof unfold_locales
  fix k assume k: "kbd_inv k"
  show "length (pending k) \<le> BUF_LEN - 1" using used_less[of k] by simp
  show "queue_empty k \<longleftrightarrow> pending k = []"
    using used_eq_0[OF k] by (simp add: queue_empty_def flip: length_0_conv)
  show "pending (enqueue a k) = (if length (pending k) = BUF_LEN - 1 then tl (pending k) else pending k) @ [a]"
    for a using pending_enqueue[OF k] by simp
  show "pending k = fst (dequeue k) # pending (snd (dequeue k))" if "pending k \<noteq> []"
    using pending_dequeue[OF k that] that by simp
qed (auto simp: BUF_LEN_def kbd_inv_enqueue kbd_inv_dequeue)

lemma kbd_inv_readchar: "kbd_inv k \<Longrightarrow> kbd_inv (snd (readchar k))"
  by (auto simp: readchar_def Let_def case_prod_beta kbd_inv_dequeue)

section \<open>Properties\<close>

text \<open>The ring buffer is a FIFO that keeps the newest 511 characters: after any
  sequence of key presses in a well-formed buffer, the pending characters are the last
  \<open>BUF_LEN - 1\<close> of what was pending followed by what was typed, and the buffer is still
  well formed.\<close>

theorem enqueue_keeps_newest:
  assumes "kbd_inv k"
  shows "kbd_inv (fold enqueue cs k)
    \<and> pending (fold enqueue cs k) = drop (used k + length cs - (BUF_LEN - 1)) (pending k @ cs)"
  using kq.inv_fold[OF assms] kq.content_fold[OF assms, of cs] by simp

theorem enqueue_keeps_newest_witness:
  "pending (fold enqueue [104, 105] \<lparr>s_queue = replicate 512 0, start = 0, tail = 0\<rparr>) = [104, 105]"
proof -
  let ?k = "\<lparr>s_queue = replicate 512 0, start = 0, tail = 0\<rparr>"
  have k: "kbd_inv ?k" by (simp add: kbd_inv_def BUF_LEN_def)
  have "used ?k = 0" by (simp add: used_def)
  moreover from this have "pending ?k = []" by (simp add: pending_def)
  ultimately show ?thesis
    using enqueue_keeps_newest[OF k, of "[104, 105]"] by (simp add: BUF_LEN_def)
qed

text \<open>\<open>readchar\<close> returns the characters in the order they were typed: -1 on an empty
  buffer, which it leaves unchanged, and otherwise the oldest pending character, which it
  removes.\<close>

theorem readchar_fifo:
  assumes "kbd_inv k"
  shows "(case pending k of
      [] \<Rightarrow> readchar k = (-1, k)
    | c # cs \<Rightarrow> fst (readchar k) = sint c \<and> pending (snd (readchar k)) = cs)
    \<and> kbd_inv (snd (readchar k))"
proof (cases "pending k")
  case Nil
  then show ?thesis
    using kq.empty_iff[OF assms] assms by (simp add: readchar_def)
next
  case (Cons c cs)
  then show ?thesis
    using kq.empty_iff[OF assms] kq.content_deq[OF assms] kbd_inv_readchar[OF assms]
    by (simp add: readchar_def Let_def case_prod_beta)
qed

theorem readchar_fifo_witness:
  "readchar \<lparr>s_queue = replicate 512 0, start = 7, tail = 7\<rparr>
     = (-1, \<lparr>s_queue = replicate 512 0, start = 7, tail = 7\<rparr>)"
proof -
  let ?k = "\<lparr>s_queue = replicate 512 0, start = 7, tail = 7\<rparr>"
  have k: "kbd_inv ?k" by (simp add: kbd_inv_def BUF_LEN_def)
  have "pending ?k = []" by (simp add: pending_def used_def BUF_LEN_def)
  with readchar_fifo[OF k] show ?thesis by simp
qed

end
