(* ===== verification/Keyhelp.thy ===== *)
theory Keyhelp
  imports Prelude
begin

unbundle bit_operations_syntax

text \<open>
  The scancode translator \<open>410kern/x86/keyhelp.c\<close>: a state machine over the bytes of the keyboard
  that keeps the modifier keys in \<open>key_state\<close> and its position in multi-byte sequences in
  \<open>key_internal_state\<close> and \<open>key_sequence\<close>. The cases of the two \<open>switch\<close> statements that only choose
  characters are tables of the macro each case uses; the others are written out.
\<close>

section \<open>Constants\<close>

definition KHE_UNDEFINED :: u8 where "KHE_UNDEFINED = 0x80"
definition KHE_ARROW_UP :: u8 where "KHE_ARROW_UP = 0x81"
definition KHE_ARROW_LEFT :: u8 where "KHE_ARROW_LEFT = 0x82"
definition KHE_ARROW_DOWN :: u8 where "KHE_ARROW_DOWN = 0x83"
definition KHE_ARROW_RIGHT :: u8 where "KHE_ARROW_RIGHT = 0x84"
definition KHE_LALT :: u8 where "KHE_LALT = 0x85"
definition KHE_RALT :: u8 where "KHE_RALT = 0x86"
definition KHE_LCTL :: u8 where "KHE_LCTL = 0x87"
definition KHE_RCTL :: u8 where "KHE_RCTL = 0x88"
definition KHE_LSHIFT :: u8 where "KHE_LSHIFT = 0x89"
definition KHE_RSHIFT :: u8 where "KHE_RSHIFT = 0x8A"
definition KHE_CAPSLOCK :: u8 where "KHE_CAPSLOCK = 0x8B"
definition KHE_NUMLOCK :: u8 where "KHE_NUMLOCK = 0x8C"
definition KHE_F1 :: u8 where "KHE_F1 = 0x8D"
definition KHE_F2 :: u8 where "KHE_F2 = 0x8E"
definition KHE_F3 :: u8 where "KHE_F3 = 0x8F"
definition KHE_F4 :: u8 where "KHE_F4 = 0x90"
definition KHE_F5 :: u8 where "KHE_F5 = 0x91"
definition KHE_F6 :: u8 where "KHE_F6 = 0x92"
definition KHE_F7 :: u8 where "KHE_F7 = 0x93"
definition KHE_F8 :: u8 where "KHE_F8 = 0x94"
definition KHE_F9 :: u8 where "KHE_F9 = 0x95"
definition KHE_F10 :: u8 where "KHE_F10 = 0x96"
definition KHE_F11 :: u8 where "KHE_F11 = 0x97"
definition KHE_F12 :: u8 where "KHE_F12 = 0x98"
definition KHE_PAUSE :: u8 where "KHE_PAUSE = 0x99"
definition KHE_PRINT_SCREEN :: u8 where "KHE_PRINT_SCREEN = 0x9A"

lemmas KHE_defs = KHE_UNDEFINED_def KHE_ARROW_UP_def KHE_ARROW_LEFT_def KHE_ARROW_DOWN_def KHE_ARROW_RIGHT_def
  KHE_LALT_def KHE_RALT_def KHE_LCTL_def KHE_RCTL_def KHE_LSHIFT_def KHE_RSHIFT_def KHE_CAPSLOCK_def KHE_NUMLOCK_def
  KHE_F1_def KHE_F2_def KHE_F3_def KHE_F4_def KHE_F5_def KHE_F6_def KHE_F7_def KHE_F8_def KHE_F9_def KHE_F10_def
  KHE_F11_def KHE_F12_def KHE_PAUSE_def KHE_PRINT_SCREEN_def

definition KH_LSHIFT_KEY :: u16 where "KH_LSHIFT_KEY = 0x8000"
definition KH_RSHIFT_KEY :: u16 where "KH_RSHIFT_KEY = 0x4000"
definition KH_LCONTROL_KEY :: u16 where "KH_LCONTROL_KEY = 0x2000"
definition KH_RCONTROL_KEY :: u16 where "KH_RCONTROL_KEY = 0x1000"
definition KH_LALT_KEY :: u16 where "KH_LALT_KEY = 0x0800"
definition KH_RALT_KEY :: u16 where "KH_RALT_KEY = 0x0400"
definition KH_CAPS_LOCK :: u16 where "KH_CAPS_LOCK = 0x0200"
definition KH_NUM_LOCK :: u16 where "KH_NUM_LOCK = 0x0100"
definition KH_STATE_SMASK :: u16 where "KH_STATE_SMASK = 0xFF00"

definition KH_PRSCR_UP_SCAN :: u16 where "KH_PRSCR_UP_SCAN = 0x8"
definition KH_PRSCR_DOWN_SCAN :: u16 where "KH_PRSCR_DOWN_SCAN = 0x4"
definition KH_PAUSE_SCAN :: u16 where "KH_PAUSE_SCAN = 0x2"
definition KH_EXTENDED_SCAN :: u16 where "KH_EXTENDED_SCAN = 0x1"

definition KH_RESULT_HASRAW :: u32 where "KH_RESULT_HASRAW = 0x08"
definition KH_RESULT_HASDATA :: u32 where "KH_RESULT_HASDATA = 0x04"
definition KH_RESULT_NUMPAD :: u32 where "KH_RESULT_NUMPAD = 0x02"
definition KH_RESULT_MAKE :: u32 where "KH_RESULT_MAKE = 0x01"

lemmas KH_state_defs = KH_LSHIFT_KEY_def KH_RSHIFT_KEY_def KH_LCONTROL_KEY_def KH_RCONTROL_KEY_def KH_LALT_KEY_def
  KH_RALT_KEY_def KH_CAPS_LOCK_def KH_NUM_LOCK_def KH_STATE_SMASK_def KH_PRSCR_UP_SCAN_def KH_PRSCR_DOWN_SCAN_def
  KH_PAUSE_SCAN_def KH_EXTENDED_SCAN_def
lemmas KH_result_defs = KH_RESULT_HASRAW_def KH_RESULT_HASDATA_def KH_RESULT_NUMPAD_def KH_RESULT_MAKE_def

text \<open>The result word \<open>kh_type\<close> and the macros that take it apart.\<close>

type_synonym kh_type = u32

definition KH_GETCHAR :: "kh_type \<Rightarrow> u8" where "KH_GETCHAR k = ucast (k AND 0xFF)"
definition KH_GETRAW :: "kh_type \<Rightarrow> u8" where "KH_GETRAW k = ucast (drop_bit 8 k AND 0xFF)"
definition KH_HASRAW :: "kh_type \<Rightarrow> bool" where "KH_HASRAW k \<longleftrightarrow> drop_bit 16 k AND KH_RESULT_HASRAW \<noteq> 0"
definition KH_HASDATA :: "kh_type \<Rightarrow> bool" where "KH_HASDATA k \<longleftrightarrow> drop_bit 16 k AND KH_RESULT_HASDATA \<noteq> 0"
definition KH_NUMPAD :: "kh_type \<Rightarrow> bool" where "KH_NUMPAD k \<longleftrightarrow> drop_bit 16 k AND KH_RESULT_NUMPAD \<noteq> 0"
definition KH_ISMAKE :: "kh_type \<Rightarrow> bool" where "KH_ISMAKE k \<longleftrightarrow> drop_bit 16 k AND KH_RESULT_MAKE \<noteq> 0"
definition KH_STATE :: "kh_type \<Rightarrow> u16" where "KH_STATE k = ucast (drop_bit 16 k) AND KH_STATE_SMASK"

section \<open>State and character tables\<close>

record keys =
  key_state :: u16
  key_internal_state :: u16
  key_sequence :: nat

abbreviation ch :: "char \<Rightarrow> u8" where "ch c \<equiv> of_char c"

text \<open>\<open>Key c\<close> is \<open>rcode = code = c\<close>, \<open>Numpad_Key c\<close> the same with the numeric pad flag.\<close>

datatype key_case =
    Key u8
  | Numpad_Key u8
  | KHS_SHIFT u8 u8
  | KHS_SHIFTCTL u8 u8 u8
  | KHS_SHIFTCAPSCTL u8 u8 u8

definition main_keys_1 :: "(u8 \<times> key_case) list" where
  "main_keys_1 =
    [(0x1, Key 0x1B), (0x2, KHS_SHIFT (ch (CHR ''!'')) (ch (CHR ''1''))),
     (0x3, KHS_SHIFTCTL 0x00 (ch (CHR ''@'')) (ch (CHR ''2''))), (0x4, KHS_SHIFT (ch (CHR ''#'')) (ch (CHR ''3''))),
     (0x5, KHS_SHIFT (ch (CHR ''$'')) (ch (CHR ''4''))), (0x6, KHS_SHIFT (ch (CHR ''%'')) (ch (CHR ''5''))),
     (0x7, KHS_SHIFTCTL 0x1E (ch (CHR ''^'')) (ch (CHR ''6''))), (0x8, KHS_SHIFT (ch (CHR ''&'')) (ch (CHR ''7''))),
     (0x9, KHS_SHIFT (ch (CHR ''*'')) (ch (CHR ''8''))), (0xA, KHS_SHIFT (ch (CHR ''('')) (ch (CHR ''9''))),
     (0xB, KHS_SHIFT (ch (CHR '')'')) (ch (CHR ''0''))), (0xC, KHS_SHIFTCTL 0x1F (ch (CHR ''_'')) (ch (CHR ''-''))),
     (0xD, KHS_SHIFT (ch (CHR ''+'')) (ch (CHR ''=''))), (0xE, Key 0x08),
     (0xF, Key 0x09), (0x10, KHS_SHIFTCAPSCTL 0x11 (ch (CHR ''Q'')) (ch (CHR ''q''))),
     (0x11, KHS_SHIFTCAPSCTL 0x17 (ch (CHR ''W'')) (ch (CHR ''w''))), (0x12, KHS_SHIFTCAPSCTL 0x05 (ch (CHR ''E'')) (ch (CHR ''e''))),
     (0x13, KHS_SHIFTCAPSCTL 0x12 (ch (CHR ''R'')) (ch (CHR ''r''))), (0x14, KHS_SHIFTCAPSCTL 0x14 (ch (CHR ''T'')) (ch (CHR ''t''))),
     (0x15, KHS_SHIFTCAPSCTL 0x19 (ch (CHR ''Y'')) (ch (CHR ''y''))), (0x16, KHS_SHIFTCAPSCTL 0x15 (ch (CHR ''U'')) (ch (CHR ''u''))),
     (0x17, KHS_SHIFTCAPSCTL 0x09 (ch (CHR ''I'')) (ch (CHR ''i''))), (0x18, KHS_SHIFTCAPSCTL 0x0F (ch (CHR ''O'')) (ch (CHR ''o''))),
     (0x19, KHS_SHIFTCAPSCTL 0x10 (ch (CHR ''P'')) (ch (CHR ''p''))), (0x1A, KHS_SHIFTCAPSCTL 0x1B (ch (CHR ''{'')) (ch (CHR ''[''))),
     (0x1B, KHS_SHIFTCAPSCTL 0x1D (ch (CHR ''}'')) (ch (CHR '']''))), (0x1C, Key 0x0A)]"

definition main_keys_2 :: "(u8 \<times> key_case) list" where
  "main_keys_2 =
    [(0x1E, KHS_SHIFTCAPSCTL 0x01 (ch (CHR ''A'')) (ch (CHR ''a''))), (0x1F, KHS_SHIFTCAPSCTL 0x13 (ch (CHR ''S'')) (ch (CHR ''s''))),
     (0x20, KHS_SHIFTCAPSCTL 0x04 (ch (CHR ''D'')) (ch (CHR ''d''))), (0x21, KHS_SHIFTCAPSCTL 0x06 (ch (CHR ''F'')) (ch (CHR ''f''))),
     (0x22, KHS_SHIFTCAPSCTL 0x07 (ch (CHR ''G'')) (ch (CHR ''g''))), (0x23, KHS_SHIFTCAPSCTL 0x08 (ch (CHR ''H'')) (ch (CHR ''h''))),
     (0x24, KHS_SHIFTCAPSCTL 0x0A (ch (CHR ''J'')) (ch (CHR ''j''))), (0x25, KHS_SHIFTCAPSCTL 0x0B (ch (CHR ''K'')) (ch (CHR ''k''))),
     (0x26, KHS_SHIFTCAPSCTL 0x0C (ch (CHR ''L'')) (ch (CHR ''l''))), (0x27, KHS_SHIFT (ch (CHR '':'')) (ch (CHR '';''))),
     (0x28, KHS_SHIFT 0x22 0x27), (0x29, KHS_SHIFT (ch (CHR ''~'')) 0x60),
     (0x2B, KHS_SHIFTCTL 0x1C (ch (CHR ''|'')) 0x5C), (0x2C, KHS_SHIFTCAPSCTL 0x1A (ch (CHR ''Z'')) (ch (CHR ''z''))),
     (0x2D, KHS_SHIFTCAPSCTL 0x18 (ch (CHR ''X'')) (ch (CHR ''x''))), (0x2E, KHS_SHIFTCAPSCTL 0x03 (ch (CHR ''C'')) (ch (CHR ''c''))),
     (0x2F, KHS_SHIFTCAPSCTL 0x16 (ch (CHR ''V'')) (ch (CHR ''v''))), (0x30, KHS_SHIFTCAPSCTL 0x02 (ch (CHR ''B'')) (ch (CHR ''b''))),
     (0x31, KHS_SHIFTCAPSCTL 0x0E (ch (CHR ''N'')) (ch (CHR ''n''))), (0x32, KHS_SHIFTCAPSCTL 0x0D (ch (CHR ''M'')) (ch (CHR ''m''))),
     (0x33, KHS_SHIFT (ch (CHR ''<'')) (ch (CHR '',''))), (0x34, KHS_SHIFT (ch (CHR ''>'')) (ch (CHR ''.''))),
     (0x35, KHS_SHIFT (ch (CHR ''?'')) (ch (CHR ''/'')))]"

definition main_keys_3 :: "(u8 \<times> key_case) list" where
  "main_keys_3 =
    [(0x37, Numpad_Key (ch (CHR ''*''))), (0x39, Key (ch (CHR '' ''))),
     (0x3B, Key KHE_F1), (0x3C, Key KHE_F2),
     (0x3D, Key KHE_F3), (0x3E, Key KHE_F4),
     (0x3F, Key KHE_F5), (0x40, Key KHE_F6),
     (0x41, Key KHE_F7), (0x42, Key KHE_F8),
     (0x43, Key KHE_F9), (0x44, Key KHE_F10),
     (0x47, Numpad_Key (ch (CHR ''7''))), (0x48, Numpad_Key (ch (CHR ''8''))),
     (0x49, Numpad_Key (ch (CHR ''9''))), (0x4A, Numpad_Key (ch (CHR ''-''))),
     (0x4B, Numpad_Key (ch (CHR ''4''))), (0x4C, Numpad_Key (ch (CHR ''5''))),
     (0x4D, Numpad_Key (ch (CHR ''6''))), (0x4E, Numpad_Key (ch (CHR ''+''))),
     (0x4F, Numpad_Key (ch (CHR ''1''))), (0x50, Numpad_Key (ch (CHR ''2''))),
     (0x51, Numpad_Key (ch (CHR ''3''))), (0x52, Numpad_Key (ch (CHR ''0''))),
     (0x53, Numpad_Key (ch (CHR ''.''))), (0x57, Key KHE_F11),
     (0x58, Key KHE_F12)]"

definition simple_table :: "(u8 \<times> key_case) list" where
  "simple_table = main_keys_1 @ main_keys_2 @ main_keys_3"

definition shifted :: "keys \<Rightarrow> bool" where
  "shifted k \<longleftrightarrow> key_state k AND (KH_LSHIFT_KEY OR KH_RSHIFT_KEY) \<noteq> 0"

definition control :: "keys \<Rightarrow> bool" where
  "control k \<longleftrightarrow> key_state k AND (KH_LCONTROL_KEY OR KH_RCONTROL_KEY) \<noteq> 0"

definition capslock :: "keys \<Rightarrow> bool" where
  "capslock k \<longleftrightarrow> key_state k AND KH_CAPS_LOCK \<noteq> 0"

fun case_code :: "keys \<Rightarrow> key_case \<Rightarrow> u8 \<times> u8 \<times> u32" where
  "case_code k (Key c) = (c, c, 0)"
| "case_code k (Numpad_Key c) = (c, c, push_bit 16 KH_RESULT_NUMPAD)"
| "case_code k (KHS_SHIFT s u) = ((if shifted k then s else u), u, 0)"
| "case_code k (KHS_SHIFTCTL cc s u) = ((if control k then cc else if shifted k then s else u), u, 0)"
| "case_code k (KHS_SHIFTCAPSCTL cc s u) =
     ((if control k then cc
       else if (shifted k \<or> capslock k) \<and> \<not> (shifted k \<and> capslock k) then s else u), u, 0)"

section \<open>Operations\<close>

definition key_result :: "u8 \<Rightarrow> u8 \<Rightarrow> u32 \<Rightarrow> kh_type" where
  "key_result code rcode res =
     (let has = rcode \<noteq> KHE_UNDEFINED \<and> code \<noteq> KHE_UNDEFINED
      in (if has then res OR push_bit 16 KH_RESULT_HASDATA else res)
         OR ucast (if has then code else 0) OR push_bit 8 (ucast rcode) OR push_bit 16 KH_RESULT_HASRAW)"

definition set_key :: "bool \<Rightarrow> u16 \<Rightarrow> keys \<Rightarrow> keys" where
  "set_key pressed m k = k\<lparr>key_state := (if pressed then key_state k OR m else key_state k AND NOT m)\<rparr>"

definition toggle_key :: "bool \<Rightarrow> u16 \<Rightarrow> keys \<Rightarrow> keys" where
  "toggle_key pressed m k =
     (if pressed then k\<lparr>key_state := (if key_state k AND m \<noteq> 0 then key_state k AND NOT m else key_state k OR m)\<rparr> else k)"

definition pause_scan :: "keys \<Rightarrow> bool" where
  "pause_scan k \<longleftrightarrow> key_internal_state k AND KH_PAUSE_SCAN \<noteq> 0"

definition end_pause :: "keys \<Rightarrow> keys" where
  "end_pause k = k\<lparr>key_internal_state := key_internal_state k AND NOT KH_PAUSE_SCAN, key_sequence := 0\<rparr>"

definition next_stage :: "keys \<Rightarrow> keys" where
  "next_stage k = k\<lparr>key_sequence := key_sequence k + 1\<rparr>"

definition modifier :: "u8 \<Rightarrow> kh_type" where
  "modifier rcode = key_result 0x80 rcode 0"

definition process_simple_scan :: "u8 \<Rightarrow> bool \<Rightarrow> keys \<Rightarrow> kh_type \<times> keys" where
  "process_simple_scan scancode pressed k =
     (let sc = scancode AND 0x7F in
      if sc = 0x1D then
        if pause_scan k \<and> key_sequence k = 0 then (0, next_stage k)
        else (modifier KHE_LCTL, set_key pressed KH_LCONTROL_KEY (end_pause k))
      else if sc = 0x2A then (modifier KHE_LSHIFT, set_key pressed KH_LSHIFT_KEY k)
      else if sc = 0x36 then (modifier KHE_RSHIFT, set_key pressed KH_RSHIFT_KEY k)
      else if sc = 0x38 then (modifier KHE_LALT, set_key pressed KH_LALT_KEY k)
      else if sc = 0x3A then (modifier KHE_CAPSLOCK, toggle_key pressed KH_CAPS_LOCK k)
      else if sc = 0x45 then
        if pause_scan k \<and> key_sequence k = 1 then (0, next_stage k)
        else (modifier KHE_NUMLOCK, toggle_key pressed KH_NUM_LOCK (end_pause k))
      else if sc = 0x61 then
        if \<not> pause_scan k
        then (0, k\<lparr>key_internal_state := key_internal_state k OR KH_PAUSE_SCAN, key_sequence := 0\<rparr>)
        else if key_sequence k = 2 then (0, next_stage k)
        else (key_result KHE_UNDEFINED KHE_UNDEFINED 0, end_pause k)
      else case map_of simple_table sc of
             None \<Rightarrow> (key_result KHE_UNDEFINED KHE_UNDEFINED 0, k)
           | Some c \<Rightarrow> (case case_code k c of (code, rcode, res) \<Rightarrow> (key_result code rcode res, k)))"

definition extended_table :: "(u8 \<times> key_case) list" where
  "extended_table = [(0x1C, Numpad_Key 0x0A), (0x35, Numpad_Key (ch (CHR ''/''))), (0x48, Key KHE_ARROW_UP),
     (0x4b, Key KHE_ARROW_LEFT), (0x4d, Key KHE_ARROW_RIGHT), (0x50, Key KHE_ARROW_DOWN), (0x53, Key 0x7F)]"

definition clear_internal :: "u16 \<Rightarrow> keys \<Rightarrow> keys" where
  "clear_internal m k = k\<lparr>key_internal_state := key_internal_state k AND NOT m\<rparr>"

definition set_internal :: "u16 \<Rightarrow> keys \<Rightarrow> keys" where
  "set_internal m k = k\<lparr>key_internal_state := key_internal_state k OR m\<rparr>"

definition process_extended_scan :: "u8 \<Rightarrow> bool \<Rightarrow> keys \<Rightarrow> kh_type \<times> keys" where
  "process_extended_scan keypress pressed k =
     (let sc = keypress AND 0x7F; done = clear_internal KH_EXTENDED_SCAN in
      if sc = 0x1D then (modifier KHE_RCTL, done (set_key pressed KH_RCONTROL_KEY k))
      else if sc = 0x2A then
        if key_internal_state k AND KH_PRSCR_UP_SCAN \<noteq> 0
        then (key_result KHE_PRINT_SCREEN KHE_PRINT_SCREEN 0, done (clear_internal KH_PRSCR_UP_SCAN k))
        else (0, done (set_internal KH_PRSCR_DOWN_SCAN k))
      else if sc = 0x37 then
        if key_internal_state k AND KH_PRSCR_DOWN_SCAN \<noteq> 0
        then (key_result KHE_PRINT_SCREEN KHE_PRINT_SCREEN 0, done (clear_internal KH_PRSCR_DOWN_SCAN k))
        else (0, done (set_internal KH_PRSCR_UP_SCAN k))
      else if sc = 0x38 then (modifier KHE_RALT, done (set_key pressed KH_RALT_KEY k))
      else case map_of extended_table sc of
             None \<Rightarrow> (key_result KHE_UNDEFINED KHE_UNDEFINED 0, done k)
           | Some c \<Rightarrow> (case case_code k c of (code, rcode, res) \<Rightarrow> (key_result code rcode res, done k)))"

text \<open>The end of \<open>process_scancode\<close>: the make flag and the modifier state are added.\<close>

definition add_state :: "bool \<Rightarrow> kh_type \<times> keys \<Rightarrow> kh_type \<times> keys" where
  "add_state pressed r =
     (case r of (res, k) \<Rightarrow>
        ((if pressed then res OR push_bit 16 KH_RESULT_MAKE else res) OR push_bit 16 (ucast (key_state k AND KH_STATE_SMASK)), k))"

definition default_scan :: "u8 \<Rightarrow> bool \<Rightarrow> keys \<Rightarrow> kh_type \<times> keys" where
  "default_scan keycode pressed k =
     add_state pressed (process_simple_scan keycode pressed (clear_internal (KH_PRSCR_UP_SCAN OR KH_PRSCR_DOWN_SCAN) k))"

definition process_scancode :: "u8 \<Rightarrow> keys \<Rightarrow> kh_type \<times> keys" where
  "process_scancode keypress k =
     (let pressed = (keypress AND 0x80 = 0); keycode = keypress AND 0x7F in
      if key_internal_state k AND KH_EXTENDED_SCAN \<noteq> 0
      then add_state pressed (process_extended_scan keycode pressed k)
      else if keypress = 0x9D then
        if pause_scan k \<and> key_sequence k = 3 then (0, next_stage k)
        else default_scan keycode pressed (end_pause k)
      else if keypress = 0xC5 then
        if pause_scan k \<and> key_sequence k = 4
        then add_state pressed (ucast KHE_PAUSE OR push_bit 8 (ucast KHE_PAUSE) OR push_bit 16 KH_RESULT_HASDATA,
               clear_internal KH_PAUSE_SCAN k)
        else default_scan keycode pressed (end_pause k)
      else if keypress = 0xE0
      then (push_bit 16 (ucast (key_state k)), set_internal KH_EXTENDED_SCAN k)
      else default_scan keycode pressed k)"

text \<open>A run of the translator over a sequence of bytes: the results in order and the final state.\<close>

fun scan_all :: "u8 list \<Rightarrow> keys \<Rightarrow> kh_type list \<times> keys" where
  "scan_all [] k = ([], k)"
| "scan_all (b # bs) k = (case process_scancode b k of (r, k') \<Rightarrow> (case scan_all bs k' of (rs, k'') \<Rightarrow> (r # rs, k'')))"

definition initial_keys :: keys where
  "initial_keys = \<lparr>key_state = 0, key_internal_state = 0, key_sequence = 0\<rparr>"

section \<open>Packing and unpacking results\<close>

definition pack :: "u8 \<Rightarrow> u8 \<Rightarrow> u32 \<Rightarrow> kh_type" where
  "pack code rcode f = ucast code OR push_bit 8 (ucast rcode) OR push_bit 16 f"

lemma mask_8: "(0xFF :: u32) = mask 8"
  by (simp add: mask_eq_exp_minus_1)

lemma pack_char [simp]: "KH_GETCHAR (pack code rcode f) = code"
  unfolding KH_GETCHAR_def pack_def mask_8 by (rule bit_word_eqI) (auto simp: bit_simps)

lemma pack_raw [simp]: "KH_GETRAW (pack code rcode f) = rcode"
  unfolding KH_GETRAW_def pack_def mask_8 by (rule bit_word_eqI) (auto simp: bit_simps dest: bit_imp_le_length)

lemma pack_flags: "drop_bit 16 (pack code rcode f) = take_bit 16 f"
  unfolding pack_def by (rule bit_word_eqI) (auto simp: bit_simps dest: bit_imp_le_length)

lemma and_bit:
  "(x :: u32) AND 8 \<noteq> 0 \<longleftrightarrow> bit x 3" "x AND 4 \<noteq> 0 \<longleftrightarrow> bit x 2" "x AND 2 \<noteq> 0 \<longleftrightarrow> bit x 1" "x AND 1 \<noteq> 0 \<longleftrightarrow> bit x 0"
  using and_exp_eq_0_iff_not_bit[of x 3] and_exp_eq_0_iff_not_bit[of x 2] and_exp_eq_0_iff_not_bit[of x 1] and_exp_eq_0_iff_not_bit[of x 0]
  by simp_all

lemma pack_tests [simp]:
  "KH_HASRAW (pack code rcode f) = bit f 3" "KH_HASDATA (pack code rcode f) = bit f 2"
  "KH_NUMPAD (pack code rcode f) = bit f 1" "KH_ISMAKE (pack code rcode f) = bit f 0"
  by (simp_all only: KH_HASRAW_def KH_HASDATA_def KH_NUMPAD_def KH_ISMAKE_def KH_result_defs pack_flags and_bit) (simp_all add: bit_simps)

lemma pack_state: "KH_STATE (pack code rcode f) = ucast f AND KH_STATE_SMASK"
  unfolding KH_STATE_def pack_flags by (rule bit_word_eqI) (auto simp: bit_simps)

text \<open>The two shapes a result has: with a character, or with a raw code only.\<close>

definition flags :: "bool \<Rightarrow> bool \<Rightarrow> bool \<Rightarrow> u16 \<Rightarrow> u32" where
  "flags numpad hasdata mk ks =
     (if numpad then 2 else 0) OR (if hasdata then 4 else 0) OR 8 OR (if mk then 1 else 0) OR ucast (ks AND KH_STATE_SMASK)"

lemma key_result_pack:
  "fst (add_state pressed (key_result code rcode res, k)) =
     pack (if code = KHE_UNDEFINED \<or> rcode = KHE_UNDEFINED then 0 else code) rcode
       (flags np (code \<noteq> KHE_UNDEFINED \<and> rcode \<noteq> KHE_UNDEFINED) pressed (key_state k))"
  if "res = (if np then push_bit 16 KH_RESULT_NUMPAD else 0)"
  using that unfolding add_state_def key_result_def pack_def flags_def KH_result_defs
  by (cases np) (simp_all add: Let_def push_bit_or ac_simps)

lemma bit_small: "bit (8 :: u32) n \<longleftrightarrow> n = 3" "bit (4 :: u32) n \<longleftrightarrow> n = 2" "bit (2 :: u32) n \<longleftrightarrow> n = 1"
  using bit_exp_iff[where 'a="32 word", of 3 n] bit_exp_iff[where 'a="32 word", of 2 n] bit_exp_iff[where 'a="32 word", of 1 n]
  by (auto)

lemma flags_bits [simp]:
  "bit (flags np hs mk ks) 3" "bit (flags np hs mk ks) 2 = hs" "bit (flags np hs mk ks) 1 = np" "bit (flags np hs mk ks) 0 = mk"
  by (auto simp: flags_def KH_STATE_SMASK_def bit_simps bit_small bit_1_iff)

lemma SMASK_mask: "KH_STATE_SMASK = push_bit 8 (mask 8)"
  by (simp add: KH_STATE_SMASK_def mask_eq_exp_minus_1)

lemma flags_state: "ucast (flags np hs mk ks) AND KH_STATE_SMASK = ks AND KH_STATE_SMASK"
  unfolding flags_def SMASK_mask
  by (rule bit_word_eqI)
    (simp only: bit_and_iff bit_or_iff bit_ucast_iff bit_push_bit_iff bit_mask_iff if_distrib[of bit] if_distribR bit_small bit_1_iff bit_0_eq bot_apply, auto)

section \<open>Simple keys\<close>

fun case_chars :: "key_case \<Rightarrow> u8 list" where
  "case_chars (Key c) = [c]"
| "case_chars (Numpad_Key c) = [c]"
| "case_chars (KHS_SHIFT s u) = [s, u]"
| "case_chars (KHS_SHIFTCTL cc s u) = [cc, s, u]"
| "case_chars (KHS_SHIFTCAPSCTL cc s u) = [cc, s, u]"

definition entry_ok :: "u8 \<times> key_case \<Rightarrow> bool" where
  "entry_ok e = (case e of (sc, c) \<Rightarrow>
     sc AND 0x7F = sc \<and> sc AND 0x80 = 0 \<and> (sc OR 0x80) AND 0x7F = sc \<and> (sc OR 0x80) AND 0x80 \<noteq> 0
     \<and> sc \<notin> {0x1D, 0x2A, 0x36, 0x38, 0x3A, 0x45, 0x61} \<and> sc \<notin> {0x9D, 0xC5, 0xE0} \<and> sc OR 0x80 \<notin> {0x9D, 0xC5, 0xE0}
     \<and> KHE_UNDEFINED \<notin> set (case_chars c))"

lemma simple_table_ok: "list_all entry_ok simple_table"
  by code_simp

lemma simple_table_distinct: "distinct (map fst simple_table)"
  by code_simp

lemma simple_lookup: "(sc, c) \<in> set simple_table \<Longrightarrow> map_of simple_table sc = Some c \<and> entry_ok (sc, c)"
  using simple_table_ok simple_table_distinct by (auto simp: list_all_iff)

lemma case_code_chars: "case_code k c = (code, rcode, res) \<Longrightarrow> KHE_UNDEFINED \<notin> set (case_chars c) \<Longrightarrow>
    code \<noteq> KHE_UNDEFINED \<and> rcode \<noteq> KHE_UNDEFINED \<and> (\<exists>np. res = (if np then push_bit 16 KH_RESULT_NUMPAD else 0))"
  by (cases c) (auto split: if_splits simp: ex_bool_eq)

text \<open>Pressing or releasing a key of the table outside an extended sequence gives its character under the
  current modifiers, and the modifiers do not change.\<close>

lemma simple_key:
  assumes t: "(sc, c) \<in> set simple_table" and e: "key_internal_state k AND KH_EXTENDED_SCAN = 0"
    and b: "b = (if pressed then sc else sc OR 0x80)"
  obtains r k' where "process_scancode b k = (r, k')" "KH_HASDATA r" "KH_ISMAKE r = pressed"
    "KH_GETCHAR r = fst (case_code k c)" "KH_GETRAW r = fst (snd (case_code k c))" "KH_STATE r = key_state k AND KH_STATE_SMASK"
    "key_state k' = key_state k" "key_internal_state k' = key_internal_state k AND NOT (KH_PRSCR_UP_SCAN OR KH_PRSCR_DOWN_SCAN)"
    "key_sequence k' = key_sequence k"
proof -
  let ?k = "clear_internal (KH_PRSCR_UP_SCAN OR KH_PRSCR_DOWN_SCAN) k"
  have sc: "map_of simple_table sc = Some c" "entry_ok (sc, c)" using simple_lookup[OF t] by simp_all
  obtain code rcode res where cc: "case_code k c = (code, rcode, res)" by (cases "case_code k c") auto
  have same: "case_code ?k c = case_code k c" by (cases c) (simp_all add: clear_internal_def shifted_def control_def capslock_def)
  obtain np where np: "code \<noteq> KHE_UNDEFINED" "rcode \<noteq> KHE_UNDEFINED" "res = (if np then push_bit 16 KH_RESULT_NUMPAD else 0)"
    using case_code_chars[OF cc] sc(2) by (auto simp: entry_ok_def)
  have b': "b AND 0x7F = sc" "(b AND 0x80 = 0) = pressed" "b \<notin> {0x9D, 0xC5, 0xE0}"
    using sc(2) b by (auto simp: entry_ok_def)
  have sc': "sc AND 0x7F = sc" using sc(2) by (simp add: entry_ok_def)
  have simple: "process_simple_scan sc pressed ?k = (key_result code rcode res, ?k)"
    using sc by (simp add: process_simple_scan_def entry_ok_def Let_def same cc)
  have "process_scancode b k = default_scan sc pressed k"
    using b' e by (simp add: process_scancode_def Let_def)
  then have "process_scancode b k = add_state pressed (key_result code rcode res, ?k)"
    by (simp add: default_scan_def simple)
  moreover have "snd (add_state pressed (key_result code rcode res, ?k)) = ?k" by (simp add: add_state_def)
  ultimately have run: "process_scancode b k = (pack code rcode (flags np True pressed (key_state k)), ?k)"
    using key_result_pack[OF np(3), of pressed code rcode ?k] np(1,2) by (simp add: prod_eq_iff clear_internal_def)
  show ?thesis
    by (rule that[OF run]) (simp_all add: cc pack_state flags_state clear_internal_def)
qed

text \<open>The left shift key.\<close>

lemma left_shift:
  assumes e: "key_internal_state k AND KH_EXTENDED_SCAN = 0" and b: "b = (if pressed then 0x2A else 0xAA)"
  obtains r where "process_scancode b k = (r, set_key pressed KH_LSHIFT_KEY (clear_internal (KH_PRSCR_UP_SCAN OR KH_PRSCR_DOWN_SCAN) k))" "\<not> KH_HASDATA r"
proof -
  let ?k = "set_key pressed KH_LSHIFT_KEY (clear_internal (KH_PRSCR_UP_SCAN OR KH_PRSCR_DOWN_SCAN) k)"
  have "process_scancode b k = add_state pressed (modifier KHE_LSHIFT, ?k)"
    using e b by (cases pressed) (simp_all add: process_scancode_def default_scan_def process_simple_scan_def Let_def)
  moreover have "snd (add_state pressed (modifier KHE_LSHIFT, ?k)) = ?k" by (simp add: add_state_def)
  moreover have "\<not> KH_HASDATA (fst (add_state pressed (modifier KHE_LSHIFT, ?k)))"
    unfolding modifier_def by (subst key_result_pack[where np=False]) (simp_all add: KHE_defs)
  ultimately show ?thesis using that by (metis prod.collapse)
qed

lemma set_release: "(ks :: u16) AND m = 0 \<Longrightarrow> (ks OR m) AND NOT m = ks"
proof -
  assume "ks AND m = 0"
  then have "bit (ks AND m) n = bit (0 :: u16) n" for n by simp
  then have "\<not> (bit ks n \<and> bit m n)" for n by (simp add: bit_and_iff)
  then show ?thesis by (intro bit_word_eqI) (auto simp: bit_simps)
qed

lemma add_state_pack:
  "add_state p (pack c r f, k) = (pack c r (f OR (if p then 1 else 0) OR ucast (key_state k AND KH_STATE_SMASK)), k)"
  by (simp add: add_state_def pack_def KH_result_defs push_bit_or ac_simps)

lemma add_state_bit2: "bit (f OR (if p then 1 else 0) OR (ucast (ks AND KH_STATE_SMASK) :: u32)) 2 = bit f 2"
  unfolding SMASK_mask by (cases p) (simp_all add: bit_simps bit_1_iff)

lemma zero_pack: "pack 0 0 0 = 0"
  by (simp add: pack_def)

lemma shift_state:
  assumes "key_state k AND KH_LSHIFT_KEY = 0" and "k' = set_key True KH_LSHIFT_KEY k"
  shows "shifted k'" "control k' = control k" "capslock k' = capslock k"
proof -
  have a: "(x OR 0x8000) AND 0x3000 = x AND 0x3000" "(x OR 0x8000) AND 0x200 = x AND 0x200" for x :: u16
    by (simp_all add: bit.conj_disj_distrib2)
  have "(x OR 0x8000) AND 0xC000 \<noteq> 0" for x :: u16
  proof
    assume "(x OR 0x8000) AND 0xC000 = 0"
    then have "bit ((x OR 0x8000) AND 0xC000) 15 = bit (0 :: u16) 15" by simp
    then show False by (simp add: bit_simps)
  qed
  then show "shifted k'" "control k' = control k" "capslock k' = capslock k"
    using assms(2) a by (simp_all add: shifted_def control_def capslock_def set_key_def KH_state_defs)
qed

text \<open>Typing a letter with the left shift key held gives the shifted character, or the unshifted one when
  caps lock is on, and releasing both keys restores the modifier state; the shift key itself gives no
  character.\<close>

theorem shift_types_capital:
  assumes t: "(sc, KHS_SHIFTCAPSCTL cc s u) \<in> set simple_table" and e: "key_internal_state k = 0"
    and l: "key_state k AND KH_LSHIFT_KEY = 0" and c: "\<not> control k"
  shows "\<exists>r1 r2 r3 r4 k'. scan_all [0x2A, sc, sc OR 0x80, 0xAA] k = ([r1, r2, r3, r4], k')
    \<and> \<not> KH_HASDATA r1 \<and> \<not> KH_HASDATA r4 \<and> KH_HASDATA r2 \<and> KH_ISMAKE r2 \<and> \<not> KH_ISMAKE r3
    \<and> KH_GETCHAR r2 = (if capslock k then u else s) \<and> KH_GETRAW r2 = u
    \<and> key_state k' = key_state k \<and> key_internal_state k' = 0"
proof -
  define k1 where "k1 = set_key True KH_LSHIFT_KEY (clear_internal (KH_PRSCR_UP_SCAN OR KH_PRSCR_DOWN_SCAN) k)"
  obtain r1 where 1: "process_scancode 0x2A k = (r1, k1)" "\<not> KH_HASDATA r1"
    unfolding k1_def by (rule left_shift[of k "0x2A" True]) (use e in simp_all)
  have k1: "key_internal_state k1 = 0" "key_state k1 = key_state k OR KH_LSHIFT_KEY"
    using k1_def e by (simp_all add: set_key_def clear_internal_def)
  have m: "shifted k1" "\<not> control k1" "capslock k1 = capslock k"
    using shift_state[OF _ k1_def] l c by (simp_all add: clear_internal_def control_def capslock_def)
  obtain r2 k2 where 2: "process_scancode sc k1 = (r2, k2)" "KH_HASDATA r2" "KH_ISMAKE r2"
    "KH_GETCHAR r2 = fst (case_code k1 (KHS_SHIFTCAPSCTL cc s u))" "KH_GETRAW r2 = u" "key_state k2 = key_state k1" "key_internal_state k2 = 0"
    by (rule simple_key[OF t, of k1 sc True]) (use k1 in simp_all)
  obtain r3 k3 where 3: "process_scancode (sc OR 0x80) k2 = (r3, k3)" "\<not> KH_ISMAKE r3" "key_state k3 = key_state k1" "key_internal_state k3 = 0"
    by (rule simple_key[OF t, of k2 "sc OR 0x80" False]) (use 2(6,7) in simp_all)
  define k4 where "k4 = set_key False KH_LSHIFT_KEY (clear_internal (KH_PRSCR_UP_SCAN OR KH_PRSCR_DOWN_SCAN) k3)"
  obtain r4 where 4: "process_scancode 0xAA k3 = (r4, k4)" "\<not> KH_HASDATA r4"
    unfolding k4_def by (rule left_shift[of k3 "0xAA" False]) (use 3(4) in simp_all)
  have "key_state k4 = key_state k" "key_internal_state k4 = 0"
    using k4_def 3(3,4) k1(2) set_release[OF l] by (simp_all add: set_key_def clear_internal_def)
  then show ?thesis using 1 2 3 4 m by auto
qed

theorem shift_types_capital_witness:
  "\<exists>r1 r2 r3 r4 k'. scan_all [0x2A, 0x1E, 0x1E OR 0x80, 0xAA] initial_keys = ([r1, r2, r3, r4], k') \<and> KH_GETCHAR r2 = 0x41"
proof -
  have "(0x1E, KHS_SHIFTCAPSCTL 0x01 0x41 0x61) \<in> set simple_table" by code_simp
  moreover have "\<not> control initial_keys" "\<not> capslock initial_keys" "key_state initial_keys AND KH_LSHIFT_KEY = 0" "key_internal_state initial_keys = 0"
    by (simp_all add: control_def capslock_def initial_keys_def)
  ultimately show ?thesis using shift_types_capital[of "0x1E" "0x01" "0x41" "0x61" initial_keys] by (simp del: scan_all.simps) blast
qed

text \<open>The six bytes of the Pause key, sent between other keys, are recognised: the first five give no
  character, the last one gives \<open>KHE_PAUSE\<close>, and the modifiers and the sequence state are as before.\<close>

theorem pause_sequence:
  assumes "key_internal_state k = 0"
  shows "\<exists>rs r k'. scan_all [0xE1, 0x1D, 0x45, 0xE1, 0x9D, 0xC5] k = (rs @ [r], k') \<and> length rs = 5
    \<and> (\<forall>q\<in>set rs. \<not> KH_HASDATA q) \<and> KH_HASDATA r \<and> KH_GETCHAR r = KHE_PAUSE \<and> KH_GETRAW r = KHE_PAUSE
    \<and> key_state k' = key_state k \<and> key_internal_state k' = 0"
proof -
  let ?p = "\<lambda>n. k\<lparr>key_internal_state := KH_PAUSE_SCAN, key_sequence := n\<rparr>"
  have z: "\<not> KH_HASDATA 0" by (simp add: KH_HASDATA_def)
  have nd: "\<exists>r. add_state p (0, q) = (r, q) \<and> \<not> KH_HASDATA r" for p q
    using add_state_pack[of p 0 0 0 q] add_state_bit2[of 0 p "key_state q"]
    by (simp add: zero_pack del: or.left_neutral)
  have s1: "process_scancode 0xE1 k = add_state False (0, ?p 0)"
    using assms by (simp add: process_scancode_def default_scan_def process_simple_scan_def Let_def pause_scan_def clear_internal_def KH_state_defs)
  have s2: "process_scancode 0x1D (?p 0) = add_state True (0, ?p 1)"
    by (simp add: process_scancode_def default_scan_def process_simple_scan_def Let_def pause_scan_def clear_internal_def KH_state_defs next_stage_def)
  have s3: "process_scancode 0x45 (?p 1) = add_state True (0, ?p 2)"
    by (simp add: process_scancode_def default_scan_def process_simple_scan_def Let_def pause_scan_def clear_internal_def KH_state_defs next_stage_def)
      (simp add: numeral_2_eq_2)
  have s4: "process_scancode 0xE1 (?p 2) = add_state False (0, ?p 3)"
    by (simp add: process_scancode_def default_scan_def process_simple_scan_def Let_def pause_scan_def clear_internal_def KH_state_defs next_stage_def)
  have s5: "process_scancode 0x9D (?p 3) = (0, ?p 4)"
    by (simp add: process_scancode_def default_scan_def process_simple_scan_def Let_def pause_scan_def clear_internal_def KH_state_defs next_stage_def)
  have s6: "process_scancode 0xC5 (?p 4) = add_state False (pack KHE_PAUSE KHE_PAUSE KH_RESULT_HASDATA, (?p 4)\<lparr>key_internal_state := 0\<rparr>)"
    by (simp add: process_scancode_def Let_def pause_scan_def clear_internal_def KH_state_defs pack_def)
  obtain r1 where 1: "process_scancode 0xE1 k = (r1, ?p 0)" "\<not> KH_HASDATA r1" using s1 nd[of False "?p 0"] by auto
  obtain r2 where 2: "process_scancode 0x1D (?p 0) = (r2, ?p 1)" "\<not> KH_HASDATA r2" using s2 nd[of True "?p 1"] by auto
  obtain r3 where 3: "process_scancode 0x45 (?p 1) = (r3, ?p 2)" "\<not> KH_HASDATA r3" using s3 nd[of True "?p 2"] by auto
  obtain r4 where 4: "process_scancode 0xE1 (?p 2) = (r4, ?p 3)" "\<not> KH_HASDATA r4" using s4 nd[of False "?p 3"] by auto
  have "bit KH_RESULT_HASDATA 2" by (simp add: KH_result_defs bit_small)
  then obtain r6 where 6: "process_scancode 0xC5 (?p 4) = (r6, (?p 4)\<lparr>key_internal_state := 0\<rparr>)" "KH_HASDATA r6"
    "KH_GETCHAR r6 = KHE_PAUSE" "KH_GETRAW r6 = KHE_PAUSE"
    using add_state_bit2[of KH_RESULT_HASDATA False "key_state k"] unfolding s6 add_state_pack by simp
  have "scan_all [0xE1, 0x1D, 0x45, 0xE1, 0x9D, 0xC5] k = ([r1, r2, r3, r4, 0] @ [r6], (?p 4)\<lparr>key_internal_state := 0\<rparr>)"
    by (simp add: 1(1) 2(1) 3(1) 4(1) s5 6(1) del: One_nat_def)
  then show ?thesis
    using 1(2) 2(2) 3(2) 4(2) z 6(2,3,4) by (intro exI[of _ "[r1, r2, r3, r4, 0]"] exI[of _ r6] exI[of _ "(?p 4)\<lparr>key_internal_state := 0\<rparr>"]) simp
qed

theorem pause_sequence_witness:
  "\<exists>rs r k'. scan_all [0xE1, 0x1D, 0x45, 0xE1, 0x9D, 0xC5] initial_keys = (rs @ [r], k') \<and> KH_GETCHAR r = KHE_PAUSE"
  using pause_sequence[of initial_keys] by (simp add: initial_keys_def del: scan_all.simps) blast

section \<open>Invariant\<close>

text \<open>Only modifier bits are ever set in \<open>key_state\<close>, only the four sequence flags in
  \<open>key_internal_state\<close>, and the position in a pause sequence stays within the sequence.\<close>

definition KH_INTERNAL_MASK :: u16 where "KH_INTERNAL_MASK = 0xF"

definition keys_ok :: "keys \<Rightarrow> bool" where
  "keys_ok k \<longleftrightarrow> key_state k AND NOT KH_STATE_SMASK = 0 \<and> key_internal_state k AND NOT KH_INTERNAL_MASK = 0 \<and> key_sequence k \<le> 4"

lemma internal_masks [simp]:
  "KH_PAUSE_SCAN AND NOT KH_INTERNAL_MASK = 0" "KH_EXTENDED_SCAN AND NOT KH_INTERNAL_MASK = 0"
  "KH_PRSCR_UP_SCAN AND NOT KH_INTERNAL_MASK = 0" "KH_PRSCR_DOWN_SCAN AND NOT KH_INTERNAL_MASK = 0"
  "KH_LSHIFT_KEY AND NOT KH_STATE_SMASK = 0" "KH_RSHIFT_KEY AND NOT KH_STATE_SMASK = 0"
  "KH_LCONTROL_KEY AND NOT KH_STATE_SMASK = 0" "KH_RCONTROL_KEY AND NOT KH_STATE_SMASK = 0"
  "KH_LALT_KEY AND NOT KH_STATE_SMASK = 0" "KH_RALT_KEY AND NOT KH_STATE_SMASK = 0"
  "KH_CAPS_LOCK AND NOT KH_STATE_SMASK = 0" "KH_NUM_LOCK AND NOT KH_STATE_SMASK = 0"
  by (simp_all add: KH_state_defs KH_INTERNAL_MASK_def)

lemma keys_ok_steps [simp]:
  "keys_ok k \<Longrightarrow> m AND NOT KH_STATE_SMASK = 0 \<Longrightarrow> keys_ok (set_key p m k)"
  "keys_ok k \<Longrightarrow> m AND NOT KH_STATE_SMASK = 0 \<Longrightarrow> keys_ok (toggle_key p m k)"
  "keys_ok k \<Longrightarrow> keys_ok (end_pause k)"
  "keys_ok k \<Longrightarrow> key_sequence k \<le> 3 \<Longrightarrow> keys_ok (next_stage k)"
  "keys_ok k \<Longrightarrow> keys_ok (clear_internal m k)"
  "keys_ok k \<Longrightarrow> m AND NOT KH_INTERNAL_MASK = 0 \<Longrightarrow> keys_ok (set_internal m k)"
  "keys_ok k \<Longrightarrow> keys_ok (k\<lparr>key_internal_state := key_internal_state k OR KH_PAUSE_SCAN, key_sequence := 0\<rparr>)"
proof -
  have a: "(x AND NOT m) AND NOT c = 0" if "x AND NOT c = 0" for x m c :: u16
    using that by (metis and.commute and.left_commute and_zero_eq)
  have b: "(x OR m) AND NOT c = 0" if "x AND NOT c = 0" "m AND NOT c = 0" for x m c :: u16
    using that by (simp add: bit.conj_disj_distrib2)
  note d = keys_ok_def set_key_def toggle_key_def end_pause_def next_stage_def clear_internal_def set_internal_def
  show "keys_ok k \<Longrightarrow> m AND NOT KH_STATE_SMASK = 0 \<Longrightarrow> keys_ok (set_key p m k)"
    "keys_ok k \<Longrightarrow> m AND NOT KH_STATE_SMASK = 0 \<Longrightarrow> keys_ok (toggle_key p m k)"
    "keys_ok k \<Longrightarrow> keys_ok (end_pause k)" "keys_ok k \<Longrightarrow> key_sequence k \<le> 3 \<Longrightarrow> keys_ok (next_stage k)"
    "keys_ok k \<Longrightarrow> keys_ok (clear_internal m k)" "keys_ok k \<Longrightarrow> m AND NOT KH_INTERNAL_MASK = 0 \<Longrightarrow> keys_ok (set_internal m k)"
    "keys_ok k \<Longrightarrow> keys_ok (k\<lparr>key_internal_state := key_internal_state k OR KH_PAUSE_SCAN, key_sequence := 0\<rparr>)"
    by (simp_all add: d a b internal_masks)
qed

lemma keys_ok_simple: "keys_ok k \<Longrightarrow> keys_ok (snd (process_simple_scan sc p k))"
  unfolding process_simple_scan_def Let_def by (auto split: option.split prod.split)

lemma keys_ok_extended: "keys_ok k \<Longrightarrow> keys_ok (snd (process_extended_scan sc p k))"
  unfolding process_extended_scan_def Let_def by (auto split: option.split prod.split)

lemma snd_add_state: "snd (add_state p r) = snd r"
  by (simp add: add_state_def split: prod.split)

lemma keys_ok_default: "keys_ok k \<Longrightarrow> keys_ok (snd (default_scan sc p k))"
  by (simp add: default_scan_def snd_add_state keys_ok_simple)

lemma keys_ok_scan: "keys_ok k \<Longrightarrow> keys_ok (snd (process_scancode b k))"
  unfolding process_scancode_def Let_def by (auto simp: snd_add_state keys_ok_extended keys_ok_default)

text \<open>C38: the state of the translator stays well formed whatever bytes the keyboard sends, from the initial
  state on.\<close>

theorem keys_ok_always: "keys_ok (snd (scan_all bs initial_keys))"
proof -
  have "keys_ok k \<Longrightarrow> keys_ok (snd (scan_all bs k))" for k
    using keys_ok_scan by (induction bs arbitrary: k) (auto split: prod.split, metis snd_conv)
  moreover have "keys_ok initial_keys" by (simp add: keys_ok_def initial_keys_def)
  ultimately show ?thesis by blast
qed

end
