(* ===== verification/Console_IO.thy ===== *)
theory Console_IO
  imports Exec Memory_Calls Fork Console Keyboard Keyhelp
begin

unbundle bit_operations_syntax

text \<open>
  The devices and the system calls on them: the keyboard and timer interrupts
  (\<open>kern/hardware/keyboard.c\<close>, \<open>kern/hardware/timer.c\<close>), the console calls
  (\<open>kern/syscall/sys_consoleIO.c\<close>), \<open>readfile\<close> and \<open>halt\<close> (\<open>kern/syscall/sys_misc.c\<close>), the page fault
  handler (\<open>kern/exception/exception_handler_real.c\<close>), the interrupt descriptor table
  (\<open>kern/handler_install.c\<close>) and the boot sequence (\<open>kern/kernel.c\<close>). The record \<open>kernel\<close> is the whole
  state of the system. \<open>pp\<close> is the parameter of the console driver, \<open>toc\<close> the table of program files.
\<close>

section \<open>State\<close>

datatype tickback = Tick

record kernel = kvm +
  con :: console
  ring :: kbd
  scan :: keys
  total_num :: int
  callback :: "tickback option"
  idt :: "nat \<Rightarrow> u32"

definition on_con :: "(console \<Rightarrow> 'b \<times> console) \<Rightarrow> ('a kernel_scheme, 'b) kop" where
  "on_con f s = (case f (con s) of (r, c) \<Rightarrow> Inr (r, s\<lparr>con := c\<rparr>))"

definition INT_CTL_PORT :: u16 where "INT_CTL_PORT = 0x20"
definition INT_ACK_CURRENT :: u8 where "INT_ACK_CURRENT = 0x20"

definition ack :: "('a kernel_scheme, unit) kop" where
  "ack = on_con (\<lambda>c. ((), outb INT_CTL_PORT INT_ACK_CURRENT c))"

section \<open>Interrupts\<close>

definition run_tickback :: "tickback \<Rightarrow> u32 \<Rightarrow> ('a kcore_scheme, unit) kop" where
  "run_tickback f ticks = (case f of Tick \<Rightarrow> tick ticks)"

definition timer_handler :: "('a kernel_scheme, int) kop" where
  "timer_handler =
     bindK (modifyK (\<lambda>s. s\<lparr>numTicks := numTicks s + 1\<rparr>)) (\<lambda>_.
     bindK ack (\<lambda>_.
     bindK (readK callback) (\<lambda>cb.
     bindK (readK numTicks) (\<lambda>ticks.
     bindK (case cb of None \<Rightarrow> returnK () | Some f \<Rightarrow> run_tickback f ticks) (\<lambda>_. returnK 0)))))"

definition setup_timer :: "tickback \<Rightarrow> ('a kernel_scheme, unit) kop" where
  "setup_timer f = modifyK (\<lambda>s. s\<lparr>callback := Some f\<rparr>)"

definition echo_key :: "bool \<Rightarrow> u8 \<Rightarrow> ('a kernel_scheme, unit) kop" where
  "echo_key pp c =
     bindK (modifyK (\<lambda>s. s\<lparr>total_num := total_num s + 1, ring := enqueue c (ring s)\<rparr>)) (\<lambda>_.
     bindK (on_con (putbyte pp c)) (\<lambda>_. ack))"

definition keyboard_char :: "bool \<Rightarrow> u8 \<Rightarrow> ('a kernel_scheme, unit) kop" where
  "keyboard_char pp real_char =
     (if real_char = 10 then
        bindK (search entry_thread Blocked_queue (\<lambda>s t. t_state (tcbs s t) = THREAD_READLINE)) (\<lambda>found.
        case found of
          None \<Rightarrow> bindK (on_con (putbyte pp real_char)) (\<lambda>_. ack)
        | Some t \<Rightarrow>
            bindK (set_tcb t (\<lambda>x. x\<lparr>t_state := THREAD_RUNNABLE\<rparr>)) (\<lambda>_.
            bindK (delete_node Blocked_queue (Thread_list_node t)) (\<lambda>_.
            bindK (insert_last Runnable_queue (Thread_list_node t)) (\<lambda>_.
            echo_key pp real_char))))
      else if real_char = 8 then
        bindK (readK total_num) (\<lambda>n.
        if n = 0 then ack
        else bindK (modifyK (\<lambda>s. s\<lparr>total_num := total_num s - 2\<rparr>)) (\<lambda>_. echo_key pp real_char))
      else echo_key pp real_char)"

text \<open>The byte is what \<open>inb(KEYBOARD_PORT)\<close> reads.\<close>

definition keyboard_handler :: "bool \<Rightarrow> u8 \<Rightarrow> ('a kernel_scheme, unit) kop" where
  "keyboard_handler pp scancode =
     bindK (readK (\<lambda>s. process_scancode scancode (scan s))) (\<lambda>(aug_char, scan').
     bindK (modifyK (\<lambda>s. s\<lparr>scan := scan'\<rparr>)) (\<lambda>_.
     if \<not> KH_HASDATA aug_char \<or> \<not> KH_ISMAKE aug_char then ack
     else keyboard_char pp (KH_GETCHAR aug_char)))"

section \<open>Console system calls\<close>

definition MAX_READ_LEN :: int where "MAX_READ_LEN = 4096"

text \<open>\<open>readline\<close> up to its call of the scheduler, and what the caller does when it runs again.\<close>

definition sys_readline_before :: "int \<Rightarrow> u32 \<Rightarrow> ('a kvm_scheme, int option) kop" where
  "sys_readline_before len buf =
     bindK (checked_pointer buf) (\<lambda>ok.
     if \<not> ok then returnK (Some (-1))
     else if len > MAX_READ_LEN then returnK (Some (-1))
     else
       bindK lock_me (\<lambda>_.
       bindK (set_my_state THREAD_READLINE) (\<lambda>_.
       bindK unlock_me (\<lambda>_.
       bindK (schedule (-1)) (\<lambda>_. returnK None)))))"

definition next_char :: "('a kernel_scheme, int) kop" where
  "next_char s = (case readchar (ring s) of (c, k) \<Rightarrow> Inr (c, s\<lparr>ring := k\<rparr>))"

text \<open>One round of the loop for the character \<open>c\<close>: the new count, and whether the loop goes on.\<close>

definition readline_char :: "int \<Rightarrow> u32 \<Rightarrow> int \<Rightarrow> int \<Rightarrow> ('a kernel_scheme, int \<times> bool) kop" where
  "readline_char len buf count c =
     bindK (user_write (buf + word_of_int count) (word_of_int c)) (\<lambda>_.
     let count1 = count + 1;
         count2 = (if c = 8 then (if count1 - 1 > 0 then count1 - 2 else count1 - 1) else count1) in
     if count2 = len
     then bindK (user_write (buf + word_of_int (count2 - 1)) 0) (\<lambda>_. returnK (count2, False))
     else if c = 10
     then bindK (user_write (buf + word_of_int (count2 - 1)) 10) (\<lambda>_. returnK (count2, False))
     else returnK (count2, True))"

partial_function (option) readline_loop ::
  "int \<Rightarrow> u32 \<Rightarrow> int \<Rightarrow> 'a kernel_scheme \<Rightarrow> (fault + (int \<times> 'a kernel_scheme)) option" where
  "readline_loop len buf count s =
     (case next_char s of
        Inl e \<Rightarrow> Some (Inl e)
      | Inr (c, s1) \<Rightarrow>
          if c = -1 then Some (Inr (count, s1))
          else
            (case readline_char len buf count c s1 of
               Inl e \<Rightarrow> Some (Inl e)
             | Inr ((count', go_on), s2) \<Rightarrow>
                 if go_on then readline_loop len buf count' s2 else Some (Inr (count', s2))))"

definition sys_readline_after :: "int \<Rightarrow> u32 \<Rightarrow> ('a kernel_scheme, int) kop" where
  "sys_readline_after len buf =
     bindK (modifyK (\<lambda>s. s\<lparr>interrupts := False\<rparr>)) (\<lambda>_.
     if len < 0 then returnK (-1)
     else
       bindK (\<lambda>s. case readline_loop len buf 0 s of None \<Rightarrow> Inl Diverges | Some r \<Rightarrow> r) (\<lambda>count.
       bindK (modifyK (\<lambda>s. s\<lparr>total_num := total_num s - count, interrupts := True\<rparr>)) (\<lambda>_. returnK count)))"

text \<open>The trace output at the start of \<open>print\<close> measures the string, before its pointer is checked.\<close>

definition sys_print :: "bool \<Rightarrow> int \<Rightarrow> u32 \<Rightarrow> ('a kernel_scheme, int) kop" where
  "sys_print pp len buf =
     bindK (mutex_lock Print_lock) (\<lambda>_.
     bindK (user_string buf) (\<lambda>str.
     bindK (checked_pointer buf) (\<lambda>ok.
     if \<not> ok then returnK (-1)
     else
       bindK (zoomK con (\<lambda>c s. s\<lparr>con := c\<rparr>) (putbytes pp (Some (\<lambda>i. (str @ [0]) ! i)) len)) (\<lambda>_.
       bindK (mutex_unlock Print_lock) (\<lambda>_. returnK 0)))))"

definition sys_get_cursor_pos :: "u32 \<Rightarrow> u32 \<Rightarrow> ('a kernel_scheme, int) kop" where
  "sys_get_cursor_pos row_p col_p =
     bindK (checked_pointer row_p) (\<lambda>ok1.
     if \<not> ok1 then returnK (-1)
     else
       bindK (checked_pointer col_p) (\<lambda>ok2.
       if \<not> ok2 then returnK (-1)
       else
         bindK (readK con) (\<lambda>c.
         bindK (user_write32 row_p (word_of_int (row c))) (\<lambda>_.
         bindK (user_write32 col_p (word_of_int (col c))) (\<lambda>_. returnK 0)))))"

definition sys_set_cursor_pos :: "int \<Rightarrow> int \<Rightarrow> ('a kernel_scheme, int) kop" where
  "sys_set_cursor_pos r k = on_con (set_cursor r k)"

section \<open>readfile and halt\<close>

text \<open>\<open>strcmp\<close> of a name of the table with a user string, which stops at the first difference.\<close>

fun user_strcmp :: "bytes \<Rightarrow> u32 \<Rightarrow> ('a kvm_scheme, bool) kop" where
  "user_strcmp [] va = bindK (user_read va) (\<lambda>b. returnK (b = 0))"
| "user_strcmp (c # cs) va = bindK (user_read va) (\<lambda>b. if b \<noteq> c then returnK False else user_strcmp cs (va + 1))"

fun readfile_loop :: "toc \<Rightarrow> u32 \<Rightarrow> u32 \<Rightarrow> int \<Rightarrow> int \<Rightarrow> ('a kvm_scheme, int) kop" where
  "readfile_loop [] filename buf sz off = returnK (-1)"
| "readfile_loop ((execname, execbytes) # toc) filename buf sz off =
     bindK (user_strcmp execname filename) (\<lambda>eq.
     if eq then
       let realsize = (if sz < int (length execbytes) - off then sz else int (length execbytes) - off) in
       if realsize < 0 then returnK (-1)
       else bindK (user_write_bytes buf (take (nat realsize) (drop (nat off) execbytes))) (\<lambda>_. returnK realsize)
     else readfile_loop toc filename buf sz off)"

definition sys_readfile :: "toc \<Rightarrow> u32 \<Rightarrow> u32 \<Rightarrow> int \<Rightarrow> int \<Rightarrow> ('a kvm_scheme, int) kop" where
  "sys_readfile toc filename buf sz off =
     bindK (checked_pointer filename) (\<lambda>ok1.
     if \<not> ok1 then returnK (-1)
     else
       bindK (checked_pointer buf) (\<lambda>ok2.
       if \<not> ok2 then returnK (-1)
       else if sz < 0 \<or> off < 0 then returnK (-1)
       else readfile_loop toc filename buf sz off))"

text \<open>\<open>halt\<close> clears the screen, asks the simulator to stop and loops.\<close>

definition sys_halt :: "('a kernel_scheme, unit) kop" where
  "sys_halt = bindK (on_con (\<lambda>c. ((), clear_console c))) (\<lambda>_. failK Diverges)"

section \<open>Page faults\<close>

definition words_of_ureg :: "ureg \<Rightarrow> u32 list" where
  "words_of_ureg r = [r_cause r, r_cr2 r, r_ds r, r_es r, r_fs r, r_gs r, r_edi r, r_esi r, r_ebp r, r_zero r, r_ebx r,
     r_edx r, r_ecx r, r_eax r, r_error_code r, r_eip r, r_cs r, r_eflags r, r_esp r, r_ss r]"

definition get_real_handler :: "u32 \<Rightarrow> ureg \<Rightarrow> ('a kvm_scheme, unit) kop" where
  "get_real_handler cr2 ureg0 =
     (let cur_ureg = ureg0\<lparr>r_cr2 := cr2\<rparr> in
      bindK (readK current_thread) (\<lambda>me.
      bindK (get_tcb me) (\<lambda>t.
      let info = t_swexn_info t in
      if i_installed_flag info = 0 then
        bindK (sys_set_status (-2)) (\<lambda>_.
        bindK (copy_header (Threads (t_pcb t))) (\<lambda>_.
        bindK reap_peers (\<lambda>_. sys_vanish)))
      else
        let new_esp = i_esp3 info - 80; now_esp = new_esp - 12 in
        bindK (set_tcb me (\<lambda>t. t\<lparr>t_swexn_info := \<lparr>i_esp3 = 0, i_eip = 0, i_arg = 0, i_newureg = 0, i_installed_flag = 0,
                 i_eflags = r_eflags cur_ureg\<rparr>\<rparr>)) (\<lambda>_.
        bindK (write_words new_esp (words_of_ureg cur_ureg)) (\<lambda>_.
        bindK (user_write32 (new_esp - 4) new_esp) (\<lambda>_.
        bindK (user_write32 (new_esp - 8) (i_arg info)) (\<lambda>_.
        modifyK (\<lambda>s. s\<lparr>user_mode := Some ((t_registers t)\<lparr>r_eip := i_eip info, r_esp := now_esp\<rparr>)\<rparr>))))))))"

section \<open>The interrupt descriptor table\<close>

definition SEGSEL_KERNEL_CS :: u32 where "SEGSEL_KERNEL_CS = 0x10"

definition install_gate :: "u32 \<Rightarrow> nat \<Rightarrow> u32 \<Rightarrow> ('a kernel_scheme, unit) kop" where
  "install_gate reserved idt_entry handler =
     modifyK (\<lambda>s. s\<lparr>idt := (idt s)(idt_entry * 2 := push_bit 16 SEGSEL_KERNEL_CS OR (handler AND 0x0000FFFF),
                                 idt_entry * 2 + 1 := (handler AND 0xFFFF0000) OR reserved)\<rparr>)"

definition handler_gate :: "nat \<Rightarrow> u32 \<Rightarrow> ('a kernel_scheme, unit) kop" where
  "handler_gate = install_gate 0xef00"

definition interrupt_gate :: "nat \<Rightarrow> u32 \<Rightarrow> ('a kernel_scheme, unit) kop" where
  "interrupt_gate = install_gate 0x8e00"

text \<open>The gates \<open>handler_install\<close> builds, in order; the addresses of the wrappers are an argument.\<close>

datatype wrapper = PF | W_exec | W_fork | W_gettid | W_wait | W_set_status | W_vanish | W_print | W_readfile | W_sleep
  | W_deschedule | W_halt | W_readline | W_new_pages | W_remove_pages | W_swexn | W_thread_fork | W_get_ticks | W_yield
  | W_make_runnable | W_set_term_color | W_get_cursor_pos | W_set_cursor_pos | W_timer | W_keyboard

definition syscall_gates :: "(nat \<times> wrapper) list" where
  "syscall_gates = [(0x42, W_exec), (0x41, W_fork), (0x48, W_gettid), (0x44, W_wait), (0x59, W_set_status), (0x60, W_vanish),
     (0x4E, W_print), (0x62, W_readfile), (0x4B, W_sleep), (0x46, W_deschedule), (0x55, W_halt), (0x4D, W_readline),
     (0x49, W_new_pages), (0x4A, W_remove_pages), (0x74, W_swexn), (0x52, W_thread_fork), (0x53, W_get_ticks),
     (0x45, W_yield), (0x47, W_make_runnable), (0x4F, W_set_term_color), (0x51, W_get_cursor_pos), (0x50, W_set_cursor_pos)]"

fun install_gates :: "(wrapper \<Rightarrow> u32) \<Rightarrow> (nat \<times> wrapper) list \<Rightarrow> ('a kernel_scheme, unit) kop" where
  "install_gates addr [] = returnK ()"
| "install_gates addr ((n, w) # gs) = bindK (handler_gate n (addr w)) (\<lambda>_. install_gates addr gs)"

definition TIMER_PERIOD :: u32 where "TIMER_PERIOD = 1193182 div 100"

definition port_out :: "u16 \<Rightarrow> u8 \<Rightarrow> ('a kernel_scheme, unit) kop" where
  "port_out p v = on_con (\<lambda>c. ((), outb p v c))"

definition keyboard_setup :: "('a kernel_scheme, unit) kop" where
  "keyboard_setup =
     bindK (calloc 1 512) (\<lambda>q.
     bindK (liftF (setup_keyboard (q \<noteq> 0))) (\<lambda>k. modifyK (\<lambda>s. s\<lparr>ring := k\<rparr>)))"

definition handler_install :: "(wrapper \<Rightarrow> u32) \<Rightarrow> tickback \<Rightarrow> ('a kernel_scheme, int) kop" where
  "handler_install addr tickback =
     bindK (handler_gate 0x0E (addr PF)) (\<lambda>_.
     bindK (port_out 0x43 0x36) (\<lambda>_.
     bindK (port_out 0x40 (ucast (TIMER_PERIOD AND 0xFF))) (\<lambda>_.
     bindK (port_out 0x40 (ucast (drop_bit 8 TIMER_PERIOD AND 0xFF))) (\<lambda>_.
     bindK (setup_timer tickback) (\<lambda>_.
     bindK keyboard_setup (\<lambda>_.
     bindK (interrupt_gate 0x20 (addr W_timer)) (\<lambda>_.
     bindK (interrupt_gate 0x21 (addr W_keyboard)) (\<lambda>_.
     bindK (install_gates addr syscall_gates) (\<lambda>_. returnK 0)))))))))"

section \<open>Boot\<close>

text \<open>\<open>kernel_main\<close> up to the point where \<open>init\<close> runs in user mode; the loop behind it is not reached.\<close>

definition kernel_main :: "toc \<Rightarrow> (wrapper \<Rightarrow> u32) \<Rightarrow> u32 \<Rightarrow> int \<Rightarrow> nat option \<Rightarrow> ('a kernel_scheme, int) kop" where
  "kernel_main toc addr eflags machine_phys_frames uninit =
     bindK malloc_init (\<lambda>_.
     bindK (handler_install addr Tick) (\<lambda>_.
     bindK (on_con (\<lambda>c. ((), clear_console c))) (\<lambda>_.
     bindK (on_con (sys_set_term_color 0x2)) (\<lambda>_.
     bindK (on_con (\<lambda>c. ((), show_cursor c))) (\<lambda>_.
     bindK (mm_init machine_phys_frames uninit) (\<lambda>_.
     bindK process_init (\<lambda>_.
     bindK thr_init (\<lambda>_.
     bindK (modifyK (\<lambda>s. s\<lparr>interrupts := True\<rparr>)) (\<lambda>_.
     bindK (process_create toc eflags (ascii ''idle'') False) (\<lambda>_.
     process_create toc eflags (ascii ''init'') True))))))))))"

section \<open>The gates\<close>

definition gate_offset :: "(nat \<Rightarrow> u32) \<Rightarrow> nat \<Rightarrow> u32" where
  "gate_offset tab n = (tab (n * 2 + 1) AND 0xFFFF0000) OR (tab (n * 2) AND 0xFFFF)"

definition gate_selector :: "(nat \<Rightarrow> u32) \<Rightarrow> nat \<Rightarrow> u32" where
  "gate_selector tab n = drop_bit 16 (tab (n * 2))"

definition gate_dpl :: "(nat \<Rightarrow> u32) \<Rightarrow> nat \<Rightarrow> u32" where
  "gate_dpl tab n = drop_bit 13 (tab (n * 2 + 1)) AND 3"

definition gate_present :: "(nat \<Rightarrow> u32) \<Rightarrow> nat \<Rightarrow> bool" where
  "gate_present tab n = bit (tab (n * 2 + 1)) 15"

definition gate_ok :: "(nat \<Rightarrow> u32) \<Rightarrow> nat \<Rightarrow> u32 \<Rightarrow> u32 \<Rightarrow> bool" where
  "gate_ok tab n handler dpl \<longleftrightarrow> gate_present tab n \<and> gate_offset tab n = handler
     \<and> gate_selector tab n = SEGSEL_KERNEL_CS \<and> gate_dpl tab n = dpl"

definition with_gate :: "u32 \<Rightarrow> nat \<Rightarrow> u32 \<Rightarrow> (nat \<Rightarrow> u32) \<Rightarrow> (nat \<Rightarrow> u32)" where
  "with_gate reserved n handler tab =
     tab(n * 2 := push_bit 16 SEGSEL_KERNEL_CS OR (handler AND 0x0000FFFF), n * 2 + 1 := (handler AND 0xFFFF0000) OR reserved)"

lemma masks32: "(0xFFFF :: u32) = mask 16" "(0xFFFF0000 :: u32) = push_bit 16 (mask 16)" "(3 :: u32) = mask 2"
  by (simp_all add: mask_eq_exp_minus_1)

lemma gate_words:
  "((handler AND 0xFFFF0000 OR r) AND 0xFFFF0000) OR ((push_bit 16 sel OR (handler AND 0xFFFF)) AND 0xFFFF) = (handler :: u32)"
  "drop_bit 16 (push_bit 16 sel OR (handler AND 0xFFFF)) = take_bit 16 sel"
  "drop_bit 13 (handler AND 0xFFFF0000 OR r) AND 3 = drop_bit 13 r AND (3 :: u32)"
  "bit (handler AND 0xFFFF0000 OR r) 15 = bit r 15"
  if "take_bit 16 r = r" for handler r sel :: u32
proof -
  have r: "\<not> bit r n" if "16 \<le> n" for n using \<open>take_bit 16 r = r\<close> that by (metis bit_take_bit_iff not_le)
  show "((handler AND 0xFFFF0000 OR r) AND 0xFFFF0000) OR ((push_bit 16 sel OR (handler AND 0xFFFF)) AND 0xFFFF) = handler"
    unfolding masks32 by (rule bit_word_eqI) (use r in \<open>auto simp: bit_simps\<close>)
  show "drop_bit 16 (push_bit 16 sel OR (handler AND 0xFFFF)) = take_bit 16 sel"
    unfolding masks32 by (rule bit_word_eqI) (auto simp: bit_simps dest: bit_imp_le_length)
  show "drop_bit 13 (handler AND 0xFFFF0000 OR r) AND 3 = drop_bit 13 r AND 3"
    unfolding masks32 by (rule bit_word_eqI) (auto simp: bit_simps)
  show "bit (handler AND 0xFFFF0000 OR r) 15 = bit r 15"
    unfolding masks32 by (auto simp: bit_simps)
qed

lemma with_gate_same:
  "gate_ok (with_gate 0xef00 n h tab) n h 3" "gate_ok (with_gate 0x8e00 n h tab) n h 0"
proof -
  have t: "take_bit 16 (0xef00 :: u32) = 0xef00" "take_bit 16 (0x8e00 :: u32) = 0x8e00" "take_bit 16 SEGSEL_KERNEL_CS = SEGSEL_KERNEL_CS"
    by (simp_all add: SEGSEL_KERNEL_CS_def)
  have b: "bit (0xef00 :: u32) 15" "bit (0x8e00 :: u32) 15" by (simp_all add: bit_numeral_rec)
  have d: "drop_bit 13 (0xef00 :: u32) AND 3 = 3" "drop_bit 13 (0x8e00 :: u32) AND 3 = 0" by simp_all
  show "gate_ok (with_gate 0xef00 n h tab) n h 3" "gate_ok (with_gate 0x8e00 n h tab) n h 0"
    using gate_words(1)[OF t(1), of h SEGSEL_KERNEL_CS] gate_words(3,4)[OF t(1), of h] gate_words(2)[OF t(1), of SEGSEL_KERNEL_CS h]
      gate_words(1)[OF t(2), of h SEGSEL_KERNEL_CS] gate_words(3,4)[OF t(2), of h] t b d
    by (simp_all add: gate_ok_def gate_present_def gate_offset_def gate_selector_def gate_dpl_def with_gate_def
        del: drop_bit_numeral_bit0)
qed

lemma with_gate_other: "m \<noteq> n \<Longrightarrow> gate_ok (with_gate r n h tab) m h' d = gate_ok tab m h' d"
proof -
  assume "m \<noteq> n"
  then have "m * 2 \<noteq> n * 2" "m * 2 \<noteq> n * 2 + 1" "m * 2 + 1 \<noteq> n * 2" "m * 2 + 1 \<noteq> n * 2 + 1" by presburger+
  then show ?thesis by (simp add: gate_ok_def gate_present_def gate_offset_def gate_selector_def gate_dpl_def with_gate_def)
qed

lemma install_gate_run: "install_gate r n h s = Inr ((), s\<lparr>idt := with_gate r n h (idt s)\<rparr>)"
  by (simp add: install_gate_def with_gate_def)

lemma install_gates_run:
  "install_gates addr gs s = Inr ((), s\<lparr>idt := fold (\<lambda>(n, w). with_gate 0xef00 n (addr w)) gs (idt s)\<rparr>)"
  by (induction gs arbitrary: s) (auto simp: handler_gate_def install_gate_run)

lemma fold_gates_other:
  "m \<notin> fst ` set gs \<Longrightarrow> gate_ok (fold (\<lambda>(n, w). with_gate 0xef00 n (addr w)) gs tab) m h d = gate_ok tab m h d"
  by (induction gs arbitrary: tab) (auto simp: with_gate_other)

lemma fold_gates:
  "distinct (map fst gs) \<Longrightarrow> (n, w) \<in> set gs \<Longrightarrow> gate_ok (fold (\<lambda>(n, w). with_gate 0xef00 n (addr w)) gs tab) n (addr w) 3"
proof (induction gs arbitrary: tab)
  case (Cons g gs)
  obtain m v where g: "g = (m, v)" by force
  show ?case
  proof (cases "g = (n, w)")
    case True
    then show ?thesis using Cons.prems(1) fold_gates_other[of n gs addr "with_gate 0xef00 n (addr w) tab"] by (simp add: with_gate_same)
  next
    case False
    then show ?thesis using Cons by (auto simp: g)
  qed
qed simp

lemma calloc_run:
  assumes ok: "heap_ok s"
  shows "\<exists>p L hm. calloc 1 512 s = Inr (p, heap_step s L hm)"
proof -
  have lo: "lmm_ok (malloc_lmm (held Malloc_mutex s))" using ok by (simp add: heap_ok_def)
  have "0 < unat (512 + 4 :: u32)" "unat (512 + 4 :: u32) + 7 < 2 ^ 32" by simp_all
  from lmm_alloc_spec[OF lo this, of 0] obtain q L where a: "lmm_alloc (malloc_lmm s) (512 + 4) 0 = Inr (q, L)" by auto
  define h where "h = held Malloc_mutex s"
  define p where "p = (if q = 0 then 0 else q + 4)"
  define h1 where "h1 = h\<lparr>malloc_lmm := L, hmem := (if q = 0 then hmem s else store32 q 516 (hmem s))\<rparr>"
  have m: "u_malloc 512 h = Inr (p, h1)"
    using a by (simp add: u_malloc_def pool_alloc_def poke_def Let_def p_def h1_def h_def)
  define hm where "hm = (if p = 0 then hmem h1 else zero_bytes p 512 (hmem h1))"
  have "u_calloc 1 512 h = Inr (p, h1\<lparr>hmem := hm\<rparr>)"
    by (cases "p = 0") (simp_all add: u_calloc_def poke_def Let_def m hm_def)
  then have "calloc 1 512 s = Inr (p, released Malloc_mutex (h1\<lparr>hmem := hm\<rparr>))"
    unfolding calloc_def using ok by (intro locked_run) (simp_all add: heap_ok_def h_def h1_def)
  moreover have "released Malloc_mutex (h1\<lparr>hmem := hm\<rparr>) = heap_step s L hm"
    by (simp add: h1_def h_def heap_step_def released_def held_def)
  ultimately show ?thesis by auto
qed

lemma heap_step_kernel [simp]:
  "idt (heap_step s L hm) = idt s" "callback (heap_step s L hm) = callback s" "con (heap_step s L hm) = con s"
  by (simp_all add: heap_step_def released_def)

lemma syscall_gates_distinct: "distinct (map fst syscall_gates)" "fst ` set syscall_gates \<inter> {0x0E, 0x20, 0x21} = {}"
  by code_simp+

text \<open>\<open>handler_install\<close>, on a well-formed heap, either panics for want of memory for the keyboard buffer or
  leaves a table in which every system call and the page fault has a present gate to its wrapper that
  user code may use (privilege level 3), the timer and the keyboard have gates to theirs that it may not
  (level 0), the periodic tick is set, and the timer is programmed for 100 interrupts a second.\<close>

theorem handler_install_gates:
  assumes "heap_ok s"
  shows "handler_install addr tb s = Inl Assert_Failed \<or>
    (\<exists>s'. handler_install addr tb s = Inr (0, s') \<and> callback s' = Some tb
      \<and> (\<forall>(n, w)\<in>set ((0x0E, PF) # syscall_gates). gate_ok (idt s') n (addr w) 3)
      \<and> (\<forall>(n, w)\<in>{(0x20, W_timer), (0x21, W_keyboard)}. gate_ok (idt s') n (addr w) 0)
      \<and> ports (con s') = ports (con s) @ [(0x43, 0x36), (0x40, 0x9B), (0x40, 0x2E)])"
proof -
  define s1 where "s1 = s\<lparr>idt := with_gate 0xef00 0x0E (addr PF) (idt s),
    con := outb 0x40 0x2E (outb 0x40 0x9B (outb 0x43 0x36 (con s))), callback := Some tb\<rparr>"
  have p: "ucast (TIMER_PERIOD AND 0xFF) = (0x9B :: u8)" "ucast (drop_bit 8 TIMER_PERIOD AND 0xFF) = (0x2E :: u8)"
    by (simp_all add: TIMER_PERIOD_def)
  have "heap_ok s1" using assms by (simp add: heap_ok_def s1_def quiet_def)
  then obtain q L hm where c: "calloc 1 512 s1 = Inr (q, heap_step s1 L hm)" using calloc_run by blast
  have pre: "handler_install addr tb s =
    bindK keyboard_setup (\<lambda>_. bindK (interrupt_gate 0x20 (addr W_timer)) (\<lambda>_. bindK (interrupt_gate 0x21 (addr W_keyboard)) (\<lambda>_.
      bindK (install_gates addr syscall_gates) (\<lambda>_. returnK 0)))) s1"
    by (simp add: handler_install_def handler_gate_def install_gate_run port_out_def on_con_def setup_timer_def p s1_def)
  show ?thesis
  proof (cases "q = 0")
    case True
    then have "keyboard_setup s1 = Inl Assert_Failed" using c by (simp add: keyboard_setup_def setup_keyboard_def)
    then show ?thesis by (simp add: pre)
  next
    case False
    then obtain k where k: "keyboard_setup s1 = Inr ((), (heap_step s1 L hm)\<lparr>ring := k\<rparr>)"
      using c by (simp add: keyboard_setup_def setup_keyboard_def)
    let ?tab = "with_gate 0x8e00 0x21 (addr W_keyboard) (with_gate 0x8e00 0x20 (addr W_timer) (idt s1))"
    let ?f = "fold (\<lambda>(n, w). with_gate 0xef00 n (addr w)) syscall_gates ?tab"
    let ?s' = "(heap_step s1 L hm)\<lparr>ring := k, idt := ?f\<rparr>"
    have run: "handler_install addr tb s = Inr (0, ?s')"
      by (simp add: pre k interrupt_gate_def install_gate_run install_gates_run)
    have i: "idt s1 = with_gate 0xef00 0x0E (addr PF) (idt s)" by (simp add: s1_def)
    have other: "gate_ok ?f n h d = gate_ok ?tab n h d" if "n \<in> {0x0E, 0x20, 0x21}" for n h d
      using syscall_gates_distinct(2) that by (intro fold_gates_other) auto
    have "gate_ok ?f 0x0E (addr PF) 3" by (rule other[THEN iffD2]) (simp_all add: with_gate_other i with_gate_same)
    moreover have "gate_ok ?f 0x20 (addr W_timer) 0" "gate_ok ?f 0x21 (addr W_keyboard) 0"
      by (rule other[THEN iffD2], simp_all add: with_gate_other with_gate_same)+
    moreover have "gate_ok ?f n (addr w) 3" if "(n, w) \<in> set syscall_gates" for n w
      by (rule fold_gates[OF syscall_gates_distinct(1) that])
    ultimately show ?thesis
      by (intro disjI2 exI[of _ ?s']) (auto simp: run s1_def outb_def)
  qed
qed

section \<open>A concrete kernel state\<close>

text \<open>The address space of \<open>demo_vm\<close> with thread 8 running, the given queues, and idle devices; every blocked
  thread waits for a line.\<close>

definition demo_kernel :: "u32 list \<Rightarrow> u32 list \<Rightarrow> kernel" where
  "demo_kernel rs bs = kvm.extend (demo_vm\<lparr>lh := lh (demo_core 8 rs bs),
       tcbs := (\<lambda>t. empty_tcb\<lparr>t_pcb := 16, t_tid := uint t, t_state := (if t \<in> set bs then THREAD_READLINE else THREAD_RUNNING)\<rparr>)\<rparr>)
     \<lparr>con = (initial_cursor (\<lambda>_. 0))\<lparr>is_visible := True\<rparr>, ring = \<lparr>s_queue = replicate BUF_LEN 0, start = 0, tail = 0\<rparr>,
      scan = initial_keys, total_num = 0, callback = None, idt = (\<lambda>_. 0)\<rparr>"

lemma demo_kernel_heap: "heap_ok (demo_kernel rs bs)"
  using demo_vm_ok demo_core_quiet[of 8 rs bs]
  by (simp add: vm_ok_def heap_ok_def quiet_def demo_kernel_def kvm.extend_def)

lemma demo_kernel_sched:
  assumes "distinct (rs @ bs)" "0 \<notin> set (rs @ bs)" "8 \<notin> set (rs @ bs)"
  shows "sched_inv (demo_kernel rs bs) rs bs"
proof -
  have "sched_inv (demo_core 8 rs bs) rs bs" using assms by (intro demo_core_inv) auto
  then show ?thesis by (simp add: sched_inv_def demo_kernel_def kvm.extend_def demo_core_def demo_vm_defs empty_tcb_def)
qed

theorem handler_install_gates_witness:
  "handler_install (\<lambda>_. 0x00123456) Tick (demo_kernel [] []) = Inl Assert_Failed
   \<or> (\<exists>s'. handler_install (\<lambda>_. 0x00123456) Tick (demo_kernel [] []) = Inr (0, s') \<and> gate_ok (idt s') 0x41 0x00123456 3)"
proof -
  have "(0x41, W_fork) \<in> set syscall_gates" by (simp add: syscall_gates_def)
  then show ?thesis using handler_install_gates[OF demo_kernel_heap, of "\<lambda>_. 0x00123456" Tick "[]" "[]"] by fastforce
qed

section \<open>Keyboard input\<close>

lemma enqueue_one:
  assumes "kbd_inv k"
  shows "kbd_inv (enqueue c k)" "pending (enqueue c k) = drop (used k + 1 - 511) (pending k @ [c])"
  using kq.inv_fold[OF assms, of "[c]"] kq.content_fold[OF assms, of "[c]"] by (simp_all add: BUF_LEN_def)

definition typed :: "bool \<Rightarrow> u8 \<Rightarrow> 'a kernel_scheme \<Rightarrow> 'a kernel_scheme" where
  "typed pp c s = s\<lparr>total_num := total_num s + 1, ring := enqueue c (ring s),
     con := outb INT_CTL_PORT INT_ACK_CURRENT (snd (putbyte pp c (con s)))\<rparr>"

lemma echo_key_run: "echo_key pp c s = Inr ((), typed pp c s)"
  by (simp add: echo_key_def on_con_def ack_def typed_def putbyte_def)

text \<open>What the handler does with each kind of key.\<close>

definition is_char :: "kh_type \<Rightarrow> bool" where
  "is_char r \<longleftrightarrow> KH_HASDATA r \<and> KH_ISMAKE r"

lemma key_silent:
  "process_scancode b (scan s) = (r, k) \<Longrightarrow> \<not> is_char r \<Longrightarrow>
   keyboard_handler pp b s = Inr ((), s\<lparr>scan := k, con := outb INT_CTL_PORT INT_ACK_CURRENT (con s)\<rparr>)"
  by (auto simp: keyboard_handler_def is_char_def ack_def on_con_def)

lemma key_plain:
  "process_scancode b (scan s) = (r, k) \<Longrightarrow> is_char r \<Longrightarrow> KH_GETCHAR r \<notin> {8, 10} \<Longrightarrow>
   keyboard_handler pp b s = Inr ((), typed pp (KH_GETCHAR r) (s\<lparr>scan := k\<rparr>))"
  by (simp add: keyboard_handler_def is_char_def keyboard_char_def echo_key_run)

lemma key_enter:
  assumes p: "process_scancode b (scan s) = (r, k)" "is_char r" "KH_GETCHAR r = 10"
    and inv: "sched_inv s rs bs" and f: "List.find (\<lambda>t. t_state (tcbs s t) = THREAD_READLINE) bs = Some t"
  shows "keyboard_handler pp b s = Inr ((), typed pp 10 (wake_thread t (s\<lparr>scan := k\<rparr>)))"
proof -
  let ?s1 = "s\<lparr>scan := k\<rparr>"
  have inv1: "sched_inv ?s1 rs bs" using inv by (simp add: sched_inv_def)
  have "t \<in> set bs" using f by (auto simp: find_Some_iff)
  then have "t \<noteq> 0" using inv by (auto simp: sched_inv_def)
  moreover have "search entry_thread Blocked_queue (\<lambda>s t. t_state (tcbs s t) = THREAD_READLINE) ?s1 = Inr (Some t, ?s1)"
    using search_sched(2)[OF inv1, of "\<lambda>s t. t_state (tcbs s t) = THREAD_READLINE"] f by simp
  ultimately show ?thesis using p
    by (simp add: keyboard_handler_def is_char_def keyboard_char_def delete_node_def insert_last_def echo_key_run wake_thread_def)
qed

lemma key_enter_unread:
  assumes p: "process_scancode b (scan s) = (r, k)" "is_char r" "KH_GETCHAR r = 10"
    and inv: "sched_inv s rs bs" and f: "List.find (\<lambda>t. t_state (tcbs s t) = THREAD_READLINE) bs = None"
  shows "keyboard_handler pp b s = Inr ((), s\<lparr>scan := k, con := outb INT_CTL_PORT INT_ACK_CURRENT (snd (putbyte pp 10 (con s)))\<rparr>)"
proof -
  let ?s1 = "s\<lparr>scan := k\<rparr>"
  have "sched_inv ?s1 rs bs" using inv by (simp add: sched_inv_def)
  from search_sched(2)[OF this, of "\<lambda>s t. t_state (tcbs s t) = THREAD_READLINE"] f
  have "search entry_thread Blocked_queue (\<lambda>s t. t_state (tcbs s t) = THREAD_READLINE) ?s1 = Inr (None, ?s1)" by simp
  then show ?thesis using p
    by (simp add: keyboard_handler_def is_char_def keyboard_char_def on_con_def ack_def putbyte_def)
qed

lemma key_erase:
  assumes "process_scancode b (scan s) = (r, k)" "is_char r"
  shows "KH_GETCHAR r = 8 \<Longrightarrow> total_num s = 0 \<Longrightarrow>
      keyboard_handler pp b s = Inr ((), s\<lparr>scan := k, con := outb INT_CTL_PORT INT_ACK_CURRENT (con s)\<rparr>)"
    "KH_GETCHAR r = 8 \<Longrightarrow> total_num s \<noteq> 0 \<Longrightarrow>
      keyboard_handler pp b s = Inr ((), typed pp 8 (s\<lparr>scan := k, total_num := total_num s - 2\<rparr>))"
  using assms by (simp_all add: keyboard_handler_def is_char_def keyboard_char_def ack_def on_con_def echo_key_run)

text \<open>C30: a key press that stands for a character, in a well-formed state. Enter wakes the first thread that
  waits for a line: it becomes runnable and goes to the end of the runnable queue; when none waits,
  the newline is only echoed. Otherwise the character (Backspace only when there is something to erase) is
  put at the end of the pending input, which keeps the newest 511 characters. Every such key but a Backspace with nothing
  to erase is echoed: the console does what \<open>putbyte\<close> does for it, and the interrupt is acknowledged after that. The
  number of characters typed is one more for a character that is stored, one less for a Backspace.\<close>

theorem keyboard_handler_correct:
  assumes scan: "process_scancode b (scan s) = (r, k)" and data: "KH_HASDATA r" "KH_ISMAKE r"
    and inv: "sched_inv s rs bs" "kbd_inv (ring s)"
  shows "\<exists>s'. keyboard_handler pp b s = Inr ((), s') \<and> scan s' = k \<and> kbd_inv (ring s') \<and>
    (if KH_GETCHAR r = 10
     then case List.find (\<lambda>t. t_state (tcbs s t) = THREAD_READLINE) bs of
            None \<Rightarrow> sched_inv s' rs bs \<and> pending (ring s') = pending (ring s)
          | Some t \<Rightarrow> sched_inv s' (rs @ [t]) (remove1 t bs) \<and> t_state (tcbs s' t) = THREAD_RUNNABLE
              \<and> pending (ring s') = drop (used (ring s) + 1 - 511) (pending (ring s) @ [10])
     else sched_inv s' rs bs \<and> pending (ring s') =
       (if KH_GETCHAR r = 8 \<and> total_num s = 0 then pending (ring s)
        else drop (used (ring s) + 1 - 511) (pending (ring s) @ [KH_GETCHAR r])))
    \<and> con s' = outb INT_CTL_PORT INT_ACK_CURRENT
        (if KH_GETCHAR r = 8 \<and> total_num s = 0 then con s else snd (putbyte pp (KH_GETCHAR r) (con s)))
    \<and> total_num s' = (if KH_GETCHAR r = 8 then (if total_num s = 0 then 0 else total_num s - 1)
        else if KH_GETCHAR r = 10 \<and> List.find (\<lambda>t. t_state (tcbs s t) = THREAD_READLINE) bs = None then total_num s
        else total_num s + 1)"
proof -
  let ?c = "KH_GETCHAR r" and ?s1 = "s\<lparr>scan := k\<rparr>"
  have ch: "is_char r" using data by (simp add: is_char_def)
  have inv1: "sched_inv ?s1 rs bs" using inv by (simp add: sched_inv_def)
  have en: "kbd_inv (ring (typed pp ?c s2)) \<and> pending (ring (typed pp ?c s2)) = drop (used (ring s) + 1 - 511) (pending (ring s) @ [?c])
      \<and> scan (typed pp ?c s2) = scan s2 \<and> sched_inv (typed pp ?c s2) = sched_inv s2 \<and> total_num (typed pp ?c s2) = total_num s2 + 1
      \<and> con (typed pp ?c s2) = outb INT_CTL_PORT INT_ACK_CURRENT (snd (putbyte pp ?c (con s2)))" if "ring s2 = ring s" for s2 :: "'a kernel_scheme"
    using enqueue_one[OF inv(2)] that by (simp add: typed_def sched_inv_def fun_eq_iff)
  consider t where "?c = 10" "List.find (\<lambda>t. t_state (tcbs s t) = THREAD_READLINE) bs = Some t"
    | "?c = 10" "List.find (\<lambda>t. t_state (tcbs s t) = THREAD_READLINE) bs = None"
    | "?c = 8" "total_num s = 0" | "?c = 8" "total_num s \<noteq> 0" | "?c \<notin> {8, 10}" by blast
  then show ?thesis
  proof cases
    case (1 t)
    then have t: "t \<in> set bs" by (auto simp: find_Some_iff)
    have w: "ring (wake_thread t ?s1) = ring s" "scan (wake_thread t ?s1) = k" "con (wake_thread t ?s1) = con s"
      "total_num (wake_thread t ?s1) = total_num s" by (simp_all add: wake_thread_def)
    have "t_state (tcbs (typed pp ?c (wake_thread t ?s1)) t) = THREAD_RUNNABLE" by (simp add: typed_def wake_thread_def)
    then show ?thesis using 1 key_enter[OF scan ch 1(1) inv(1) 1(2), of pp] en[OF w(1)] w(2-) wake_thread_inv[OF inv1 t] by auto
  next
    case 2
    then show ?thesis using key_enter_unread[OF scan ch 2(1) inv(1) 2(2), of pp] inv by (simp add: sched_inv_def)
  next
    case 3
    then show ?thesis using key_erase(1)[OF scan ch, of pp] inv by (simp add: sched_inv_def)
  next
    case 4
    have "sched_inv (?s1\<lparr>total_num := total_num s - 2\<rparr>) rs bs" using inv(1) by (simp add: sched_inv_def)
    then show ?thesis using 4 key_erase(2)[OF scan ch, of pp] en[of "?s1\<lparr>total_num := total_num s - 2\<rparr>"] by simp
  next
    case 5
    then show ?thesis using key_plain[OF scan ch 5, of pp] en[of ?s1] inv1 by simp
  qed
qed

theorem keyboard_handler_correct_witness:
  "(\<exists>s'. keyboard_handler True 0x1C (demo_kernel [] [16]) = Inr ((), s') \<and> sched_inv s' [16] [] \<and> pending (ring s') = [10])
   \<and> (\<exists>s'. keyboard_handler True 0x1E (demo_kernel [] []) = Inr ((), s') \<and> pending (ring s') = [97] \<and> total_num s' = 1
       \<and> get_char 0 0 (con s') = 97)"
proof
  let ?s = "demo_kernel [] [16]" let ?r = "fst (process_scancode 0x1C initial_keys)"
  have r: "process_scancode 0x1C (scan ?s) = (?r, snd (process_scancode 0x1C initial_keys))"
    by (simp add: demo_kernel_def kvm.extend_def)
  have c: "KH_HASDATA ?r" "KH_ISMAKE ?r" "KH_GETCHAR ?r = 10" by code_simp+
  have i: "sched_inv ?s [] [16]" "kbd_inv (ring ?s)" "used (ring ?s) = 0"
    by (rule demo_kernel_sched, simp_all add: demo_kernel_def kvm.extend_def kbd_inv_def BUF_LEN_def used_def)
  have p: "pending (ring ?s) = []" using i(3) by (simp add: pending_def)
  have t: "t_state (tcbs ?s 16) = THREAD_READLINE" by (simp add: demo_kernel_def kvm.extend_def)
  from keyboard_handler_correct[OF r c(1,2) i(1,2), of True]
  show "\<exists>s'. keyboard_handler True 0x1C ?s = Inr ((), s') \<and> sched_inv s' [16] [] \<and> pending (ring s') = [10]"
    by (simp add: c(3) p t i(3)) blast
next
  let ?s = "demo_kernel [] []" let ?r = "fst (process_scancode 0x1E initial_keys)"
  have r: "process_scancode 0x1E (scan ?s) = (?r, snd (process_scancode 0x1E initial_keys))"
    by (simp add: demo_kernel_def kvm.extend_def)
  have c: "KH_HASDATA ?r" "KH_ISMAKE ?r" "KH_GETCHAR ?r = 97" by code_simp+
  have i: "sched_inv ?s [] []" "kbd_inv (ring ?s)" "used (ring ?s) = 0" "total_num ?s = 0"
    by (rule demo_kernel_sched, simp_all add: demo_kernel_def kvm.extend_def kbd_inv_def BUF_LEN_def used_def)
  have p: "pending (ring ?s) = []" using i(3) by (simp add: pending_def)
  have e: "get_char 0 0 (outb p v (snd (putbyte True 97 (con ?s)))) = 97" for p v
    by (simp add: demo_kernel_def kvm.extend_def initial_cursor_def putbyte_def printbyte_def store_char_def get_char_def outb_def
      update_cursor_def update_offset_def cursor_next_def is_screen_full_def put_cell_def cell_addr_def console_consts)
  from keyboard_handler_correct[OF r c(1,2) i(1,2), of True]
  show "\<exists>s'. keyboard_handler True 0x1E ?s = Inr ((), s') \<and> pending (ring s') = [97] \<and> total_num s' = 1
       \<and> get_char 0 0 (con s') = 97"
    by (auto simp: c(3) p i(3,4) e)
qed

end
