(* ===== verification/Readline.thy ===== *)
theory Readline
  imports Console_IO
begin

text \<open>
  What \<open>sys_readline\<close> (\<open>kern/syscall/sys_consoleIO.c\<close>) delivers: one round of its loop, and the whole
  loop on a line in the keyboard buffer.
\<close>

unbundle bit_operations_syntax

lemma mmu_walk_ring [simp]: "mmu_walk (s\<lparr>ring := k\<rparr>) va = mmu_walk s va"
  by (simp add: mmu_walk_def Let_def)

lemma put_byte_frame [simp]: "put_byte (s\<lparr>ring := k\<rparr>) va b = put_byte s va b"
  by (simp add: put_byte_def split: option.split)

section \<open>One round of the loop\<close>

text \<open>Bytes of the keyboard as characters.\<close>

lemma sint_char:
  "(sint (c :: u8) = -1) = (c = 0xFF)" "(sint c = 8) = (c = 8)" "(sint c = 10) = (c = 10)"
proof -
  have "(sint c = sint d) = (c = d)" for d :: u8 by (metis word_eq_iff_signed)
  from this[of "0xFF"] this[of 8] this[of 10] show "(sint c = -1) = (c = 0xFF)" "(sint c = 8) = (c = 8)" "(sint c = 10) = (c = 10)"
    by simp_all
qed

lemma next_char_run:
  assumes "kbd_inv (ring s)" "pending (ring s) = c # cs"
  obtains k where "next_char s = Inr (sint c, s\<lparr>ring := k\<rparr>)" "kbd_inv k" "pending k = cs"
proof -
  have "fst (readchar (ring s)) = sint c" "pending (snd (readchar (ring s))) = cs"
    using kq.empty_iff[OF assms(1)] kq.content_deq[OF assms(1)] assms(2) by (simp_all add: readchar_def Let_def case_prod_beta)
  moreover note kbd_inv_readchar[OF assms(1)]
  ultimately show ?thesis using that[of "snd (readchar (ring s))"] by (simp add: next_char_def case_prod_beta)
qed

lemma pages_ring: "s\<lparr>pages := p, ring := k\<rparr> = s\<lparr>ring := k, pages := p\<rparr>" by simp

lemma user_write_bytes_ring:
  "user_write_bytes va bs s = Inr ((), s\<lparr>pages := p\<rparr>) \<Longrightarrow>
   user_write_bytes va bs (s\<lparr>ring := k\<rparr>) = Inr ((), s\<lparr>ring := k, pages := p\<rparr>)"
proof (induction bs arbitrary: va s)
  case Nil
  then have "s = s\<lparr>pages := p\<rparr>" by simp
  from arg_cong[OF this, of "\<lambda>t. t\<lparr>ring := k\<rparr>"] have e: "s\<lparr>ring := k\<rparr> = s\<lparr>pages := p, ring := k\<rparr>" .
  show ?case unfolding e by simp
next
  case (Cons b bs)
  have m: "mmu_walk s va \<noteq> None" using Cons.prems by (auto simp: user_write_def bindK_def split: option.splits)
  have "user_write_bytes (va + 1) bs (s\<lparr>pages := put_byte s va b\<rparr>) = Inr ((), (s\<lparr>pages := put_byte s va b\<rparr>)\<lparr>pages := p\<rparr>)"
    using Cons.prems m by (simp add: user_write_run)
  from Cons.IH[OF this] m show ?case by (simp add: user_write_run pages_ring)
qed

lemma readline_char_plain:
  assumes "c \<notin> {8, 10}" "int n + 1 \<noteq> len" "mmu_walk s (buf + of_nat n) \<noteq> None"
  shows "readline_char len buf (int n) (sint c) s = Inr ((int (Suc n), True), s\<lparr>pages := put_byte s (buf + of_nat n) c\<rparr>)"
  using assms by (simp add: readline_char_def user_write_run sint_char Let_def)

lemma readline_char_newline:
  assumes "int n + 1 \<noteq> len" "mmu_walk s (buf + of_nat n) \<noteq> None"
  shows "readline_char len buf (int n) 10 s = Inr ((int (Suc n), False), s\<lparr>pages := put_byte s (buf + of_nat n) 10\<rparr>)"
  using assms by (simp add: readline_char_def user_write_run put_byte_twice Let_def)

lemma readline_loop_line:
  assumes "kbd_inv (ring s)" "pending (ring s) = cs @ 10 # rest" "\<forall>c\<in>set cs. c \<notin> {8, 10, 0xFF}"
    "int n + int (length cs) + 1 < len" "\<forall>i\<le>length cs. mmu_walk s (buf + of_nat (n + i)) \<noteq> None"
  shows "\<exists>k p. readline_loop len buf (int n) s = Some (Inr (int n + int (length cs) + 1, s\<lparr>ring := k, pages := p\<rparr>))
    \<and> user_write_bytes (buf + of_nat n) (cs @ [10]) s = Inr ((), s\<lparr>pages := p\<rparr>) \<and> kbd_inv k \<and> pending k = rest"
  using assms
proof (induction cs arbitrary: n s)
  case Nil
  obtain k where k: "next_char s = Inr (sint (10 :: u8), s\<lparr>ring := k\<rparr>)" "kbd_inv k" "pending k = rest"
    by (rule next_char_run[OF Nil.prems(1), of 10 rest]) (use Nil.prems(2) in simp_all)
  have w: "mmu_walk s (buf + of_nat n) \<noteq> None" using Nil.prems(5) by simp
  have r: "readline_char len buf (int n) 10 (s\<lparr>ring := k\<rparr>) = Inr ((int (Suc n), False), s\<lparr>ring := k, pages := put_byte s (buf + of_nat n) 10\<rparr>)"
    using readline_char_newline[of n len "s\<lparr>ring := k\<rparr>" buf] w Nil.prems(4) by simp
  show ?case
    using k r w by (intro exI[of _ k] exI[of _ "put_byte s (buf + of_nat n) 10"])
      (subst readline_loop.simps, simp add: user_write_run)
next
  case (Cons c cs)
  obtain k where k: "next_char s = Inr (sint c, s\<lparr>ring := k\<rparr>)" "kbd_inv k" "pending k = cs @ 10 # rest"
    by (rule next_char_run[OF Cons.prems(1), of c "cs @ 10 # rest"]) (use Cons.prems(2) in simp_all)
  have w: "mmu_walk s (buf + of_nat n) \<noteq> None" using Cons.prems(5) by (metis add_0_right le0)
  let ?p = "put_byte s (buf + of_nat n) c" let ?s1 = "s\<lparr>ring := k, pages := ?p\<rparr>"
  have c: "c \<notin> {8, 10}" "c \<noteq> 0xFF" using Cons.prems(3) by auto
  have r: "readline_char len buf (int n) (sint c) (s\<lparr>ring := k\<rparr>) = Inr ((int (Suc n), True), ?s1)"
    using readline_char_plain[OF c(1), of n len "s\<lparr>ring := k\<rparr>" buf] w Cons.prems(4) by simp
  have m: "\<forall>i\<le>length cs. mmu_walk ?s1 (buf + of_nat (Suc n + i)) \<noteq> None"
  proof (intro allI impI)
    fix i assume "i \<le> length cs"
    then show "mmu_walk ?s1 (buf + of_nat (Suc n + i)) \<noteq> None" using Cons.prems(5)[rule_format, of "Suc i"] by simp
  qed
  obtain k' p' where ih: "readline_loop len buf (int (Suc n)) ?s1 = Some (Inr (int (Suc n) + int (length cs) + 1, ?s1\<lparr>ring := k', pages := p'\<rparr>))"
    "user_write_bytes (buf + of_nat (Suc n)) (cs @ [10]) ?s1 = Inr ((), ?s1\<lparr>pages := p'\<rparr>)" "kbd_inv k'" "pending k' = rest"
    using Cons.IH[of ?s1 "Suc n"] k(2,3) Cons.prems(3,4) m by auto
  have u: "user_write_bytes (buf + of_nat n) ((c # cs) @ [10]) s = Inr ((), s\<lparr>pages := p'\<rparr>)"
    proof -
    have "user_write_bytes (buf + of_nat (Suc n)) (cs @ [10]) (?s1\<lparr>ring := ring s\<rparr>) = Inr ((), ?s1\<lparr>ring := ring s, pages := p'\<rparr>)"
      by (rule user_write_bytes_ring) (rule ih(2))
    then show ?thesis using w by (simp add: user_write_run add.assoc add.commute[of 1])
  qed
  have l: "readline_loop len buf (int n) s = readline_loop len buf (int (Suc n)) ?s1"
    using k(1) r c(2) by (subst readline_loop.simps) (simp add: sint_char)
  show ?case using l ih u by (intro exI[of _ k'] exI[of _ p']) simp
qed

lemma readline_line:
  assumes "kbd_inv (ring s)" and "pending (ring s) = cs @ 10 # rest" and "\<forall>c\<in>set cs. c \<notin> {8, 10, 0xFF}"
    and "int (length cs) + 1 < len" and "\<forall>i\<le>length cs. mmu_walk s (buf + of_nat i) \<noteq> None"
    and "inj_on (\<lambda>i. place s (buf + of_nat i)) {..length cs}"
  shows "\<exists>s'. sys_readline_after len buf s = Inr (int (length cs) + 1, s')
    \<and> (\<forall>i\<le>length cs. peek s' (buf + of_nat i) = Some ((cs @ [10]) ! i))
    \<and> (\<forall>x. (\<forall>i\<le>length cs. place s (buf + of_nat i) \<noteq> place s x) \<longrightarrow> peek s' x = peek s x)
    \<and> kbd_inv (ring s') \<and> pending (ring s') = rest
    \<and> total_num s' = total_num s - (int (length cs) + 1) \<and> interrupts s'"
proof -
  let ?s0 = "s\<lparr>interrupts := False\<rparr>"
  obtain k p where l: "readline_loop len buf (int 0) ?s0 = Some (Inr (int 0 + int (length cs) + 1, ?s0\<lparr>ring := k, pages := p\<rparr>))"
    and w: "user_write_bytes (buf + of_nat 0) (cs @ [10]) ?s0 = Inr ((), ?s0\<lparr>pages := p\<rparr>)" and k: "kbd_inv k" "pending k = rest"
    using readline_loop_line[of ?s0 cs rest 0 len buf] assms by auto
  have pl: "place ?s0 x = place s x" "peek ?s0 x = peek s x" for x by (simp_all add: place_def peek_def)
  have lt: "{..<length (cs @ [10 :: u8])} = {..length cs}" "i < length (cs @ [10 :: u8]) \<longleftrightarrow> i \<le> length cs" for i by auto
  have "user_write_bytes buf (cs @ [10]) ?s0 = Inr ((), ?s0\<lparr>pages := p\<rparr>)" using w by simp
  note pk = write_bytes_peek[OF this, unfolded lt pl, OF assms(6)]
  define s' where "s' = s\<lparr>ring := k, pages := p, total_num := total_num s - (int (length cs) + 1), interrupts := True\<rparr>"
  have "sys_readline_after len buf s = Inr (int (length cs) + 1, s')"
    using l assms(4) by (simp add: sys_readline_after_def s'_def)
  moreover have "peek s' x = peek (?s0\<lparr>pages := p\<rparr>) x" for x
    by (simp add: s'_def peek_def mmu_walk_def Let_def)
  moreover have "interrupts s'" "kbd_inv (ring s')" "pending (ring s') = rest" "total_num s' = total_num s - (int (length cs) + 1)"
    using k by (simp_all add: s'_def)
  ultimately show ?thesis using pk by (intro exI[of _ s']) simp
qed


text \<open>C31: a line is delivered. When the keyboard buffer holds a line without backspaces that ends with Enter,
  and the buffer of the caller is mapped, distinct in memory and longer than the line, then \<open>readline\<close>, running again after it
  was woken, stores exactly that line with its newline, changes no other byte of the address space, returns its length, leaves what was
  typed after it in the keyboard buffer, takes the line off the count of echoed characters and enables interrupts.\<close>

theorem readline_delivers_line:
  assumes "kbd_inv (ring s)" and "pending (ring s) = cs @ 10 # rest" and "\<forall>c\<in>set cs. c \<notin> {8, 10, 0xFF}"
    and "int (length cs) + 1 < len" and "\<forall>i\<le>length cs. mmu_walk s (buf + of_nat i) \<noteq> None"
    and "inj_on (\<lambda>i. place s (buf + of_nat i)) {..length cs}"
  shows "\<exists>s'. sys_readline_after len buf s = Inr (int (length cs) + 1, s')
    \<and> (\<forall>i\<le>length cs. peek s' (buf + of_nat i) = Some ((cs @ [10]) ! i))
    \<and> (\<forall>x. (\<forall>i\<le>length cs. place s (buf + of_nat i) \<noteq> place s x) \<longrightarrow> peek s' x = peek s x)
    \<and> kbd_inv (ring s') \<and> pending (ring s') = rest
    \<and> total_num s' = total_num s - (int (length cs) + 1) \<and> interrupts s'"
  using assms by (rule readline_line)

theorem readline_delivers_line_witness:
  "\<exists>s'. sys_readline_after 80 0x01000000 ((demo_kernel [] [])\<lparr>ring := \<lparr>s_queue = [104, 105, 10] @ replicate 509 0, start = 0, tail = 3\<rparr>,
      tables := (\<lambda>_ _. 0x400007)\<rparr>) = Inr (3, s') \<and> peek s' 0x01000001 = Some 105 \<and> pending (ring s') = []"
proof -
  let ?k = "\<lparr>s_queue = [104, 105, 10] @ replicate 509 0, start = 0, tail = 3\<rparr> :: kbd"
  let ?s = "(demo_kernel [] [])\<lparr>ring := ?k, tables := (\<lambda>_ _. 0x400007)\<rparr>"
  have k: "kbd_inv (ring ?s)" by (simp add: kbd_inv_def BUF_LEN_def)
  have p: "pending (ring ?s) = [104, 105] @ 10 # []"
    by (simp add: pending_def used_def BUF_LEN_def upt_rec numeral_2_eq_2)
  have w: "mmu_walk ?s va = Some (frame_index 0x400000)" for va
    by (simp add: mmu_walk_def DEFLAG_ADDR_def Let_def)
  have a: "unat ((0x01000000 :: u32) + of_nat i) mod 4096 = i" if "i \<le> 2" for i
  proof -
    have "i = 0 \<or> i = 1 \<or> i = 2" using that by arith
    then show ?thesis by auto
  qed
  have "inj_on (\<lambda>i. place ?s (0x01000000 + of_nat i)) {..length [104, 105 :: u8]}"
  proof (rule inj_onI)
    fix i j assume "i \<in> {..length [104, 105 :: u8]}" "j \<in> {..length [104, 105 :: u8]}"
    then have "i \<le> 2" "j \<le> 2" by simp_all
    moreover assume "place ?s (0x01000000 + of_nat i) = place ?s (0x01000000 + of_nat j)"
    then have "unat ((0x01000000 :: u32) + of_nat i) mod 4096 = unat ((0x01000000 :: u32) + of_nat j) mod 4096"
      unfolding place_def by (rule conjunct2[OF prod.inject[THEN iffD1]])
    ultimately show "i = j" by (simp only: a)
  qed
  from readline_delivers_line[OF k p _ _ _ this, of 80] w obtain s' where
    "sys_readline_after 80 0x01000000 ?s = Inr (3, s')" "pending (ring s') = []"
    "\<forall>i\<le>2. peek s' (0x01000000 + of_nat i) = Some (([104, 105] @ [10]) ! i)" by auto
  moreover from this(3)[rule_format, of 1] have "peek s' 0x01000001 = Some 105" by simp
  ultimately show ?thesis by blast
qed

end
