(* ===== verification/Blocking.thy ===== *)
theory Blocking
  imports Thread_Calls
begin

text \<open>
  Threads that give up the processor (\<open>kern/thread/sys_thread_management.c\<close>): what a call of \<open>schedule\<close>
  does for a thread that is not to run on, and with it \<open>sleep\<close> and the pair \<open>deschedule\<close> and \<open>make_runnable\<close>.
\<close>

section \<open>Giving up the processor\<close>

lemma after_wake_cong:
  assumes "\<And>t. t \<in> set bs \<Longrightarrow> wake_due t s1 = wake_due t s2"
  shows "after_wake s1 rs bs = after_wake s2 rs bs"
proof -
  have "List.find (\<lambda>t. wake_due t s1) bs = List.find (\<lambda>t. wake_due t s2) bs"
    using assms by (intro find_cong) auto
  then show ?thesis by (simp add: after_wake_def woken_def)
qed

lemma after_wake_set:
  "after_wake s rs bs = (rs1, bs1) \<Longrightarrow> set rs1 \<subseteq> set (rs @ bs)" "after_wake s rs bs = (rs1, bs1) \<Longrightarrow> set bs1 \<subseteq> set bs"
  using set_remove1_subset by (fastforce simp: after_wake_def dest: woken_in split: option.splits)+

text \<open>A thread whose state keeps it off the runnable queue calls \<open>schedule(-1)\<close> with no lock taken but,
  when it is descheduling itself, \<open>deschedule_lock\<close>: it goes to the end of the blocked queue, its control block stays as it
  is, the first runnable thread runs, and no lock is taken any more.\<close>

abbreviation blocked_states :: "int set" where
  "blocked_states \<equiv> {THREAD_BLOCKED, THREAD_WAITING, THREAD_READLINE, THREAD_SLEEPING}"

lemma block_and_switch:
  assumes inv: "sched_inv s rs bs" and st: "t_state (tcbs s (current_thread s)) \<in> blocked_states"
    and l: "\<And>m. length_l (headers (lh s) (Waiting_queue m)) = 0"
    and m: "\<And>m. m_status (mutexes s m) = 0 \<or> t_state (tcbs s (current_thread s)) = THREAD_BLOCKED \<and> m = Deschedule_lock"
    and w: "after_wake s rs bs = (nxt # rs1, bs1)"
  obtains s' where "schedule (-1) s = Inr ((), s')" "sched_inv s' rs1 (bs1 @ [current_thread s])" "current_thread s' = nxt"
    "tcbs s' (current_thread s) = tcbs s (current_thread s)" "all_quiet s'" "interrupts s'" "numTicks s' = numTicks s"
    "pcbs s' = pcbs s" "\<And>t. tcbs s' t = (tcbs s t)\<lparr>t_state := t_state (tcbs s' t)\<rparr>"
proof -
  let ?me = "current_thread s"
  have p: "pick_seq (-1) s (nxt # rs1) = Some nxt" by (simp add: pick_seq_def)
  have r: "requeue_seq (t_state (tcbs s ?me)) ?me (remove1 nxt (nxt # rs1)) bs1 = (rs1, bs1 @ [?me])"
    using st by (auto simp: requeue_seq_def THREAD_EXIT_def THREAD_BLOCKED_def THREAD_WAITING_def THREAD_READLINE_def THREAD_SLEEPING_def)
  show ?thesis
  proof (rule schedule_spec[OF inv l w p r], goal_cases)
    case (1 s')
  have "nxt \<in> set (rs @ bs)" using after_wake_set(1)[OF w] by auto
  then have "nxt \<noteq> ?me" "woken s bs \<noteq> Some ?me" using inv woken_in[of s bs ?me] by (auto simp: sched_inv_def)
  then have "t_state (tcbs s' ?me) = t_state (tcbs s ?me)" using 1(10) by blast
  then have me: "tcbs s' ?me = tcbs s ?me" using 1(9)[of ?me] by simp
  have "all_quiet s'"
    unfolding all_quiet_def quiet_def using m l by (auto simp: 1(12,13) unlocks_def released_def)
  then show ?case using that[OF 1(1,2,3) me _ 1(4,7,6,9)] by blast
  qed
qed

lemma demo_all_quiet: "all_quiet (demo_core me rs bs)"
  by (simp add: all_quiet_def quiet_def demo_core_quiet) (simp add: demo_core_def empty_core_def)

section \<open>sleep\<close>

lemma sched_inv_own_tcb:
  "sched_inv s rs bs \<Longrightarrow> t_pcb x = t_pcb (tcbs s (current_thread s)) \<Longrightarrow> sched_inv (s\<lparr>tcbs := (tcbs s)(current_thread s := x)\<rparr>) rs bs"
  by (auto simp: sched_inv_def)

text \<open>C36: \<open>sleep\<close> for a positive number of ticks, from a well-formed state with no lock taken and some thread to
  run: the caller goes to the end of the blocked queue, the first runnable thread runs, and as long as the clock does not wrap the
  caller is due to be woken when and only when more than that many ticks have passed. A negative number gives -1 and zero gives 0, and
  the caller goes on.\<close>

theorem sys_sleep_correct:
  assumes inv: "sched_inv s rs bs" and q: "all_quiet s" and w: "after_wake s rs bs = (nxt # rs1, bs1)"
    and n: "0 < n" "n < 2 ^ 31" and nowrap: "unat (numTicks s) + n < 2 ^ 32"
  shows "sys_sleep (- int n) s = Inr (-1, s) \<and> sys_sleep 0 s = Inr (0, s)
    \<and> (\<exists>s'. sys_sleep (int n) s = Inr (0, s') \<and> sched_inv s' rs1 (bs1 @ [current_thread s]) \<and> current_thread s' = nxt \<and> all_quiet s'
      \<and> (\<forall>(s'' :: 'a kcore_scheme) d. tcbs s'' (current_thread s) = tcbs s' (current_thread s) \<and> numTicks s'' = numTicks s + of_nat d
            \<and> unat (numTicks s) + d < 2 ^ 32 \<longrightarrow> wake_due (current_thread s) s'' = (n < d)))"
proof -
  let ?me = "current_thread s"
  let ?x = "(tcbs s ?me)\<lparr>t_duration := word_of_int (int n), t_start_ticks := numTicks s, t_state := THREAD_SLEEPING\<rparr>"
  define s1 where "s1 = released (Tcb_mutex ?me) (s\<lparr>tcbs := (tcbs s)(?me := ?x)\<rparr>)"
  have me: "?me \<noteq> 0" "?me \<notin> set bs" using inv by (auto simp: sched_inv_def)
  have inv1: "sched_inv s1 rs bs" unfolding s1_def sched_inv_locks by (rule sched_inv_own_tcb[OF inv]) simp
  have w1: "after_wake s1 rs bs = (nxt # rs1, bs1)"
    using w me(2) by (subst after_wake_cong[of bs s1 s]) (auto simp: s1_def wake_due_def)
  have c1: "current_thread s1 = ?me" "tcbs s1 ?me = ?x" "lh s1 = lh s" by (simp_all add: s1_def released_def)
  obtain s' where s': "schedule (-1) s1 = Inr ((), s')" "sched_inv s' rs1 (bs1 @ [?me])" "current_thread s' = nxt"
    "tcbs s' ?me = ?x" "all_quiet s'"
    by (rule block_and_switch[OF inv1 _ _ _ w1, unfolded c1]) (use all_quietD[OF q] in \<open>simp_all add: s1_def\<close>)
  have "wake_due ?me s'' = (n < d)" if "tcbs s'' ?me = tcbs s' ?me" "numTicks s'' = numTicks s + of_nat d" "unat (numTicks s) + d < 2 ^ 32" for s'' :: "'a kcore_scheme" and d
  proof -
    have "unat (numTicks s + of_nat e) = unat (numTicks s) + e" if "unat (numTicks s) + e < 2 ^ 32" for e
    proof -
      have "unat (of_nat e :: u32) = e" using that by (simp add: unat_of_nat_eq)
      then show ?thesis using that unat_add_lem[of "numTicks s" "of_nat e"] by simp
    qed
    then show ?thesis using that nowrap by (simp add: wake_due_def s'(4) word_less_nat_alt)
  qed
  moreover have "sys_sleep (int n) s = Inr (0, s')"
    using n(1) s'(1) me(1) all_quietD[OF q]
    by (simp add: sys_sleep_def lock_me_def unlock_me_def sys_get_ticks_def s1_def held_def released_def)
  moreover have "sys_sleep (- int n) s = Inr (-1, s)" "sys_sleep 0 s = Inr (0, s)" using n by (simp_all add: sys_sleep_def)
  ultimately show ?thesis using s' by blast
qed

theorem sys_sleep_correct_witness:
  "\<exists>s'. sys_sleep 7 (demo_core 8 [16, 24] []) = Inr (0, s') \<and> current_thread s' = 16 \<and> sched_inv s' [24] [8]"
proof -
  let ?s = "demo_core 8 [16, 24] []"
  have "sched_inv ?s [16, 24] []" by (rule demo_core_inv) simp_all
  moreover have "after_wake ?s [16, 24] [] = (16 # [24], [])" by (simp add: after_wake_def woken_def)
  moreover have "unat (numTicks ?s) + 7 < 2 ^ 32" "current_thread ?s = 8" by (simp_all add: demo_core_def empty_core_def)
  ultimately show ?thesis
    using sys_sleep_correct[of ?s "[16, 24]" "[]" 16 "[24]" "[]" 7] demo_all_quiet[of 8 "[16, 24]" "[]"] by auto
qed

section \<open>deschedule and make_runnable\<close>

lemma mmu_walk_held [simp]: "mmu_walk (held m s) va = mmu_walk s va"
  by (simp add: mmu_walk_def held_def Let_def)

lemma pages_held [simp]: "pages (held m s) = pages s"
  by (simp add: held_def)

lemma user_read32_held:
  "user_read32 va s = Inr (v, s) \<Longrightarrow> user_read32 va (held m s) = Inr (v, held m s)"
  by (auto simp: user_read32_def user_read_def bindK_def split: option.splits)

lemma sys_deschedule_eval:
  assumes q: "all_quiet s" and me: "current_thread s \<noteq> 0"
    and a: "is_user_addr reject" "addr_has_mapping reject s = Inr (True, s)" "user_read32 reject s = Inr (v, s)"
  shows "sys_deschedule reject s =
    (if v \<noteq> 0 then Inr (0, released Deschedule_lock s)
     else bindK (schedule (-1)) (\<lambda>_. returnK 0) (released (Tcb_mutex (current_thread s)) (held Deschedule_lock
       (s\<lparr>tcbs := (tcbs s)(current_thread s := (tcbs s (current_thread s))\<lparr>t_state := THREAD_BLOCKED\<rparr>)\<rparr>))))"
  using a me all_quietD[OF q] user_read32_held[OF a(3), of Deschedule_lock]
  by (simp add: sys_deschedule_def lock_me_def unlock_me_def set_my_state_def held_def released_def fun_upd_twist)

text \<open>C35: \<open>deschedule\<close> and \<open>make_runnable\<close> fit together. A thread that deschedules itself with \<open>*reject\<close> zero leaves the
  processor to the first runnable thread and waits in the blocked queue, with no lock taken; when another thread then calls \<open>make_runnable\<close>
  with its number, the call succeeds and the thread is at the end of the runnable queue, the others where they were. With \<open>*reject\<close> nonzero, \<open>deschedule\<close> returns at
  once and no thread moves.\<close>

theorem deschedule_make_runnable:
  assumes inv: "sched_inv s rs bs" and q: "all_quiet s" and w: "after_wake s rs bs = (nxt # rs1, bs1)"
    and a: "is_user_addr reject" "addr_has_mapping reject s = Inr (True, s)" "user_read32 reject s = Inr (v, s)"
    and tid: "t_tid (tcbs s (current_thread s)) = tid" "0 < tid" "tid \<notin> tids s (rs @ bs)"
  shows "if v = 0
    then \<exists>s1 s2. sys_deschedule reject s = Inr (0, s1) \<and> sched_inv s1 rs1 (bs1 @ [current_thread s]) \<and> current_thread s1 = nxt \<and> all_quiet s1
      \<and> sys_make_runnable tid s1 = Inr (0, s2) \<and> sched_inv s2 (rs1 @ [current_thread s]) bs1 \<and> current_thread s2 = nxt \<and> all_quiet s2
      \<and> tcbs s2 (current_thread s) = (tcbs s (current_thread s))\<lparr>t_state := THREAD_RUNNABLE\<rparr>
    else sys_deschedule reject s = Inr (0, released Deschedule_lock s) \<and> sched_inv (released Deschedule_lock s) rs bs"
proof (cases "v = 0")
  case True
  let ?me = "current_thread s" let ?x = "(tcbs s ?me)\<lparr>t_state := THREAD_BLOCKED\<rparr>"
  define s0 where "s0 = released (Tcb_mutex ?me) (held Deschedule_lock (s\<lparr>tcbs := (tcbs s)(?me := ?x)\<rparr>))"
  have me: "?me \<noteq> 0" "?me \<notin> set bs" using inv by (auto simp: sched_inv_def)
  have inv0: "sched_inv s0 rs bs" unfolding s0_def sched_inv_locks by (rule sched_inv_own_tcb[OF inv]) simp
  have w0: "after_wake s0 rs bs = (nxt # rs1, bs1)"
    using w me(2) by (subst after_wake_cong[of bs s0 s]) (auto simp: s0_def wake_due_def)
  have c0: "current_thread s0 = ?me" "tcbs s0 ?me = ?x" "lh s0 = lh s" by (simp_all add: s0_def held_def released_def)
  obtain s1 where s1: "schedule (-1) s0 = Inr ((), s1)" "sched_inv s1 rs1 (bs1 @ [?me])" "current_thread s1 = nxt"
    "tcbs s1 ?me = ?x" "all_quiet s1" "\<forall>t. tcbs s1 t = (tcbs s0 t)\<lparr>t_state := t_state (tcbs s1 t)\<rparr>"
    by (rule block_and_switch[OF inv0 _ _ _ w0, unfolded c0]) (use all_quietD[OF q] in \<open>auto simp: s0_def\<close>)
  have d: "sys_deschedule reject s = Inr (0, s1)"
    using True s1(1) by (simp add: sys_deschedule_eval[OF q me(1) a] s0_def)
  have "set (nxt # rs1) \<union> set bs1 \<subseteq> set (rs @ bs)"
    using after_wake_set[OF w] by auto
  moreover have "t_tid (tcbs s1 t) = t_tid (tcbs s t)" for t
    using arg_cong[OF s1(6)[rule_format, of t], of t_tid] by (simp add: s0_def)
  ultimately have o: "t_tid (tcbs s1 t) \<noteq> tid" if "t \<in> set rs1 \<union> set bs1" for t
    using that tid(3) by (auto simp: tids_def)
  have b: "\<exists>t\<in>set (bs1 @ [?me]). t_tid (tcbs s1 t) = tid \<and> t_state (tcbs s1 t) = THREAD_BLOCKED"
    "\<not> (\<exists>u\<in>set rs1. t_tid (tcbs s1 u) = tid \<and> t_state (tcbs s1 u) = THREAD_RUNNABLE)"
    using s1(4) tid(1) o by auto
  obtain t s2 where s2: "sys_make_runnable tid s1 = Inr (0, s2)" "t \<in> set (bs1 @ [?me])" "t_tid (tcbs s1 t) = tid"
    "sched_inv s2 (rs1 @ [t]) (remove1 t (bs1 @ [?me]))" "all_quiet s2" "current_thread s2 = current_thread s1"
    "tcbs s2 = (tcbs s1)(t := (tcbs s1 t)\<lparr>t_state := THREAD_RUNNABLE\<rparr>)"
    using make_runnable_spec[OF s1(2,5) tid(2) b] by blast
  have "t = ?me" "?me \<notin> set bs1" using s2(2,3) o s1(2) by (auto simp: sched_inv_def)
  then show ?thesis using True d s1 s2 by (simp add: remove1_append)
next
  case False
  then show ?thesis using sys_deschedule_eval[OF q _ a] inv by (simp add: sched_inv_def)
qed

theorem deschedule_make_runnable_witness:
  "\<exists>s1 s2. sys_deschedule 0x01000000 (demo_vm\<lparr>lh := lh (demo_core 8 [16] []), tables := (\<lambda>_ _. 0x400007),
       tcbs := (\<lambda>t. empty_tcb\<lparr>t_pcb := 16, t_tid := uint t\<rparr>)\<rparr>) = Inr (0, s1) \<and> current_thread s1 = 16
     \<and> sys_make_runnable 8 s1 = Inr (0, s2) \<and> sched_inv s2 [8] []"
proof -
  let ?s = "demo_vm\<lparr>lh := lh (demo_core 8 [16] []), tables := (\<lambda>_ _. 0x400007), tcbs := (\<lambda>t. empty_tcb\<lparr>t_pcb := 16, t_tid := uint t\<rparr>)\<rparr>"
  have c: "current_thread ?s = 8" by (simp add: demo_vm_defs)
  have "sched_inv (demo_core 8 [16] []) [16] []" by (rule demo_core_inv) simp_all
  then have i: "sched_inv ?s [16] []" by (auto simp: sched_inv_def c)
  have q: "all_quiet ?s" using demo_core_quiet[of 8 "[16]" "[]"]
    by (simp add: all_quiet_def quiet_def) (simp add: demo_vm_defs)
  have w: "after_wake ?s [16] [] = (16 # [], [])" by (simp add: after_wake_def woken_def)
  have u: "is_user_addr 0x01000000" by (simp add: is_user_addr_def)
  have m: "mmu_walk ?s va = Some (frame_index 0x400000)" for va by (simp add: mmu_walk_def DEFLAG_ADDR_def Let_def)
  have "user_read32 0x01000000 ?s = Inr (0, ?s)"
    by (simp add: user_read32_def user_read_def m) (simp add: demo_vm_defs)
  moreover have "addr_has_mapping 0x01000000 ?s = Inr (True, ?s)"
    by (simp add: addr_has_mapping_def c tab_read_def VA_PD_IND_def VA_PT_IND_def PAGE_LEN_def DEFLAG_ADDR_def)
      (simp add: demo_vm_defs tab_read_def PAGE_LEN_def empty_pcb_def)
  ultimately show ?thesis
    using deschedule_make_runnable[OF i q w u, of 0 8] by (simp add: c tids_def) blast
qed

end
