(* ===== verification/Vanish.thy ===== *)
theory Vanish
  imports Life_Cycle Blocking
begin

text \<open>
  How a process ends (\<open>sys_vanish\<close> of \<open>kern/process/sys_life_cycle.c\<close>): the loops over its threads, which work on a copy of
  a list header, the report to the parent, and the whole call for the last thread of a process.
\<close>

section \<open>Copied headers\<close>

definition copied :: "list_id \<Rightarrow> (list_id, node_id) lheap \<Rightarrow> (list_id, node_id) lheap" where
  "copied l h = h\<lparr>headers := (headers h)(Local_copy := headers h l)\<rparr>"

lemma copy_header_run [simp]: "copy_header l s = Inr ((), s\<lparr>lh := copied l (lh s)\<rparr>)"
  by (simp add: copy_header_def copied_def)

lemma is_list_copied [simp]:
  "l' \<noteq> Local_copy \<Longrightarrow> is_list (copied l h) l' xs = is_list h l' xs" "is_list (copied l h) Local_copy xs = is_list h l xs"
  by (simp_all add: is_list_def copied_def)

lemma headers_copied [simp]: "l' \<noteq> Local_copy \<Longrightarrow> headers (copied l h) l' = headers h l'"
  by (simp add: copied_def)

lemma sched_inv_lists:
  assumes "sched_inv s rs bs" "\<And>l xs. l \<in> sched_lists \<Longrightarrow> is_list (lh s) l (map Thread_list_node xs) \<Longrightarrow> is_list h l (map Thread_list_node xs)"
  shows "sched_inv (s\<lparr>lh := h\<rparr>) rs bs"
  using assms by (auto simp: sched_inv_def own_by_def)

lemma sched_inv_copied [simp]: "sched_inv s rs bs \<Longrightarrow> sched_inv (s\<lparr>lh := copied l (lh s)\<rparr>) rs bs"
  by (rule sched_inv_lists) auto

lemma sched_inv_pcbs [simp]: "sched_inv (s\<lparr>pcbs := p\<rparr>) rs bs = sched_inv s rs bs"
  by (simp add: sched_inv_def)

section \<open>The loops over the peers\<close>

lemma count_live_chain:
  "chain (nodes h) p (map Peer_threads_node ts) None \<Longrightarrow> 0 \<notin> set ts \<Longrightarrow>
   count_live tcb h (hd_opt (map Peer_threads_node ts) None) k = Some (Inr (k + length (filter (\<lambda>t. t_state (tcb t) \<noteq> THREAD_EXIT) ts)))"
proof (induction ts arbitrary: p k)
  case Nil
  then show ?case by (simp add: count_live.simps)
next
  case (Cons t ts)
  then show ?case by (subst count_live.simps) auto
qed

lemma live_peers_run:
  assumes "is_list (lh s) Local_copy (map Peer_threads_node ts)" "0 \<notin> set ts"
  shows "live_peers s = Inr (length (filter (\<lambda>t. t_state (tcbs s t) \<noteq> THREAD_EXIT) ts), s)"
  using assms count_live_chain[of "lh s" None ts "tcbs s" 0] by (simp add: live_peers_def is_list_def list_begin_def)

lemma reap_peers_alone:
  assumes "is_list (lh s) Local_copy [Peer_threads_node (current_thread s)]" "current_thread s \<noteq> 0"
  shows "reap_peers s = Inr ((), s)"
proof -
  have "next_n (nodes (lh s) (Peer_threads_node (current_thread s))) = None"
    "list_begin (lh s) Local_copy = Some (Peer_threads_node (current_thread s))"
    using assms(1) by (simp_all add: is_list_def list_begin_def)
  then show ?thesis using assms(2)
    by (simp add: reap_peers_def, subst reap_loop.simps, simp, subst reap_loop.simps, simp)
qed

section \<open>Reporting to the parent\<close>

lemma wake_blocked_run:
  assumes "t \<noteq> 0" "\<And>m. m \<in> {Blocked_queue_lock, Tcb_mutex t, Runnable_queue_lock} \<Longrightarrow> m_status (mutexes s m) = 0"
    "\<And>m. length_l (headers (lh s) (Waiting_queue m)) = 0"
  shows "wake_blocked t s = Inr ((), released Runnable_queue_lock (released (Tcb_mutex t) (released Blocked_queue_lock (wake_thread t s))))"
  using assms by (simp add: wake_blocked_def delete_node_def insert_last_def held_def released_def wake_thread_def fun_upd_twist)

lemma report_exit_run:
  assumes "parent \<noteq> 0" "p_state (pcbs s parent) \<noteq> PROCESS_EXIT"
    and "is_list (lh s) (Threads parent) (map Peer_threads_node ts)" "0 \<notin> set ts"
    and "List.find (\<lambda>t. t_state (tcbs s t) = THREAD_WAITING) ts = Some w"
    and "\<And>m. m \<in> {Blocked_queue_lock, Tcb_mutex w, Runnable_queue_lock} \<Longrightarrow> m_status (mutexes s m) = 0"
    and "\<And>m. length_l (headers (lh s) (Waiting_queue m)) = 0"
  shows "report_exit parent s = Inr ((), released Runnable_queue_lock (released (Tcb_mutex w) (released Blocked_queue_lock
    (wake_thread w (s\<lparr>lh := copied (Threads parent) (lh s)\<rparr>)))))"
proof -
  let ?s = "s\<lparr>lh := copied (Threads parent) (lh s)\<rparr>"
  have "w \<in> set ts" using assms(5) by (auto simp: find_Some_iff)
  then have w: "w \<noteq> 0" using assms(4) by auto
  have "search entry_peer Local_copy (\<lambda>s t. t_state (tcbs s t) = THREAD_WAITING) ?s = Inr (Some w, ?s)"
    using search_peers[of ?s Local_copy ts "\<lambda>s t. t_state (tcbs s t) = THREAD_WAITING"] assms(3,4,5) by simp
  then show ?thesis
    using assms(1,2) wake_blocked_run[of w ?s, OF w] assms(6,7) by (simp add: report_exit_def wake_if_found_def)
qed

section \<open>The last thread of a process\<close>

text \<open>The state in which \<open>vanish\<close> of the only thread of a process calls the scheduler, when thread \<open>w\<close> of the parent waits.\<close>

definition exited :: "u32 \<Rightarrow> 'a kcore_scheme \<Rightarrow> 'a kcore_scheme" where
  "exited w s = (let me = current_thread s; proc = t_pcb (tcbs s me); parent = p_parent (pcbs s proc);
     s1 = s\<lparr>lh := copied (Threads parent) (fst (list_delete (copied (Threads proc) (lh s)) (Some Process_queue) (Some (All_processes_node proc)))),
            pcbs := (pcbs s)(proc := (pcbs s proc)\<lparr>p_state := PROCESS_EXIT\<rparr>)\<rparr>;
     s2 = released Runnable_queue_lock (released (Tcb_mutex w) (released Blocked_queue_lock (released Process_queue_lock (wake_thread w s1))))
     in released (Tcb_mutex me) (s2\<lparr>tcbs := (tcbs s2)(me := (tcbs s2 me)\<lparr>t_state := THREAD_EXIT\<rparr>)\<rparr>))"

lemma vanish_run:
  assumes q: "all_quiet s" and me: "current_thread s \<noteq> 0" "t_state (tcbs s (current_thread s)) \<noteq> THREAD_EXIT"
    and proc: "t_pcb (tcbs s (current_thread s)) = proc" "proc \<noteq> 0" "p_parent (pcbs s proc) = parent" "parent \<noteq> 0" "parent \<noteq> proc"
      "p_state (pcbs s parent) \<noteq> PROCESS_EXIT"
    and lists: "is_list (lh s) (Threads proc) [Peer_threads_node (current_thread s)]"
      "is_list (lh s) (Threads parent) (map Peer_threads_node ts)" "0 \<notin> set ts"
      "is_list (lh s) Process_queue (map All_processes_node ps)" "proc \<in> set ps"
    and w: "List.find (\<lambda>t. t_state (tcbs s t) = THREAD_WAITING) ts = Some w" "w \<noteq> current_thread s"
  shows "sys_vanish s = schedule (-1) (exited w s)"
proof -
  let ?me = "current_thread s" and ?n = "All_processes_node proc"
  define s1 where "s1 = (held (Tcb_mutex ?me) s)\<lparr>lh := copied (Threads proc) (lh s)\<rparr>"
  have l1: "live_peers s1 = Inr (1, s1)"
    using live_peers_run[of s1 "[?me]"] lists(1) me by (simp add: s1_def)
  have r1: "reap_peers s1 = Inr ((), s1)"
    using reap_peers_alone[of s1] lists(1) me(1) by (simp add: s1_def)
  define h2 where "h2 = fst (list_delete (copied (Threads proc) (lh s)) (Some Process_queue) (Some ?n))"
  define s4 where "s4 = released Process_queue_lock (s1\<lparr>pcbs := (pcbs s)(proc := (pcbs s proc)\<lparr>p_state := PROCESS_EXIT\<rparr>), lh := h2\<rparr>)"
  have lp: "is_list h2 (Threads parent) (map Peer_threads_node ts)"
    unfolding h2_def using lists(2,4,5)
    by (intro delete_frame[where xs = "map All_processes_node ps"]) auto
  have wq: "length_l (headers h2 (Waiting_queue m)) = 0" for m
    using all_quietD(2)[OF q] by (simp add: h2_def)
  have s4: "lh s4 = h2" "tcbs s4 = tcbs s" "p_state (pcbs s4 parent) = p_state (pcbs s parent)" "current_thread s4 = ?me" "p_parent (pcbs s4 proc) = parent"
    using proc(3,5) by (simp_all add: s4_def s1_def)
  have mu: "m_status (mutexes s4 m) = 0" if "m \<in> {Blocked_queue_lock, Tcb_mutex w, Runnable_queue_lock}" for m
    using that w(2) all_quietD(1)[OF q] by (auto simp: s4_def s1_def)
  let ?s5 = "released Runnable_queue_lock (released (Tcb_mutex w) (released Blocked_queue_lock (wake_thread w (s4\<lparr>lh := copied (Threads parent) h2\<rparr>))))"
  have r: "report_exit parent s4 = Inr ((), ?s5)"
    by (rule report_exit_run[of parent s4 ts w, unfolded s4]) (use proc lp lists(3) w(1) mu wq in simp_all)
  have mid: "bindK (set_pcb proc (\<lambda>p. p\<lparr>p_state := PROCESS_EXIT\<rparr>)) (\<lambda>_. bindK (mutex_lock Process_queue_lock) (\<lambda>_.
      bindK (delete_node Process_queue ?n) (\<lambda>_. bindK (mutex_unlock Process_queue_lock) f))) s1 = f () s4" for f :: "unit \<Rightarrow> ('a kheap_scheme, unit) kop"
  proof -
    have "lh s1 = copied (Threads proc) (lh s)" "pcbs s1 = pcbs s" "m_status (mutexes s1 Process_queue_lock) = 0"
      using all_quietD(1)[OF q] by (simp_all add: s1_def)
    then show ?thesis using proc(2) wq
      by (simp add: s4_def delete_node_def h2_def[symmetric] held_def released_def)
  qed
  have pcb4: "get_pcb proc s4 = Inr (pcbs s4 proc, s4)" using proc(2) by (simp add: get_pcb_def)
  have fin: "bindK (set_my_state THREAD_EXIT) (\<lambda>_. bindK unlock_me (\<lambda>_. schedule (-1))) ?s5 = schedule (-1) (exited w s)"
  proof -
    have c5: "current_thread ?s5 = ?me" by (simp add: s4)
    have "length_l (headers (lh ?s5) (Waiting_queue (Tcb_mutex ?me))) = 0" using wq by (simp add: wake_thread_def)
    then have "bindK (set_my_state THREAD_EXIT) (\<lambda>_. bindK unlock_me (\<lambda>_. schedule (-1))) ?s5
        = schedule (-1) (released (Tcb_mutex ?me) (?s5\<lparr>tcbs := (tcbs ?s5)(?me := (tcbs ?s5 ?me)\<lparr>t_state := THREAD_EXIT\<rparr>)\<rparr>))"
      using me(1) by (simp add: set_my_state_def unlock_me_def set_tcb_def c5 del: released_frame wake_thread_frame)
    also have "released (Tcb_mutex ?me) (?s5\<lparr>tcbs := (tcbs ?s5)(?me := (tcbs ?s5 ?me)\<lparr>t_state := THREAD_EXIT\<rparr>)\<rparr>) = exited w s"
      using proc(1,3) w(2) by (simp add: exited_def Let_def s4_def s1_def h2_def wake_thread_def released_def held_def fun_upd_twist)
    finally show ?thesis .
  qed
  have "sys_vanish s = bindK (bindK reap_peers (\<lambda>_. bindK (set_pcb proc (\<lambda>p. p\<lparr>p_state := PROCESS_EXIT\<rparr>)) (\<lambda>_. bindK (mutex_lock Process_queue_lock) (\<lambda>_.
      bindK (delete_node Process_queue ?n) (\<lambda>_. bindK (mutex_unlock Process_queue_lock) (\<lambda>_. bindK (get_pcb proc) (\<lambda>p. report_exit (p_parent p)))))))) 
      (\<lambda>_. bindK (set_my_state THREAD_EXIT) (\<lambda>_. bindK unlock_me (\<lambda>_. schedule (-1)))) s1"
    using me(1) proc(1,2) l1 all_quietD(1)[OF q] unfolding sys_vanish_def lock_me_def
    by (simp add: s1_def[symmetric])
  also have "\<dots> = bindK (bindK (get_pcb proc) (\<lambda>p. report_exit (p_parent p))) (\<lambda>_. bindK (set_my_state THREAD_EXIT) (\<lambda>_. bindK unlock_me (\<lambda>_. schedule (-1)))) s4"
    using r1 mid by (simp add: bindK_assoc)
  also have "\<dots> = schedule (-1) (exited w s)"
    using pcb4 r s4(5) fin by (simp add: bindK_assoc)
  finally show ?thesis .
qed

lemma sched_inv_state:
  "sched_inv s rs bs \<Longrightarrow> sched_inv (s\<lparr>tcbs := (tcbs s)(x := (tcbs s x)\<lparr>t_state := st\<rparr>)\<rparr>) rs bs"
  by (auto simp: sched_inv_def)

lemma exited_fields:
  "current_thread (exited w s) = current_thread s" "numTicks (exited w s) = numTicks s"
  "t_state (tcbs (exited w s) (current_thread s)) = THREAD_EXIT"
  "t \<notin> {w, current_thread s} \<Longrightarrow> tcbs (exited w s) t = tcbs s t"
  "pcbs (exited w s) = (pcbs s)(t_pcb (tcbs s (current_thread s)) := (pcbs s (t_pcb (tcbs s (current_thread s))))\<lparr>p_state := PROCESS_EXIT\<rparr>)"
  "length_l (headers (lh (exited w s)) (Waiting_queue m)) = length_l (headers (lh s) (Waiting_queue m))"
  by (simp_all add: exited_def Let_def wake_thread_def)

lemma exited_inv:
  assumes inv: "sched_inv s rs bs" and w: "w \<in> set bs"
    and ps: "is_list (lh s) Process_queue (map All_processes_node ps)" "t_pcb (tcbs s (current_thread s)) \<in> set ps"
  shows "sched_inv (exited w s) (rs @ [w]) (remove1 w bs)"
proof -
  let ?me = "current_thread s" let ?proc = "t_pcb (tcbs s ?me)" let ?parent = "p_parent (pcbs s ?proc)"
  let ?h = "copied (Threads ?parent) (fst (list_delete (copied (Threads ?proc) (lh s)) (Some Process_queue) (Some (All_processes_node ?proc))))"
  have "is_list ?h l (map Thread_list_node xs)" if "l \<in> sched_lists" "is_list (lh s) l (map Thread_list_node xs)" for l xs
    using that ps by (auto intro!: delete_frame[where xs = "map All_processes_node ps"])
  then have "sched_inv (s\<lparr>lh := ?h\<rparr>) rs bs" by (intro sched_inv_lists[OF inv]) auto
  then have "sched_inv ((s\<lparr>lh := ?h\<rparr>)\<lparr>pcbs := p\<rparr>) rs bs" for p by simp
  from wake_thread_inv[OF this w]
  show ?thesis unfolding exited_def Let_def sched_inv_locks
    by (intro sched_inv_state) (simp only: sched_inv_locks)
qed


definition demo_family :: kvm where
  "demo_family = demo_vm\<lparr>
     lh := list_insert_last (list_insert_last (list_insert_last (lh (demo_core 8 [] [24]))
         (Some (Threads 16)) (Some (Peer_threads_node 8))) (Some (Threads 32)) (Some (Peer_threads_node 24)))
         (Some Process_queue) (Some (All_processes_node 16)),
     tcbs := (\<lambda>t. empty_tcb\<lparr>t_pcb := (if t = 8 then 16 else 32), t_tid := uint t, t_state := (if t = 8 then THREAD_RUNNING else THREAD_WAITING)\<rparr>),
     pcbs := (\<lambda>p. empty_pcb\<lparr>p_parent := (if p = 16 then 32 else 0), p_state := PROCESS_RUNNING\<rparr>)\<rparr>"

lemma demo_family_lists:
  "is_list (lh demo_family) (Threads 16) [Peer_threads_node 8]" "is_list (lh demo_family) (Threads 32) (map Peer_threads_node [24])"
  "is_list (lh demo_family) Process_queue (map All_processes_node [16])"
  "is_list (lh demo_family) Runnable_queue (map Thread_list_node [])" "is_list (lh demo_family) Blocked_queue (map Thread_list_node [24])"
  by (simp_all add: demo_family_def demo_core_def fill_def list_insert_last_def store_defs empty_lheap_def is_list_def)


end
