(* ===== verification/Interleave.thy ===== *)
theory Interleave
  imports Prelude
begin

text \<open>
  Interleaving of threads that share memory. Each thread \<open>t\<close> has a list of statements that are left to
  run; \<open>mstep\<close> runs the first one of one thread, and what it returns is put in front of the rest, which is how a
  call is entered and how a loop goes round again. A schedule is any list of thread numbers, so a statement about all
  schedules is a statement about all interleavings. The locale \<open>resource\<close> is the contract of statements that
  take and give a resource: it bounds how many threads can hold it at once, whatever the schedule.
\<close>

section \<open>Steps and schedules\<close>

type_synonym 'c codes = "nat \<Rightarrow> 'c list"
type_synonym ('c, 's) exec = "nat \<Rightarrow> 'c \<Rightarrow> 's \<Rightarrow> 'c list \<times> 's"

definition mstep :: "('c, 's) exec \<Rightarrow> (nat \<Rightarrow> 's \<Rightarrow> bool) \<Rightarrow> nat \<Rightarrow> 'c codes \<times> 's \<Rightarrow> 'c codes \<times> 's" where
  "mstep exec running t cw =
     (case cw of (code, w) \<Rightarrow>
        (case code t of
           [] \<Rightarrow> (code, w)
         | c # cs \<Rightarrow>
             if running t w then (case exec t c w of (new, w') \<Rightarrow> (code(t := new @ cs), w')) else (code, w)))"

fun mrun :: "('c, 's) exec \<Rightarrow> (nat \<Rightarrow> 's \<Rightarrow> bool) \<Rightarrow> nat list \<Rightarrow> 'c codes \<times> 's \<Rightarrow> 'c codes \<times> 's" where
  "mrun exec running [] cw = cw"
| "mrun exec running (t # ts) cw = mrun exec running ts (mstep exec running t cw)"

lemma mrun_append: "mrun exec running (ts @ us) cw = mrun exec running us (mrun exec running ts cw)"
  by (induction ts arbitrary: cw) simp_all

lemma mrun_invariant:
  assumes "P cw" "\<And>t cw. P cw \<Longrightarrow> P (mstep exec running t cw)"
  shows "P (mrun exec running ts cw)"
  using assms(1) by (induction ts arbitrary: cw) (simp_all add: assms(2))

lemma mstep_cases:
  assumes "mstep exec running t (code, w) = (code', w')"
  obtains "code' = code" "w' = w"
  | c cs new where "code t = c # cs" "running t w" "exec t c w = (new, w')" "code' = code(t := new @ cs)"
  using assms by (auto simp: mstep_def split: list.splits if_splits prod.splits)

text \<open>An invariant of the shared memory, with a condition on statements that every statement passes on to those it
  returns, is an invariant of the system.\<close>

definition statically :: "('s \<Rightarrow> bool) \<Rightarrow> ('c \<Rightarrow> bool) \<Rightarrow> 'c codes \<times> 's \<Rightarrow> bool" where
  "statically ok good cw \<longleftrightarrow> (case cw of (code, w) \<Rightarrow> ok w \<and> (\<forall>t. \<forall>c\<in>set (code t). good c))"

lemma statically_step:
  assumes "statically ok good cw"
    and keeps: "\<And>t c w new w'. good c \<Longrightarrow> ok w \<Longrightarrow> exec t c w = (new, w') \<Longrightarrow> ok w' \<and> (\<forall>c\<in>set new. good c)"
  shows "statically ok good (mstep exec running t cw)"
proof -
  obtain code w where cw: "cw = (code, w)" by (cases cw)
  obtain code' w' where cw': "mstep exec running t cw = (code', w')" by (cases "mstep exec running t cw")
  from cw'[unfolded cw] show ?thesis unfolding cw'
  proof (cases rule: mstep_cases)
    case 1
    then show "statically ok good (code', w')" using assms(1) cw by simp
  next
    case (2 c cs new)
    have g: "ok w" "\<forall>c\<in>set (c # cs). good c" "\<forall>u. \<forall>c\<in>set (code u). good c"
      using assms(1) 2(1) unfolding statically_def cw prod.case by (auto, metis list.set_intros(1), metis list.set_intros(2))
    with keeps[OF _ g(1) 2(3)] have "ok w'" "\<forall>c\<in>set (new @ cs). good c" by auto
    then show "statically ok good (code', w')" using g(3) 2(4) by (auto simp: statically_def)
  qed
qed

section \<open>Taking and giving a resource\<close>

text \<open>What a statement does to a resource, as seen by the thread that runs it: nothing; it takes it; gives it
  back; needs it and still has it afterwards; or needs not to have it, and has it not afterwards.\<close>

datatype effect = Nop | Take | Give | Hold | Free

text \<open>A list of statements that can be run by a thread that has the resource (\<open>h\<close>) or has it not, and that
  ends without it.\<close>

fun balanced :: "('c \<Rightarrow> effect) \<Rightarrow> bool \<Rightarrow> 'c list \<Rightarrow> bool" where
  "balanced eff h [] = (\<not> h)"
| "balanced eff h (c # cs) =
     (case eff c of Nop \<Rightarrow> balanced eff h cs | Take \<Rightarrow> \<not> h \<and> balanced eff True cs | Give \<Rightarrow> h \<and> balanced eff False cs
      | Hold \<Rightarrow> h \<and> balanced eff True cs | Free \<Rightarrow> \<not> h \<and> balanced eff False cs)"

lemma balanced_unique: "balanced eff True cs \<Longrightarrow> \<not> balanced eff False cs"
  by (induction cs) (auto split: effect.splits)

text \<open>The threads in \<open>T\<close> that hold the resource.\<close>

definition holders :: "('c \<Rightarrow> effect) \<Rightarrow> nat set \<Rightarrow> 'c codes \<Rightarrow> nat set" where
  "holders eff T code = {t \<in> T. balanced eff True (code t)}"

definition all_balanced :: "('c \<Rightarrow> effect) \<Rightarrow> 'c codes \<Rightarrow> bool" where
  "all_balanced eff code \<longleftrightarrow> (\<forall>t. balanced eff True (code t) \<or> balanced eff False (code t))"

text \<open>The laws of the statements: \<open>J\<close> is an invariant of the whole system; under it every step either leaves
  the amount of the resource alone and replaces a statement by others with the same effect, or takes one unit, or gives
  one back. A thread that runs a statement has the resource, and then less than the capacity is left, or has it not.\<close>

locale resource =
  fixes exec :: "('c, 's) exec" and running :: "nat \<Rightarrow> 's \<Rightarrow> bool" and J :: "'c codes \<times> 's \<Rightarrow> bool"
    and eff :: "'c \<Rightarrow> effect" and amount :: "'s \<Rightarrow> int" and capacity :: int
  assumes J_step: "J cw \<Longrightarrow> J (mstep exec running t cw)"
    and effect: "J (code, w) \<Longrightarrow> code t = c # cs \<Longrightarrow> exec t c w = (new, w') \<Longrightarrow>
      balanced eff True (c # cs) \<and> amount w < capacity \<or> balanced eff False (c # cs) \<Longrightarrow>
      (amount w' = amount w \<and> (\<forall>h. balanced eff h (c # cs) \<longrightarrow> balanced eff h (new @ cs)))
      \<or> (eff c = Take \<and> amount w' = amount w - 1 \<and> (balanced eff True cs \<longrightarrow> balanced eff True (new @ cs)))
      \<or> (eff c = Give \<and> amount w' = amount w + 1 \<and> (balanced eff False cs \<longrightarrow> balanced eff False (new @ cs)))"
begin

definition inv :: "nat set \<Rightarrow> 'c codes \<times> 's \<Rightarrow> bool" where
  "inv T cw \<longleftrightarrow> (case cw of (code, w) \<Rightarrow> J cw \<and> all_balanced eff code
     \<and> (\<forall>t. t \<notin> T \<longrightarrow> code t = []) \<and> amount w + int (card (holders eff T code)) = capacity)"

lemma holders_upd:
  assumes "finite T" "t \<in> T"
  shows "int (card (holders eff T (code(t := cs)))) =
    int (card (holders eff T code)) - (if balanced eff True (code t) then 1 else 0) + (if balanced eff True cs then 1 else 0)"
proof -
  let ?R = "holders eff T code - {t}"
  have fin: "finite (holders eff T code)" using assms(1) by (simp add: holders_def)
  have "holders eff T (code(t := cs)) = (if balanced eff True cs then insert t ?R else ?R)"
    using assms(2) by (auto simp: holders_def)
  moreover have "int (card ?R) = int (card (holders eff T code)) - (if balanced eff True (code t) then 1 else 0)"
  proof (cases "t \<in> holders eff T code")
    case True
    then have "0 < card (holders eff T code)" using fin by (auto simp: card_gt_0_iff)
    with True show ?thesis using assms fin by (auto simp: holders_def card_Diff_singleton of_nat_diff)
  next
    case False
    then have "?R = holders eff T code" "\<not> balanced eff True (code t)" using assms(2) by (auto simp: holders_def)
    then show ?thesis by simp
  qed
  moreover have "card (insert t ?R) = Suc (card ?R)" using fin by (intro card_insert_disjoint) auto
  ultimately show ?thesis by (simp del: insert_Diff_single card_Diff_insert)
qed

lemma inv_step:
  assumes "finite T" "inv T cw"
  shows "inv T (mstep exec running t cw)"
proof -
  obtain code w where cw: "cw = (code, w)" by (cases cw)
  obtain code' w' where cw': "mstep exec running t cw = (code', w')" by (cases "mstep exec running t cw")
  note i = assms(2)[unfolded inv_def cw prod.case]
  from cw'[unfolded cw] show ?thesis unfolding cw'
  proof (cases rule: mstep_cases)
    case 1
    then show "inv T (code', w')" using assms(2) cw by simp
  next
    case (2 c cs new)
    have T: "t \<in> T" using i 2(1) by (metis list.distinct(1))
    have b: "balanced eff True (c # cs) \<or> balanced eff False (c # cs)" using i 2(1) by (metis all_balanced_def)
    have "balanced eff True (c # cs) \<Longrightarrow> t \<in> holders eff T code" using T 2(1) by (simp add: holders_def)
    moreover have "finite (holders eff T code)" using assms(1) by (simp add: holders_def)
    ultimately have "balanced eff True (c # cs) \<Longrightarrow> 0 < card (holders eff T code)" by (auto simp: card_gt_0_iff)
    then have "balanced eff True (c # cs) \<and> amount w < capacity \<or> balanced eff False (c # cs)" using i b by auto
    from effect[OF conjunct1[OF i] 2(1,3) this] b have
      "(balanced eff True (new @ cs) \<or> balanced eff False (new @ cs)) \<and>
       amount w' - amount w = (if balanced eff True (c # cs) then 1 else 0) - (if balanced eff True (new @ cs) then 1 else 0)"
      using balanced_unique[of eff "new @ cs"] balanced_unique[of eff "c # cs"] balanced_unique[of eff cs] by auto
    then have "amount w' + int (card (holders eff T code')) = capacity" and bal: "balanced eff True (new @ cs) \<or> balanced eff False (new @ cs)"
      using i 2(1,4) holders_upd[OF assms(1) T, of code "new @ cs"] by (simp_all split: if_splits)
    moreover have "all_balanced eff code'" using i bal 2(4) by (simp add: all_balanced_def)
    moreover have "J (code', w')" using J_step[OF conjunct1[OF i], of t] cw' cw by simp
    ultimately show "inv T (code', w')" using i 2(4) T by (simp add: inv_def)
  qed
qed

lemma inv_run: "finite T \<Longrightarrow> inv T cw \<Longrightarrow> inv T (mrun exec running ts cw)"
  by (rule mrun_invariant[where P = "inv T"]) (auto intro: inv_step)

lemma unique_holder:
  assumes "finite T" "inv T (code, w)" "capacity - amount w \<le> 1" "balanced eff True (code t)" "balanced eff True (code u)"
  shows "t = u"
proof -
  have "t \<in> T" "u \<in> T" using assms(2,4,5) by (auto simp: inv_def)
  then have "{t, u} \<subseteq> holders eff T code" using assms(4,5) by (simp add: holders_def)
  moreover have "finite (holders eff T code)" using assms(1) by (simp add: holders_def)
  ultimately have "card {t, u} \<le> card (holders eff T code)" by (rule card_mono[rotated])
  then have "card {t, u} \<le> 1" using assms(2,3) by (simp add: inv_def)
  then show ?thesis by (cases "t = u") simp_all
qed

end

end
