(* ===== verification/Mutex_Steps.thy ===== *)
theory Mutex_Steps
  imports Interleave
begin

text \<open>
  The kernel mutex under preemption: \<open>mutex_lock\<close> and \<open>mutex_unlock\<close> of \<open>kern/locks/mutex.c\<close>
  and the functions of \<open>kern/datastructure/linked_list.c\<close> they run on the waiting queue, at the granularity of
  single accesses to shared memory. A statement is an element of \<open>kstmt\<close>; \<open>kexec\<close> runs it and returns
  the statements that are to run next, and what a statement has read is an argument of those. The waiting queue is
  a structure of pointers that nothing protects, and the node of thread \<open>t\<close> is \<open>t\<close>.

  The schedule is any list of thread numbers: every order in which \<open>schedule\<close> and the timer can run the threads
  is among them. A thread that follows a null pointer, or that calls the trap wrapper \<open>yield\<close> inside the kernel,
  runs no further statement.
\<close>

section \<open>Shared memory and statements\<close>

record kmutex =
  k_status :: int
  k_tid :: int
  k_head :: "nat option"
  k_tail :: "nat option"
  k_length :: int
  k_prev :: "nat \<Rightarrow> nat option"
  k_next :: "nat \<Rightarrow> nat option"
  k_crashed :: "nat \<Rightarrow> bool"

datatype kstmt =
    Lock | Xchg | Print_owner | Schedule_owner | Set_owner
  | Unlock | Peek | Peek_next "nat option" | Clear_owner | Set_unlocked | Yield_to "nat option"
  | Insert_last | Insert_at_tail | Insert_prev
  | Delete | Delete_prev | Delete_prev_at nat | Delete_head | Delete_head_next
  | Delete_next | Delete_next_at nat | Delete_tail | Delete_tail_prev | Delete_rest
  | Store_head "nat option" | Store_tail "nat option" | Store_next "nat option" "nat option"
  | Store_prev "nat option" "nat option" | Length_add int | Store_length int
  | Work nat

definition k_crash :: "nat \<Rightarrow> kstmt \<Rightarrow> kmutex \<Rightarrow> kstmt list \<times> kmutex" where
  "k_crash t c w = ([c], w\<lparr>k_crashed := (k_crashed w)(t := True)\<rparr>)"

definition k_running :: "nat \<Rightarrow> kmutex \<Rightarrow> bool" where
  "k_running t w \<longleftrightarrow> \<not> k_crashed w t"

section \<open>\<open>mutex_lock\<close> and \<open>mutex_unlock\<close>\<close>

definition k_xchg :: "kmutex \<Rightarrow> kstmt list \<times> kmutex" where
  "k_xchg w =
     (let is_locked = k_status w
      in (if is_locked \<noteq> 0 then [Print_owner, Insert_last, Schedule_owner, Delete, Xchg] else [Set_owner],
          w\<lparr>k_status := 1\<rparr>))"

definition k_mutex_unlock :: "kmutex \<Rightarrow> kstmt list" where
  "k_mutex_unlock w = (if k_length w \<noteq> 0 then [Peek] else [Clear_owner])"

definition k_peek_next :: "nat \<Rightarrow> nat option \<Rightarrow> kmutex \<Rightarrow> kstmt list \<times> kmutex" where
  "k_peek_next t n w =
     (case n of None \<Rightarrow> k_crash t (Peek_next n) w | Some x \<Rightarrow> ([Clear_owner, Yield_to (k_next w x)], w))"

section \<open>The waiting queue\<close>

definition k_insert_last :: "nat \<Rightarrow> kmutex \<Rightarrow> kstmt list" where
  "k_insert_last j w =
     (if k_tail w = None
      then [Store_tail (Some j), Store_head (Some j), Store_next (Some j) None, Store_prev (Some j) None, Length_add 1]
      else [Insert_at_tail, Insert_prev, Store_next (Some j) None, Store_tail (Some j), Length_add 1])"

definition k_delete :: "nat \<Rightarrow> kmutex \<Rightarrow> kstmt list" where
  "k_delete j w = (if k_prev w j \<noteq> None then [Delete_prev, Delete_rest] else [Delete_head])"

definition k_delete_prev :: "nat \<Rightarrow> kmutex \<Rightarrow> kstmt list \<times> kmutex" where
  "k_delete_prev j w =
     (case k_prev w j of None \<Rightarrow> k_crash j Delete_prev w | Some p \<Rightarrow> ([Delete_prev_at p], w))"

definition k_delete_head :: "nat \<Rightarrow> kmutex \<Rightarrow> kstmt list" where
  "k_delete_head j w = (if k_head w = Some j then [Delete_head_next, Delete_rest] else [])"

definition k_delete_rest :: "nat \<Rightarrow> kmutex \<Rightarrow> kstmt list" where
  "k_delete_rest j w = (if k_next w j \<noteq> None then [Delete_next, Length_add (-1)] else [Delete_tail])"

definition k_delete_next :: "nat \<Rightarrow> kmutex \<Rightarrow> kstmt list \<times> kmutex" where
  "k_delete_next j w =
     (case k_next w j of None \<Rightarrow> k_crash j Delete_next w | Some n \<Rightarrow> ([Delete_next_at n], w))"

definition k_delete_tail :: "nat \<Rightarrow> kmutex \<Rightarrow> kstmt list" where
  "k_delete_tail j w = (if k_tail w = Some j then [Delete_tail_prev, Length_add (-1)] else [])"

definition k_store_next :: "nat \<Rightarrow> nat option \<Rightarrow> nat option \<Rightarrow> kmutex \<Rightarrow> kstmt list \<times> kmutex" where
  "k_store_next t n v w =
     (case n of None \<Rightarrow> k_crash t (Store_next n v) w | Some x \<Rightarrow> ([], w\<lparr>k_next := (k_next w)(x := v)\<rparr>))"

definition k_store_prev :: "nat \<Rightarrow> nat option \<Rightarrow> nat option \<Rightarrow> kmutex \<Rightarrow> kstmt list \<times> kmutex" where
  "k_store_prev t n v w =
     (case n of None \<Rightarrow> k_crash t (Store_prev n v) w | Some x \<Rightarrow> ([], w\<lparr>k_prev := (k_prev w)(x := v)\<rparr>))"

section \<open>Running a statement\<close>

primrec kexec :: "nat \<Rightarrow> kstmt \<Rightarrow> kmutex \<Rightarrow> kstmt list \<times> kmutex" where
  "kexec t Lock w = ([Xchg], w)"
| "kexec t Xchg w = k_xchg w"
| "kexec t Print_owner w = ([], w)"
| "kexec t Schedule_owner w = ([], w)"
| "kexec t Set_owner w = ([], w\<lparr>k_tid := int t\<rparr>)"
| "kexec t Unlock w = (k_mutex_unlock w, w)"
| "kexec t Peek w = ([Peek_next (k_head w)], w)"
| "kexec t (Peek_next n) w = k_peek_next t n w"
| "kexec t Clear_owner w = ([Set_unlocked], w\<lparr>k_tid := -1\<rparr>)"
| "kexec t Set_unlocked w = ([], w\<lparr>k_status := 0\<rparr>)"
| "kexec t (Yield_to n) w = k_crash t (Yield_to n) w"
| "kexec t Insert_last w = (k_insert_last t w, w)"
| "kexec t Insert_at_tail w = ([Store_next (k_tail w) (Some t)], w)"
| "kexec t Insert_prev w = ([Store_prev (Some t) (k_tail w)], w)"
| "kexec t Delete w = (k_delete t w, w)"
| "kexec t Delete_prev w = k_delete_prev t w"
| "kexec t (Delete_prev_at p) w = ([Store_next (Some p) (k_next w t)], w)"
| "kexec t Delete_head w = (k_delete_head t w, w)"
| "kexec t Delete_head_next w = ([Store_head (k_next w t)], w)"
| "kexec t Delete_rest w = (k_delete_rest t w, w)"
| "kexec t Delete_next w = k_delete_next t w"
| "kexec t (Delete_next_at n) w = ([Store_prev (Some n) (k_prev w t)], w)"
| "kexec t Delete_tail w = (k_delete_tail t w, w)"
| "kexec t Delete_tail_prev w = ([Store_tail (k_prev w t)], w)"
| "kexec t (Store_head n) w = ([], w\<lparr>k_head := n\<rparr>)"
| "kexec t (Store_tail n) w = ([], w\<lparr>k_tail := n\<rparr>)"
| "kexec t (Store_next n v) w = k_store_next t n v w"
| "kexec t (Store_prev n v) w = k_store_prev t n v w"
| "kexec t (Length_add d) w = ([Store_length (k_length w + d)], w)"
| "kexec t (Store_length v) w = ([], w\<lparr>k_length := v\<rparr>)"
| "kexec t (Work n) w = ([], w)"

abbreviation kstep :: "nat \<Rightarrow> kstmt codes \<times> kmutex \<Rightarrow> kstmt codes \<times> kmutex" where
  "kstep \<equiv> mstep kexec k_running"

abbreviation krun :: "nat list \<Rightarrow> kstmt codes \<times> kmutex \<Rightarrow> kstmt codes \<times> kmutex" where
  "krun \<equiv> mrun kexec k_running"

definition kmutex0 :: kmutex where
  "kmutex0 = \<lparr>k_status = 0, k_tid = -1, k_head = None, k_tail = None, k_length = 0, k_prev = (\<lambda>_. None),
     k_next = (\<lambda>_. None), k_crashed = (\<lambda>_. False)\<rparr>"

lemmas k_bodies = k_xchg_def k_mutex_unlock_def k_peek_next_def k_insert_last_def k_delete_def k_delete_prev_def
  k_delete_head_def k_delete_rest_def k_delete_next_def k_delete_tail_def k_store_next_def k_store_prev_def k_crash_def Let_def

section \<open>The mutex as a resource\<close>

fun k_eff :: "kstmt \<Rightarrow> effect" where
  "k_eff Lock = Take"
| "k_eff Xchg = Take"
| "k_eff Set_owner = Hold"
| "k_eff Unlock = Give"
| "k_eff Peek = Give"
| "k_eff (Peek_next n) = Give"
| "k_eff Clear_owner = Give"
| "k_eff Set_unlocked = Give"
| "k_eff c = Nop"

text \<open>A thread owns the mutex from its successful exchange to its store of \<open>MUTEX_UNLOCKED\<close>: the next
  operation on the mutex in what it has left to run is then the unlock. In between, except right after the exchange
  and right before the store, it is inside.\<close>

definition k_owns :: "kstmt list \<Rightarrow> bool" where
  "k_owns cs = balanced k_eff True cs"

definition k_inside :: "kstmt list \<Rightarrow> bool" where
  "k_inside cs \<longleftrightarrow> k_owns cs \<and> hd cs \<noteq> Set_owner \<and> hd cs \<noteq> Set_unlocked"

definition status_ok :: "kstmt codes \<times> kmutex \<Rightarrow> bool" where
  "status_ok cw \<longleftrightarrow> k_status (snd cw) \<in> {0, 1}"

lemma kexec_status:
  assumes "kexec t c w = (new, w')"
  shows "k_status w' = (if c = Xchg then 1 else if c = Set_unlocked then 0 else k_status w)"
  using assms by (cases c) (auto simp: k_bodies split: option.splits if_splits)

lemma kexec_tid:
  assumes "kexec t c w = (new, w')"
  shows "k_tid w' = (if c = Set_owner then int t else if c = Clear_owner then -1 else k_tid w)"
  using assms by (cases c) (auto simp: k_bodies split: option.splits if_splits)

text \<open>What a statement leaves to run has the effect of the statement, unless it is the exchange of a free mutex or the
  store that frees it.\<close>

lemma kexec_balanced:
  assumes "kexec t c w = (new, w')" "c = Xchg \<Longrightarrow> k_status w \<noteq> 0" "c \<noteq> Set_unlocked" "balanced k_eff h (c # cs)"
  shows "balanced k_eff h (new @ cs)"
  using assms by (cases c) (auto simp: k_bodies split: option.splits if_splits)

interpretation km: resource kexec k_running status_ok k_eff "\<lambda>w. 1 - k_status w" 1
proof unfold_locales
  show "status_ok (kstep t cw)" if "status_ok cw" for t cw
    using that by (cases cw) (auto simp: mstep_def status_ok_def kexec_status split: list.splits prod.splits)
next
  fix code w t c cs new w'
  assume J: "status_ok (code, w)" and st: "kexec t c w = (new, w')"
    and b: "balanced k_eff True (c # cs) \<and> 1 - k_status w < 1 \<or> balanced k_eff False (c # cs)"
  have s: "k_status w \<in> {0, 1}" using J by (simp add: status_ok_def)
  note n = kexec_status[OF st] kexec_balanced[OF st, of _ cs]
  show "(1 - k_status w' = 1 - k_status w \<and> (\<forall>h. balanced k_eff h (c # cs) \<longrightarrow> balanced k_eff h (new @ cs)))
      \<or> (k_eff c = Take \<and> 1 - k_status w' = 1 - k_status w - 1 \<and> (balanced k_eff True cs \<longrightarrow> balanced k_eff True (new @ cs)))
      \<or> (k_eff c = Give \<and> 1 - k_status w' = 1 - k_status w + 1 \<and> (balanced k_eff False cs \<longrightarrow> balanced k_eff False (new @ cs)))"
  proof (cases "c = Set_unlocked \<or> c = Xchg \<and> k_status w = 0")
    case True
    then show ?thesis using s b st by (auto simp: k_bodies)
  next
    case False
    then show ?thesis using n s by auto
  qed
qed

text \<open>Programs: finitely many threads, each of which locks and unlocks in pairs, on a mutex set up by
  \<open>mutex_init\<close>.\<close>

definition k_program :: "kstmt list \<Rightarrow> bool" where
  "k_program cs \<longleftrightarrow> balanced k_eff False cs \<and> (\<forall>c\<in>set cs. c = Lock \<or> c = Unlock \<or> (\<exists>n. c = Work n))"

definition k_start :: "nat set \<Rightarrow> kstmt codes \<Rightarrow> bool" where
  "k_start T code \<longleftrightarrow> finite T \<and> (\<forall>t. k_program (code t)) \<and> (\<forall>t. t \<notin> T \<longrightarrow> code t = [])"

definition mutex_inv :: "nat set \<Rightarrow> kstmt codes \<times> kmutex \<Rightarrow> bool" where
  "mutex_inv T cw \<longleftrightarrow> (case cw of (code, w) \<Rightarrow> finite T \<and> km.inv T cw \<and> (\<forall>t. k_inside (code t) \<longrightarrow> k_tid w = int t))"

lemma mutex_inv_start: "k_start T code \<Longrightarrow> mutex_inv T (code, kmutex0)"
proof -
  assume a: "k_start T code"
  then have n: "\<not> balanced k_eff True (code t)" for t
    using balanced_unique[of k_eff "code t"] by (auto simp: k_start_def k_program_def)
  then have "holders k_eff T code = {}" by (simp add: holders_def)
  then show ?thesis using a n
    by (simp add: mutex_inv_def km.inv_def k_start_def k_program_def all_balanced_def status_ok_def kmutex0_def k_inside_def k_owns_def)
qed

lemma owner_locked: "km.inv T (code, w) \<Longrightarrow> finite T \<Longrightarrow> k_owns (code t) \<Longrightarrow> k_status w = 1"
proof -
  assume a: "km.inv T (code, w)" "finite T" "k_owns (code t)"
  then have "t \<in> holders k_eff T code" by (auto simp: km.inv_def holders_def k_owns_def)
  moreover have "finite (holders k_eff T code)" using a(2) by (simp add: holders_def)
  ultimately have "0 < card (holders k_eff T code)" by (auto simp: card_gt_0_iff)
  then show "k_status w = 1" using a(1) by (auto simp: km.inv_def status_ok_def)
qed

lemma unique_owner:
  assumes "km.inv T (code, w)" "finite T" "k_owns (code t)" "k_owns (code u)"
  shows "t = u"
proof (rule km.unique_holder[OF assms(2,1)])
  show "1 - (1 - k_status w) \<le> 1" using assms(1) by (auto simp: km.inv_def status_ok_def)
qed (use assms(3,4) in \<open>simp_all add: k_owns_def\<close>)

text \<open>The stores to \<open>tid\<close> are made by the owner.\<close>

lemma tid_store_owner:
  assumes "km.inv T (code, w)" "code t = c # cs" "c = Set_owner \<or> c = Clear_owner"
  shows "k_owns (code t)"
proof -
  have "\<not> balanced k_eff False (code t)" using assms(2,3) by auto
  then show ?thesis using assms(1) by (auto simp: km.inv_def all_balanced_def k_owns_def)
qed

text \<open>How a thread comes to be inside: it was inside before, or it just stored its number.\<close>

lemma kexec_inside:
  assumes "kexec t c w = (new, w')" "status_ok (code, w)" "balanced k_eff h (c # cs)" "k_inside (new @ cs)"
  shows "c = Set_owner \<or> (h \<and> k_inside (c # cs) \<and> c \<noteq> Clear_owner)"
proof -
  have bal: "balanced k_eff True (new @ cs)" using assms(4) by (simp add: k_inside_def k_owns_def)
  have s: "k_status w \<in> {0, 1}" using assms(2) by (simp add: status_ok_def)
  consider "c = Set_owner" | "c = Clear_owner" | "c = Xchg" "k_status w = 0" | "c = Set_unlocked"
    | (other) "c \<noteq> Set_owner" "c \<noteq> Clear_owner" "c \<noteq> Set_unlocked" "c = Xchg \<longrightarrow> k_status w \<noteq> 0" by blast
  then show ?thesis
  proof cases
    case other
    then have "balanced k_eff h (new @ cs)" using kexec_balanced[OF assms(1) _ _ assms(3)] by blast
    then have h using bal balanced_unique[of k_eff "new @ cs"] by (cases h) auto
    then show ?thesis using other assms(3) by (auto simp: k_inside_def k_owns_def)
  qed (use assms balanced_unique[of k_eff cs] in \<open>auto simp: k_bodies k_inside_def k_owns_def\<close>)
qed

lemma mutex_inv_step:
  assumes I: "mutex_inv T cw"
  shows "mutex_inv T (kstep t cw)"
proof -
  obtain code w where cw: "cw = (code, w)" by (cases cw)
  obtain code' w' where cw': "kstep t cw = (code', w')" by (cases "kstep t cw")
  note i = I[unfolded mutex_inv_def cw prod.case]
  have J: "km.inv T (code', w')" using km.inv_step[of T "(code, w)" t] i cw cw' by simp
  from cw'[unfolded cw] show ?thesis unfolding cw'
  proof (cases rule: mstep_cases)
    case 1
    then show "mutex_inv T (code', w')" using I cw by simp
  next
    case (2 c cs new)
    note tid = kexec_tid[OF 2(3)]
    have ok: "status_ok (code, w)" using i by (simp add: km.inv_def)
    have "k_tid w' = int u" if u: "k_inside (code' u)" for u
    proof (cases "u = t")
      case True
      then have "k_inside (new @ cs)" using u 2(4) by simp
      moreover obtain h where b: "balanced k_eff h (c # cs)" using i 2(1) by (auto simp: km.inv_def all_balanced_def dest: spec[of _ t])
      ultimately have "c = Set_owner \<or> (k_inside (code t) \<and> c \<noteq> Clear_owner)" using kexec_inside[OF 2(3) ok b] 2(1) by auto
      then show ?thesis using tid i True by auto
    next
      case False
      then have "k_inside (code u)" using u 2(4) by simp
      moreover from this have "c \<noteq> Set_owner" "c \<noteq> Clear_owner"
        using tid_store_owner[of T code w t c cs] unique_owner[of T code w t u] i 2(1) False by (auto simp: k_inside_def)
      ultimately show ?thesis using tid i by simp
    qed
    then show "mutex_inv T (code', w')" using J i by (simp add: mutex_inv_def)
  qed
qed

lemma mutex_inv_run: "k_start T code \<Longrightarrow> mutex_inv T (krun ts (code, kmutex0))"
  by (rule mrun_invariant[where P = "mutex_inv T"]) (auto intro: mutex_inv_start mutex_inv_step)

section \<open>Properties\<close>

text \<open>C4: mutual exclusion: finitely many threads lock and unlock one mutex in pairs and are preempted between
  any two accesses to memory. Under every schedule at most one thread owns the mutex, its status is locked exactly when
  some thread owns it, and while a thread is inside, \<open>tid\<close> names it.\<close>

theorem mutex_mutual_exclusion:
  assumes "k_start T code" and "krun ts (code, kmutex0) = (code', w)"
  shows "(\<forall>t u. k_owns (code' t) \<longrightarrow> k_owns (code' u) \<longrightarrow> t = u)
    \<and> k_status w = (if \<exists>t. k_owns (code' t) then 1 else 0)
    \<and> (\<forall>t. k_inside (code' t) \<longrightarrow> k_tid w = int t)"
proof -
  have I: "mutex_inv T (code', w)" using mutex_inv_run[OF assms(1), of ts] assms(2) by simp
  then have k: "km.inv T (code', w)" "finite T" by (simp_all add: mutex_inv_def)
  have "k_status w = 0" if "\<nexists>t. k_owns (code' t)"
    using that k by (simp add: km.inv_def holders_def k_owns_def)
  then show ?thesis using unique_owner[OF k] owner_locked[OF k] I by (auto simp: mutex_inv_def)
qed

text \<open>The first thread is inside when the second one finds the mutex locked and joins the queue.\<close>

definition two_threads :: "kstmt codes" where
  "two_threads = (\<lambda>_. [])(1 := [Lock, Work 0, Unlock], 2 := [Lock, Work 0, Unlock])"

lemma two_threads_start: "k_start {1, 2} two_threads"
  by (auto simp: k_start_def k_program_def two_threads_def)

theorem mutex_mutual_exclusion_witness:
  "case krun [1, 2, 1, 2, 1, 2, 2, 2] (two_threads, kmutex0) of (code', w) \<Rightarrow>
     code' 1 = [Work 0, Unlock] \<and> code' 2 = [Store_head (Some 2), Store_next (Some 2) None, Store_prev (Some 2) None,
       Length_add 1, Schedule_owner, Delete, Xchg, Work 0, Unlock]
     \<and> \<not> k_owns (code' 2) \<and> k_status w = 1 \<and> k_tid w = 1"
proof -
  obtain code' w where r: "krun [1, 2, 1, 2, 1, 2, 2, 2] (two_threads, kmutex0) = (code', w)" by (meson surj_pair)
  then have c: "code' 1 = [Work 0, Unlock]" "code' 2 = [Store_head (Some 2), Store_next (Some 2) None, Store_prev (Some 2) None,
       Length_add 1, Schedule_owner, Delete, Xchg, Work 0, Unlock]"
    by (auto simp: mstep_def two_threads_def kmutex0_def k_running_def k_bodies)
  then have "k_inside (code' 1)" "k_owns (code' 1)" by (simp_all add: k_inside_def k_owns_def)
  with mutex_mutual_exclusion[OF two_threads_start r] have "k_tid w = int 1" "k_status w = 1" "k_owns (code' 2) \<longrightarrow> 2 = (1::nat)"
    by (metis, metis, metis)
  with r c show ?thesis by simp
qed

section \<open>The queue loses waiters\<close>

text \<open>Nothing protects the waiting queue. Two threads that both find it empty both store themselves as its only node:
  the length is then two, but the queue that can be reached from the head holds the second thread only.\<close>

definition three_threads :: "kstmt codes" where
  "three_threads = (\<lambda>_. [])(1 := [Lock, Unlock], 2 := [Lock, Unlock], 3 := [Lock, Unlock])"

lemma waiter_is_lost:
  "case krun ([1, 1, 1] @ [2, 2, 2, 2] @ [3, 3, 3, 3] @ replicate 6 2 @ replicate 6 3) (three_threads, kmutex0) of (code', w) \<Rightarrow>
     code' 2 = [Schedule_owner, Delete, Xchg, Unlock] \<and> code' 3 = [Schedule_owner, Delete, Xchg, Unlock]
     \<and> k_length w = 2 \<and> k_head w = Some 3 \<and> k_next w 3 = None \<and> k_tail w = Some 3"
  by (simp add: mstep_def three_threads_def kmutex0_def k_running_def k_bodies eval_nat_numeral)

end
