(* ===== verification/User_Sync.thy ===== *)
theory User_Sync
  imports Interleave
begin

text \<open>
  The synchronisation objects of the user thread library: \<open>user/libthread/spinlock.c\<close>, \<open>mutex.c\<close>,
  \<open>cond_var.c\<close>, \<open>semaphore.c\<close> and \<open>rwlock.c\<close>. Threads run concurrently, so every function
  is given by the statements it runs, at the granularity of single reads and writes of shared memory: an increment is
  a read and a later write, a spin lock one \<open>xchg\<close> per round. A statement is an element of \<open>ustmt\<close>,
  \<open>uexec\<close> runs it and returns the statements that are to run next.

  A wait list is the sequence of the thread numbers in it: the nodes are made by \<open>make_node\<close>, which takes the
  mutex of the allocator, and the allocator is taken to succeed. The kernel's part is its contract: \<open>deschedule\<close>
  puts the caller to sleep, \<open>make_runnable\<close> fails unless the thread is asleep, \<open>yield\<close> changes nothing here.
  Counters are unbounded integers.
\<close>

section \<open>Shared memory\<close>

text \<open>Semaphores stand alone or are the five of a readers-writers lock; mutexes and condition variables stand alone or
  are fields of another object; a spin lock is a field of a mutex or of a condition variable.\<close>

datatype semid = Sem nat | Rcnt_mutex nat | Wcnt_mutex nat | Gen_mutex nat | W_sem nat | R_sem nat
datatype mtx = Mtx nat | Sem_mtx semid | Malloc_mtx | Create_mtx | List_mtx | T_mtx nat
datatype cnd = Cnd nat | Sem_cvar semid | List_cnd | T_cnd nat
datatype spin = Mutex_spin mtx | Cond_spin cnd

record uworld =
  spin_state :: "spin \<Rightarrow> int"
  mutex_status :: "mtx \<Rightarrow> int"
  cond_status :: "cnd \<Rightarrow> int"
  wait_list :: "cnd \<Rightarrow> nat list"
  sem_count :: "semid \<Rightarrow> int"
  readcnt :: "nat \<Rightarrow> int"
  writecnt :: "nat \<Rightarrow> int"
  asleep :: "nat \<Rightarrow> bool"
  gone :: "nat \<Rightarrow> bool"

definition SPINLOCK_LOCKED :: int where "SPINLOCK_LOCKED = 1"
definition SPINLOCK_UNLOCKED :: int where "SPINLOCK_UNLOCKED = 0"
definition U_MUTEX_LOCKED :: int where "U_MUTEX_LOCKED = 1"
definition U_MUTEX_UNLOCKED :: int where "U_MUTEX_UNLOCKED = 0"
definition U_MUTEX_UNAVAILABLE :: int where "U_MUTEX_UNAVAILABLE = -1"
definition CVAR_UNAVAILABLE :: int where "CVAR_UNAVAILABLE = -1"
definition CVAR_AVAILABLE :: int where "CVAR_AVAILABLE = 0"
definition NULL_CNT :: int where "NULL_CNT = -1"

lemmas uconsts = SPINLOCK_LOCKED_def SPINLOCK_UNLOCKED_def U_MUTEX_LOCKED_def U_MUTEX_UNLOCKED_def U_MUTEX_UNAVAILABLE_def
  CVAR_UNAVAILABLE_def CVAR_AVAILABLE_def NULL_CNT_def

section \<open>Statements\<close>

datatype ustmt =
    Spinlock_init spin | Spinlock_lock spin | Spinlock_unlock spin | Spinlock_destroy spin
  | Mutex_init mtx | Mutex_destroy mtx | Mutex_destroyed mtx | Mutex_lock mtx | Mutex_unlock mtx | Set_status mtx int
  | Cond_init cnd | Cond_destroy cnd | Cond_destroyed cnd | Cond_wait cnd mtx | Cond_signal cnd | Cond_broadcast cnd
  | Make_node | Lib_malloc | Insert_waiter cnd | Deschedule | Delete_first cnd | Make_runnable nat | Yield | Broadcast_loop cnd
  | Sem_init semid int | Sem_destroy semid | Sem_wait semid | Sem_wait_loop semid | Sem_dec semid | Sem_dec_store semid int
  | Sem_signal semid | Sem_inc semid | Sem_inc_store semid int
  | Rwlock_init nat | Rwlock_destroy nat | Rwlock_lock nat bool | Rwlock_unlock nat | Rwlock_downgrade nat
  | Readcnt_add nat int | Readcnt_store nat int | Writecnt_add nat int | Writecnt_store nat int
  | First_reader nat | Last_reader nat | Last_writer nat
  | Vanish | Work nat

section \<open>Mutexes\<close>

definition u_spinlock_lock :: "spin \<Rightarrow> uworld \<Rightarrow> ustmt list \<times> uworld" where
  "u_spinlock_lock sl w =
     (let is_locked = spin_state w sl
      in (if is_locked \<noteq> 0 then [Spinlock_lock sl] else [], w\<lparr>spin_state := (spin_state w)(sl := 1)\<rparr>))"

definition u_spinlock_unlock :: "spin \<Rightarrow> uworld \<Rightarrow> ustmt list \<times> uworld" where
  "u_spinlock_unlock sl w = ([], w\<lparr>spin_state := (spin_state w)(sl := SPINLOCK_UNLOCKED)\<rparr>)"

definition u_spinlock_init :: "spin \<Rightarrow> uworld \<Rightarrow> ustmt list \<times> uworld" where
  "u_spinlock_init sl w = ([], w\<lparr>spin_state := (spin_state w)(sl := SPINLOCK_UNLOCKED)\<rparr>)"

text \<open>The assignment in \<open>spinlock_destroy\<close> is to the local pointer.\<close>

definition u_spinlock_destroy :: "spin \<Rightarrow> uworld \<Rightarrow> ustmt list \<times> uworld" where
  "u_spinlock_destroy sl w = (if spin_state w sl = SPINLOCK_LOCKED then [Vanish] else [], w)"

definition u_mutex_init :: "mtx \<Rightarrow> ustmt list" where
  "u_mutex_init mp = [Set_status mp U_MUTEX_UNLOCKED, Spinlock_init (Mutex_spin mp)]"

definition u_mutex_destroy :: "mtx \<Rightarrow> ustmt list" where
  "u_mutex_destroy mp = [Spinlock_destroy (Mutex_spin mp), Mutex_destroyed mp]"

definition u_mutex_destroyed :: "mtx \<Rightarrow> uworld \<Rightarrow> ustmt list" where
  "u_mutex_destroyed mp w = (if mutex_status w mp = U_MUTEX_LOCKED then [Vanish] else []) @ [Set_status mp U_MUTEX_UNAVAILABLE]"

definition u_mutex_lock :: "mtx \<Rightarrow> uworld \<Rightarrow> ustmt list" where
  "u_mutex_lock mp w =
     (if mutex_status w mp = U_MUTEX_UNAVAILABLE then []
      else [Spinlock_lock (Mutex_spin mp), Set_status mp U_MUTEX_LOCKED])"

definition u_mutex_unlock :: "mtx \<Rightarrow> uworld \<Rightarrow> ustmt list" where
  "u_mutex_unlock mp w =
     (if mutex_status w mp = U_MUTEX_UNAVAILABLE then []
      else [Set_status mp U_MUTEX_UNLOCKED, Spinlock_unlock (Mutex_spin mp)])"

section \<open>Condition variables\<close>

definition u_cond_init :: "cnd \<Rightarrow> uworld \<Rightarrow> ustmt list \<times> uworld" where
  "u_cond_init cv w = ([Spinlock_init (Cond_spin cv)],
     w\<lparr>cond_status := (cond_status w)(cv := CVAR_AVAILABLE), wait_list := (wait_list w)(cv := [])\<rparr>)"

definition u_cond_destroy :: "cnd \<Rightarrow> uworld \<Rightarrow> ustmt list" where
  "u_cond_destroy cv w = (if wait_list w cv \<noteq> [] then [Vanish] else []) @ [Spinlock_destroy (Cond_spin cv), Cond_destroyed cv]"

definition u_make_node :: "ustmt list" where
  "u_make_node = [Mutex_lock Malloc_mtx, Lib_malloc, Mutex_unlock Malloc_mtx]"

definition u_cond_wait :: "cnd \<Rightarrow> mtx \<Rightarrow> uworld \<Rightarrow> ustmt list" where
  "u_cond_wait cv mp w =
     (if cond_status w cv = CVAR_UNAVAILABLE \<or> mutex_status w mp = U_MUTEX_UNAVAILABLE then []
      else [Spinlock_lock (Cond_spin cv), Mutex_unlock mp, Make_node, Insert_waiter cv, Spinlock_unlock (Cond_spin cv),
            Deschedule, Mutex_lock mp])"

definition u_cond_signal :: "cnd \<Rightarrow> uworld \<Rightarrow> ustmt list" where
  "u_cond_signal cv w =
     (if cond_status w cv = CVAR_UNAVAILABLE then []
      else [Spinlock_lock (Cond_spin cv), Delete_first cv, Spinlock_unlock (Cond_spin cv)])"

definition u_cond_broadcast :: "cnd \<Rightarrow> uworld \<Rightarrow> ustmt list" where
  "u_cond_broadcast cv w =
     (if cond_status w cv = CVAR_UNAVAILABLE then []
      else [Spinlock_lock (Cond_spin cv), Broadcast_loop cv, Spinlock_unlock (Cond_spin cv)])"

text \<open>Taking the first waiter off the list, and waking it: the call is repeated until it succeeds.\<close>

definition u_delete_first :: "cnd \<Rightarrow> uworld \<Rightarrow> ustmt list \<times> uworld" where
  "u_delete_first cv w =
     (case wait_list w cv of
        [] \<Rightarrow> ([], w)
      | tid # rest \<Rightarrow> ([Make_runnable tid], w\<lparr>wait_list := (wait_list w)(cv := rest)\<rparr>))"

definition u_make_runnable :: "nat \<Rightarrow> uworld \<Rightarrow> ustmt list \<times> uworld" where
  "u_make_runnable tid w =
     (if asleep w tid then ([], w\<lparr>asleep := (asleep w)(tid := False)\<rparr>) else ([Yield, Make_runnable tid], w))"

section \<open>Semaphores\<close>

definition u_sem_init :: "semid \<Rightarrow> int \<Rightarrow> ustmt list" where
  "u_sem_init sem n = [Mutex_init (Sem_mtx sem), Cond_init (Sem_cvar sem), Sem_inc_store sem n]"

definition u_sem_destroy :: "semid \<Rightarrow> ustmt list" where
  "u_sem_destroy sem = [Mutex_destroy (Sem_mtx sem), Cond_destroy (Sem_cvar sem)]"

definition u_sem_wait :: "semid \<Rightarrow> ustmt list" where
  "u_sem_wait sem = [Mutex_lock (Sem_mtx sem), Sem_wait_loop sem, Sem_dec sem, Mutex_unlock (Sem_mtx sem)]"

definition u_sem_wait_loop :: "semid \<Rightarrow> uworld \<Rightarrow> ustmt list" where
  "u_sem_wait_loop sem w =
     (if sem_count w sem \<le> 0 then [Cond_wait (Sem_cvar sem) (Sem_mtx sem), Sem_wait_loop sem] else [])"

definition u_sem_signal :: "semid \<Rightarrow> ustmt list" where
  "u_sem_signal sem = [Mutex_lock (Sem_mtx sem), Sem_inc sem, Cond_signal (Sem_cvar sem), Mutex_unlock (Sem_mtx sem)]"

section \<open>Readers-writers locks\<close>

definition u_rwlock_init :: "nat \<Rightarrow> ustmt list" where
  "u_rwlock_init rw = [Readcnt_store rw 0, Writecnt_store rw 0, Sem_init (Rcnt_mutex rw) 1, Sem_init (Wcnt_mutex rw) 1,
     Sem_init (Gen_mutex rw) 1, Sem_init (W_sem rw) 1, Sem_init (R_sem rw) 1]"

definition u_rwlock_destroy :: "nat \<Rightarrow> ustmt list" where
  "u_rwlock_destroy rw = [Readcnt_store rw NULL_CNT, Writecnt_store rw NULL_CNT, Sem_destroy (Rcnt_mutex rw),
     Sem_destroy (Wcnt_mutex rw), Sem_destroy (Gen_mutex rw), Sem_destroy (W_sem rw), Sem_destroy (R_sem rw)]"

definition u_rwlock_lock :: "nat \<Rightarrow> bool \<Rightarrow> ustmt list" where
  "u_rwlock_lock rw reader =
     (if reader
      then [Sem_wait (Gen_mutex rw), Sem_wait (R_sem rw), Sem_wait (Rcnt_mutex rw), Readcnt_add rw 1, First_reader rw,
            Sem_signal (Rcnt_mutex rw), Sem_signal (R_sem rw), Sem_signal (Gen_mutex rw)]
      else [Sem_wait (Wcnt_mutex rw), Writecnt_add rw 1, Sem_wait (R_sem rw), Sem_wait (W_sem rw), Sem_signal (Wcnt_mutex rw)])"

definition u_rwlock_unlock :: "nat \<Rightarrow> uworld \<Rightarrow> ustmt list" where
  "u_rwlock_unlock rw w =
     (if readcnt w rw > 0
      then [Sem_wait (Rcnt_mutex rw), Readcnt_add rw (-1), Last_reader rw, Sem_signal (Rcnt_mutex rw)]
      else [Sem_wait (Wcnt_mutex rw), Writecnt_add rw (-1), Last_writer rw, Sem_signal (Wcnt_mutex rw)])"

definition u_rwlock_downgrade :: "nat \<Rightarrow> ustmt list" where
  "u_rwlock_downgrade rw = [Sem_wait (Wcnt_mutex rw), Sem_wait (Rcnt_mutex rw), Writecnt_add rw (-1), Readcnt_add rw 1,
     Sem_signal (Rcnt_mutex rw), Sem_signal (Wcnt_mutex rw), Sem_signal (R_sem rw)]"

section \<open>Running a statement\<close>

primrec uexec :: "nat \<Rightarrow> ustmt \<Rightarrow> uworld \<Rightarrow> ustmt list \<times> uworld" where
  "uexec t (Spinlock_init sl) w = u_spinlock_init sl w"
| "uexec t (Spinlock_lock sl) w = u_spinlock_lock sl w"
| "uexec t (Spinlock_unlock sl) w = u_spinlock_unlock sl w"
| "uexec t (Spinlock_destroy sl) w = u_spinlock_destroy sl w"
| "uexec t (Mutex_init m) w = (u_mutex_init m, w)"
| "uexec t (Mutex_destroy m) w = (u_mutex_destroy m, w)"
| "uexec t (Mutex_destroyed m) w = (u_mutex_destroyed m w, w)"
| "uexec t (Mutex_lock m) w = (u_mutex_lock m w, w)"
| "uexec t (Mutex_unlock m) w = (u_mutex_unlock m w, w)"
| "uexec t (Set_status m v) w = ([], w\<lparr>mutex_status := (mutex_status w)(m := v)\<rparr>)"
| "uexec t (Cond_init cv) w = u_cond_init cv w"
| "uexec t (Cond_destroy cv) w = (u_cond_destroy cv w, w)"
| "uexec t (Cond_destroyed cv) w = ([], w\<lparr>cond_status := (cond_status w)(cv := CVAR_UNAVAILABLE)\<rparr>)"
| "uexec t (Cond_wait cv m) w = (u_cond_wait cv m w, w)"
| "uexec t (Cond_signal cv) w = (u_cond_signal cv w, w)"
| "uexec t (Cond_broadcast cv) w = (u_cond_broadcast cv w, w)"
| "uexec t Make_node w = (u_make_node, w)"
| "uexec t Lib_malloc w = ([], w)"
| "uexec t (Insert_waiter cv) w = ([], w\<lparr>wait_list := (wait_list w)(cv := wait_list w cv @ [t])\<rparr>)"
| "uexec t Deschedule w = ([], w\<lparr>asleep := (asleep w)(t := True)\<rparr>)"
| "uexec t (Delete_first cv) w = u_delete_first cv w"
| "uexec t (Make_runnable tid) w = u_make_runnable tid w"
| "uexec t Yield w = ([], w)"
| "uexec t (Broadcast_loop cv) w = (if wait_list w cv \<noteq> [] then [Delete_first cv, Broadcast_loop cv] else [], w)"
| "uexec t (Sem_init s n) w = (u_sem_init s n, w)"
| "uexec t (Sem_destroy s) w = (u_sem_destroy s, w)"
| "uexec t (Sem_wait s) w = (u_sem_wait s, w)"
| "uexec t (Sem_wait_loop s) w = (u_sem_wait_loop s w, w)"
| "uexec t (Sem_dec s) w = ([Sem_dec_store s (sem_count w s - 1)], w)"
| "uexec t (Sem_dec_store s v) w = ([], w\<lparr>sem_count := (sem_count w)(s := v)\<rparr>)"
| "uexec t (Sem_signal s) w = (u_sem_signal s, w)"
| "uexec t (Sem_inc s) w = ([Sem_inc_store s (sem_count w s + 1)], w)"
| "uexec t (Sem_inc_store s v) w = ([], w\<lparr>sem_count := (sem_count w)(s := v)\<rparr>)"
| "uexec t (Rwlock_init rw) w = (u_rwlock_init rw, w)"
| "uexec t (Rwlock_destroy rw) w = (u_rwlock_destroy rw, w)"
| "uexec t (Rwlock_lock rw reader) w = (u_rwlock_lock rw reader, w)"
| "uexec t (Rwlock_unlock rw) w = (u_rwlock_unlock rw w, w)"
| "uexec t (Rwlock_downgrade rw) w = (u_rwlock_downgrade rw, w)"
| "uexec t (Readcnt_add rw d) w = ([Readcnt_store rw (readcnt w rw + d)], w)"
| "uexec t (Readcnt_store rw v) w = ([], w\<lparr>readcnt := (readcnt w)(rw := v)\<rparr>)"
| "uexec t (Writecnt_add rw d) w = ([Writecnt_store rw (writecnt w rw + d)], w)"
| "uexec t (Writecnt_store rw v) w = ([], w\<lparr>writecnt := (writecnt w)(rw := v)\<rparr>)"
| "uexec t (First_reader rw) w = (if readcnt w rw = 1 then [Sem_wait (W_sem rw)] else [], w)"
| "uexec t (Last_reader rw) w = (if readcnt w rw = 0 then [Sem_signal (W_sem rw)] else [], w)"
| "uexec t (Last_writer rw) w = (if writecnt w rw = 0 then [Sem_signal (R_sem rw)] else [], w)"
| "uexec t Vanish w = ([], w\<lparr>gone := (gone w)(t := True)\<rparr>)"
| "uexec t (Work n) w = ([], w)"

definition u_running :: "nat \<Rightarrow> uworld \<Rightarrow> bool" where
  "u_running t w \<longleftrightarrow> \<not> asleep w t \<and> \<not> gone w t"

abbreviation ustep :: "nat \<Rightarrow> ustmt codes \<times> uworld \<Rightarrow> ustmt codes \<times> uworld" where
  "ustep \<equiv> mstep uexec u_running"

abbreviation urun :: "nat list \<Rightarrow> ustmt codes \<times> uworld \<Rightarrow> ustmt codes \<times> uworld" where
  "urun \<equiv> mrun uexec u_running"

end
