(* ===== verification/User_Locks.thy ===== *)
theory User_Locks
  imports User_Sync
begin

text \<open>
  What the synchronisation objects of the thread library guarantee under every schedule: a mutex has at most one holder,
  a semaphore admits at most as many threads as its initial count, and a thread that sleeps in \<open>cond_wait\<close> is never
  forgotten. The spin locks of mutexes and condition variables are instances of the locale \<open>resource\<close>.
\<close>

section \<open>Spin locks as resources\<close>

text \<open>Objects that are in use are neither initialised nor destroyed.\<close>

fun allowed :: "ustmt \<Rightarrow> bool" where
  "allowed (Spinlock_init sl) = False"
| "allowed (Spinlock_destroy sl) = False"
| "allowed (Mutex_init m) = False"
| "allowed (Mutex_destroy m) = False"
| "allowed (Mutex_destroyed m) = False"
| "allowed (Set_status m v) = (v \<noteq> U_MUTEX_UNAVAILABLE)"
| "allowed (Cond_init cv) = False"
| "allowed (Cond_destroy cv) = False"
| "allowed (Cond_destroyed cv) = False"
| "allowed (Sem_init s n) = False"
| "allowed (Sem_destroy s) = False"
| "allowed (Rwlock_init rw) = False"
| "allowed (Rwlock_destroy rw) = False"
| "allowed c = True"

definition sync_ok :: "uworld \<Rightarrow> bool" where
  "sync_ok w \<longleftrightarrow> (\<forall>m. mutex_status w m \<noteq> U_MUTEX_UNAVAILABLE) \<and> (\<forall>cv. cond_status w cv \<noteq> CVAR_UNAVAILABLE)
     \<and> (\<forall>sl. spin_state w sl \<in> {0, 1})"

text \<open>The semaphores and the readers-writers locks a spin lock belongs to, and the allocator's lock, which every
  operation that makes a node takes and gives back.\<close>

fun in_sem :: "semid \<Rightarrow> spin \<Rightarrow> bool" where
  "in_sem s (Mutex_spin m) = (m = Sem_mtx s)"
| "in_sem s (Cond_spin cv) = (cv = Sem_cvar s)"

definition in_rw :: "nat \<Rightarrow> spin \<Rightarrow> bool" where
  "in_rw rw sl \<longleftrightarrow> in_sem (Rcnt_mutex rw) sl \<or> in_sem (Wcnt_mutex rw) sl \<or> in_sem (Gen_mutex rw) sl
     \<or> in_sem (W_sem rw) sl \<or> in_sem (R_sem rw) sl"

abbreviation malloc_spin :: spin where "malloc_spin \<equiv> Mutex_spin Malloc_mtx"

definition free_if :: "bool \<Rightarrow> effect" where "free_if b = (if b then Free else Nop)"
definition hold_if :: "bool \<Rightarrow> effect" where "hold_if b = (if b then Hold else Nop)"

fun spin_eff :: "spin \<Rightarrow> ustmt \<Rightarrow> effect" where
  "spin_eff sl (Spinlock_lock x) = (if x = sl then Take else Nop)"
| "spin_eff sl (Spinlock_unlock x) = (if x = sl then Give else Nop)"
| "spin_eff sl (Mutex_lock m) = (if Mutex_spin m = sl then Take else Nop)"
| "spin_eff sl (Mutex_unlock m) = (if Mutex_spin m = sl then Give else Nop)"
| "spin_eff sl (Set_status m v) = hold_if (Mutex_spin m = sl)"
| "spin_eff sl (Cond_wait cv m) = (if Mutex_spin m = sl then Hold else free_if (sl = Cond_spin cv \<or> sl = malloc_spin))"
| "spin_eff sl (Cond_signal cv) = free_if (sl = Cond_spin cv)"
| "spin_eff sl (Cond_broadcast cv) = free_if (sl = Cond_spin cv)"
| "spin_eff sl Make_node = free_if (sl = malloc_spin)"
| "spin_eff sl Lib_malloc = hold_if (sl = malloc_spin)"
| "spin_eff sl (Insert_waiter cv) = hold_if (sl = Cond_spin cv)"
| "spin_eff sl (Delete_first cv) = hold_if (sl = Cond_spin cv)"
| "spin_eff sl (Broadcast_loop cv) = hold_if (sl = Cond_spin cv)"
| "spin_eff sl (Sem_wait s) = free_if (in_sem s sl \<or> sl = malloc_spin)"
| "spin_eff sl (Sem_signal s) = free_if (in_sem s sl \<or> sl = malloc_spin)"
| "spin_eff sl (Sem_wait_loop s) = (if sl = Mutex_spin (Sem_mtx s) then Hold else free_if (sl = Cond_spin (Sem_cvar s) \<or> sl = malloc_spin))"
| "spin_eff sl (Sem_dec s) = hold_if (sl = Mutex_spin (Sem_mtx s))"
| "spin_eff sl (Sem_dec_store s v) = hold_if (sl = Mutex_spin (Sem_mtx s))"
| "spin_eff sl (Sem_inc s) = hold_if (sl = Mutex_spin (Sem_mtx s))"
| "spin_eff sl (Sem_inc_store s v) = hold_if (sl = Mutex_spin (Sem_mtx s))"
| "spin_eff sl (Rwlock_lock rw r) = free_if (in_rw rw sl \<or> sl = malloc_spin)"
| "spin_eff sl (Rwlock_unlock rw) = free_if (in_rw rw sl \<or> sl = malloc_spin)"
| "spin_eff sl (Rwlock_downgrade rw) = free_if (in_rw rw sl \<or> sl = malloc_spin)"
| "spin_eff sl (First_reader rw) = free_if (in_sem (W_sem rw) sl \<or> sl = malloc_spin)"
| "spin_eff sl (Last_reader rw) = free_if (in_sem (W_sem rw) sl \<or> sl = malloc_spin)"
| "spin_eff sl (Last_writer rw) = free_if (in_sem (R_sem rw) sl \<or> sl = malloc_spin)"
| "spin_eff sl c = Nop"

lemmas u_bodies = u_spinlock_lock_def u_spinlock_unlock_def u_mutex_lock_def u_mutex_unlock_def u_cond_wait_def u_cond_signal_def
  u_cond_broadcast_def u_make_node_def u_delete_first_def u_make_runnable_def u_sem_wait_def u_sem_wait_loop_def u_sem_signal_def
  u_rwlock_lock_def u_rwlock_unlock_def u_rwlock_downgrade_def Let_def

lemma spin_keeps:
  assumes "allowed c" "sync_ok w" "uexec t c w = (new, w')"
  shows "sync_ok w' \<and> (\<forall>c\<in>set new. allowed c)"
  using assms by (cases c) (auto simp: u_bodies sync_ok_def uconsts split: if_splits list.splits)

lemma spin_unchanged:
  assumes "uexec t c w = (new, w')" "allowed c" "\<And>x. c \<noteq> Spinlock_lock x" "\<And>x. c \<noteq> Spinlock_unlock x"
  shows "spin_state w' = spin_state w"
  using assms by (cases c) (auto simp: u_bodies split: if_splits list.splits)

lemma spin_expand:
  assumes "uexec t c w = (new, w')" "sync_ok w" "allowed c" "\<And>x. c \<noteq> Spinlock_lock x" "\<And>x. c \<noteq> Spinlock_unlock x"
    "balanced (spin_eff sl) h (c # cs)"
  shows "balanced (spin_eff sl) h (new @ cs)"
  using assms by (cases c) (auto simp: u_bodies sync_ok_def free_if_def hold_if_def in_rw_def split: if_splits list.splits)


lemma spin_lock_step: "uexec t (Spinlock_lock sl) w = (new, w') \<Longrightarrow> sync_ok w \<Longrightarrow>
    (spin_state w' = spin_state w \<and> new = [Spinlock_lock sl]) \<or> (spin_state w sl = 0 \<and> spin_state w' = (spin_state w)(sl := 1) \<and> new = [])"
  by (auto simp: u_spinlock_lock_def sync_ok_def Let_def fun_eq_iff split: if_splits)

abbreviation sync_inv :: "ustmt codes \<times> uworld \<Rightarrow> bool" where
  "sync_inv \<equiv> statically sync_ok allowed"

lemma statically_head: "statically ok good (code, w) \<Longrightarrow> code t = c # cs \<Longrightarrow> ok w \<and> good c"
  by (auto simp: statically_def) (metis list.set_intros(1))

interpretation sp: resource uexec u_running sync_inv "spin_eff sl" "\<lambda>w. 1 - spin_state w sl" 1 for sl
proof unfold_locales
  show "sync_inv (ustep t cw)" if "sync_inv cw" for t cw
    using that by (rule statically_step) (rule spin_keeps)
next
  fix code w t c cs new w'
  assume J: "sync_inv (code, w)" "code t = c # cs" and st: "uexec t c w = (new, w')"
    and b: "balanced (spin_eff sl) True (c # cs) \<and> 1 - spin_state w sl < 1 \<or> balanced (spin_eff sl) False (c # cs)"
  have ok: "sync_ok w" "allowed c" using statically_head[OF J] by simp_all
  consider (lock) x where "c = Spinlock_lock x" | (unlock) x where "c = Spinlock_unlock x"
    | (other) "\<And>x. c \<noteq> Spinlock_lock x" "\<And>x. c \<noteq> Spinlock_unlock x" by blast
  then show "(1 - spin_state w' sl = 1 - spin_state w sl \<and> (\<forall>h. balanced (spin_eff sl) h (c # cs) \<longrightarrow> balanced (spin_eff sl) h (new @ cs)))
      \<or> (spin_eff sl c = Take \<and> 1 - spin_state w' sl = 1 - spin_state w sl - 1 \<and> (balanced (spin_eff sl) True cs \<longrightarrow> balanced (spin_eff sl) True (new @ cs)))
      \<or> (spin_eff sl c = Give \<and> 1 - spin_state w' sl = 1 - spin_state w sl + 1 \<and> (balanced (spin_eff sl) False cs \<longrightarrow> balanced (spin_eff sl) False (new @ cs)))"
  proof cases
    case lock
    with spin_lock_step[of t x w new w'] st ok(1) show ?thesis by auto
  next
    case unlock
    moreover have "spin_state w sl \<in> {0, 1}" using ok(1) by (simp add: sync_ok_def)
    then have "spin_state w sl = 1" if "x = sl" using b that unlock by auto
    ultimately show ?thesis using st by (auto simp: u_bodies uconsts)
  next
    case other
    then show ?thesis using spin_unchanged[OF st ok(2) other] spin_expand[OF st ok other] by auto
  qed
qed

section \<open>Mutexes\<close>

text \<open>A thread is inside the critical section of a mutex when the next operation on the mutex in what it has left to
  do is the unlock, the other threads having the same view.\<close>

definition inside :: "spin \<Rightarrow> ustmt list \<Rightarrow> bool" where
  "inside sl cs = balanced (spin_eff sl) True cs"

text \<open>Programs of finitely many threads that use the locks in pairs, on objects that are set up.\<close>

definition start_ok :: "nat set \<Rightarrow> ustmt codes \<times> uworld \<Rightarrow> bool" where
  "start_ok T cw \<longleftrightarrow> (case cw of (code, w) \<Rightarrow> finite T \<and> sync_inv cw \<and> (\<forall>t. t \<notin> T \<longrightarrow> code t = [])
     \<and> (\<forall>sl. spin_state w sl = 0) \<and> (\<forall>sl t. balanced (spin_eff sl) False (code t)))"

lemma start_inv: "start_ok T cw \<Longrightarrow> sp.inv sl T cw"
proof (cases cw)
  case (Pair code w)
  assume a: "start_ok T cw"
  have "\<not> balanced (spin_eff sl) True (code t)" for t
    using a balanced_unique[of "spin_eff sl" "code t"] by (auto simp: start_ok_def Pair)
  then have h: "holders (spin_eff sl) T code = {}" by (simp add: holders_def)
  show ?thesis using a h by (simp add: start_ok_def sp.inv_def Pair all_balanced_def)
qed

lemma run_inv: "start_ok T cw \<Longrightarrow> sp.inv sl T (urun ts cw)"
  using sp.inv_run[OF _ start_inv] by (auto simp: start_ok_def split: prod.splits)

lemma unique_inside: "sp.inv sl T (code, w) \<Longrightarrow> finite T \<Longrightarrow> inside sl (code t) \<Longrightarrow> inside sl (code u) \<Longrightarrow> t = u"
proof -
  assume a: "sp.inv sl T (code, w)" "finite T" "inside sl (code t)" "inside sl (code u)"
  have "spin_state w sl \<in> {0, 1}" using a(1) by (simp add: sp.inv_def statically_def sync_ok_def)
  then show "t = u" using sp.unique_holder[OF a(2,1)] a(3,4) by (auto simp: inside_def)
qed

section \<open>Semaphores never go negative\<close>

text \<open>The internal statements of \<open>sem_wait\<close> and \<open>sem_signal\<close> occur only where the functions put them: the
  decrement right after the loop (\<open>b\<close> says that the statement before was the loop), the stores at the front.\<close>

fun seq_ok :: "semid \<Rightarrow> bool \<Rightarrow> ustmt list \<Rightarrow> bool" where
  "seq_ok s b [] = True"
| "seq_ok s b (c # cs) = ((c = Sem_dec s \<longrightarrow> b) \<and> (\<forall>v. c \<noteq> Sem_dec_store s v) \<and> (\<forall>v. c \<noteq> Sem_inc_store s v)
     \<and> seq_ok s (c = Sem_wait_loop s) cs)"

definition front_ok :: "semid \<Rightarrow> int \<Rightarrow> ustmt \<Rightarrow> bool" where
  "front_ok s n c \<longleftrightarrow> (c = Sem_dec s \<longrightarrow> 0 < n) \<and> (\<forall>v. c = Sem_dec_store s v \<longrightarrow> v = n - 1 \<and> 0 < n)
     \<and> (\<forall>v. c = Sem_inc_store s v \<longrightarrow> v = n + 1)"

definition sem_shape :: "semid \<Rightarrow> int \<Rightarrow> ustmt list \<Rightarrow> bool" where
  "sem_shape s n cs = (case cs of [] \<Rightarrow> True | c # cs' \<Rightarrow> front_ok s n c \<and> seq_ok s (c = Sem_wait_loop s) cs')"

definition sem_inv :: "semid \<Rightarrow> nat set \<Rightarrow> ustmt codes \<times> uworld \<Rightarrow> bool" where
  "sem_inv s T cw \<longleftrightarrow> (case cw of (code, w) \<Rightarrow> finite T \<and> sp.inv (Mutex_spin (Sem_mtx s)) T cw \<and> 0 \<le> sem_count w s
     \<and> (\<forall>t. sem_shape s (sem_count w s) (code t)))"

lemma seq_ok_weaken: "seq_ok s False cs \<Longrightarrow> seq_ok s b cs"
  by (cases cs) auto

lemma seq_ok_shape: "seq_ok s b cs \<Longrightarrow> b \<longrightarrow> 0 < n \<Longrightarrow> sem_shape s n cs"
  by (cases cs) (auto simp: sem_shape_def front_ok_def)

text \<open>The effect of one statement on the count, and the shape of what is left.\<close>

lemma sem_stmt_count:
  assumes "uexec t c w = (new, w')" "allowed c"
  shows "sem_count w' s = (case c of Sem_dec_store x v \<Rightarrow> if x = s then v else sem_count w s
     | Sem_inc_store x v \<Rightarrow> if x = s then v else sem_count w s | _ \<Rightarrow> sem_count w s)"
  using assms by (cases c) (auto simp: u_bodies split: if_splits list.splits)

lemma sem_stmt_shape:
  assumes "uexec t c w = (new, w')" "allowed c" "front_ok s (sem_count w s) c" "seq_ok s (c = Sem_wait_loop s) cs"
  shows "sem_shape s (sem_count w' s) (new @ cs)"
proof (cases new)
  case Nil
  have "c = Sem_wait_loop s \<longrightarrow> 0 < sem_count w' s" using assms(1) Nil by (auto simp: u_sem_wait_loop_def split: if_splits)
  then show ?thesis using seq_ok_shape[OF assms(4)] Nil by simp
next
  case (Cons d new')
  note w = seq_ok_weaken
  have "c \<noteq> Sem_wait_loop s \<Longrightarrow> seq_ok s False cs" using assms(4) by simp
  then show ?thesis using assms Cons
    by (cases c) (auto simp: u_bodies sem_shape_def front_ok_def w split: if_splits list.splits)
qed

definition sem_critical :: "semid \<Rightarrow> ustmt \<Rightarrow> bool" where
  "sem_critical s c \<longleftrightarrow> c = Sem_dec s \<or> (\<exists>v. c = Sem_dec_store s v \<or> c = Sem_inc_store s v)"

lemma critical_inside:
  assumes "sp.inv (Mutex_spin (Sem_mtx s)) T (code, w)" "code u = d # ds" "sem_critical s d"
  shows "inside (Mutex_spin (Sem_mtx s)) (code u)"
proof -
  have "spin_eff (Mutex_spin (Sem_mtx s)) d = Hold" using assms(3) by (auto simp: sem_critical_def hold_if_def)
  then have "\<not> balanced (spin_eff (Mutex_spin (Sem_mtx s))) False (code u)" using assms(2) by simp
  then show ?thesis using assms(1) by (auto simp: sp.inv_def all_balanced_def inside_def)
qed

lemma not_critical_shape:
  "sem_shape s n cs \<Longrightarrow> (\<And>d ds. cs = d # ds \<Longrightarrow> \<not> sem_critical s d) \<Longrightarrow> sem_shape s m cs"
  by (cases cs) (auto simp: sem_shape_def front_ok_def sem_critical_def)

lemma sem_inv_step:
  assumes I: "sem_inv s T cw"
  shows "sem_inv s T (ustep t cw)"
proof -
  obtain code w where cw: "cw = (code, w)" by (cases cw)
  obtain code' w' where cw': "ustep t cw = (code', w')" by (cases "ustep t cw")
  let ?sl = "Mutex_spin (Sem_mtx s)"
  note i = I[unfolded sem_inv_def cw prod.case]
  have J: "sp.inv ?sl T (code', w')" using sp.inv_step[of T ?sl "(code, w)" t] i cw cw' by simp
  from cw'[unfolded cw] show ?thesis unfolding cw'
  proof (cases rule: mstep_cases)
    case 1
    then show "sem_inv s T (code', w')" using I cw by simp
  next
    case (2 c cs new)
    have spi: "sp.inv ?sl T (code, w)" and fin: "finite T" and sh: "\<And>u. sem_shape s (sem_count w s) (code u)" using i by auto
    have J0: "sync_inv (code, w)" using spi by (simp add: sp.inv_def)
    have al: "allowed c" using statically_head[OF J0 2(1)] by simp
    have f: "front_ok s (sem_count w s) c" "seq_ok s (c = Sem_wait_loop s) cs"
      using sh[of t] 2(1) by (simp_all add: sem_shape_def)
    note n = sem_stmt_count[OF 2(3) al, of s]
    have pos: "0 \<le> sem_count w' s" using n f(1) i by (cases c) (auto simp: front_ok_def)
    have other: "sem_shape s (sem_count w' s) (code u)" if "u \<noteq> t" for u
    proof (cases "sem_count w' s = sem_count w s")
      case False
      then have "sem_critical s c" using n by (cases c) (auto simp: sem_critical_def split: if_splits)
      then have "inside ?sl (code t)" by (rule critical_inside[OF spi 2(1)])
      then have "\<not> inside ?sl (code u)" using unique_inside[OF spi fin] that by blast
      then have "\<And>d ds. code u = d # ds \<Longrightarrow> \<not> sem_critical s d" using critical_inside[OF spi] by blast
      then show ?thesis by (rule not_critical_shape[OF sh])
    qed (use sh in simp)
    have "sem_shape s (sem_count w' s) (code' u)" for u
      using other[of u] sem_stmt_shape[OF 2(3) al f] 2(4) by (cases "u = t") simp_all
    then show "sem_inv s T (code', w')" using J pos i by (simp add: sem_inv_def)
  qed
qed

section \<open>Semaphores admit at most their count\<close>

fun token_eff :: "semid \<Rightarrow> ustmt \<Rightarrow> effect" where
  "token_eff s (Sem_wait x) = (if x = s then Take else Nop)"
| "token_eff s (Sem_dec x) = (if x = s then Take else Nop)"
| "token_eff s (Sem_dec_store x v) = (if x = s then Take else Nop)"
| "token_eff s (Sem_signal x) = (if x = s then Give else Nop)"
| "token_eff s (Sem_inc x) = (if x = s then Give else Nop)"
| "token_eff s (Sem_inc_store x v) = (if x = s then Give else Nop)"
| "token_eff s c = Nop"

lemma sem_inv_head:
  assumes "sem_inv s T (code, w)" "code t = c # cs"
  shows "allowed c" "front_ok s (sem_count w s) c"
proof -
  have "sync_inv (code, w)" "sem_shape s (sem_count w s) (code t)" using assms(1) by (auto simp: sem_inv_def sp.inv_def)
  then show "allowed c" "front_ok s (sem_count w s) c"
    using statically_head[of sync_ok allowed code w t c cs] assms(2) by (auto simp: sem_shape_def)
qed

lemma token_expand:
  assumes "uexec t c w = (new, w')" "allowed c" "\<And>v. c \<noteq> Sem_dec_store (Sem k) v" "\<And>v. c \<noteq> Sem_inc_store (Sem k) v"
    "balanced (token_eff (Sem k)) h (c # cs)"
  shows "balanced (token_eff (Sem k)) h (new @ cs)"
  using assms by (cases c) (auto simp: u_bodies split: if_splits list.splits)

interpretation tk: resource uexec u_running "sem_inv (Sem k) T" "token_eff (Sem k)" "\<lambda>w. sem_count w (Sem k)" n for k T n
proof unfold_locales
  show "sem_inv (Sem k) T (ustep t cw)" if "sem_inv (Sem k) T cw" for t cw using that by (rule sem_inv_step)
next
  fix code w t c cs new w'
  assume J: "sem_inv (Sem k) T (code, w)" "code t = c # cs" and st: "uexec t c w = (new, w')"
  note hd = sem_inv_head[OF J]
  let ?e = "token_eff (Sem k)" and ?a = "sem_count w' (Sem k)" and ?b = "sem_count w (Sem k)"
  consider (dec) v where "c = Sem_dec_store (Sem k) v" | (inc) v where "c = Sem_inc_store (Sem k) v"
    | (other) "\<And>v. c \<noteq> Sem_dec_store (Sem k) v" "\<And>v. c \<noteq> Sem_inc_store (Sem k) v" by blast
  then show "(?a = ?b \<and> (\<forall>h. balanced ?e h (c # cs) \<longrightarrow> balanced ?e h (new @ cs)))
      \<or> (?e c = Take \<and> ?a = ?b - 1 \<and> (balanced ?e True cs \<longrightarrow> balanced ?e True (new @ cs)))
      \<or> (?e c = Give \<and> ?a = ?b + 1 \<and> (balanced ?e False cs \<longrightarrow> balanced ?e False (new @ cs)))"
  proof cases
    case other
    then have "?a = ?b" using sem_stmt_count[OF st hd(1), of "Sem k"] by (cases c) (auto split: if_splits)
    then show ?thesis using token_expand[OF st hd(1) other] by blast
  qed (use st hd(2) in \<open>auto simp: front_ok_def\<close>)
qed

lemma start_sem_inv:
  assumes "start_ok T (code, w)" "\<forall>t. seq_ok s False (code t)" "0 \<le> sem_count w s"
  shows "sem_inv s T (code, w)"
  using assms start_inv[OF assms(1)] seq_ok_shape[of s False] by (simp add: sem_inv_def start_ok_def)

lemma sem_inv_run: "sem_inv s T cw \<Longrightarrow> sem_inv s T (urun ts cw)"
  by (rule mrun_invariant[where P = "sem_inv s T"]) (auto intro: sem_inv_step)

definition admitted :: "nat \<Rightarrow> ustmt list \<Rightarrow> bool" where
  "admitted k cs = balanced (token_eff (Sem k)) True cs"

section \<open>Sleepers are not forgotten\<close>

text \<open>\<open>deschedule\<close> is called only in \<open>cond_wait\<close>: the caller has just put itself on a wait list and
  unlocked its spin lock. The number is how much of that has been done.\<close>

definition phase :: "nat \<Rightarrow> ustmt \<Rightarrow> nat" where
  "phase k c = (case c of Insert_waiter cv \<Rightarrow> 1 | Spinlock_unlock x \<Rightarrow> if k = 1 then 2 else 0 | _ \<Rightarrow> 0)"

fun wait_ok :: "nat \<Rightarrow> ustmt list \<Rightarrow> bool" where
  "wait_ok k [] = True"
| "wait_ok k (c # cs) = ((c = Deschedule \<longrightarrow> k = 2) \<and> wait_ok (phase k c) cs)"

text \<open>Somebody will wake thread \<open>t\<close>: it is on a wait list, or a thread has taken it off one and is going to call
  \<open>make_runnable\<close>.\<close>

definition ticket :: "nat \<Rightarrow> ustmt codes \<times> uworld \<Rightarrow> bool" where
  "ticket t cw \<longleftrightarrow> (case cw of (code, w) \<Rightarrow> (\<exists>cv. t \<in> set (wait_list w cv)) \<or> (\<exists>u. Make_runnable t \<in> set (code u)))"

definition sleep_inv :: "ustmt codes \<times> uworld \<Rightarrow> bool" where
  "sleep_inv cw \<longleftrightarrow> (case cw of (code, w) \<Rightarrow> sync_inv cw \<and>
     (\<forall>t. wait_ok 0 (code t) \<and> (asleep w t \<longrightarrow> ticket t cw)
        \<or> \<not> asleep w t \<and> ticket t cw \<and> (wait_ok 1 (code t) \<or> wait_ok 2 (code t))))"

lemma ticket_step:
  assumes "code t = c # cs" "uexec t c w = (new, w')" "allowed c" "ticket u (code, w)"
  shows "ticket u (code(t := new @ cs), w') \<or> (c = Make_runnable u \<and> asleep w u)"
proof -
  consider cv where "u \<in> set (wait_list w cv)" | v where "Make_runnable u \<in> set (code v)" using assms(4) by (auto simp: ticket_def)
  then show ?thesis
  proof cases
    case 1
    have "u \<in> set (wait_list w' cv) \<or> Make_runnable u \<in> set new"
      using assms(2,3) 1 by (cases c) (auto simp: u_bodies split: if_splits list.splits)
    then show ?thesis by (auto simp: ticket_def)
  next
    case 2
    show ?thesis
    proof (cases "v = t \<and> c = Make_runnable u")
      case True
      then show ?thesis using assms(2) by (auto simp: ticket_def u_make_runnable_def split: if_splits)
    next
      case False
      then have "Make_runnable u \<in> set ((code(t := new @ cs)) v)" using 2 assms(1) by (auto split: if_splits)
      then show ?thesis unfolding ticket_def by blast
    qed
  qed
qed

lemma wait_ok_expand:
  assumes "uexec t c w = (new, w')" "allowed c" "wait_ok k (c # cs)"
  shows "wait_ok (if new = [] then phase k c else k) (new @ cs) \<or> wait_ok 0 (new @ cs)"
  using assms by (cases c) (auto simp: u_bodies phase_def split: if_splits list.splits)

lemma sleep_stmt:
  assumes "uexec t c w = (new, w')" "allowed c"
  shows "asleep w' = (case c of Deschedule \<Rightarrow> (asleep w)(t := True) | Make_runnable u \<Rightarrow> (asleep w)(u := False) | _ \<Rightarrow> asleep w)"
  using assms by (cases c) (auto simp: u_bodies fun_eq_iff split: if_splits list.splits)

lemma sleep_inv_step:
  assumes I: "sleep_inv cw"
  shows "sleep_inv (ustep t cw)"
proof -
  obtain code w where cw: "cw = (code, w)" by (cases cw)
  obtain code' w' where cw': "ustep t cw = (code', w')" by (cases "ustep t cw")
  have i: "sync_inv (code, w)" "\<And>u. wait_ok 0 (code u) \<and> (asleep w u \<longrightarrow> ticket u (code, w))
        \<or> \<not> asleep w u \<and> ticket u (code, w) \<and> (wait_ok 1 (code u) \<or> wait_ok 2 (code u))"
    using I by (auto simp: sleep_inv_def cw)
  have J: "sync_inv (code', w')" using statically_step[OF i(1), of uexec u_running t] spin_keeps cw cw' by metis
  from cw'[unfolded cw] show ?thesis unfolding cw'
  proof (cases rule: mstep_cases)
    case 1
    then show "sleep_inv (code', w')" using I cw by simp
  next
    case (2 c cs new)
    have al: "allowed c" using statically_head[OF i(1) 2(1)] by simp
    have awake: "\<not> asleep w t" using 2(2) by (simp add: u_running_def)
    note tk = ticket_step[of code t c cs w new w', OF 2(1,3) al, folded 2(4)] and sl = sleep_stmt[OF 2(3) al]
    have others: "wait_ok 0 (code' u) \<and> (asleep w' u \<longrightarrow> ticket u (code', w'))
        \<or> \<not> asleep w' u \<and> ticket u (code', w') \<and> (wait_ok 1 (code' u) \<or> wait_ok 2 (code' u))" if "u \<noteq> t" for u
    proof -
      have "asleep w' u \<Longrightarrow> asleep w u" using sl that by (cases c) (auto split: if_splits)
      moreover have "c = Make_runnable u \<Longrightarrow> \<not> asleep w' u" using sl by simp
      ultimately show ?thesis using i(2)[of u] tk[of u] 2(4) that by auto
    qed
    obtain k where k: "wait_ok k (c # cs)" "k = 0 \<or> k \<in> {1, 2} \<and> ticket t (code, w)" using i(2)[of t] 2(1) by auto
    have keep: "ticket t (code, w) \<Longrightarrow> ticket t (code', w')" using tk[of t] awake by blast
    define k' where "k' = (if new = [] then phase k c else k)"
    from wait_ok_expand[OF 2(3) al k(1)] have w: "wait_ok k' (code' t) \<or> wait_ok 0 (code' t)" using 2(4) by (simp add: k'_def)
    have self: "wait_ok 0 (code' t) \<and> (asleep w' t \<longrightarrow> ticket t (code', w'))
        \<or> \<not> asleep w' t \<and> ticket t (code', w') \<and> (wait_ok 1 (code' t) \<or> wait_ok 2 (code' t))"
    proof (cases "c = Deschedule")
      case True
      then have "k = 2" "k' = 0" using k(1) 2(3) by (auto simp: k'_def phase_def)
      then show ?thesis using w keep k(2) by auto
    next
      case False
      then have a: "\<not> asleep w' t" using sl awake by (cases c) auto
      have "k' = 0 \<or> k' \<in> {1, 2} \<and> ticket t (code', w')"
      proof (cases "\<exists>cv. c = Insert_waiter cv")
        case True
        then obtain cv where "c = Insert_waiter cv" by blast
        then have "t \<in> set (wait_list w' cv)" using 2(3) by auto
        then have "ticket t (code', w')" unfolding ticket_def by blast
        with k True show ?thesis by (auto simp: k'_def phase_def)
      next
        case False
        then show ?thesis using k keep by (cases c) (auto simp: k'_def phase_def)
      qed
      with a w show ?thesis by auto
    qed
    have "\<forall>u. wait_ok 0 (code' u) \<and> (asleep w' u \<longrightarrow> ticket u (code', w'))
        \<or> \<not> asleep w' u \<and> ticket u (code', w') \<and> (wait_ok 1 (code' u) \<or> wait_ok 2 (code' u))"
      using self others by metis
    then show "sleep_inv (code', w')" using J by (simp add: sleep_inv_def)
  qed
qed

section \<open>Properties\<close>

text \<open>C10: mutual exclusion of the library's mutexes. Finitely many threads run any programs that use mutexes, condition
  variables, semaphores and readers-writers locks in the documented way (every lock is given back, objects are set
  up before and not destroyed). Under every schedule at most one thread is inside the critical section of a mutex, and
  then its spin lock is taken.\<close>

theorem user_mutex_exclusion:
  assumes "start_ok T (code, w)" and "urun ts (code, w) = (code', w')"
    and "inside (Mutex_spin m) (code' t)" and "inside (Mutex_spin m) (code' u)"
  shows "t = u \<and> spin_state w' (Mutex_spin m) = 1"
proof -
  have fin: "finite T" using assms(1) by (simp add: start_ok_def)
  have i: "sp.inv (Mutex_spin m) T (code', w')" using run_inv[OF assms(1), of "Mutex_spin m" ts] assms(2) by simp
  have "t \<in> holders (spin_eff (Mutex_spin m)) T code'" using i assms(3) by (auto simp: holders_def inside_def sp.inv_def)
  then have "0 < card (holders (spin_eff (Mutex_spin m)) T code')" using fin by (auto simp: card_gt_0_iff holders_def)
  moreover have "spin_state w' (Mutex_spin m) \<in> {0, 1}" using i by (simp add: sp.inv_def statically_def sync_ok_def)
  ultimately have "spin_state w' (Mutex_spin m) = 1" using i by (auto simp: sp.inv_def)
  then show ?thesis using unique_inside[OF i fin assms(3,4)] by simp
qed

definition demo_uworld :: uworld where
  "demo_uworld = \<lparr>spin_state = (\<lambda>_. 0), mutex_status = (\<lambda>_. 0), cond_status = (\<lambda>_. 0), wait_list = (\<lambda>_. []),
     sem_count = (\<lambda>_. 1), readcnt = (\<lambda>_. 0), writecnt = (\<lambda>_. 0), asleep = (\<lambda>_. False), gone = (\<lambda>_. False)\<rparr>"

definition demo_two :: "ustmt list \<Rightarrow> ustmt codes" where
  "demo_two cs = (\<lambda>t. if t \<in> {1, 2} then cs else [])"

lemma demo_two_start:
  assumes "\<forall>c\<in>set cs. allowed c" "\<forall>sl. balanced (spin_eff sl) False cs"
  shows "start_ok {1, 2} (demo_two cs, demo_uworld)"
  using assms by (auto simp: start_ok_def demo_two_def demo_uworld_def statically_def sync_ok_def uconsts)

lemmas run_simps = mstep_def u_running_def u_bodies uconsts

theorem user_mutex_exclusion_witness:
  "\<exists>code' w'. urun [1, 1, 1, 2, 2] (demo_two [Mutex_lock (Mtx 0), Work 0, Mutex_unlock (Mtx 0)], demo_uworld) = (code', w')
     \<and> inside (Mutex_spin (Mtx 0)) (code' 1) \<and> \<not> inside (Mutex_spin (Mtx 0)) (code' 2) \<and> spin_state w' (Mutex_spin (Mtx 0)) = 1"
proof -
  let ?cw = "(demo_two [Mutex_lock (Mtx 0), Work 0, Mutex_unlock (Mtx 0)], demo_uworld)"
  obtain code' w' where r: "urun [1, 1, 1, 2, 2] ?cw = (code', w')" by (cases "urun [1, 1, 1, 2, 2] ?cw")
  have s: "start_ok {1, 2} ?cw" by (rule demo_two_start) (auto simp: hold_if_def)
  have "code' 1 = [Work 0, Mutex_unlock (Mtx 0)]" using r by (auto simp: run_simps demo_two_def demo_uworld_def)
  then have i: "inside (Mutex_spin (Mtx 0)) (code' 1)" by (simp add: inside_def)
  then show ?thesis using r user_mutex_exclusion[OF s r i] by (metis zero_neq_one_class.one_neq_zero one_eq_numeral_iff semiring_norm(85))
qed

text \<open>C11: the semaphore: a count that starts at \<open>n \<ge> 0\<close> never becomes negative, and together with the
  threads that have passed \<open>sem_wait\<close> and not yet \<open>sem_signal\<close> it is always \<open>n\<close>; so at most \<open>n\<close>
  threads are admitted at any time, under every schedule.\<close>

theorem semaphore_admits_at_most_n:
  assumes "start_ok T (code, w)" and "\<forall>t. seq_ok (Sem k) False (code t)" and "\<forall>t. balanced (token_eff (Sem k)) False (code t)"
    and "sem_count w (Sem k) = n" and "0 \<le> n" and "urun ts (code, w) = (code', w')"
  shows "0 \<le> sem_count w' (Sem k) \<and> sem_count w' (Sem k) + int (card {t \<in> T. admitted k (code' t)}) = n"
proof -
  have fin: "finite T" using assms(1) by (simp add: start_ok_def)
  have S: "sem_inv (Sem k) T (code, w)" using start_sem_inv[OF assms(1,2)] assms(4,5) by simp
  have "\<not> balanced (token_eff (Sem k)) True (code t)" for t
    using assms(3) balanced_unique[of "token_eff (Sem k)" "code t"] by blast
  then have "holders (token_eff (Sem k)) T code = {}" by (simp add: holders_def)
  then have "tk.inv k T n T (code, w)"
    using S assms by (auto simp: tk.inv_def all_balanced_def start_ok_def)
  from tk.inv_run[OF fin this, of ts] have "tk.inv k T n T (code', w')" by (simp add: assms(6))
  then show ?thesis by (auto simp: tk.inv_def sem_inv_def holders_def admitted_def)
qed

theorem semaphore_admits_at_most_n_witness:
  "\<exists>code' w'. urun [1, 1, 1, 1, 1, 1, 1] (demo_two [Sem_wait (Sem 0), Work 0, Sem_signal (Sem 0)], demo_uworld) = (code', w')
     \<and> sem_count w' (Sem 0) = 0 \<and> card {t \<in> {1, 2}. admitted 0 (code' t)} = 1"
proof -
  let ?cw = "(demo_two [Sem_wait (Sem 0), Work 0, Sem_signal (Sem 0)], demo_uworld)"
  obtain code' w' where r: "urun [1, 1, 1, 1, 1, 1, 1] ?cw = (code', w')" by (cases "urun [1, 1, 1, 1, 1, 1, 1] ?cw")
  have s: "start_ok {1, 2} ?cw" by (rule demo_two_start) (auto simp: free_if_def)
  have c: "sem_count w' (Sem 0) = 0" using r by (auto simp: run_simps demo_two_def demo_uworld_def)
  have "sem_count demo_uworld (Sem 0) = 1" by (simp add: demo_uworld_def)
  from semaphore_admits_at_most_n[OF s _ _ this _ r] c
  have "card {t \<in> {1, 2}. admitted 0 (code' t)} = 1" by (auto simp: demo_two_def)
  with r c show ?thesis by blast
qed

text \<open>C12: nobody sleeps forgotten: under every schedule, a thread that sleeps is on the wait list of a condition
  variable, or another thread has taken it off the list and will call \<open>make_runnable\<close> for it. (The window between
  unlocking the condition variable and \<open>deschedule\<close> is harmless because the waker repeats \<open>make_runnable\<close>
  until it succeeds.)\<close>

theorem no_forgotten_sleeper:
  assumes "statically sync_ok allowed (code, w)" and "\<forall>t. wait_ok 0 (code t) \<and> \<not> asleep w t"
    and "urun ts (code, w) = (code', w')" and "asleep w' t"
  shows "(\<exists>cv. t \<in> set (wait_list w' cv)) \<or> (\<exists>u. Make_runnable t \<in> set (code' u))"
proof -
  have "sleep_inv (code, w)" using assms(1,2) by (simp add: sleep_inv_def)
  then have "sleep_inv (urun ts (code, w))" by (rule mrun_invariant) (rule sleep_inv_step)
  then have "ticket t (code', w')" using assms(3,4) by (auto simp: sleep_inv_def)
  then show ?thesis by (simp add: ticket_def)
qed

theorem no_forgotten_sleeper_witness:
  "\<exists>code' w'. urun (replicate 18 1) ((\<lambda>_. [])(1 := [Cond_wait (Cnd 0) (Mtx 0)]), demo_uworld) = (code', w')
     \<and> asleep w' 1 \<and> ((\<exists>cv. 1 \<in> set (wait_list w' cv)) \<or> (\<exists>u. Make_runnable 1 \<in> set (code' u)))"
proof -
  let ?cw = "((\<lambda>_. [])(1 := [Cond_wait (Cnd 0) (Mtx 0)]), demo_uworld)"
  obtain code' w' where r: "urun (replicate 18 1) ?cw = (code', w')" by (cases "urun (replicate 18 1) ?cw")
  have "asleep w' 1" using r by (auto simp: run_simps demo_uworld_def numeral_eq_Suc)
  moreover have "statically sync_ok allowed ?cw" by (auto simp: statically_def sync_ok_def demo_uworld_def uconsts)
  moreover have "\<forall>t. wait_ok 0 ((fst ?cw) t) \<and> \<not> asleep demo_uworld t" by (auto simp: demo_uworld_def)
  ultimately show ?thesis using r no_forgotten_sleeper[OF _ _ r] by auto
qed
end
