(* ===== verification/User_Rwlock.thy ===== *)
theory User_Rwlock
  imports User_Locks "HOL-Library.Sublist"
begin

text \<open>
  The readers-writers lock of \<open>user/libthread/rwlock.c\<close> under writers. A writer takes the semaphore \<open>w\<close> and
  \<open>rwlock_unlock\<close> of a writer gives back only \<open>r\<close>, so \<open>w\<close> stays taken: of any number of writers at most
  one ever gets the lock. The proof counts the threads that have not passed \<open>sem_wait(&w)\<close> as holders of the
  right to do so.
\<close>

section \<open>Programs of writers\<close>

text \<open>Statements that do not belong to readers of the lock and do not signal \<open>w\<close>.\<close>

fun writer_stmt :: "nat \<Rightarrow> ustmt \<Rightarrow> bool" where
  "writer_stmt rw (Readcnt_add x d) = (x \<noteq> rw)"
| "writer_stmt rw (Readcnt_store x v) = (x \<noteq> rw)"
| "writer_stmt rw (First_reader x) = (x \<noteq> rw)"
| "writer_stmt rw (Last_reader x) = (x \<noteq> rw)"
| "writer_stmt rw (Rwlock_lock x reader) = (x = rw \<longrightarrow> \<not> reader)"
| "writer_stmt rw (Rwlock_downgrade x) = (x \<noteq> rw)"
| "writer_stmt rw (Sem_signal s) = (s \<noteq> W_sem rw)"
| "writer_stmt rw (Sem_inc s) = (s \<noteq> W_sem rw)"
| "writer_stmt rw (Sem_inc_store s v) = (s \<noteq> W_sem rw)"
| "writer_stmt rw c = allowed c"

definition no_readers :: "nat \<Rightarrow> uworld \<Rightarrow> bool" where
  "no_readers rw w \<longleftrightarrow> readcnt w rw = 0"

lemma writer_keeps:
  assumes "writer_stmt rw c" "no_readers rw w" "uexec t c w = (new, w')"
  shows "no_readers rw w' \<and> (\<forall>c\<in>set new. writer_stmt rw c)"
  using assms by (cases c) (auto simp: u_bodies no_readers_def uconsts split: if_splits list.splits)

definition writers_only :: "nat \<Rightarrow> nat set \<Rightarrow> ustmt codes \<times> uworld \<Rightarrow> bool" where
  "writers_only rw T cw \<longleftrightarrow> sem_inv (W_sem rw) T cw \<and> statically (no_readers rw) (writer_stmt rw) cw"

text \<open>Passing \<open>sem_wait(&w)\<close> uses up a thread's right to pass.\<close>

fun pass_eff :: "nat \<Rightarrow> ustmt \<Rightarrow> effect" where
  "pass_eff rw (Sem_wait s) = (if s = W_sem rw then Give else Nop)"
| "pass_eff rw (Sem_dec s) = (if s = W_sem rw then Give else Nop)"
| "pass_eff rw (Sem_dec_store s v) = (if s = W_sem rw then Give else Nop)"
| "pass_eff rw (Rwlock_lock x reader) = (if x = rw then Give else Nop)"
| "pass_eff rw c = Nop"

lemma pass_expand:
  assumes "uexec t c w = (new, w')" "writer_stmt rw c" "no_readers rw w" "\<And>v. c \<noteq> Sem_dec_store (W_sem rw) v" "allowed c"
    "balanced (pass_eff rw) h (c # cs)"
  shows "balanced (pass_eff rw) h (new @ cs)"
  using assms by (cases c) (auto simp: u_bodies no_readers_def split: if_splits list.splits)

interpretation wr: resource uexec u_running "writers_only rw T" "pass_eff rw" "\<lambda>w. - sem_count w (W_sem rw)" n for rw T n
proof unfold_locales
  show "writers_only rw T (ustep t cw)" if "writers_only rw T cw" for t cw
  proof -
    have "statically (no_readers rw) (writer_stmt rw) (ustep t cw)"
      using that unfolding writers_only_def by (intro statically_step writer_keeps) auto
    with that show ?thesis unfolding writers_only_def by (simp add: sem_inv_step)
  qed
next
  fix code w t c cs new w'
  assume J: "writers_only rw T (code, w)" "code t = c # cs" and st: "uexec t c w = (new, w')"
  have S: "sem_inv (W_sem rw) T (code, w)" and W: "statically (no_readers rw) (writer_stmt rw) (code, w)"
    using J(1) by (simp_all add: writers_only_def)
  note hd = sem_inv_head[OF S J(2)] and wd = statically_head[OF W J(2)]
  let ?e = "pass_eff rw" and ?a = "- sem_count w' (W_sem rw)" and ?b = "- sem_count w (W_sem rw)"
  show "(?a = ?b \<and> (\<forall>h. balanced ?e h (c # cs) \<longrightarrow> balanced ?e h (new @ cs)))
      \<or> (?e c = Take \<and> ?a = ?b - 1 \<and> (balanced ?e True cs \<longrightarrow> balanced ?e True (new @ cs)))
      \<or> (?e c = Give \<and> ?a = ?b + 1 \<and> (balanced ?e False cs \<longrightarrow> balanced ?e False (new @ cs)))"
  proof (cases "\<exists>v. c = Sem_dec_store (W_sem rw) v")
    case True
    then show ?thesis using st hd(2) by (auto simp: front_ok_def)
  next
    case False
    then have "?a = ?b" using sem_stmt_count[OF st hd(1), of "W_sem rw"] wd by (cases c) (auto split: if_splits)
    then show ?thesis using pass_expand[OF st _ _ _ hd(1)] wd False by blast
  qed
qed

section \<open>Property\<close>

text \<open>C13: any number of threads lock a fresh readers-writers lock for writing, do something, and unlock it. Under
  every schedule at most one of them ever gets past \<open>rwlock_lock\<close>: the unlock of the first writer does not give
  back the semaphore \<open>w\<close> that its lock took.\<close>

theorem rwlock_second_writer_never_enters:
  assumes "start_ok T (code, w)" and "\<forall>t\<in>T. code t = [Rwlock_lock rw False, Work 0, Rwlock_unlock rw]"
    and "readcnt w rw = 0" and "sem_count w (W_sem rw) = 1" and "urun ts (code, w) = (code', w')"
    and "t \<in> T" and "u \<in> T" and "suffix (code' t) [Work 0, Rwlock_unlock rw]" and "suffix (code' u) [Work 0, Rwlock_unlock rw]"
  shows "t = u"
proof -
  have fin: "finite T" and out: "\<And>t. t \<notin> T \<Longrightarrow> code t = []" using assms(1) by (auto simp: start_ok_def)
  have c: "code t = (if t \<in> T then [Rwlock_lock rw False, Work 0, Rwlock_unlock rw] else [])" for t using assms(2) out by auto
  have "sem_inv (W_sem rw) T (code, w)" by (rule start_sem_inv[OF assms(1)]) (simp_all add: c assms(4))
  moreover have "statically (no_readers rw) (writer_stmt rw) (code, w)" using assms(3) by (auto simp: statically_def no_readers_def c)
  moreover have "holders (pass_eff rw) T code = T" by (auto simp: holders_def c)
  ultimately have "wr.inv rw T (int (card T) - 1) T (code, w)"
    by (simp add: wr.inv_def writers_only_def all_balanced_def c assms(4))
  from wr.inv_run[OF fin this, of ts] have I: "wr.inv rw T (int (card T) - 1) T (code', w')" by (simp add: assms(5))
  then have "0 \<le> sem_count w' (W_sem rw)" by (simp add: wr.inv_def writers_only_def sem_inv_def)
  then have many: "card T \<le> card (holders (pass_eff rw) T code') + 1" using I by (simp add: wr.inv_def)
  have passed: "v \<notin> holders (pass_eff rw) T code'" if "suffix (code' v) [Work 0, Rwlock_unlock rw]" for v
  proof -
    from that consider "code' v = []" | "code' v = [Rwlock_unlock rw]" | "code' v = [Work 0, Rwlock_unlock rw]"
      by (auto simp: suffix_Cons)
    then show ?thesis by cases (simp_all add: holders_def)
  qed
  have "holders (pass_eff rw) T code' \<subseteq> T - {t, u}" using passed assms(8,9) by (auto simp: holders_def)
  then have "card (holders (pass_eff rw) T code') \<le> card (T - {t, u})" using fin by (simp add: card_mono)
  moreover have "t \<noteq> u \<Longrightarrow> card (T - {t, u}) = card T - 2 \<and> 2 \<le> card T"
    using fin assms(6,7) card_mono[of T "{t, u}"] by (simp add: card_Diff_subset)
  ultimately show ?thesis using many by linarith
qed
theorem rwlock_second_writer_never_enters_witness:
  "\<exists>code' w'. urun (replicate 46 1) (demo_two [Rwlock_lock 0 False, Work 0, Rwlock_unlock 0], demo_uworld) = (code', w')
     \<and> suffix (code' 1) [Work 0, Rwlock_unlock 0] \<and> \<not> suffix (code' 2) [Work 0, Rwlock_unlock 0]"
proof -
  let ?cw = "(demo_two [Rwlock_lock 0 False, Work 0, Rwlock_unlock 0], demo_uworld)"
  obtain code' w' where r: "urun (replicate 46 1) ?cw = (code', w')" by (cases "urun (replicate 46 1) ?cw")
  have s: "start_ok {1, 2} ?cw" by (rule demo_two_start) (auto simp: free_if_def)
  have c: "suffix (code' 1) [Work 0, Rwlock_unlock 0]" using r by (auto simp: run_simps demo_two_def demo_uworld_def numeral_eq_Suc suffix_def)
  have "readcnt demo_uworld 0 = 0" "sem_count demo_uworld (W_sem 0) = 1" by (simp_all add: demo_uworld_def)
  from rwlock_second_writer_never_enters[OF s _ this r _ _ c, of 2] have "\<not> suffix (code' 2) [Work 0, Rwlock_unlock 0]"
    by (auto simp: demo_two_def)
  with r c show ?thesis by blast
qed

end
