(* ===== verification/User_List.thy ===== *)
theory User_List
  imports Linked_List
begin

text \<open>
  The list of the user thread library, \<open>user/libthread/linked_list.c\<close>: allocated nodes that carry a thread number and a
  data pointer. Insertion and deletion are the same C text as in the kernel's list, so they are the operations of
  \<open>Linked_List\<close> on the user's store; \<open>list_search\<close>, \<open>list_delete_id\<close> and \<open>make_node\<close> are new.
  \<open>holds_entries\<close> relates a list to the sequence of its entries, which is how \<open>User_Sync\<close> and
  \<open>User_Threads\<close> see wait lists and the list of threads.
\<close>

record ('l, 'n, 'd) ustore =
  u_heap :: "('l, 'n) lheap"
  u_tid :: "'n \<Rightarrow> int"
  u_data :: "'n \<Rightarrow> 'd option"

definition u_list_init :: "('l, 'n, 'd) ustore \<Rightarrow> 'l option \<Rightarrow> ('l, 'n, 'd) ustore" where
  "u_list_init h l = h\<lparr>u_heap := list_init (u_heap h) l\<rparr>"

definition u_list_delete :: "('l, 'n, 'd) ustore \<Rightarrow> 'l option \<Rightarrow> 'n option \<Rightarrow> ('l, 'n, 'd) ustore \<times> 'n option" where
  "u_list_delete h l j = (case list_delete (u_heap h) l j of (g, r) \<Rightarrow> (h\<lparr>u_heap := g\<rparr>, r))"

text \<open>The search loop: \<open>None\<close> when it does not end.\<close>

definition u_list_search :: "('l, 'n, 'd) ustore \<Rightarrow> 'l option \<Rightarrow> int \<Rightarrow> 'n option option" where
  "u_list_search h lp tid =
     (case lp of None \<Rightarrow> Some None
      | Some l \<Rightarrow> find_node (\<lambda>n. u_tid h n = tid) (u_heap h) (head_l (headers (u_heap h) l)))"

definition u_list_delete_id :: "('l, 'n, 'd) ustore \<Rightarrow> 'l option \<Rightarrow> int \<Rightarrow> (('l, 'n, 'd) ustore \<times> 'n option) option" where
  "u_list_delete_id h l tid = map_option (u_list_delete h l) (u_list_search h l tid)"

definition u_list_delete_first :: "('l, 'n, 'd) ustore \<Rightarrow> 'l \<Rightarrow> ('l, 'n, 'd) ustore \<times> 'n option" where
  "u_list_delete_first h l = u_list_delete h (Some l) (head_l (headers (u_heap h) l))"

definition u_list_delete_last :: "('l, 'n, 'd) ustore \<Rightarrow> 'l \<Rightarrow> ('l, 'n, 'd) ustore \<times> 'n option" where
  "u_list_delete_last h l = u_list_delete h (Some l) (tail_l (headers (u_heap h) l))"

definition u_list_insert_first :: "('l, 'n, 'd) ustore \<Rightarrow> 'l option \<Rightarrow> 'n option \<Rightarrow> ('l, 'n, 'd) ustore" where
  "u_list_insert_first h l j = h\<lparr>u_heap := list_insert_first (u_heap h) l j\<rparr>"

definition u_list_insert_last :: "('l, 'n, 'd) ustore \<Rightarrow> 'l option \<Rightarrow> 'n option \<Rightarrow> ('l, 'n, 'd) ustore" where
  "u_list_insert_last h l j = h\<lparr>u_heap := list_insert_last (u_heap h) l j\<rparr>"

text \<open>\<open>make_node\<close> on the block \<open>n\<close> that \<open>malloc\<close> returned; a NULL block is written through.\<close>

definition u_make_node_at :: "('l, 'n, 'd) ustore \<Rightarrow> 'n option \<Rightarrow> 'd option \<Rightarrow> int \<Rightarrow> fault + ('l, 'n, 'd) ustore" where
  "u_make_node_at h p dat tid =
     (case p of
        None \<Rightarrow> Inl Null_Deref
      | Some n \<Rightarrow> Inr (h\<lparr>u_data := (u_data h)(n := dat), u_tid := (u_tid h)(n := tid),
          u_heap := (u_heap h)\<lparr>nodes := (nodes (u_heap h))(n := \<lparr>prev_n = None, next_n = None\<rparr>)\<rparr>\<rparr>))"

section \<open>Entries\<close>

definition holds_entries :: "('l, 'n, 'd) ustore \<Rightarrow> 'l \<Rightarrow> 'n list \<Rightarrow> (int \<times> 'd option) list \<Rightarrow> bool" where
  "holds_entries h l xs es \<longleftrightarrow> is_list (u_heap h) l xs \<and> es = map (\<lambda>n. (u_tid h n, u_data h n)) xs"

lemma find_remove1:
  "List.find P xs = Some x \<Longrightarrow> \<exists>as bs. xs = as @ x # bs \<and> P x \<and> (\<forall>a\<in>set as. \<not> P a)"
  by (induction xs) (auto split: if_splits, metis append_Nil empty_iff empty_set, metis append_Cons set_ConsD)

lemma search_entries:
  "holds_entries h l xs es \<Longrightarrow> u_list_search h (Some l) tid = Some (List.find (\<lambda>n. u_tid h n = tid) xs)"
  using is_list_find[of "u_heap h" l xs] by (simp add: u_list_search_def holds_entries_def list_begin_def)

lemma insert_entries:
  assumes "holds_entries h l xs es" "n \<notin> set xs" "u_make_node_at h (Some n) dat tid = Inr h'"
  shows "holds_entries (u_list_insert_last h' (Some l) (Some n)) l (xs @ [n]) (es @ [(tid, dat)])"
proof -
  have h': "h' = h\<lparr>u_data := (u_data h)(n := dat), u_tid := (u_tid h)(n := tid),
          u_heap := (u_heap h)\<lparr>nodes := (nodes (u_heap h))(n := \<lparr>prev_n = None, next_n = None\<rparr>)\<rparr>\<rparr>"
    using assms(3) by (simp add: u_make_node_at_def)
  have "is_list (u_heap h') l xs" using assms(1,2) by (simp add: holds_entries_def is_list_def h')
  from insert_last_refines[OF this assms(2)] show ?thesis
    using assms(1,2) by (auto simp: holds_entries_def u_list_insert_last_def h')
qed

lemma delete_entries:
  assumes "holds_entries h l (as @ n # bs) es"
  shows "snd (u_list_delete h (Some l) (Some n)) = Some n"
    "holds_entries (fst (u_list_delete h (Some l) (Some n))) l (as @ bs) (map (\<lambda>n. (u_tid h n, u_data h n)) (as @ bs))"
  using delete_refines_split[of "u_heap h" l as n bs] assms by (auto simp: holds_entries_def u_list_delete_def split: prod.splits)

section \<open>Properties\<close>

text \<open>C17: the list as a queue of entries: a node made for \<open>(tid, data)\<close> and inserted last goes to the end; then
  \<open>list_search\<close> finds the first entry with a given number and \<open>list_delete_id\<close> takes exactly that entry out, or
  returns NULL and changes nothing when there is none; \<open>list_delete_first\<close> takes the oldest entry.\<close>

theorem user_list_is_queue:
  assumes "holds_entries h l xs es" and "n \<notin> set xs" and "u_make_node_at h (Some n) dat tid = Inr h1"
    and "h2 = u_list_insert_last h1 (Some l) (Some n)" and "es2 = es @ [(tid, dat)]"
  shows "holds_entries h2 l (xs @ [n]) es2
    \<and> (if \<exists>e\<in>set es2. fst e = t
       then \<exists>as e bs j h3 ys. es2 = as @ e # bs \<and> fst e = t \<and> (\<forall>a\<in>set as. fst a \<noteq> t)
          \<and> u_list_delete_id h2 (Some l) t = Some (h3, Some j) \<and> u_tid h2 j = fst e \<and> u_data h2 j = snd e \<and> holds_entries h3 l ys (as @ bs)
       else u_list_delete_id h2 (Some l) t = Some (h2, None))
    \<and> (\<exists>j h3 ys. u_list_delete_first h2 l = (h3, Some j) \<and> (u_tid h2 j, u_data h2 j) = hd es2 \<and> holds_entries h3 l ys (tl es2))"
proof -
  let ?xs = "xs @ [n]" and ?e = "\<lambda>n. (u_tid h2 n, u_data h2 n)"
  have H: "holds_entries h2 l ?xs es2" using insert_entries[OF assms(1-3)] assms(4,5) by simp
  then have es2: "es2 = map ?e ?xs" and L: "is_list (u_heap h2) l ?xs" by (simp_all add: holds_entries_def)
  have del: "if \<exists>e\<in>set es2. fst e = t
       then \<exists>as e bs j h3 ys. es2 = as @ e # bs \<and> fst e = t \<and> (\<forall>a\<in>set as. fst a \<noteq> t)
          \<and> u_list_delete_id h2 (Some l) t = Some (h3, Some j) \<and> u_tid h2 j = fst e \<and> u_data h2 j = snd e \<and> holds_entries h3 l ys (as @ bs)
       else u_list_delete_id h2 (Some l) t = Some (h2, None)"
  proof (cases "List.find (\<lambda>n. u_tid h2 n = t) ?xs")
    case None
    then have "\<not> (\<exists>e\<in>set es2. fst e = t)" unfolding es2 by (auto simp: find_None_iff)
    then show ?thesis using None by (simp add: u_list_delete_id_def search_entries[OF H] u_list_delete_def list_delete_def)
  next
    case (Some j)
    then obtain as bs where s: "?xs = as @ j # bs" "u_tid h2 j = t" "\<forall>a\<in>set as. u_tid h2 a \<noteq> t"
      using find_remove1[OF Some] by auto
    have e: "es2 = map ?e as @ ?e j # map ?e bs" using es2 s(1) by simp
    obtain h3 where "u_list_delete h2 (Some l) (Some j) = (h3, Some j)" "holds_entries h3 l (as @ bs) (map ?e (as @ bs))"
      using delete_entries[of h2 l as j bs es2] H s(1) by (metis prod.collapse)
    then have "es2 = map ?e as @ ?e j # map ?e bs \<and> fst (?e j) = t \<and> (\<forall>a\<in>set (map ?e as). fst a \<noteq> t)
          \<and> u_list_delete_id h2 (Some l) t = Some (h3, Some j) \<and> u_tid h2 j = fst (?e j) \<and> u_data h2 j = snd (?e j)
          \<and> holds_entries h3 l (as @ bs) (map ?e as @ map ?e bs)"
      using e s Some by (simp add: u_list_delete_id_def search_entries[OF H])
    moreover have "\<exists>e\<in>set es2. fst e = t" using e s(2) by simp
    ultimately show ?thesis by (simp only: if_True) blast
  qed
  obtain j ys where s: "?xs = [] @ j # ys" by (cases ?xs) auto
  then have hd: "head_l (headers (u_heap h2) l) = Some j" using L by (simp add: is_list_def)
  obtain h3 where "u_list_delete h2 (Some l) (Some j) = (h3, Some j)" "holds_entries h3 l ys (map ?e ys)"
    using delete_entries[of h2 l "[]" j ys es2] H s by (metis append_Nil prod.collapse)
  then have "\<exists>j h3 ys. u_list_delete_first h2 l = (h3, Some j) \<and> (u_tid h2 j, u_data h2 j) = hd es2 \<and> holds_entries h3 l ys (tl es2)"
    using hd s es2 by (auto simp: u_list_delete_first_def)
  with H del show ?thesis by blast
qed

definition demo_store :: "(unit, nat, nat) ustore" where
  "demo_store = \<lparr>u_heap = empty_lheap, u_tid = (\<lambda>_. 0), u_data = (\<lambda>_. None)\<rparr>"

theorem user_list_is_queue_witness:
  "\<exists>h1 h2. u_make_node_at demo_store (Some 8) (Some 3) 7 = Inr h1 \<and> h2 = u_list_insert_last h1 (Some ()) (Some 8)
     \<and> holds_entries h2 () [8] [(7, Some 3)] \<and> u_list_delete_id h2 (Some ()) 5 = Some (h2, None)"
proof -
  obtain h1 where m: "u_make_node_at demo_store (Some 8) (Some 3) 7 = Inr h1" by (simp add: u_make_node_at_def)
  have "holds_entries demo_store () [] []" by (simp add: holds_entries_def demo_store_def)
  from user_list_is_queue[OF this _ m refl refl, of 5] m show ?thesis by auto
qed

end
