(* ===== verification/User_Threads.thy ===== *)
theory User_Threads
  imports User_Sync
begin

text \<open>
  Thread management of the user thread library, \<open>user/libthread/thread_mgmt.c\<close> with \<open>t_fork.S\<close> and
  \<open>malloc.c\<close>, and the growing stack of \<open>user/libautostack/autostack.c\<close>, as statements on top of those of
  \<open>User_Sync\<close>. A function that uses a result later is cut at that point, and the rest carries its local variables.

  A control block \<open>thread_t\<close> is named by its address \<open>p\<close>; its mutex and condition variable are \<open>T_mtx p\<close>
  and \<open>T_cnd p\<close>. \<open>thread_list\<close> is the sequence of the entries of the global list (\<open>User_List\<close> shows that
  the linked list is that). What the kernel and the allocator answer (\<open>new_pages\<close>, \<open>thread_fork\<close>, \<open>yield\<close>,
  \<open>_malloc\<close> and its relatives, the stack pointer) is taken in order from an arbitrary sequence \<open>answers\<close>. A thread that has not been
  created has \<open>Child\<close> as its code and does not run before it is started. A thread of the program is a function number,
  and \<open>program\<close> gives its statements.
\<close>

unbundle bit_operations_syntax

definition U_PAGE_SIZE :: u32 where "U_PAGE_SIZE = 4096"
definition TH_EXIT :: int where "TH_EXIT = -1"
definition TH_RUNNING :: int where "TH_RUNNING = 1"
definition EXCEP_STACK :: u32 where "EXCEP_STACK = 0x1EFFFFC"

lemmas tconsts = U_PAGE_SIZE_def TH_EXIT_def TH_RUNNING_def EXCEP_STACK_def

record thread_t =
  th_tid :: int
  th_base :: u32
  th_status :: int
  th_statusp :: u32
  th_joining :: int

text \<open>The fields of \<open>ureg_t\<close> that the handler reads.\<close>

record ureg_t =
  ur_cause :: u32
  ur_cr2 :: u32
  ur_esp :: u32
  ur_error_code :: u32

datatype tstmt =
    Sync ustmt
  | Thr_init u32 | Init_list | Lib_alloc | Init_parent u32 | Adjust u32 u32
  | Thr_create nat nat | Create_start nat nat | Create_probe u32 nat nat | Create_fork u32 nat nat | Create_swexn u32 int
  | Create_init u32 int | Insert_thread int nat
  | Child | Child_wait | Child_exit
  | Thr_join nat bool | Join_search nat bool | Join_claim nat nat bool | Join_wait nat | Join_read nat bool
  | Thr_reap nat | Remove_pages nat | Lib_free nat | Delete_thread nat
  | Thr_exit u32 | Exit_count u32 | Exit_reap | Exit_status nat | Exit_value nat u32
  | Thr_getid | Thr_yield nat | Yield_search nat | Yield_check "nat option" nat
  | Return int | Return_value u32 | Task_vanish int | Fault | Panic
  | Myhandler ureg_t | Grow_stack u32 | Install_autostack u32 u32 | Install_root u32 | Install_pages | Install_handler bool

record tworld =
  sync :: uworld
  thread_list :: "(int \<times> nat) list"
  thread :: "nat \<Rightarrow> thread_t"
  adjusted_size :: u32
  program_stack_low :: u32
  is_single_threaded :: bool
  global_root_tid :: int
  started :: "nat \<Rightarrow> bool"
  entry :: "nat \<Rightarrow> nat \<times> nat"
  program :: "nat \<Rightarrow> nat \<Rightarrow> tstmt list"
  answers :: "nat \<Rightarrow> int"
  calls :: nat
  malloced :: "nat \<Rightarrow> nat"
  returned :: "nat \<Rightarrow> int"
  value_of :: "nat \<Rightarrow> u32"
  joined_status :: "nat \<Rightarrow> u32"
  handler_stack :: "nat \<Rightarrow> u32"
  removed_pages :: "u32 list"
  freed :: "nat list"
  asked_pages :: "u32 list"
  task_gone :: bool

definition t_running :: "nat \<Rightarrow> tworld \<Rightarrow> bool" where
  "t_running t w \<longleftrightarrow> u_running t (sync w) \<and> started w t \<and> \<not> task_gone w"

definition next_answer :: "tworld \<Rightarrow> int" where "next_answer w = answers w (calls w)"
definition answered :: "tworld \<Rightarrow> tworld" where "answered w = w\<lparr>calls := calls w + 1\<rparr>"

text \<open>A call of \<open>new_pages\<close>; the addresses asked for are recorded, the last first.\<close>

definition ask_pages :: "u32 \<Rightarrow> tworld \<Rightarrow> tworld" where
  "ask_pages base w = (answered w)\<lparr>asked_pages := base # asked_pages w\<rparr>"

definition search_thread_by_id :: "(int \<times> nat) list \<Rightarrow> int \<Rightarrow> nat option" where
  "search_thread_by_id l tid = map_option snd (List.find (\<lambda>e. fst e = tid) l)"

fun remove_first :: "int \<Rightarrow> (int \<times> nat) list \<Rightarrow> (int \<times> nat) list" where
  "remove_first tid [] = []"
| "remove_first tid (e # es) = (if fst e = tid then es else e # remove_first tid es)"

definition set_thread :: "nat \<Rightarrow> (thread_t \<Rightarrow> thread_t) \<Rightarrow> tworld \<Rightarrow> tworld" where
  "set_thread p f w = w\<lparr>thread := (thread w)(p := f (thread w p))\<rparr>"

section \<open>The allocator\<close>

definition u_malloc_init :: "tstmt list" where "u_malloc_init = [Sync (Mutex_init Malloc_mtx)]"

definition u_thr_malloc :: "tstmt list" where
  "u_thr_malloc = [Sync (Mutex_lock Malloc_mtx), Lib_alloc, Sync (Mutex_unlock Malloc_mtx)]"

definition u_thr_calloc :: "tstmt list" where
  "u_thr_calloc = [Sync (Mutex_lock Malloc_mtx), Lib_alloc, Sync (Mutex_unlock Malloc_mtx)]"

definition u_thr_realloc :: "tstmt list" where
  "u_thr_realloc = [Sync (Mutex_lock Malloc_mtx), Lib_alloc, Sync (Mutex_unlock Malloc_mtx)]"

definition u_thr_free :: "nat \<Rightarrow> tstmt list" where
  "u_thr_free p = [Sync (Mutex_lock Malloc_mtx), Lib_free p, Sync (Mutex_unlock Malloc_mtx)]"

section \<open>Initialisation\<close>

definition u_thr_init :: "u32 \<Rightarrow> tstmt list" where
  "u_thr_init sz = [Sync (Mutex_init Create_mtx), Sync (Mutex_init List_mtx), Sync (Cond_init List_cnd)]
     @ u_malloc_init @ [Init_list] @ u_thr_malloc @ [Init_parent sz]"

text \<open>The block of the first thread keeps what the allocator left in it, but for \<open>status\<close>.\<close>

definition u_init_parent :: "nat \<Rightarrow> u32 \<Rightarrow> tworld \<Rightarrow> tstmt list \<times> tworld" where
  "u_init_parent t sz w =
     (let parent = malloced w t
      in if parent = 0 then ([Fault], w)
         else ([Sync Make_node, Insert_thread (int t) parent, Adjust 1 sz],
               set_thread parent (\<lambda>th. th\<lparr>th_status := TH_RUNNING\<rparr>) w))"

text \<open>One round of the loop that rounds the size up, then the page for the handler.\<close>

definition u_adjust :: "u32 \<Rightarrow> u32 \<Rightarrow> tworld \<Rightarrow> tstmt list \<times> tworld" where
  "u_adjust i sz w =
     (if sz \<le> U_PAGE_SIZE * i then ([Return 0], w\<lparr>adjusted_size := i * U_PAGE_SIZE + U_PAGE_SIZE\<rparr>)
      else ([Adjust (i + 1) sz], w))"

section \<open>Creation\<close>

definition u_thr_create :: "nat \<Rightarrow> nat \<Rightarrow> tworld \<Rightarrow> tstmt list \<times> tworld" where
  "u_thr_create func arg w = ([Sync (Mutex_lock Create_mtx), Create_start func arg], w\<lparr>is_single_threaded := False\<rparr>)"

definition u_create_start :: "nat \<Rightarrow> nat \<Rightarrow> tworld \<Rightarrow> tstmt list \<times> tworld" where
  "u_create_start func arg w =
     (if program_stack_low w \<noteq> 0 then ([Create_probe (program_stack_low w) func arg], w)
      else ([Create_probe (word_of_int (next_answer w)) func arg], answered w))"

definition u_create_probe :: "u32 \<Rightarrow> nat \<Rightarrow> nat \<Rightarrow> tworld \<Rightarrow> tstmt list \<times> tworld" where
  "u_create_probe base func arg w =
     (if next_answer w \<noteq> 0
      then ([Create_probe (if program_stack_low w = 0 then base - 1 else base - U_PAGE_SIZE) func arg], ask_pages base w)
      else ([Sync (Mutex_unlock Create_mtx), Create_fork base func arg],
            (ask_pages base w)\<lparr>program_stack_low := if program_stack_low w = 0 then base + adjusted_size w else program_stack_low w\<rparr>))"

text \<open>\<open>thread_fork\<close>: the new thread enters \<open>run_child(func, arg)\<close> on its own stack.\<close>

definition u_create_fork :: "u32 \<Rightarrow> nat \<Rightarrow> nat \<Rightarrow> tworld \<Rightarrow> tstmt list \<times> tworld" where
  "u_create_fork base func arg w =
     (let t_id = next_answer w
      in ([Create_swexn base t_id],
          if t_id > 0 then (answered w)\<lparr>started := (started w)(nat t_id := True), entry := (entry w)(nat t_id := (func, arg))\<rparr>
          else answered w))"

text \<open>\<open>swexn\<close> registers the handler of the thread that calls it.\<close>

definition u_create_swexn :: "nat \<Rightarrow> u32 \<Rightarrow> int \<Rightarrow> tworld \<Rightarrow> tstmt list \<times> tworld" where
  "u_create_swexn t base t_id w =
     (u_thr_malloc @ [Create_init base t_id], w\<lparr>handler_stack := (handler_stack w)(t := base + adjusted_size w + 4)\<rparr>)"

definition u_create_init :: "nat \<Rightarrow> u32 \<Rightarrow> int \<Rightarrow> tworld \<Rightarrow> tstmt list \<times> tworld" where
  "u_create_init t base t_id w =
     (let p = malloced w t
      in if p = 0 then ([Panic], w)
         else ([Sync (Mutex_init (T_mtx p)), Sync (Cond_init (T_cnd p)), Sync (Mutex_lock List_mtx), Sync Make_node,
                Insert_thread t_id p, Sync (Cond_signal List_cnd), Sync (Mutex_unlock List_mtx), Return (if t_id < 0 then -1 else t_id)],
               set_thread p (\<lambda>_. \<lparr>th_tid = t_id, th_base = base, th_status = TH_RUNNING, th_statusp = 0, th_joining = 0\<rparr>) w))"

definition u_run_child :: "nat \<Rightarrow> tworld \<Rightarrow> tstmt list" where
  "u_run_child t w =
     (case entry w t of (func, arg) \<Rightarrow>
        [Sync (Mutex_lock List_mtx), Child_wait, Sync (Mutex_unlock List_mtx)] @ program w func arg @ [Child_exit])"

definition u_child_wait :: "nat \<Rightarrow> tworld \<Rightarrow> tstmt list" where
  "u_child_wait t w =
     (if search_thread_by_id (thread_list w) (int t) = None then [Sync (Cond_wait List_cnd List_mtx), Child_wait] else [])"

section \<open>Join\<close>

definition u_thr_reap :: "nat \<Rightarrow> tstmt list" where
  "u_thr_reap p = [Sync (Mutex_destroy (T_mtx p)), Sync (Cond_destroy (T_cnd p)), Remove_pages p] @ u_thr_free p"

definition u_thr_join :: "nat \<Rightarrow> nat \<Rightarrow> bool \<Rightarrow> tstmt list" where
  "u_thr_join t tid statusp = (if t = tid then [Return (-1)] else [Sync (Mutex_lock List_mtx), Join_search tid statusp])"

definition u_join_search :: "nat \<Rightarrow> bool \<Rightarrow> tworld \<Rightarrow> tstmt list" where
  "u_join_search tid statusp w =
     Sync (Mutex_unlock List_mtx) #
       (case search_thread_by_id (thread_list w) (int tid) of
          None \<Rightarrow> [Return 0]
        | Some p \<Rightarrow> [Sync (Mutex_lock (T_mtx p)), Join_claim p tid statusp])"

definition u_join_claim :: "nat \<Rightarrow> nat \<Rightarrow> nat \<Rightarrow> bool \<Rightarrow> tworld \<Rightarrow> tstmt list \<times> tworld" where
  "u_join_claim t p tid statusp w =
     (if th_joining (thread w p) > 0 then ([Sync (Mutex_unlock (T_mtx p)), Return (-1)], w)
      else ([Join_wait p, Join_read p statusp, Sync (Mutex_unlock (T_mtx p)), Thr_reap p,
             Sync (Mutex_lock List_mtx), Delete_thread tid, Sync (Mutex_unlock List_mtx), Return 0],
            set_thread p (\<lambda>th. th\<lparr>th_joining := int t\<rparr>) w))"

definition u_join_wait :: "nat \<Rightarrow> tworld \<Rightarrow> tstmt list" where
  "u_join_wait p w = (if th_status (thread w p) \<noteq> TH_EXIT then [Sync (Cond_wait (T_cnd p) (T_mtx p)), Join_wait p] else [])"

definition u_join_read :: "nat \<Rightarrow> nat \<Rightarrow> bool \<Rightarrow> tworld \<Rightarrow> tworld" where
  "u_join_read t p statusp w =
     (if statusp then w\<lparr>joined_status := (joined_status w)(t := th_statusp (thread w p))\<rparr> else w)"

section \<open>Exit\<close>

definition u_thr_exit :: "u32 \<Rightarrow> tworld \<Rightarrow> tstmt list" where
  "u_thr_exit status w =
     (if is_single_threaded w then [Sync Vanish] else []) @ [Sync (Mutex_lock List_mtx), Exit_count status]"

definition live_count :: "tworld \<Rightarrow> nat" where
  "live_count w = length (filter (\<lambda>e. th_status (thread w (snd e)) = TH_RUNNING) (thread_list w))"

definition u_exit_count :: "nat \<Rightarrow> u32 \<Rightarrow> tworld \<Rightarrow> tstmt list" where
  "u_exit_count t status w =
     (if live_count w = 1
      then [Exit_reap, Sync (Mutex_unlock List_mtx), Sync (Mutex_destroy List_mtx), Sync (Cond_destroy List_cnd), Task_vanish 0]
      else []) @
     Sync (Mutex_unlock List_mtx) #
       (case search_thread_by_id (thread_list w) (int t) of
          None \<Rightarrow> [Fault]
        | Some p \<Rightarrow> [Sync (Mutex_lock (T_mtx p)), Exit_status p, Exit_value p status, Sync (Cond_signal (T_cnd p)),
                     Sync (Mutex_unlock (T_mtx p)), Sync Vanish])"

definition u_exit_reap :: "nat \<Rightarrow> tworld \<Rightarrow> tstmt list \<times> tworld" where
  "u_exit_reap t w =
     (case thread_list w of
        [] \<Rightarrow> ([], w)
      | (_, zombie) # rest \<Rightarrow>
          ((if th_tid (thread w zombie) = int t then [Sync (Mutex_destroy (T_mtx zombie)), Sync (Cond_destroy (T_cnd zombie))]
            else [Thr_reap zombie]) @ [Exit_reap], w\<lparr>thread_list := rest\<rparr>))"

section \<open>Yield\<close>

definition u_thr_yield :: "nat \<Rightarrow> tstmt list" where
  "u_thr_yield tid = [Sync (Mutex_lock List_mtx), Yield_search tid]"

definition u_yield_search :: "nat \<Rightarrow> tworld \<Rightarrow> tstmt list" where
  "u_yield_search tid w = [Sync (Mutex_unlock List_mtx), Yield_check (search_thread_by_id (thread_list w) (int tid)) tid]"

definition u_yield_check :: "nat option \<Rightarrow> tworld \<Rightarrow> tstmt list \<times> tworld" where
  "u_yield_check target w =
     (case target of
        None \<Rightarrow> ([Return (-1)], w)
      | Some p \<Rightarrow> if th_status (thread w p) = TH_EXIT then ([Return (-1)], w) else ([Return (next_answer w)], answered w))"

section \<open>The growing stack\<close>

definition myhandler_exits :: "bool \<Rightarrow> ureg_t \<Rightarrow> tstmt list" where
  "myhandler_exits single ureg =
     (let cr2 = ur_cr2 ureg
      in (if \<not> single then [Task_vanish (-1)] else [])
         @ (if ur_cause ureg \<noteq> 0x0E \<or> ur_error_code ureg AND 1 \<noteq> 0 then [Sync Vanish] else [])
         @ (if cr2 < EXCEP_STACK + U_PAGE_SIZE then [Sync Vanish] else [])
         @ (if cr2 < ur_esp ureg then [Sync Vanish] else []))"

definition u_myhandler :: "ureg_t \<Rightarrow> tworld \<Rightarrow> tstmt list" where
  "u_myhandler ureg w = myhandler_exits (is_single_threaded w) ureg @ [Grow_stack (ur_cr2 ureg AND NOT (U_PAGE_SIZE - 1))]"

definition u_grow_stack :: "nat \<Rightarrow> u32 \<Rightarrow> tworld \<Rightarrow> tstmt list \<times> tworld" where
  "u_grow_stack t aligned_addr w =
     ((if next_answer w < 0 then [Thr_exit (-1)] else []) @ [Install_handler False], ask_pages aligned_addr w)"

definition u_install_autostack :: "u32 \<Rightarrow> tstmt list" where
  "u_install_autostack stack_low = (if stack_low AND (U_PAGE_SIZE - 1) \<noteq> 0 then [Thr_exit (-1)] else []) @ [Install_root stack_low]"

definition u_install_root :: "nat \<Rightarrow> u32 \<Rightarrow> tworld \<Rightarrow> tstmt list \<times> tworld" where
  "u_install_root t stack_low w =
     ((if stack_low \<le> U_PAGE_SIZE \<or> stack_low AND (U_PAGE_SIZE - 1) \<noteq> 0 then [Thr_exit (-1)] else [])
      @ [Install_pages, Install_handler True],
      w\<lparr>global_root_tid := int t, is_single_threaded := True\<rparr>)"

text \<open>\<open>swexn\<close>; only the installation at program start looks at its result.\<close>

definition u_install_handler :: "nat \<Rightarrow> bool \<Rightarrow> tworld \<Rightarrow> tstmt list \<times> tworld" where
  "u_install_handler t check w =
     (if next_answer w < 0 then (if check then [Thr_exit (-1)] else [], answered w)
      else ([], (answered w)\<lparr>handler_stack := (handler_stack w)(t := EXCEP_STACK + 4)\<rparr>))"

section \<open>Running a statement\<close>

primrec texec :: "nat \<Rightarrow> tstmt \<Rightarrow> tworld \<Rightarrow> tstmt list \<times> tworld" where
  "texec t (Sync c) w = (case uexec t c (sync w) of (new, u) \<Rightarrow> (map Sync new, w\<lparr>sync := u\<rparr>))"
| "texec t (Thr_init sz) w = (u_thr_init sz, w)"
| "texec t Init_list w = ([], w\<lparr>thread_list := []\<rparr>)"
| "texec t Lib_alloc w = ([], (answered w)\<lparr>malloced := (malloced w)(t := nat (next_answer w))\<rparr>)"
| "texec t (Init_parent sz) w = u_init_parent t sz w"
| "texec t (Adjust i sz) w = u_adjust i sz w"
| "texec t (Thr_create func arg) w = u_thr_create func arg w"
| "texec t (Create_start func arg) w = u_create_start func arg w"
| "texec t (Create_probe base func arg) w = u_create_probe base func arg w"
| "texec t (Create_fork base func arg) w = u_create_fork base func arg w"
| "texec t (Create_swexn base t_id) w = u_create_swexn t base t_id w"
| "texec t (Create_init base t_id) w = u_create_init t base t_id w"
| "texec t (Insert_thread tid p) w = ([], w\<lparr>thread_list := thread_list w @ [(tid, p)]\<rparr>)"
| "texec t Child w = (u_run_child t w, w)"
| "texec t Child_wait w = (u_child_wait t w, w)"
| "texec t Child_exit w = ([Thr_exit (value_of w t)], w)"
| "texec t (Thr_join tid statusp) w = (u_thr_join t tid statusp, w)"
| "texec t (Join_search tid statusp) w = (u_join_search tid statusp w, w)"
| "texec t (Join_claim p tid statusp) w = u_join_claim t p tid statusp w"
| "texec t (Join_wait p) w = (u_join_wait p w, w)"
| "texec t (Join_read p statusp) w = ([], u_join_read t p statusp w)"
| "texec t (Thr_reap p) w = (u_thr_reap p, w)"
| "texec t (Remove_pages p) w = ([], w\<lparr>removed_pages := th_base (thread w p) # removed_pages w\<rparr>)"
| "texec t (Lib_free p) w = ([], w\<lparr>freed := p # freed w\<rparr>)"
| "texec t (Delete_thread tid) w = ([], w\<lparr>thread_list := remove_first (int tid) (thread_list w)\<rparr>)"
| "texec t (Thr_exit status) w = (u_thr_exit status w, w)"
| "texec t (Exit_count status) w = (u_exit_count t status w, w)"
| "texec t Exit_reap w = u_exit_reap t w"
| "texec t (Exit_status p) w = ([], set_thread p (\<lambda>th. th\<lparr>th_status := TH_EXIT\<rparr>) w)"
| "texec t (Exit_value p status) w = ([], set_thread p (\<lambda>th. th\<lparr>th_statusp := status\<rparr>) w)"
| "texec t Thr_getid w = ([Return (int t)], w)"
| "texec t (Thr_yield tid) w = (u_thr_yield tid, w)"
| "texec t (Yield_search tid) w = (u_yield_search tid w, w)"
| "texec t (Yield_check target tid) w = u_yield_check target w"
| "texec t (Return v) w = ([], w\<lparr>returned := (returned w)(t := v)\<rparr>)"
| "texec t (Return_value v) w = ([], w\<lparr>value_of := (value_of w)(t := v)\<rparr>)"
| "texec t (Task_vanish status) w = ([], w\<lparr>task_gone := True\<rparr>)"
| "texec t Fault w = ([], w\<lparr>task_gone := True\<rparr>)"
| "texec t Panic w = ([Panic], w)"
| "texec t (Myhandler ureg) w = (u_myhandler ureg w, w)"
| "texec t (Grow_stack addr) w = u_grow_stack t addr w"
| "texec t (Install_autostack high low) w = (u_install_autostack low, w)"
| "texec t (Install_root low) w = u_install_root t low w"
| "texec t Install_pages w = (if next_answer w < 0 then [Thr_exit (-1)] else [], ask_pages (EXCEP_STACK + 4 - U_PAGE_SIZE) w)"
| "texec t (Install_handler check) w = u_install_handler t check w"

abbreviation trun :: "nat list \<Rightarrow> tstmt codes \<times> tworld \<Rightarrow> tstmt codes \<times> tworld" where
  "trun \<equiv> mrun texec t_running"

end
