(* ===== verification/User_Calls.thy ===== *)
theory User_Calls
  imports User_Threads
begin

text \<open>
  The calls of the thread library as a caller sees them when no other thread is inside the library: the statements of one
  call are run to the end by \<open>solo\<close>, which is what any schedule does that runs the caller alone.
\<close>

section \<open>A thread running alone\<close>

fun solo :: "nat \<Rightarrow> nat \<Rightarrow> tstmt list \<times> tworld \<Rightarrow> tstmt list \<times> tworld" where
  "solo 0 t cw = cw"
| "solo (Suc n) t ([], w) = ([], w)"
| "solo (Suc n) t (c # cs, w) =
     (if t_running t w then (case texec t c w of (new, w') \<Rightarrow> solo n t (new @ cs, w')) else (c # cs, w))"

lemma solo_trun:
  assumes "solo n t (cs, w) = (cs', w')" "code t = cs @ rest"
  shows "\<exists>k. trun (replicate k t) (code, w) = (code(t := cs' @ rest), w')"
  using assms
proof (induction n t "(cs, w)" arbitrary: cs w code rule: solo.induct)
  case (1 t cs w)
  then show ?case by (intro exI[of _ 0]) auto
next
  case (2 n t w)
  then show ?case by (intro exI[of _ 0]) auto
next
  case (3 n t c cs w)
  show ?case
  proof (cases "t_running t w")
    case r: True
    obtain new w1 where x: "texec t c w = (new, w1)" by (cases "texec t c w")
    have "solo n t (new @ cs, w1) = (cs', w')" using 3(2) r x by simp
    from 3(1)[OF r x[symmetric] this, of "code(t := new @ cs @ rest)"] obtain k where
      "trun (replicate k t) (code(t := new @ cs @ rest), w1) = (code(t := cs' @ rest), w')" by auto
    moreover have "mstep texec t_running t (code, w) = (code(t := new @ cs @ rest), w1)"
      using r x 3(3) by (simp add: mstep_def)
    ultimately show ?thesis by (intro exI[of _ "Suc k"]) simp
  next
    case False
    then show ?thesis using 3(2,3) by (intro exI[of _ 0]) auto
  qed
qed

definition idle_locks :: "tworld \<Rightarrow> bool" where
  "idle_locks w \<longleftrightarrow> (\<forall>sl. spin_state (sync w) sl = 0) \<and> (\<forall>m. mutex_status (sync w) m = 0) \<and> (\<forall>cv. wait_list (sync w) cv = [])"

lemmas sync_bodies = u_spinlock_lock_def u_spinlock_unlock_def u_spinlock_destroy_def u_mutex_lock_def u_mutex_unlock_def
  u_mutex_destroy_def u_mutex_destroyed_def u_cond_destroy_def u_cond_signal_def u_delete_first_def u_make_node_def Let_def uconsts
lemmas thread_bodies = u_thr_join_def u_join_search_def u_join_claim_def u_join_wait_def u_join_read_def u_thr_reap_def u_thr_free_def
  set_thread_def
lemmas solo_simps = sync_bodies thread_bodies t_running_def u_running_def numeral_eq_Suc

lemma join_exited:
  assumes "t_running t w" "idle_locks w" "t \<noteq> tid" "search_thread_by_id (thread_list w) (int tid) = Some p"
    and "th_joining (thread w p) \<le> 0" and "th_status (thread w p) = TH_EXIT"
  shows "\<exists>w'. solo 50 t ([Thr_join tid statusp], w) = ([], w') \<and> returned w' t = 0 \<and> (statusp \<longrightarrow> joined_status w' t = th_statusp (thread w p))
     \<and> removed_pages w' = th_base (thread w p) # removed_pages w \<and> freed w' = p # freed w
     \<and> thread_list w' = remove_first (int tid) (thread_list w) \<and> mutex_status (sync w') (T_mtx p) = U_MUTEX_UNAVAILABLE"
  using assms by (simp add: solo_simps idle_locks_def)

lemma join_self: "t_running t w \<Longrightarrow> \<exists>w'. solo 50 t ([Thr_join t statusp], w) = ([], w') \<and> returned w' t = -1 \<and> thread_list w' = thread_list w"
  by (simp add: solo_simps)

lemma join_unknown:
  assumes "t_running t w" "idle_locks w" "t \<noteq> tid" "search_thread_by_id (thread_list w) (int tid) = None"
  shows "\<exists>w'. solo 50 t ([Thr_join tid statusp], w) = ([], w') \<and> returned w' t = 0 \<and> thread_list w' = thread_list w"
  using assms by (simp add: solo_simps idle_locks_def)

lemma join_taken:
  assumes "t_running t w" "idle_locks w" "t \<noteq> tid" "search_thread_by_id (thread_list w) (int tid) = Some p"
    and "th_joining (thread w p) > 0"
  shows "\<exists>w'. solo 50 t ([Thr_join tid statusp], w) = ([], w') \<and> returned w' t = -1 \<and> thread_list w' = thread_list w"
  using assms by (simp add: solo_simps idle_locks_def)

section \<open>Exit, before and after the join\<close>

lemmas exit_bodies = u_thr_exit_def u_exit_count_def u_cond_signal_def u_delete_first_def u_make_runnable_def u_cond_wait_def

lemma live_count_frame [simp]:
  "live_count (w\<lparr>sync := u\<rparr>) = live_count w" "live_count (w\<lparr>calls := k\<rparr>) = live_count w"
  "live_count (w\<lparr>sync := u, calls := k\<rparr>) = live_count w"
  by (simp_all add: live_count_def)

lemma live_count_joining:
  "live_count (w\<lparr>sync := u, thread := (thread w)(p := (thread w p)\<lparr>th_joining := x\<rparr>)\<rparr>) = live_count w"
  unfolding live_count_def by (rule arg_cong[where f = length], simp, rule filter_cong) auto

definition clean_sync :: "uworld \<Rightarrow> bool" where
  "clean_sync u \<longleftrightarrow> spin_state u = (\<lambda>_. 0) \<and> mutex_status u = (\<lambda>_. 0) \<and> wait_list u = (\<lambda>_. []) \<and> cond_status u = (\<lambda>_. 0)"

lemma upd_id [simp]: "(\<lambda>_. c)(x := c) = (\<lambda>_. c)" by auto

text \<open>Thread \<open>e\<close> exits while another thread is alive: its block says so, and it is gone.\<close>

lemma exit_alone:
  assumes "t_running e w" "clean_sync (sync w)" "\<not> is_single_threaded w" "live_count w \<noteq> 1"
    "search_thread_by_id (thread_list w) (int e) = Some p"
  shows "\<exists>w'. solo 50 e ([Thr_exit v], w) = ([], w') \<and> clean_sync (sync w') \<and> thread_list w' = thread_list w
     \<and> thread w' = (thread w)(p := (thread w p)\<lparr>th_status := TH_EXIT, th_statusp := v\<rparr>) \<and> started w' = started w \<and> task_gone w' = task_gone w
     \<and> asleep (sync w') = asleep (sync w) \<and> gone (sync w') = (gone (sync w))(e := True) \<and> removed_pages w' = removed_pages w \<and> freed w' = freed w"
  using assms by (simp add: solo_simps exit_bodies clean_sync_def)

text \<open>The joiner comes first and goes to sleep; the exiting thread wakes it.\<close>

definition join_rest :: "nat \<Rightarrow> nat \<Rightarrow> tstmt list" where
  "join_rest p e = [Sync (Mutex_lock (T_mtx p)), Join_wait p, Join_read p True, Sync (Mutex_unlock (T_mtx p)), Thr_reap p,
     Sync (Mutex_lock List_mtx), Delete_thread e, Sync (Mutex_unlock List_mtx), Return 0]"

lemma join_sleeps:
  assumes "t_running t w" "clean_sync (sync w)" "t \<noteq> e" "search_thread_by_id (thread_list w) (int e) = Some p"
    and "th_joining (thread w p) \<le> 0" and "th_status (thread w p) \<noteq> TH_EXIT"
  shows "solo 60 t ([Thr_join e True], w) = (join_rest p e, 
     w\<lparr>sync := (sync w)\<lparr>wait_list := (\<lambda>_. [])(T_cnd p := [t]), asleep := (asleep (sync w))(t := True), 
         spin_state := \<lambda>_. 0, mutex_status := \<lambda>_. 0\<rparr>, thread := (thread w)(p := (thread w p)\<lparr>th_joining := int t\<rparr>)\<rparr>)"
  using assms by (simp add: solo_simps exit_bodies clean_sync_def join_rest_def)

lemma exit_wakes:
  assumes "t_running e w" "spin_state (sync w) = (\<lambda>_. 0)" "mutex_status (sync w) = (\<lambda>_. 0)" "cond_status (sync w) = (\<lambda>_. 0)"
    "wait_list (sync w) = (\<lambda>_. [])(T_cnd p := [t])" "asleep (sync w) t" "\<not> is_single_threaded w" "live_count w \<noteq> 1"
    "search_thread_by_id (thread_list w) (int e) = Some p"
  shows "solo 60 e ([Thr_exit v], w) = ([],
     w\<lparr>sync := (sync w)\<lparr>wait_list := \<lambda>_. [], asleep := (asleep (sync w))(t := False), 
         spin_state := \<lambda>_. 0, mutex_status := \<lambda>_. 0, gone := (gone (sync w))(e := True)\<rparr>,
       thread := (thread w)(p := (thread w p)\<lparr>th_status := TH_EXIT, th_statusp := v\<rparr>)\<rparr>)"
  using assms by (simp add: solo_simps exit_bodies)

lemma join_finishes:
  assumes "t_running t w" "clean_sync (sync w)" "th_status (thread w p) = TH_EXIT"
  shows "\<exists>w'. solo 60 t (join_rest p e, w) = ([], w') \<and> returned w' t = 0 \<and> joined_status w' t = th_statusp (thread w p)
     \<and> thread_list w' = remove_first (int e) (thread_list w)"
  using assms by (simp add: solo_simps exit_bodies clean_sync_def join_rest_def)

section \<open>The handler of the growing stack\<close>

lemmas stack_bodies = u_myhandler_def myhandler_exits_def u_grow_stack_def u_install_handler_def next_answer_def answered_def

lemma page_of: "4096 dvd unat (x AND NOT (U_PAGE_SIZE - 1)) \<and> unat (x AND NOT (U_PAGE_SIZE - 1)) \<le> unat x
    \<and> unat x < unat (x AND NOT (U_PAGE_SIZE - 1)) + 4096"
proof -
  have m: "(U_PAGE_SIZE - 1 :: u32) = mask 12" by (simp add: mask_eq_exp_minus_1 U_PAGE_SIZE_def)
  have "unat x mod 4096 < 4096" "unat x mod 4096 \<le> unat x" by simp_all
  then show ?thesis unfolding m by (simp add: unat_clear_low dvd_eq_mod_eq_0 mod_mult_self2_is_0 minus_mod_eq_mult_div)
qed

section \<open>Properties\<close>

text \<open>C15: \<open>thr_join\<close>, called while no other thread is inside the library: joining oneself is refused with -1; an
  unknown thread counts as joined; a thread that somebody joins already is refused with -1; and for a thread that has
  exited, the caller gets 0 and the exit status, and the thread is reaped: its stack pages and its control block are
  given back, its mutex is unusable, and its entry is off the list. In each case the call comes to an end.\<close>

theorem thr_join_correct:
  assumes "t_running t w" and "idle_locks w" and "code t = Thr_join tid statusp # cs"
    and "found = search_thread_by_id (thread_list w) (int tid)"
    and "case found of None \<Rightarrow> True | Some p \<Rightarrow> t \<noteq> tid \<longrightarrow> th_joining (thread w p) \<le> 0 \<longrightarrow> th_status (thread w p) = TH_EXIT"
  shows "\<exists>n w'. trun (replicate n t) (code, w) = (code(t := cs), w')
    \<and> (if t = tid then returned w' t = -1 \<and> thread_list w' = thread_list w
       else case found of
          None \<Rightarrow> returned w' t = 0 \<and> thread_list w' = thread_list w
        | Some p \<Rightarrow>
            if th_joining (thread w p) > 0 then returned w' t = -1 \<and> thread_list w' = thread_list w
            else returned w' t = 0 \<and> (statusp \<longrightarrow> joined_status w' t = th_statusp (thread w p))
               \<and> removed_pages w' = th_base (thread w p) # removed_pages w \<and> freed w' = p # freed w
               \<and> thread_list w' = remove_first (int tid) (thread_list w)
               \<and> mutex_status (sync w') (T_mtx p) = U_MUTEX_UNAVAILABLE)" (is "\<exists>n w'. ?run n w' \<and> ?Q w'")
proof -
  have "\<exists>w'. solo 50 t ([Thr_join tid statusp], w) = ([], w') \<and> ?Q w'"
  proof (cases "t = tid")
    case True
    then show ?thesis using join_self[OF assms(1)] by simp
  next
    case ne: False
    show ?thesis
    proof (cases found)
      case None
      then show ?thesis using ne join_unknown[OF assms(1,2) ne] assms(4) by simp
    next
      case (Some p)
      then have f: "search_thread_by_id (thread_list w) (int tid) = Some p" using assms(4) by simp
      show ?thesis
      proof (cases "th_joining (thread w p) > 0")
        case True
        then show ?thesis using join_taken[OF assms(1,2) ne f] ne Some by simp
      next
        case False
        then have "th_joining (thread w p) \<le> 0" "th_status (thread w p) = TH_EXIT" using assms(5) Some ne by auto
        from join_exited[OF assms(1,2) ne f this, of statusp] show ?thesis using False ne Some by (simp only: if_False option.case)
      qed
    qed
  qed
  then obtain w' where s: "solo 50 t ([Thr_join tid statusp], w) = ([], w')" and q: "?Q w'" by blast
  have "code t = [Thr_join tid statusp] @ cs" using assms(3) by simp
  from solo_trun[of 50 t "[Thr_join tid statusp]" w "[]" w' code cs, OF s this]
  obtain k where "trun (replicate k t) (code, w) = (code(t := cs), w')" by auto
  with q show ?thesis by blast
qed

definition demo_tworld :: tworld where
  "demo_tworld = \<lparr>sync = \<lparr>spin_state = (\<lambda>_. 0), mutex_status = (\<lambda>_. 0), cond_status = (\<lambda>_. 0), wait_list = (\<lambda>_. []),
     sem_count = (\<lambda>_. 1), readcnt = (\<lambda>_. 0), writecnt = (\<lambda>_. 0), asleep = (\<lambda>_. False), gone = (\<lambda>_. False)\<rparr>,
     thread_list = [(1, 100), (2, 200)],
     thread = (\<lambda>p. \<lparr>th_tid = (if p = 100 then 1 else 2), th_base = 0x2000000, th_status = TH_RUNNING, th_statusp = 0, th_joining = 0\<rparr>),
     adjusted_size = 0x2000, program_stack_low = 0x3000000, is_single_threaded = False, global_root_tid = 1,
     started = (\<lambda>_. True), entry = (\<lambda>_. (0, 0)), program = (\<lambda>_ _. []), answers = (\<lambda>_. 0), calls = 0, malloced = (\<lambda>_. 0),
     returned = (\<lambda>_. 0), value_of = (\<lambda>_. 0), joined_status = (\<lambda>_. 0), handler_stack = (\<lambda>_. 0), removed_pages = [], freed = [], asked_pages = [],
     task_gone = False\<rparr>"

lemma demo_tworld_ok: "t_running t demo_tworld" "idle_locks demo_tworld" "clean_sync (sync demo_tworld)"
  by (simp_all add: demo_tworld_def t_running_def u_running_def idle_locks_def clean_sync_def)

theorem thr_join_correct_witness:
  "\<exists>n w'. trun (replicate n 1) ((\<lambda>_. [])(1 := [Thr_join 5 True]), demo_tworld) = ((\<lambda>_. []), w') \<and> returned w' 1 = 0"
proof -
  have f: "None = search_thread_by_id (thread_list demo_tworld) (int 5)" by (simp add: demo_tworld_def search_thread_by_id_def)
  from thr_join_correct[OF demo_tworld_ok(1,2) _ f, of "(\<lambda>_. [])(1 := [Thr_join 5 True])" 1 True "[]"]
  show ?thesis by (auto simp: fun_upd_idem)
qed

text \<open>C14: the status that a thread passes to \<open>thr_exit\<close> is what \<open>thr_join\<close> returns for it, in either order: when
  the thread exits first, and when the joiner comes first, sleeps on the thread's condition variable, and is woken by the
  exit (another thread being alive, so that the exit is not the end of the task).\<close>

theorem exit_status_reaches_joiner:
  assumes "t_running t w" and "t_running e w" and "clean_sync (sync w)" and "t \<noteq> e" and "\<not> is_single_threaded w"
    and "live_count w \<noteq> 1" and "search_thread_by_id (thread_list w) (int e) = Some p"
    and "th_joining (thread w p) \<le> 0" and "th_status (thread w p) = TH_RUNNING"
    and "code t = [Thr_join e True]" and "code e = [Thr_exit v]"
  shows "(\<exists>a b w'. trun (replicate a e @ replicate b t) (code, w) = (code(e := [], t := []), w')
            \<and> returned w' t = 0 \<and> joined_status w' t = v \<and> thread_list w' = remove_first (int e) (thread_list w))
    \<and> (\<exists>a b c cs1 w1 w'. trun (replicate a t) (code, w) = (code(t := cs1), w1) \<and> asleep (sync w1) t
            \<and> trun (replicate b e @ replicate c t) (code(t := cs1), w1) = (code(t := [], e := []), w')
            \<and> returned w' t = 0 \<and> joined_status w' t = v \<and> thread_list w' = remove_first (int e) (thread_list w))"
proof
  obtain w1 where x: "solo 50 e ([Thr_exit v], w) = ([], w1)" "clean_sync (sync w1)" "thread_list w1 = thread_list w"
     "thread w1 = (thread w)(p := (thread w p)\<lparr>th_status := TH_EXIT, th_statusp := v\<rparr>)" "t_running t w1"
    using exit_alone[OF assms(2,3,5-7), of v] assms(1,4) by (auto simp: t_running_def u_running_def)
  have i1: "idle_locks w1" using x(2) by (simp add: idle_locks_def clean_sync_def)
  obtain w2 where j: "solo 50 t ([Thr_join e True], w1) = ([], w2)" "returned w2 t = 0" "joined_status w2 t = v"
    "thread_list w2 = remove_first (int e) (thread_list w)"
    using join_exited[OF x(5) i1 assms(4), of p True] x(3,4) assms(7,8) by auto
  obtain a where a: "trun (replicate a e) (code, w) = (code(e := []), w1)"
    using solo_trun[OF x(1), of code "[]"] assms(11) by auto
  obtain b where b: "trun (replicate b t) (code(e := []), w1) = (code(e := [], t := []), w2)"
    using solo_trun[OF j(1), of "code(e := [])" "[]"] assms(4,10) by auto
  have "trun (replicate a e @ replicate b t) (code, w) = (code(e := [], t := []), w2)" by (simp add: mrun_append a b)
  with j(2-4) show "\<exists>a b w'. trun (replicate a e @ replicate b t) (code, w) = (code(e := [], t := []), w')
            \<and> returned w' t = 0 \<and> joined_status w' t = v \<and> thread_list w' = remove_first (int e) (thread_list w)" by blast
next
  let ?w1 = "w\<lparr>sync := (sync w)\<lparr>wait_list := (\<lambda>_. [])(T_cnd p := [t]), asleep := (asleep (sync w))(t := True), 
         spin_state := \<lambda>_. 0, mutex_status := \<lambda>_. 0\<rparr>, thread := (thread w)(p := (thread w p)\<lparr>th_joining := int t\<rparr>)\<rparr>"
  have "th_status (thread w p) \<noteq> TH_EXIT" using assms(9) by (simp add: tconsts)
  note s1 = join_sleeps[OF assms(1,3,4,7,8) this]
  obtain a where a: "trun (replicate a t) (code, w) = (code(t := join_rest p e), ?w1)"
    using solo_trun[OF s1, of code "[]"] assms(10) by auto
  have r1: "t_running e ?w1" using assms(2,4) by (simp add: t_running_def u_running_def)
  obtain w2 where s2: "solo 60 e ([Thr_exit v], ?w1) = ([], w2)" "clean_sync (sync w2)" "thread_list w2 = thread_list w"
    "th_status (thread w2 p) = TH_EXIT" "th_statusp (thread w2 p) = v" "t_running t w2"
    using exit_wakes[OF r1, of p t v] assms by (auto simp: live_count_joining clean_sync_def t_running_def u_running_def)
  obtain w3 where s3: "solo 60 t (join_rest p e, w2) = ([], w3)" "returned w3 t = 0" "joined_status w3 t = v"
    "thread_list w3 = remove_first (int e) (thread_list w)" using join_finishes[OF s2(6,2,4), of e] s2(3,5) by auto
  obtain b where b: "trun (replicate b e) (code(t := join_rest p e), ?w1) = (code(t := join_rest p e, e := []), w2)"
    using solo_trun[OF s2(1), of "code(t := join_rest p e)" "[]"] assms(4,11) by auto
  obtain c where c: "trun (replicate c t) (code(t := join_rest p e, e := []), w2) = (code(t := [], e := []), w3)"
    using solo_trun[OF s3(1), of "code(t := join_rest p e, e := [])" "[]"] assms(4) by (auto simp: fun_upd_twist)
  have "trun (replicate b e @ replicate c t) (code(t := join_rest p e), ?w1) = (code(t := [], e := []), w3)"
    by (simp add: mrun_append b c)
  with a s3 show "\<exists>a b c cs1 w1 w'. trun (replicate a t) (code, w) = (code(t := cs1), w1) \<and> asleep (sync w1) t
            \<and> trun (replicate b e @ replicate c t) (code(t := cs1), w1) = (code(t := [], e := []), w')
            \<and> returned w' t = 0 \<and> joined_status w' t = v \<and> thread_list w' = remove_first (int e) (thread_list w)"
    by (intro exI[of _ a] exI[of _ b] exI[of _ c] exI[of _ "join_rest p e"] exI[of _ ?w1] exI[of _ w3]) simp
qed

theorem exit_status_reaches_joiner_witness:
  "\<exists>a b w'. trun (replicate a 2 @ replicate b 1) ((\<lambda>_. [])(1 := [Thr_join 2 True], 2 := [Thr_exit 77]), demo_tworld) = (\<lambda>_. [], w')
     \<and> returned w' 1 = 0 \<and> joined_status w' 1 = 77"
proof -
  have "live_count demo_tworld \<noteq> 1" "search_thread_by_id (thread_list demo_tworld) (int 2) = Some 200"
    by (simp_all add: demo_tworld_def live_count_def search_thread_by_id_def)
  from exit_status_reaches_joiner[OF demo_tworld_ok(1,1,3) _ _ this, of 1 "(\<lambda>_. [])(1 := [Thr_join 2 True], 2 := [Thr_exit 77])" 77]
  show ?thesis by (auto simp: demo_tworld_def fun_upd_idem fun_upd_twist)
qed


text \<open>C16: the handler of the growing stack, in each of its cases: in a program with several threads it ends the task; for
  another exception than a page fault, for a fault on a present page, for an address below the exception stack and for an
  address below the stack pointer it ends the thread, asking for no page; otherwise it asks the kernel for exactly the page
  of the faulting address, by the page's aligned start, and, when that succeeds, installs itself again.\<close>

theorem myhandler_correct:
  assumes "t_running t w" and "code t = Myhandler r # cs"
    and "bad \<longleftrightarrow> ur_cause r \<noteq> 0x0E \<or> ur_error_code r AND 1 \<noteq> 0 \<or> ur_cr2 r < EXCEP_STACK + U_PAGE_SIZE \<or> ur_cr2 r < ur_esp r"
    and "\<not> bad \<longrightarrow> 0 \<le> answers w (calls w) \<and> 0 \<le> answers w (calls w + 1)"
  shows "\<exists>n cs' w'. trun (replicate n t) (code, w) = (code(t := cs'), w') \<and>
    (if \<not> is_single_threaded w then task_gone w' \<and> asked_pages w' = asked_pages w
     else if bad then gone (sync w') t \<and> asked_pages w' = asked_pages w
     else cs' = cs \<and> \<not> gone (sync w') t
       \<and> (\<exists>page. asked_pages w' = page # asked_pages w \<and> 4096 dvd unat page \<and> unat page \<le> unat (ur_cr2 r) \<and> unat (ur_cr2 r) < unat page + 4096)
       \<and> handler_stack w' t = EXCEP_STACK + 4)"
proof -
  have c: "code t = [Myhandler r] @ cs" using assms(2) by simp
  note run = assms(1)[unfolded t_running_def u_running_def]
  note simps = stack_bodies Let_def ask_pages_def t_running_def u_running_def numeral_eq_Suc run
  consider (multi) "\<not> is_single_threaded w" | (bad) "is_single_threaded w" bad | (grow) "is_single_threaded w" "\<not> bad" by blast
  then show ?thesis
  proof cases
    case multi
    obtain cs' w' where s: "solo 2 t ([Myhandler r], w) = (cs', w')" "task_gone w'" "asked_pages w' = asked_pages w"
      using multi by (simp add: simps)
    show ?thesis using solo_trun[OF s(1), of code cs] c s(2,3) multi by auto
  next
    case bad
    obtain cs' w' where s: "solo 2 t ([Myhandler r], w) = (cs', w')" "gone (sync w') t" "asked_pages w' = asked_pages w"
    proof -
      obtain xs where x: "myhandler_exits True r = Sync Vanish # xs" 
        using bad assms(3) by (cases "ur_cause r = 0x0E"; cases "ur_error_code r AND 1 = 0"; cases "ur_cr2 r < EXCEP_STACK + U_PAGE_SIZE")
          (auto simp: myhandler_exits_def Let_def)
      show ?thesis using that bad by (simp add: u_myhandler_def x t_running_def u_running_def numeral_eq_Suc run)
    qed
    show ?thesis using solo_trun[OF s(1), of code cs] c s(2,3) bad by auto
  next
    case grow
    obtain w' where s: "solo 3 t ([Myhandler r], w) = ([], w')" "\<not> gone (sync w') t"
      "asked_pages w' = (ur_cr2 r AND NOT (U_PAGE_SIZE - 1)) # asked_pages w" "handler_stack w' t = EXCEP_STACK + 4"
      using grow assms(3,4) by (auto simp: simps not_less)
    show ?thesis using solo_trun[OF s(1), of code cs] c s(2-4) grow page_of[of "ur_cr2 r"] by auto
  qed
qed

theorem myhandler_correct_witness:
  "\<exists>n w'. trun (replicate n 1) ((\<lambda>_. [])(1 := [Myhandler \<lparr>ur_cause = 0x0E, ur_cr2 = 0xfffeffff, ur_esp = 0xfffefff0, ur_error_code = 6\<rparr>]),
       demo_tworld\<lparr>is_single_threaded := True\<rparr>) = (\<lambda>_. [], w')
     \<and> \<not> gone (sync w') 1 \<and> asked_pages w' = [0xfffef000] \<and> handler_stack w' 1 = EXCEP_STACK + 4"
proof -
  let ?r = "\<lparr>ur_cause = 0x0E, ur_cr2 = 0xfffeffff, ur_esp = 0xfffefff0, ur_error_code = 6\<rparr>" and ?w = "demo_tworld\<lparr>is_single_threaded := True\<rparr>"
  have r: "t_running 1 ?w" using demo_tworld_ok(1)[of 1] by (simp add: t_running_def)
  have b: "False \<longleftrightarrow> ur_cause ?r \<noteq> 0x0E \<or> ur_error_code ?r AND 1 \<noteq> 0 \<or> ur_cr2 ?r < EXCEP_STACK + U_PAGE_SIZE \<or> ur_cr2 ?r < ur_esp ?r"
    by (simp add: tconsts)
  have a: "\<not> False \<longrightarrow> 0 \<le> answers ?w (calls ?w) \<and> 0 \<le> answers ?w (calls ?w + 1)" by (simp add: demo_tworld_def)
  have s: "is_single_threaded ?w" by simp
  have page: "page = 0xfffef000" if "4096 dvd unat page" "unat page \<le> 0xfffeffff" "0xfffeffff < unat page + 4096" for page :: u32
  proof -
    from that obtain k where k: "unat page = 4096 * k" by (auto elim: dvdE)
    with that(2,3) have "unat page = unat (0xfffef000 :: u32)" by simp
    then show ?thesis by (rule unsigned_word_eqI)
  qed
  have z: "asked_pages ?w = []" "unat (ur_cr2 ?r) = 0xfffeffff" by (simp_all add: demo_tworld_def)
  from myhandler_correct[OF r _ b a, of "(\<lambda>_. [])(1 := [Myhandler ?r])" "[]", unfolded z]
  show ?thesis unfolding if_not_P[OF not_not[THEN iffD2, OF s]] by (auto simp: fun_upd_idem dest!: page)
qed

text \<open>A fault of \<open>push\<close> is below the stack pointer, so it ends the thread.\<close>

lemma push_fault_refused:
  assumes "t_running t w" "is_single_threaded w" "ur_cr2 r = ur_esp r - 4" "4 \<le> ur_esp r"
  shows "gone (sync (snd (solo 2 t ([Myhandler r], w)))) t"
proof -
  have "ur_cr2 r < ur_esp r" using assms(3,4) by (simp add: word_less_nat_alt unat_sub word_le_nat_alt)
  then show ?thesis using assms(1,2) by (auto simp: stack_bodies t_running_def u_running_def numeral_eq_Suc)
qed

end
