(* ===== verification/Long_Divide.thy ===== *)
theory Long_Divide
  imports Prelude
begin

text \<open>
  Division of 64-bit numbers for a processor with 32-bit registers, \<open>410kern/misc/gccisms.c\<close>: \<open>__qdivrem\<close>
  works on digits of 16 bits, by short division when the divisor has one digit and by Knuth's Algorithm D
  otherwise. The arrays of five digits are functions of the index, \<open>uo\<close>, \<open>vo\<close> and \<open>qo\<close> are the offsets to
  which the code has moved its pointers, and \<open>junk\<close> is what an uninitialised array holds. Arithmetic on digits is that
  of 32-bit words and wraps as in the code. A division by zero traps, like a loop that does not end: the result is then \<open>None\<close>.
\<close>

unbundle bit_operations_syntax

type_synonym digits = "nat \<Rightarrow> u32"

definition HALF_BITS :: nat where "HALF_BITS = 16"
definition BASE :: u32 where "BASE = 65536"
definition HHALF :: "u32 \<Rightarrow> u32" where "HHALF x = drop_bit HALF_BITS x"
definition LHALF :: "u32 \<Rightarrow> u32" where "LHALF x = x AND (BASE - 1)"
definition COMBINE :: "u32 \<Rightarrow> u32 \<Rightarrow> u32" where "COMBINE a b = push_bit HALF_BITS a OR b"

text \<open>The two halves of the union \<open>uu\<close>.\<close>

definition ul_high :: "u64 \<Rightarrow> u32" where "ul_high x = ucast (drop_bit 32 x)"
definition ul_low :: "u64 \<Rightarrow> u32" where "ul_low x = ucast x"
definition join_ul :: "u32 \<Rightarrow> u32 \<Rightarrow> u64" where "join_ul h l = push_bit 32 (ucast h) OR ucast l"

section \<open>The code\<close>

definition split_quad :: "digits \<Rightarrow> u64 \<Rightarrow> digits" where
  "split_quad a x = a(1 := HHALF (ul_high x), 2 := LHALF (ul_high x), 3 := HHALF (ul_low x), 4 := LHALF (ul_low x))"

text \<open>\<open>shl(p, len, sh)\<close> on the digits from \<open>o\<close>.\<close>

fun shl_loop :: "nat \<Rightarrow> nat \<Rightarrow> nat \<Rightarrow> digits \<Rightarrow> digits" where
  "shl_loop i 0 sh p = p(i := LHALF (push_bit sh (p i)))"
| "shl_loop i (Suc k) sh p =
     shl_loop (i + 1) k sh (p(i := LHALF (push_bit sh (p i)) OR drop_bit (HALF_BITS - sh) (p (i + 1))))"

definition shl :: "nat \<Rightarrow> nat \<Rightarrow> nat \<Rightarrow> digits \<Rightarrow> digits" where "shl i len sh p = shl_loop i len sh p"

text \<open>Short division, for a divisor of the single digit \<open>t\<close>.\<close>

definition short_divide :: "digits \<Rightarrow> u32 \<Rightarrow> u64 \<times> u64" where
  "short_divide u t =
     (let q1 = u 1 div t;
          rbj = COMBINE (u 1 mod t) (u 2); q2 = rbj div t;
          rbj = COMBINE (rbj mod t) (u 3); q3 = rbj div t;
          rbj = COMBINE (rbj mod t) (u 4); q4 = rbj div t
      in (join_ul (COMBINE q1 q2) (COMBINE q3 q4), ucast (rbj mod t)))"

text \<open>Skipping the leading zeros: the offset of the divisor with its number of digits (1 for short division), and
  the offset of the dividend.\<close>

fun skip_v :: "digits \<Rightarrow> nat \<Rightarrow> nat \<Rightarrow> nat \<times> nat" where
  "skip_v v vo 0 = (vo, 0)"
| "skip_v v vo (Suc n) = (if v (vo + 1) \<noteq> 0 then (vo, Suc n) else if n = 1 then (vo, 1) else skip_v v (vo + 1) n)"

partial_function (option) skip_u :: "digits \<Rightarrow> nat \<Rightarrow> int \<Rightarrow> (nat \<times> int) option" where
  "skip_u u uo m = (if u (uo + 1) = 0 then skip_u u (uo + 1) (m - 1) else Some (uo, m))"

text \<open>D1: the shift that brings the leading digit of the divisor to at least half the base.\<close>

partial_function (option) find_shift :: "u32 \<Rightarrow> nat \<Rightarrow> nat option" where
  "find_shift t d = (if t < BASE div 2 then find_shift (push_bit 1 t) (d + 1) else Some d)"

text \<open>D3: the estimate of a quotient digit. \<open>too_big\<close> is the body of the loop, where the code also enters it.\<close>

partial_function (option) correct_qhat :: "u32 \<Rightarrow> u32 \<Rightarrow> u32 \<Rightarrow> u32 \<Rightarrow> u32 \<Rightarrow> u32 option" where
  "correct_qhat v1 v2 uj2 qhat rhat =
     (if v2 * qhat > COMBINE rhat uj2
      then (if rhat + v1 \<ge> BASE then Some (qhat - 1) else correct_qhat v1 v2 uj2 (qhat - 1) (rhat + v1))
      else Some qhat)"

definition too_big :: "u32 \<Rightarrow> u32 \<Rightarrow> u32 \<Rightarrow> u32 \<Rightarrow> u32 \<Rightarrow> u32 option" where
  "too_big v1 v2 uj2 qhat rhat =
     (if rhat + v1 \<ge> BASE then Some (qhat - 1) else correct_qhat v1 v2 uj2 (qhat - 1) (rhat + v1))"

definition estimate :: "u32 \<Rightarrow> u32 \<Rightarrow> u32 \<Rightarrow> u32 \<Rightarrow> u32 \<Rightarrow> u32 option" where
  "estimate v1 v2 uj0 uj1 uj2 =
     (if uj0 = v1 then too_big v1 v2 uj2 BASE uj1
      else let nn = COMBINE uj0 uj1 in correct_qhat v1 v2 uj2 (nn div v1) (nn mod v1))"

text \<open>D4: multiply and subtract, from digit \<open>i\<close> down; the result has the last borrow. D6: add back.\<close>

fun mul_sub :: "nat \<Rightarrow> digits \<Rightarrow> u32 \<Rightarrow> nat \<Rightarrow> u32 \<Rightarrow> digits \<Rightarrow> digits \<times> u32" where
  "mul_sub uo v qhat 0 t u = (u, t)"
| "mul_sub uo v qhat (Suc i) t u =
     (let t = u (uo + Suc i) - v (Suc i) * qhat - t
      in mul_sub uo v qhat i ((BASE - HHALF t) AND (BASE - 1)) (u(uo + Suc i := LHALF t)))"

fun add_back :: "nat \<Rightarrow> digits \<Rightarrow> nat \<Rightarrow> u32 \<Rightarrow> digits \<Rightarrow> digits \<times> u32" where
  "add_back uo v 0 t u = (u, t)"
| "add_back uo v (Suc i) t u =
     (let t = t + (u (uo + Suc i) + v (Suc i)) in add_back uo v i (HHALF t) (u(uo + Suc i := LHALF t)))"

text \<open>One round of the loop D7: the digit \<open>q[j]\<close> and the new dividend; \<open>o\<close> is the place of \<open>u[j]\<close>.\<close>

definition divide_digit :: "nat \<Rightarrow> digits \<Rightarrow> nat \<Rightarrow> digits \<Rightarrow> (digits \<times> u32) option" where
  "divide_digit n v uo u =
     map_option (\<lambda>qhat.
       (let (u, t) = mul_sub uo v qhat n 0 u;
            t = u uo - t;
            u = u(uo := LHALF t)
        in if HHALF t \<noteq> 0
           then let (u, t) = add_back uo v n 0 u in (u(uo := LHALF (u uo + t)), qhat - 1)
           else (u, qhat)))
     (estimate (v 1) (v 2) (u uo) (u (uo + 1)) (u (uo + 2)))"

fun divide_digits :: "nat \<Rightarrow> digits \<Rightarrow> nat \<Rightarrow> nat \<Rightarrow> nat \<Rightarrow> digits \<Rightarrow> digits \<Rightarrow> (digits \<times> digits) option" where
  "divide_digits n v uo qo 0 u q = Some (u, q)"
| "divide_digits n v uo qo (Suc k) u q =
     Option.bind (divide_digit n v uo u) (\<lambda>(u, qhat). divide_digits n v (uo + 1) (qo + 1) k u (q(qo := qhat)))"

text \<open>The remainder is shifted back, from the last digit.\<close>

fun unshift :: "nat \<Rightarrow> nat \<Rightarrow> nat \<Rightarrow> digits \<Rightarrow> digits" where
  "unshift d i 0 u = u(i := 0)"
| "unshift d i (Suc k) u =
     unshift d (i - 1) k (u(i := drop_bit d (u i) OR LHALF (push_bit (HALF_BITS - d) (u (i - 1)))))"

definition join_digits :: "digits \<Rightarrow> u64" where
  "join_digits a = join_ul (COMBINE (a 1) (a 2)) (COMBINE (a 3) (a 4))"

definition algorithm_d :: "digits \<Rightarrow> digits \<Rightarrow> digits \<Rightarrow> nat \<Rightarrow> nat \<Rightarrow> bool \<Rightarrow> (u64 \<times> u64 option) option" where
  "algorithm_d u v q vo n arq =
     Option.bind (skip_u u 0 (int (4 - n))) (\<lambda>(uo, m).
     Option.bind (find_shift (v (vo + 1)) 0) (\<lambda>d.
       let m = nat m;
           q = (\<lambda>i. if i < 4 - m then 0 else q i);
           u = (if d > 0 then shl uo (m + n) d u else u);
           v = (if d > 0 then shl (vo + 1) (n - 1) d v else v)
       in map_option (\<lambda>(u, q).
            (join_digits q,
             if arq then Some (join_digits (if d > 0 then unshift d (uo + (m + n)) n u else u)) else None))
          (divide_digits n (\<lambda>i. v (vo + i)) uo (4 - m) (m + 1) u q)))"

definition qdivrem :: "digits \<Rightarrow> u64 \<Rightarrow> u64 \<Rightarrow> bool \<Rightarrow> (u64 \<times> u64 option) option" where
  "qdivrem junk uq vq arq =
     (if vq = 0 then None
      else if uq < vq then Some (0, if arq then Some uq else None)
      else let u = (split_quad junk uq)(0 := 0);
               v = split_quad junk vq;
               (vo, n) = skip_v v 0 4
           in if n = 1
              then let (q, r) = short_divide u (v (vo + 2)) in Some (q, if arq then Some r else None)
              else algorithm_d u v junk vo n arq)"

definition umoddi3 :: "digits \<Rightarrow> u64 \<Rightarrow> u64 \<Rightarrow> u64 option" where
  "umoddi3 junk a b = Option.bind (qdivrem junk a b True) snd"

definition udivdi3 :: "digits \<Rightarrow> u64 \<Rightarrow> u64 \<Rightarrow> u64 option" where
  "udivdi3 junk a b = map_option fst (qdivrem junk a b False)"

section \<open>Numbers as digits\<close>

text \<open>The value of the \<open>k\<close> digits from index \<open>a\<close>, the first being the most significant.\<close>

fun dval :: "digits \<Rightarrow> nat \<Rightarrow> nat \<Rightarrow> nat" where
  "dval f a 0 = 0"
| "dval f a (Suc k) = dval f a k * 65536 + unat (f (a + k))"

definition small :: "digits \<Rightarrow> nat \<Rightarrow> nat \<Rightarrow> bool" where
  "small f a k \<longleftrightarrow> (\<forall>i<k. unat (f (a + i)) < 65536)"

lemma small_0 [simp]: "small f a 0" by (simp add: small_def)
lemma small_Suc: "small f a (Suc k) \<longleftrightarrow> small f a k \<and> unat (f (a + k)) < 65536" by (auto simp: small_def less_Suc_eq)
lemma small_Cons: "small f a (Suc k) \<longleftrightarrow> unat (f a) < 65536 \<and> small f (a + 1) k"
  unfolding small_def using less_Suc_eq_0_disj by auto

lemma small_at: "small f a k \<Longrightarrow> i < k \<Longrightarrow> unat (f (a + i)) < 65536" by (simp add: small_def)

lemma small_drop: "small f a (j + k) \<Longrightarrow> small f (a + j) k"
  unfolding small_def by (metis add.assoc nat_add_left_cancel_less)

lemma dval_append: "dval f a (k + l) = dval f a k * 65536 ^ l + dval f (a + k) l"
  by (induction l) (simp_all add: algebra_simps)

lemma dval_Cons: "dval f a (Suc k) = unat (f a) * 65536 ^ k + dval f (a + 1) k"
  using dval_append[of f a 1 k] by simp

lemma dval_less: "small f a k \<Longrightarrow> dval f a k < 65536 ^ k"
  by (induction k) (auto simp: small_Suc intro: less_le_trans[of _ "dval f a _ * 65536 + 65536"])

lemma dval_2: "dval f a 2 = unat (f a) * 65536 + unat (f (a + 1))" by (simp add: numeral_2_eq_2)
lemma dval_3: "dval f a 3 = (unat (f a) * 65536 + unat (f (a + 1))) * 65536 + unat (f (a + 2))" by (simp add: numeral_3_eq_3)

lemma dval_cong: "(\<And>i. i < k \<Longrightarrow> f (a + i) = g (a + i)) \<Longrightarrow> dval f a k = dval g a k"
  by (induction k) auto

lemma small_cong: "(\<And>i. i < k \<Longrightarrow> f (a + i) = g (a + i)) \<Longrightarrow> small f a k = small g a k"
  by (auto simp: small_def)

lemma dval_zero: "(\<And>i. i < k \<Longrightarrow> f (a + i) = 0) \<Longrightarrow> dval f a k = 0"
  by (induction k) auto

lemma unat_HHALF: "unat (HHALF x) = unat x div 65536"
  by (simp add: HHALF_def HALF_BITS_def drop_bit_eq_div unat_div)

lemma BASE_mask: "BASE - 1 = mask 16" by (simp add: BASE_def mask_eq_exp_minus_1)

lemma unat_LHALF: "unat (LHALF x) = unat x mod 65536"
  by (simp add: LHALF_def BASE_mask unat_keep_low)

lemma unat_or_disjoint:
  assumes "unat x mod 2 ^ k = 0" "unat (y :: 'a::len word) < 2 ^ k"
  shows "unat (x OR y) = unat x + unat y"
proof -
  have "x AND y = 0"
  proof (rule bit_word_eqI)
    fix n assume "n < LENGTH('a)"
    have "take_bit k (unat x) = 0" using assms(1) by (simp add: take_bit_eq_mod)
    then have "\<not> bit (unat x) n" if "n < k" using that by (metis bit_take_bit_iff bit_0_eq bot_apply bot_bool_def)
    then have "\<not> bit x n" if "n < k" using that by (simp add: bit_unsigned_iff)
    moreover have "\<not> bit y n" if "k \<le> n" using that assms(2)
      by (metis bit_unsigned_iff bit_take_bit_iff take_bit_nat_eq_self not_less possible_bit_nat)
    ultimately show "bit (x AND y) n = bit (0 :: 'a word) n" by (cases "n < k") (auto simp: bit_and_iff)
  qed
  then show ?thesis by (metis disjunctive_add_eq_or unsigned_or_eq or_eq_0_iff add.commute unat_word_ariths(1) disjunctive_add_eq_or unsigned_and_eq unsigned_0)
qed

lemma unat_push_bit32: "unat (push_bit k x :: u32) = unat x * 2 ^ k mod 2 ^ 32"
  unfolding unsigned_push_bit_eq by (simp add: take_bit_eq_mod push_bit_eq_mult)

lemma unat_COMBINE:
  assumes "unat a < 65536" "unat b < 65536"
  shows "unat (COMBINE a b) = unat a * 65536 + unat b"
proof -
  have p: "unat (push_bit 16 a) = unat a * 65536" using assms(1) by (simp add: unat_push_bit32)
  then show ?thesis unfolding COMBINE_def HALF_BITS_def using assms(2) by (subst unat_or_disjoint[of _ 16]) simp_all
qed


section \<open>The estimate of a quotient digit\<close>

text \<open>\<open>n\<close> is an upper bound of the quotient digit that is taken from the leading digits only: no more
  than the true quotient of the three and two leading digits, and no less than any \<open>g\<close> below it.\<close>

lemma estimate_step:
  assumes "v1 * q + r = (u0 :: nat)" "r * 65536 + u2 < v2 * q" "g * (v1 * 65536 + v2) \<le> u0 * 65536 + u2"
  shows "g < q"
proof -
  have "q * (v1 * 65536 + v2) = (v1 * q) * 65536 + v2 * q" by (simp add: algebra_simps)
  moreover have "u0 * 65536 = (v1 * q) * 65536 + r * 65536" using assms(1) by (simp add: algebra_simps flip: assms(1))
  ultimately have "g * (v1 * 65536 + v2) < q * (v1 * 65536 + v2)" using assms(2,3) by linarith
  then show ?thesis by simp
qed

lemma correct_qhat_ok:
  assumes "unat v2 < 65536" "unat uj2 < 65536" "0 < unat v1" "unat v1 < 65536"
    and "unat qhat < 65536" "unat rhat < 65536" "unat v1 * unat qhat + unat rhat = u0"
    and "g * (unat v1 * 65536 + unat v2) \<le> u0 * 65536 + unat uj2" "g \<le> unat qhat"
  shows "\<exists>r. correct_qhat v1 v2 uj2 qhat rhat = Some r \<and> g \<le> unat r \<and> unat r < 65536
    \<and> unat r * (unat v1 * 65536 + unat v2) \<le> u0 * 65536 + unat uj2"
  using assms(5-)
proof (induction "65536 - unat rhat" arbitrary: qhat rhat rule: less_induct)
  case less
  have "unat v2 * unat qhat \<le> 65535 * 65535" using assms(1) less.prems(1) by (intro mult_mono) auto
  then have vq: "unat (v2 * qhat) = unat v2 * unat qhat" by (simp add: unat_word_ariths)
  have c: "unat (COMBINE rhat uj2) = unat rhat * 65536 + unat uj2" using unat_COMBINE assms(2) less.prems(2) by blast
  show ?case
  proof (cases "v2 * qhat > COMBINE rhat uj2")
    case False
    then have "unat v2 * unat qhat \<le> unat rhat * 65536 + unat uj2" by (simp add: word_less_nat_alt vq c)
    then have "unat qhat * (unat v1 * 65536 + unat v2) \<le> u0 * 65536 + unat uj2" using less.prems(3) by (auto simp: algebra_simps)
    then show ?thesis using False less.prems by (subst correct_qhat.simps) simp
  next
    case True
    then have "unat rhat * 65536 + unat uj2 < unat v2 * unat qhat" by (simp add: word_less_nat_alt vq c)
    then have g: "g < unat qhat" using estimate_step[OF less.prems(3) _ less.prems(4)] by blast
    then have q1: "unat (qhat - 1) = unat qhat - 1" by (simp add: unat_sub word_le_nat_alt)
    have r1: "unat (rhat + v1) = unat rhat + unat v1" using less.prems(2) assms(4) by (simp add: unat_word_ariths)
    have inv: "unat v1 * unat (qhat - 1) + unat (rhat + v1) = u0"
      using less.prems(3) g by (cases "unat qhat") (simp_all add: q1 r1)
    show ?thesis
    proof (cases "rhat + v1 \<ge> BASE")
      case True
      then have "65536 \<le> unat (rhat + v1)" by (simp add: word_le_nat_alt BASE_def)
      moreover have "unat (qhat - 1) * unat v2 \<le> 65535 * 65535" using assms(1) less.prems(1) q1 by (intro mult_mono) auto
      ultimately have "unat (qhat - 1) * (unat v1 * 65536 + unat v2) \<le> u0 * 65536 + unat uj2" using inv by (auto simp: algebra_simps)
      moreover have "g \<le> unat (qhat - 1)" "unat (qhat - 1) < 65536" using g less.prems(1) q1 by linarith+
      ultimately show ?thesis using True \<open>v2 * qhat > COMBINE rhat uj2\<close> by (subst correct_qhat.simps) simp
    next
      case False
      then have r2: "unat (rhat + v1) < 65536" by (simp add: word_le_nat_alt BASE_def)
      have "65536 - unat (rhat + v1) < 65536 - unat rhat" using r1 r2 assms(3) by simp
      have "unat (qhat - 1) < 65536" "g \<le> unat (qhat - 1)" using g q1 less.prems(1) by linarith+
      from less.hyps[OF \<open>65536 - unat (rhat + v1) < 65536 - unat rhat\<close> this(1) r2 inv less.prems(4) this(2)] obtain r where "correct_qhat v1 v2 uj2 (qhat - 1) (rhat + v1) = Some r"
        "g \<le> unat r" "unat r < 65536" "unat r * (unat v1 * 65536 + unat v2) \<le> u0 * 65536 + unat uj2" by blast
      then show ?thesis using False \<open>v2 * qhat > COMBINE rhat uj2\<close> by (subst correct_qhat.simps) simp
    qed
  qed
qed

lemma estimate_ok:
  assumes "unat v2 < 65536" "unat uj2 < 65536" "0 < unat v1" "unat v1 < 65536" "unat uj0 \<le> unat v1" "unat uj1 < 65536"
    and u: "u0 = unat uj0 * 65536 + unat uj1"
    and g: "g * (unat v1 * 65536 + unat v2) \<le> u0 * 65536 + unat uj2" "g < 65536"
  shows "\<exists>r. estimate v1 v2 uj0 uj1 uj2 = Some r \<and> g \<le> unat r \<and> unat r < 65536
    \<and> unat r * (unat v1 * 65536 + unat v2) \<le> u0 * 65536 + unat uj2"
proof (cases "uj0 = v1")
  case True
  have r1: "unat (uj1 + v1) = unat uj1 + unat v1" using assms(4,6) by (simp add: unat_word_ariths)
  have q1: "unat (BASE - 1) = 65535" by (simp add: BASE_def)
  have inv: "unat v1 * unat (BASE - 1) + unat (uj1 + v1) = u0" using u True by (simp add: q1 r1)
  show ?thesis
  proof (cases "uj1 + v1 \<ge> BASE")
    case c: True
    then have "65536 \<le> unat (uj1 + v1)" by (simp add: word_le_nat_alt BASE_def)
    moreover have "unat (BASE - 1) * unat v2 \<le> 65535 * 65535" using assms(1) q1 by (intro mult_mono) auto
    ultimately have "unat (BASE - 1) * (unat v1 * 65536 + unat v2) \<le> u0 * 65536 + unat uj2" using inv by (auto simp: algebra_simps)
    then show ?thesis using True c g(2) q1 by (simp add: estimate_def too_big_def)
  next
    case False
    then have "unat (uj1 + v1) < 65536" by (simp add: word_le_nat_alt BASE_def)
    from correct_qhat_ok[OF assms(1-4) _ this inv g(1)] show ?thesis using True False g(2) q1 by (simp add: estimate_def too_big_def)
  qed
next
  case False
  then have lt: "unat uj0 < unat v1" using assms(5) word_unat_eq_iff[of uj0 v1] by simp
  let ?nn = "COMBINE uj0 uj1"
  have nn: "unat ?nn = u0" using unat_COMBINE[of uj0 uj1] lt assms(4,6) u by simp
  have "u0 < unat v1 * 65536"
    using u assms(6) mult_le_mono1[of "unat uj0 + 1" "unat v1" 65536] lt by simp
  then have q: "unat (?nn div v1) < 65536" by (simp add: unat_div nn less_mult_imp_div_less mult.commute)
  have r: "unat (?nn mod v1) < 65536" using assms(3,4) by (simp add: unat_mod nn) (meson less_trans mod_less_divisor)
  have inv: "unat v1 * unat (?nn div v1) + unat (?nn mod v1) = u0" by (simp add: unat_div unat_mod nn)
  have "g * unat v1 * 65536 < (u0 + 1) * 65536" using g(1) assms(2) by (auto simp: algebra_simps)
  then have "g * unat v1 \<le> u0" by simp
  then have "g \<le> unat (?nn div v1)" using assms(3) by (simp add: unat_div nn less_eq_div_iff_mult_less_eq)
  from correct_qhat_ok[OF assms(1-4) q r inv g(1) this] show ?thesis using False by (simp add: estimate_def Let_def)
qed

text \<open>Knuth's bound: the quotient of the leading digits exceeds that of the numbers by at most one.\<close>

lemma estimate_bound:
  assumes "q * v \<le> u3" "U = u3 * p + u'" "V = v * p + v'" "u' < p" "v' < (p :: nat)" "q < 65536" "65536 \<le> v"
  shows "q \<le> U div V + 1"
proof -
  have "q * V = q * v * p + q * v'" using assms(3) by (simp add: algebra_simps)
  also have "\<dots> \<le> u3 * p + q * v'" using assms(1) by simp
  also have "q * v' \<le> v * p" using assms(5-7) by (intro mult_mono) auto
  finally have "q * V \<le> U + V" using assms(2,3) by simp
  then have "q * V div V \<le> (U + V) div V" by (rule div_le_mono)
  moreover have "V \<noteq> 0" using assms(3,5,7) by auto
  ultimately show ?thesis by (simp add: div_add_self2)
qed


section \<open>Multiply and subtract\<close>

lemma borrow_step:
  fixes u v q t :: u32
  assumes "unat u < 65536" "unat v < 65536" "unat q < 65536" "unat t < 65536" and x: "x = u - v * q - t"
  shows "unat (LHALF x) + unat v * unat q + unat t = unat u + unat ((BASE - HHALF x) AND (BASE - 1)) * 65536"
    and "unat ((BASE - HHALF x) AND (BASE - 1)) < 65536"
proof -
  have le: "unat v * unat q \<le> 65535 * 65535" using assms(2,3) by (intro mult_mono) auto
  then have vq: "unat (v * q) = unat v * unat q" by (simp add: unat_word_ariths)
  have s: "unat (v * q + t) = unat v * unat q + unat t" using le assms(4) by (simp add: unat_word_ariths vq)
  have x': "x = u - (v * q + t)" using x by simp
  have ux: "unat x = (if v * q + t \<le> u then unat u - (unat v * unat q + unat t) else unat u + 2 ^ 32 - (unat v * unat q + unat t))"
    unfolding x' using unat_sub_if_size[of u "v * q + t"] by (simp add: s word_size word_le_nat_alt)
  let ?h = "unat x div 65536"
  have "unat x < 2 ^ LENGTH(32)" by (rule unsigned_less)
  then have hb: "?h < 65536" by (simp add: less_mult_imp_div_less)
  have b: "unat ((BASE - HHALF x) AND (BASE - 1)) = (65536 - ?h) mod 65536"
  proof -
    have "HHALF x \<le> BASE" using hb by (simp add: word_le_nat_alt unat_HHALF BASE_def)
    then have "unat (BASE - HHALF x) = 65536 - ?h" by (simp add: unat_sub unat_HHALF) (simp add: BASE_def)
    then show ?thesis by (simp add: BASE_mask unat_keep_low)
  qed
  show "unat ((BASE - HHALF x) AND (BASE - 1)) < 65536" by (simp add: b)
  have d: "unat x = ?h * 65536 + unat x mod 65536" by simp
  show "unat (LHALF x) + unat v * unat q + unat t = unat u + unat ((BASE - HHALF x) AND (BASE - 1)) * 65536"
  proof (cases "v * q + t \<le> u")
    case True
    then have "unat v * unat q + unat t \<le> unat u" by (simp add: word_le_nat_alt s)
    moreover have "?h = 0" using ux True assms(1) by simp
    ultimately show ?thesis using ux True by (simp add: b unat_LHALF)
  next
    case False
    then have "unat u < unat v * unat q + unat t" by (simp add: word_le_nat_alt s)
    moreover have "unat v * unat q + unat t \<le> 65536 * 65535" using le assms(4) by simp
    ultimately have e: "unat x + (unat v * unat q + unat t) = 65536 * 65536 + unat u" and "65536 * 1 \<le> unat x" using ux False by auto
    then have "0 < ?h" by (simp add: div_greater_zero_iff)
    then have "(65536 - ?h) mod 65536 = 65536 - ?h" by simp
    moreover have "(65536 - ?h) * 65536 + ?h * 65536 = 65536 * 65536" using hb by (simp flip: add_mult_distrib)
    ultimately show ?thesis using e d unfolding b unat_LHALF by linarith
  qed
qed

lemma mul_sub_ok:
  assumes "small u (uo + 1) i" "small v 1 i" "unat q < 65536" "unat t < 65536" "mul_sub uo v q i t u = (u', t')"
  shows "dval u' (uo + 1) i + unat q * dval v 1 i + unat t = dval u (uo + 1) i + unat t' * 65536 ^ i
    \<and> unat t' < 65536 \<and> small u' (uo + 1) i \<and> (\<forall>j. j \<notin> {uo + 1..uo + i} \<longrightarrow> u' j = u j)"
  using assms
proof (induction i arbitrary: t u)
  case 0
  then show ?case by simp
next
  case (Suc i)
  let ?x = "u (uo + Suc i) - v (Suc i) * q - t" let ?t = "(BASE - HHALF ?x) AND (BASE - 1)" let ?u = "u(uo + Suc i := LHALF ?x)"
  have d: "unat (u (uo + Suc i)) < 65536" "unat (v (Suc i)) < 65536" using Suc.prems(1,2) by (simp_all add: small_Suc)
  note st = borrow_step[OF d Suc.prems(3,4) refl]
  have s: "small ?u (uo + 1) i" "small v 1 i" using Suc.prems(1,2) by (simp_all add: small_Suc) (simp add: small_def)
  have run: "mul_sub uo v q i ?t ?u = (u', t')" using Suc.prems(5) by (simp add: Let_def)
  note ih = Suc.IH[OF s Suc.prems(3) st(2) run]
  have low: "u' (uo + Suc i) = LHALF ?x" using ih by simp
  have same: "dval ?u (uo + 1) i = dval u (uo + 1) i" by (rule dval_cong) simp
  have "dval u' (uo + 1) (Suc i) + unat q * dval v 1 (Suc i) + unat t
      = (dval u' (uo + 1) i + unat q * dval v 1 i) * 65536 + (unat (LHALF ?x) + unat (v (Suc i)) * unat q + unat t)"
    using low by (simp add: algebra_simps)
  also have "\<dots> = (dval u' (uo + 1) i + unat q * dval v 1 i + unat ?t) * 65536 + unat (u (uo + Suc i))"
    using st(1) by (simp add: algebra_simps)
  also have "dval u' (uo + 1) i + unat q * dval v 1 i + unat ?t = dval u (uo + 1) i + unat t' * 65536 ^ i" using ih unfolding same by blast
  also have "(dval u (uo + 1) i + unat t' * 65536 ^ i) * 65536 + unat (u (uo + Suc i)) = dval u (uo + 1) (Suc i) + unat t' * 65536 ^ Suc i"
    by (simp add: algebra_simps)
  finally have "dval u' (uo + 1) (Suc i) + unat q * dval v 1 (Suc i) + unat t = dval u (uo + 1) (Suc i) + unat t' * 65536 ^ Suc i" .
  moreover have "small u' (uo + 1) (Suc i)" using ih low by (simp add: small_Suc unat_LHALF)
  ultimately show ?case using ih by auto
qed

lemma add_back_ok:
  assumes "small u (uo + 1) i" "small v 1 i" "unat t \<le> 1" "add_back uo v i t u = (u', t')"
  shows "dval u' (uo + 1) i + unat t' * 65536 ^ i = dval u (uo + 1) i + dval v 1 i + unat t
    \<and> unat t' \<le> 1 \<and> small u' (uo + 1) i \<and> (\<forall>j. j \<notin> {uo + 1..uo + i} \<longrightarrow> u' j = u j)"
  using assms
proof (induction i arbitrary: t u)
  case 0
  then show ?case by simp
next
  case (Suc i)
  let ?x = "t + (u (uo + Suc i) + v (Suc i))" let ?u = "u(uo + Suc i := LHALF ?x)"
  have d: "unat (u (uo + Suc i)) < 65536" "unat (v (Suc i)) < 65536" using Suc.prems(1,2) by (simp_all add: small_Suc)
  have x: "unat ?x = unat t + unat (u (uo + Suc i)) + unat (v (Suc i))" using d Suc.prems(3) by (simp add: unat_word_ariths)
  then have c: "unat (HHALF ?x) \<le> 1" using d Suc.prems(3) by (simp add: unat_HHALF)
  have st: "unat (LHALF ?x) + unat (HHALF ?x) * 65536 = unat t + unat (u (uo + Suc i)) + unat (v (Suc i))"
    unfolding unat_LHALF unat_HHALF x[symmetric] by simp
  have s: "small ?u (uo + 1) i" "small v 1 i" using Suc.prems(1,2) by (simp_all add: small_Suc) (simp add: small_def)
  have run: "add_back uo v i (HHALF ?x) ?u = (u', t')" using Suc.prems(4) by (simp add: Let_def)
  note ih = Suc.IH[OF s c run]
  have low: "u' (uo + Suc i) = LHALF ?x" using ih by simp
  have same: "dval ?u (uo + 1) i = dval u (uo + 1) i" by (rule dval_cong) simp
  have "dval u' (uo + 1) (Suc i) + unat t' * 65536 ^ Suc i = (dval u (uo + 1) i + dval v 1 i + unat (HHALF ?x)) * 65536 + unat (LHALF ?x)"
  proof -
    have "dval u' (uo + 1) i + unat t' * 65536 ^ i = dval u (uo + 1) i + dval v 1 i + unat (HHALF ?x)" using ih unfolding same by blast
    then have "(dval u' (uo + 1) i + unat t' * 65536 ^ i) * 65536 = (dval u (uo + 1) i + dval v 1 i + unat (HHALF ?x)) * 65536" by simp
    then show ?thesis using low by (simp add: algebra_simps)
  qed
  also have "\<dots> = dval u (uo + 1) (Suc i) + dval v 1 (Suc i) + unat t" using st by (simp add: algebra_simps)
  finally have "dval u' (uo + 1) (Suc i) + unat t' * 65536 ^ Suc i = dval u (uo + 1) (Suc i) + dval v 1 (Suc i) + unat t" .
  moreover have "small u' (uo + 1) (Suc i)" using ih low by (simp add: small_Suc unat_LHALF)
  ultimately show ?case using ih by auto
qed


section \<open>One digit of the quotient\<close>

lemma digit_split: "x = e + c * b \<Longrightarrow> e < b \<Longrightarrow> x mod b = e \<and> x div b = (c :: nat)" by simp

lemma divmod_unique: "q * v + r = (u :: nat) \<Longrightarrow> r < v \<Longrightarrow> q = u div v \<and> r = u mod v"
  by (metis add.commute add_cancel_right_right div_mult_self1_is_m div_mult_self3 div_less less_nat_zero_code mod_less mod_mult_self3 mult.commute not_gr_zero div_mult_self1 add_0 mod_mult_self1)

text \<open>The words \<open>q\<close>, \<open>t'\<close> and \<open>u'\<close> after D4, and the two cases of D5.\<close>

lemma after_mul_sub:
  assumes s: "small u uo (Suc n)" "small v 1 n" "unat q < 65536"
    and ms: "mul_sub uo v q n 0 u = (u1, t1)" and t: "t = u1 uo - t1"
  shows "unat q * dval v 1 n \<le> dval u uo (Suc n) \<Longrightarrow> HHALF t = 0 \<and> small (u1(uo := LHALF t)) uo (Suc n)
       \<and> dval (u1(uo := LHALF t)) uo (Suc n) = dval u uo (Suc n) - unat q * dval v 1 n"
    and "dval u uo (Suc n) < unat q * dval v 1 n \<Longrightarrow> HHALF t \<noteq> 0 \<and> small (u1(uo := LHALF t)) uo (Suc n)
       \<and> dval (u1(uo := LHALF t)) uo (Suc n) + unat q * dval v 1 n = dval u uo (Suc n) + 65536 ^ Suc n"
    and "\<forall>j. j \<notin> {uo..uo + n} \<longrightarrow> (u1(uo := LHALF t)) j = u j"
proof -
  let ?u = "u1(uo := LHALF t)" and ?B = "65536 ^ n :: nat" and ?Q = "unat q * dval v 1 n"
  have "small u (uo + 1) n" using s(1) by (simp add: small_Cons)
  from mul_sub_ok[OF this s(2,3) _ ms] have m: "dval u1 (uo + 1) n + ?Q = dval u (uo + 1) n + unat t1 * ?B"
    "unat t1 < 65536" "small u1 (uo + 1) n" "\<forall>j. j \<notin> {uo + 1..uo + n} \<longrightarrow> u1 j = u j" by auto
  have u0: "u1 uo = u uo" using m(4) by simp
  have d0: "unat (u uo) < 65536" using s(1) by (simp add: small_Cons)
  have l: "dval u1 (uo + 1) n < ?B" "dval u (uo + 1) n < ?B" using dval_less m(3) s(1) by (auto simp: small_Cons)
  have same: "dval ?u (uo + 1) n = dval u1 (uo + 1) n" "small ?u (uo + 1) n = small u1 (uo + 1) n"
    by (rule dval_cong, simp, rule small_cong, simp)
  have sm: "small ?u uo (Suc n)" using same(2) m(3) by (simp add: small_Cons unat_LHALF)
  have V: "dval ?u uo (Suc n) = unat (LHALF t) * ?B + dval u1 (uo + 1) n" by (simp only: dval_Cons same(1)) simp
  have U: "dval u uo (Suc n) = unat (u uo) * ?B + dval u (uo + 1) n" by (rule dval_Cons)
  have ut: "unat t = (if unat t1 \<le> unat (u uo) then unat (u uo) - unat t1 else unat (u uo) + 2 ^ 32 - unat t1)"
    unfolding t u0 using unat_sub_if_size[of "u uo" t1] by (simp add: word_size word_le_nat_alt)
  show "\<forall>j. j \<notin> {uo..uo + n} \<longrightarrow> ?u j = u j" using m(4) by auto
  { assume "?Q \<le> dval u uo (Suc n)"
    then have "unat t1 * ?B < unat (u uo) * ?B + ?B" using m(1) U l by linarith
    then have "unat t1 * ?B < (unat (u uo) + 1) * ?B" by (simp only: add_mult_distrib mult_1)
    then have "unat t1 < unat (u uo) + 1" by (simp only: mult_less_cancel2)
    then have "unat t1 \<le> unat (u uo)" by simp
    then have t': "unat t = unat (u uo) - unat t1" using ut by simp
    then have "HHALF t = 0" and lt: "unat (LHALF t) = unat (u uo) - unat t1"
      using d0 by (simp_all add: unat_HHALF unat_LHALF unat_eq_zero[symmetric] del: unat_eq_zero)
    moreover have "dval ?u uo (Suc n) + unat t1 * ?B = unat (u uo) * ?B + dval u1 (uo + 1) n"
      using \<open>unat t1 \<le> unat (u uo)\<close> unfolding V lt by (simp flip: add_mult_distrib)
    ultimately show "HHALF t = 0 \<and> small ?u uo (Suc n) \<and> dval ?u uo (Suc n) = dval u uo (Suc n) - ?Q" using sm m(1) U by simp }
  { assume "dval u uo (Suc n) < ?Q"
    then have "unat (u uo) * ?B < unat t1 * ?B" using m(1) U l by linarith
    then have lt1: "unat (u uo) < unat t1" by simp
    then have t': "unat t = unat (u uo) + 2 ^ 32 - unat t1" using ut by simp
    define e where "e = unat (u uo) + 65536 - unat t1"
    have "unat t = e + 65535 * 65536" "e < 65536" using t' lt1 m(2) unfolding e_def by simp_all
    from digit_split[OF this] have "unat t mod 65536 = e" "unat t div 65536 = 65535" by blast+
    then have h: "unat (HHALF t) = 65535" and lt: "unat (LHALF t) = unat (u uo) + 65536 - unat t1"
      unfolding unat_HHALF unat_LHALF e_def by simp_all
    have "unat (LHALF t) + unat t1 = unat (u uo) + 65536" using lt m(2) by simp
    then have "(unat (LHALF t) + unat t1) * ?B = (unat (u uo) + 65536) * ?B" by simp
    then have "dval ?u uo (Suc n) + unat t1 * ?B = unat (u uo) * ?B + dval u1 (uo + 1) n + 65536 * ?B"
      unfolding V by (simp add: algebra_simps)
    moreover have "HHALF t \<noteq> 0" using h by auto
    ultimately show "HHALF t \<noteq> 0 \<and> small ?u uo (Suc n) \<and> dval ?u uo (Suc n) + ?Q = dval u uo (Suc n) + 65536 ^ Suc n"
      using sm m(1) U by simp }
qed


lemma divide_digit_ok:
  assumes n: "2 \<le> n" and s: "small u uo (Suc n)" "small v 1 n" and v1: "0 < unat (v 1)" and lt: "dval u uo n < dval v 1 n"
  shows "\<exists>u' q. divide_digit n v uo u = Some (u', q) \<and> unat q = dval u uo (Suc n) div dval v 1 n
    \<and> dval u' uo (Suc n) = dval u uo (Suc n) mod dval v 1 n \<and> small u' uo (Suc n) \<and> (\<forall>j. j \<notin> {uo..uo + n} \<longrightarrow> u' j = u j)"
proof -
  obtain k where k: "n = Suc (Suc k)" using n by (cases n; cases "n - 1") auto
  let ?U = "dval u uo (Suc n)" and ?V = "dval v 1 n" and ?p = "65536 ^ k :: nat" and ?q = "dval u uo (Suc n) div dval v 1 n"
  have d: "unat (u uo) < 65536" "unat (u (uo + 1)) < 65536" "unat (u (uo + 2)) < 65536" "unat (v 1) < 65536" "unat (v 2) < 65536"
    using small_at[OF s(1), of 0] small_at[OF s(1), of 1] small_at[OF s(1), of 2] small_at[OF s(2), of 0] small_at[OF s(2), of 1]
    unfolding k by (simp_all add: numeral_2_eq_2)
  have parts: "small u (uo + 3) k" "small v 3 k" using small_drop[of u uo 3 k] small_drop[of v 1 2 k] s k by (simp_all add: numeral_3_eq_3)
  let ?u0 = "unat (u uo) * 65536 + unat (u (uo + 1))" and ?V2 = "unat (v 1) * 65536 + unat (v 2)"
  have U: "?U = (?u0 * 65536 + unat (u (uo + 2))) * ?p + dval u (uo + 3) k"
  proof -
    have "Suc n = 3 + k" using k by simp
    then show ?thesis by (simp only: dval_append dval_3)
  qed
  have V: "?V = ?V2 * ?p + dval v 3 k" 
  proof -
    have n2: "n = 2 + k" using k by simp
    show ?thesis unfolding n2 dval_append dval_2 by (simp add: numeral_2_eq_2 numeral_3_eq_3)
  qed
  have tails: "dval u (uo + 3) k < ?p" "dval v 3 k < ?p" using parts dval_less by blast+
  have V2: "65536 \<le> ?V2" using v1 by simp
  then have Vpos: "0 < ?V" unfolding V using v1 by simp
  have "?U < ?V * 65536" using lt d k dval.simps(2)[of u uo n] s(1) mult_le_mono1[of "dval u uo n + 1" ?V 65536] by (simp add: small_Suc)
  then have q16: "?q < 65536" using Vpos by (simp add: less_mult_imp_div_less mult.commute)
  have "dval u uo 2 \<le> dval v 1 2 "
  proof -
    have "dval u uo n = dval u uo 2 * ?p + dval u (uo + 2) k" "dval v 1 n = dval v 1 2 * ?p + dval v 3 k"
      using dval_append[of u uo 2 k] dval_append[of v 1 2 k] k by (simp_all add: numeral_3_eq_3)
    moreover have "dval u (uo + 2) k < ?p" by (rule dval_less, rule small_drop) (use s(1) small_Suc k in auto)
    ultimately have "dval u uo 2 * ?p < (dval v 1 2 + 1) * ?p" using lt tails unfolding add_mult_distrib mult_1 by linarith
    then have "dval u uo 2 < dval v 1 2 + 1" by (simp only: mult_less_cancel2)
    then show ?thesis by simp
  qed
  then have "unat (u uo) * 65536 < (unat (v 1) + 1) * 65536" using d by (simp add: dval_2 numeral_2_eq_2)
  then have le: "unat (u uo) \<le> unat (v 1)" by simp
  have "?q * ?V2 * ?p \<le> ?q * ?V" unfolding V by (simp add: algebra_simps)
  also have "\<dots> \<le> ?U" by simp
  finally have "?q * ?V2 * ?p < (?u0 * 65536 + unat (u (uo + 2)) + 1) * ?p" using U tails(1) unfolding add_mult_distrib mult_1 by linarith
  then have "?q * ?V2 < ?u0 * 65536 + unat (u (uo + 2)) + 1" by (simp only: mult_less_cancel2)
  then have "?q * ?V2 \<le> ?u0 * 65536 + unat (u (uo + 2))" by simp
  from estimate_ok[OF d(5,3) v1 d(4) le d(2) refl this q16] obtain qh where
    e: "estimate (v 1) (v 2) (u uo) (u (uo + 1)) (u (uo + 2)) = Some qh" "?q \<le> unat qh" "unat qh < 65536"
       "unat qh * ?V2 \<le> ?u0 * 65536 + unat (u (uo + 2))" by blast
  have b: "unat qh \<le> ?q + 1" by (rule estimate_bound[OF e(4) U V tails e(3) V2])
  obtain u1 t1 where ms: "mul_sub uo v qh n 0 u = (u1, t1)" by force
  let ?t = "u1 uo - t1" let ?u = "u1(uo := LHALF ?t)"
  note am = after_mul_sub[OF s e(3) ms refl]
  show ?thesis
  proof (cases "unat qh = ?q")
    case True
    then have "unat qh * ?V \<le> ?U" by simp
    note a = am(1)[OF this]
    have "dval ?u uo (Suc n) = ?U mod ?V" using a True by (simp add: minus_div_mult_eq_mod)
    moreover have "divide_digit n v uo u = Some (?u, qh)" using e(1) ms a by (simp add: divide_digit_def Let_def)
    ultimately show ?thesis using a am(3) True by blast
  next
    case False
    then have q: "unat qh = ?q + 1" using e(2) b by simp
    have m: "?U = ?q * ?V + ?U mod ?V" by simp
    have qV: "unat qh * ?V = ?q * ?V + ?V" by (simp add: q)
    then have "?U < unat qh * ?V" using m Vpos mod_less_divisor[of ?V ?U] by linarith
    note a = am(2)[OF this]
    obtain u2 t2 where ab: "add_back uo v n 0 ?u = (u2, t2)" by force
    have "small ?u (uo + 1) n" using a by (simp only: small_Cons)
    from add_back_ok[OF this s(2) _ ab] have A: "dval u2 (uo + 1) n + unat t2 * 65536 ^ n = dval ?u (uo + 1) n + ?V"
      "unat t2 \<le> 1" "small u2 (uo + 1) n" "\<forall>j. j \<notin> {uo + 1..uo + n} \<longrightarrow> u2 j = ?u j" by auto
    let ?w = "u2(uo := LHALF (u2 uo + t2))"
    have du: "divide_digit n v uo u = Some (?w, qh - 1)" using e(1) ms a ab by (simp add: divide_digit_def Let_def)
    have q1: "unat (qh - 1) = ?q" using q by (simp add: unat_sub word_le_nat_alt)
    have u2: "u2 uo = LHALF ?t" using A(4) by simp
    have sw: "small ?w (uo + 1) n = small u2 (uo + 1) n" "dval ?w (uo + 1) n = dval u2 (uo + 1) n"
      by (rule small_cong, simp, rule dval_cong, simp)
    have small: "small ?w uo (Suc n)" using A(3) sw(1) by (simp add: small_Cons unat_LHALF)
    have top: "unat (u2 uo + t2) = unat (u2 uo) + unat t2" using A(2) unfolding u2 by (simp add: unat_word_ariths unat_LHALF)
    define M where "M = ?U mod ?V"
    have "M + 65536 ^ Suc n = dval ?u uo (Suc n) + ?V" using a m qV unfolding M_def by linarith
    also have "\<dots> = unat (u2 uo) * 65536 ^ n + dval ?u (uo + 1) n + ?V" unfolding u2 by (simp only: dval_Cons) simp
    also have "\<dots> = (unat (u2 uo) + unat t2) * 65536 ^ n + dval u2 (uo + 1) n" using A(1) by (simp add: algebra_simps)
    finally have eq: "M + 65536 ^ Suc n = (unat (u2 uo) + unat t2) * 65536 ^ n + dval u2 (uo + 1) n" .
    have "M < 65536 ^ n" using mod_less_divisor[OF Vpos, of ?U] dval_less[OF s(2)] unfolding M_def by linarith
    moreover have "dval u2 (uo + 1) n < 65536 ^ n" using dval_less A(3) by blast
    ultimately have "65536 * 65536 ^ n < (unat (u2 uo) + unat t2 + 1) * (65536 ^ n :: nat)" using eq by (simp add: algebra_simps)
    then have "65536 < unat (u2 uo) + unat t2 + 1" by (simp only: mult_less_cancel2)
    moreover have "unat (u2 uo) < 65536" unfolding u2 by (simp add: unat_LHALF)
    ultimately have e16: "unat (u2 uo) + unat t2 = 65536" using A(2) by linarith
    have "dval ?w uo (Suc n) = unat (LHALF (u2 uo + t2)) * 65536 ^ n + dval u2 (uo + 1) n" by (simp only: dval_Cons sw(2)) simp
    also have "\<dots> = M" using eq e16 by (simp add: unat_LHALF top)
    finally have "dval ?w uo (Suc n) = ?U mod ?V" unfolding M_def .
    moreover have "\<forall>j. j \<notin> {uo..uo + n} \<longrightarrow> ?w j = u j" using am(3) A(4) by auto
    ultimately show ?thesis using du q1 small by blast
  qed
qed

section \<open>The loop over the digits\<close>

lemma lead_zero:
  assumes "dval f a (Suc n) < 65536 ^ n"
  shows "f a = 0" "dval f (a + 1) n = dval f a (Suc n)"
proof -
  have "unat (f a) * 65536 ^ n < 65536 ^ n" using assms unfolding dval_Cons by linarith
  then have "unat (f a) = 0" by simp
  then show "f a = 0" by (simp add: unat_eq_zero)
  then show "dval f (a + 1) n = dval f a (Suc n)" by (simp only: dval_Cons) simp
qed

lemma divide_digits_ok:
  assumes "2 \<le> n" "small v 1 n" "0 < unat (v 1)" and "small u uo (n + k)" "dval u uo n < dval v 1 n"
  shows "\<exists>u' q'. divide_digits n v uo qo k u q = Some (u', q') \<and> dval q' qo k = dval u uo (n + k) div dval v 1 n
    \<and> dval u' (uo + k) n = dval u uo (n + k) mod dval v 1 n \<and> small u' uo (n + k) \<and> small q' qo k
    \<and> (\<forall>i. uo \<le> i \<and> i < uo + k \<longrightarrow> u' i = 0) \<and> (\<forall>i. i \<notin> {uo..<uo + n + k} \<longrightarrow> u' i = u i) \<and> (\<forall>i. i \<notin> {qo..<qo + k} \<longrightarrow> q' i = q i)"
  using assms(4-)
proof (induction k arbitrary: u uo q qo)
  case 0
  then show ?case by auto
next
  case (Suc k)
  let ?V = "dval v 1 n"
  have s: "small u uo (Suc n)" using Suc.prems(1) by (simp add: small_def)
  from divide_digit_ok[OF assms(1) s assms(2,3) Suc.prems(2)] obtain u1 qh where
    d: "divide_digit n v uo u = Some (u1, qh)" "unat qh = dval u uo (Suc n) div ?V" "dval u1 uo (Suc n) = dval u uo (Suc n) mod ?V"
       "small u1 uo (Suc n)" "\<forall>j. j \<notin> {uo..uo + n} \<longrightarrow> u1 j = u j" by blast
  have tail: "dval u1 (uo + Suc n) k = dval u (uo + Suc n) k" by (rule dval_cong) (use d(5) in auto)
  have Vp: "0 < ?V" using Suc.prems(2) by simp
  have Vb: "?V < 65536 ^ n" by (rule dval_less[OF assms(2)])
  have R: "dval u1 uo (Suc n) < ?V" using d(3) Vp by simp
  note z = lead_zero[OF less_trans[OF R Vb]]
  have s1: "small u1 (uo + 1) (n + k)"
  proof (unfold small_def, intro allI impI)
    fix i assume i: "i < n + k"
    show "unat (u1 (uo + 1 + i)) < 65536"
    proof (cases "i < n")
      case True
      then show ?thesis using small_at[OF d(4), of "i + 1"] by (simp add: algebra_simps)
    next
      case False
      then have "u1 (uo + 1 + i) = u (uo + (1 + i))" using d(5) by (simp add: add.assoc)
      then show ?thesis using small_at[OF Suc.prems(1), of "1 + i"] i by simp
    qed
  qed
  have "dval u1 (uo + 1) n < ?V" using z(2) R by simp
  from Suc.IH[OF s1 this] obtain u' q' where ih: "divide_digits n v (uo + 1) (qo + 1) k u1 (q(qo := qh)) = Some (u', q')"
    "dval q' (qo + 1) k = dval u1 (uo + 1) (n + k) div ?V" "dval u' (uo + 1 + k) n = dval u1 (uo + 1) (n + k) mod ?V"
    "small u' (uo + 1) (n + k)" "small q' (qo + 1) k" "\<forall>i. uo + 1 \<le> i \<and> i < uo + 1 + k \<longrightarrow> u' i = 0"
    "\<forall>i. i \<notin> {uo + 1..<uo + 1 + n + k} \<longrightarrow> u' i = u1 i" "\<forall>i. i \<notin> {qo + 1..<qo + 1 + k} \<longrightarrow> q' i = (q(qo := qh)) i" by blast
  have q0: "q' qo = qh" "u' uo = 0" using ih(7,8) z(1) by auto
  have all: "dval u uo (n + Suc k) = unat qh * 65536 ^ k * ?V + dval u1 (uo + 1) (n + k)"
  proof -
    have "dval u uo (n + Suc k) = dval u uo (Suc n) * 65536 ^ k + dval u (uo + Suc n) k"
      using dval_append[of u uo "Suc n" k] by simp
    also have "dval u uo (Suc n) = unat qh * ?V + dval u1 (uo + 1) n" unfolding d(2) z(2) d(3) by simp
    also have "dval u (uo + Suc n) k = dval u1 (uo + 1 + n) k" using tail by simp
    also have "(unat qh * ?V + dval u1 (uo + 1) n) * 65536 ^ k + dval u1 (uo + 1 + n) k = unat qh * 65536 ^ k * ?V + dval u1 (uo + 1) (n + k)"
      unfolding dval_append[of u1 "uo + 1" n k] by (simp add: algebra_simps)
    finally show ?thesis .
  qed
  have "dval q' qo (Suc k) = unat qh * 65536 ^ k + dval u1 (uo + 1) (n + k) div ?V" using ih(2) q0(1) by (simp only: dval_Cons)
  also have "\<dots> = dval u uo (n + Suc k) div ?V" unfolding all using Vp by simp
  finally have Q: "dval q' qo (Suc k) = dval u uo (n + Suc k) div ?V" .
  have M: "dval u' (uo + Suc k) n = dval u uo (n + Suc k) mod ?V" unfolding all using ih(3) by simp
  have "unat qh < 65536"
  proof -
    have "dval u uo (Suc n) < ?V * 65536"
      using Suc.prems(2) s mult_le_mono1[of "dval u uo n + 1" ?V 65536] by (simp add: small_Suc)
    then show ?thesis using d(2) by (simp add: less_mult_imp_div_less mult.commute)
  qed
  then have "small q' qo (Suc k)" using ih(5) q0 by (simp only: small_Cons)
  moreover have "small u' uo (n + Suc k)" using ih(4) q0(2) by (simp only: add_Suc_right small_Cons) simp
  moreover have "\<forall>i. uo \<le> i \<and> i < uo + Suc k \<longrightarrow> u' i = 0" 
  proof (intro allI impI)
    fix i assume "uo \<le> i \<and> i < uo + Suc k"
    then show "u' i = 0" using ih(6) q0(2) by (cases "i = uo") auto
  qed
  moreover have "\<forall>i. i \<notin> {uo..<uo + n + Suc k} \<longrightarrow> u' i = u i" using ih(7) d(5) by auto
  moreover have "\<forall>i. i \<notin> {qo..<qo + Suc k} \<longrightarrow> q' i = q i" using ih(8) by auto
  ultimately show ?case using d(1) ih(1) Q M by simp
qed

section \<open>Shifting\<close>

lemma LHALF_push: "unat (LHALF (push_bit k x)) = unat x * 2 ^ k mod 65536"
proof -
  have "(65536 :: nat) dvd 2 ^ 32" by simp
  then show ?thesis unfolding unat_LHALF unat_push_bit32 by (rule mod_mod_cancel)
qed

lemma shifted_or:
  assumes "k \<le> 16" "unat y < 65536"
  shows "unat (LHALF (push_bit k x) OR drop_bit (16 - k) y) = unat x * 2 ^ k mod 65536 + unat y div 2 ^ (16 - k)"
proof -
  have p: "(65536 :: nat) = 2 ^ (16 - k) * 2 ^ k" using assms(1) by (simp flip: power_add)
  have "unat (LHALF (push_bit k x)) mod 2 ^ k = 0" unfolding LHALF_push by (simp add: p mod_mod_cancel)
  moreover have d: "unat (drop_bit (16 - k) y) = unat y div 2 ^ (16 - k)" unfolding unat_drop_bit_eq by (rule drop_bit_eq_div)
  moreover have "unat y div 2 ^ (16 - k) < 2 ^ k" using assms(2) p by (simp add: less_mult_imp_div_less mult.commute)
  ultimately show ?thesis by (subst unat_or_disjoint[of _ k]) (simp_all add: LHALF_push)
qed


lemma top_carry:
  assumes "D < 65536 ^ Suc k" "sh \<le> 16"
  shows "(D :: nat) * 2 ^ sh div 65536 ^ Suc k = D div 65536 ^ k div 2 ^ (16 - sh)"
proof -
  have p: "(65536 :: nat) ^ Suc k = 2 ^ sh * (65536 ^ k * 2 ^ (16 - sh))"
    using assms(2) by (simp flip: power_add mult.assoc add: mult.commute[of _ "65536 ^ k"])
  show ?thesis unfolding p by (simp add: mult.commute[of D] div_mult2_eq[symmetric] del: power_Suc)
qed

lemma regroup: "(a * b + c) * B + D = (c * B + D) + a * (b * (B :: nat))" by (simp add: algebra_simps)

text \<open>\<open>shl\<close> multiplies by a power of two; what falls out on the left is lost.\<close>

lemma shl_loop_ok:
  assumes "small p i (Suc k)" "sh \<le> 16"
  shows "dval (shl_loop i k sh p) i (Suc k) = dval p i (Suc k) * 2 ^ sh mod 65536 ^ Suc k \<and> small (shl_loop i k sh p) i (Suc k)
    \<and> (\<forall>j. j \<notin> {i..i + k} \<longrightarrow> shl_loop i k sh p j = p j)"
  using assms(1)
proof (induction k arbitrary: i p)
  case 0
  then show ?case by (auto simp: LHALF_push small_def)
next
  case (Suc k)
  let ?d = "LHALF (push_bit sh (p i)) OR drop_bit (HALF_BITS - sh) (p (i + 1))" let ?p = "p(i := ?d)"
  let ?r = "shl_loop i (Suc k) sh p" let ?B = "65536 ^ Suc k :: nat" let ?D = "dval p (i + 1) (Suc k)"
  have r: "?r = shl_loop (i + 1) k sh ?p" by simp
  have sp: "small p (i + 1) (Suc k)" "unat (p i) < 65536" "unat (p (i + 1)) < 65536" using Suc.prems by (simp_all add: small_Cons)
  have same: "dval ?p (i + 1) (Suc k) = ?D" by (rule dval_cong) simp
  have "small ?p (i + 1) (Suc k)" using sp(1) by (auto simp: small_def)
  from Suc.IH[OF this] have ih: "dval ?r (i + 1) (Suc k) = ?D * 2 ^ sh mod ?B" "small ?r (i + 1) (Suc k)"
    "\<forall>j. j \<notin> {i + 1..i + 1 + k} \<longrightarrow> ?r j = ?p j" unfolding r same by blast+
  have top: "?r i = ?d" using ih(3) by simp
  have Dlt: "?D < ?B" by (rule dval_less[OF sp(1)])
  have "?D div 65536 ^ k = unat (p (i + 1))"
    using dval_less[of p "i + 2" k] sp(1) unfolding dval_Cons[of p "i + 1" k] by (simp add: small_Cons)
  then have c: "unat ?d = unat (p i) * 2 ^ sh mod 65536 + ?D * 2 ^ sh div ?B"
    using shifted_or[OF assms(2) sp(3), of "p i"] unfolding top_carry[OF Dlt assms(2)] by (simp add: HALF_BITS_def)
  have "unat (p i) * 2 ^ sh mod 65536 + ?D * 2 ^ sh div ?B < 65536"
  proof -
    have p: "(65536 :: nat) = 2 ^ (16 - sh) * 2 ^ sh" using assms(2) by (simp flip: power_add)
    have "unat (p i) * 2 ^ sh mod 65536 = unat (p i) mod 2 ^ (16 - sh) * 2 ^ sh" by (subst p) (simp add: mod_mult_mult2)
    moreover have "(unat (p i) mod 2 ^ (16 - sh) + 1) * 2 ^ sh \<le> 65536" unfolding p by (rule mult_le_mono1) (simp add: Suc_leI)
    moreover have "?D * 2 ^ sh div ?B < 2 ^ sh" using Dlt by (simp add: less_mult_imp_div_less mult.commute)
    ultimately show ?thesis by simp
  qed
  then have small: "small ?r i (Suc (Suc k))" using ih(2) c top by (simp only: small_Cons)
  have "dval ?r i (Suc (Suc k)) = unat ?d * ?B + ?D * 2 ^ sh mod ?B" unfolding dval_Cons[of ?r i "Suc k"] ih(1) top by simp
  also have "\<dots> = unat (p i) * 2 ^ sh mod 65536 * ?B + ?D * 2 ^ sh" unfolding c add_mult_distrib using div_mult_mod_eq[of "?D * 2 ^ sh" ?B] by linarith
  finally have e: "dval ?r i (Suc (Suc k)) = unat (p i) * 2 ^ sh mod 65536 * ?B + ?D * 2 ^ sh" .
  have "dval p i (Suc (Suc k)) * 2 ^ sh = unat (p i) * 2 ^ sh * ?B + ?D * 2 ^ sh" unfolding dval_Cons[of p i "Suc k"] by (simp add: algebra_simps)
  also have "\<dots> = (unat (p i) * 2 ^ sh div 65536 * 65536 + unat (p i) * 2 ^ sh mod 65536) * ?B + ?D * 2 ^ sh" by (simp only: div_mult_mod_eq)
  also have "\<dots> = dval ?r i (Suc (Suc k)) + unat (p i) * 2 ^ sh div 65536 * 65536 ^ Suc (Suc k)"
    unfolding e power_Suc[of _ "Suc k"] by (rule regroup)
  finally have "dval p i (Suc (Suc k)) * 2 ^ sh mod 65536 ^ Suc (Suc k) = dval ?r i (Suc (Suc k))"
    using dval_less[OF small] by simp
  then show ?case using small ih(3) by auto
qed

text \<open>The shift back divides by a power of two.\<close>

lemma unshift_ok:
  assumes "small u a (Suc k)" "d \<le> 16"
  shows "dval (unshift d (a + k) k u) (a + 1) k = dval u a (Suc k) div 2 ^ d mod 65536 ^ k \<and> small (unshift d (a + k) k u) (a + 1) k
    \<and> unshift d (a + k) k u a = 0 \<and> (\<forall>j. j \<notin> {a..a + k} \<longrightarrow> unshift d (a + k) k u j = u j)"
  using assms(1)
proof (induction k arbitrary: u)
  case 0
  then show ?case by simp
next
  case (Suc k)
  let ?i = "a + Suc k" let ?d = "drop_bit d (u ?i) OR LHALF (push_bit (HALF_BITS - d) (u (?i - 1)))" let ?u = "u(?i := ?d)"
  let ?r = "unshift d ?i (Suc k) u" let ?M = "dval u a (Suc k)"
  have r: "?r = unshift d (a + k) k ?u" by simp
  have su: "small u a (Suc k)" "unat (u ?i) < 65536" using Suc.prems by (simp_all add: small_Suc)
  have same: "dval ?u a (Suc k) = ?M" by (rule dval_cong) simp
  have "small ?u a (Suc k)" using su(1) by (auto simp: small_def)
  from Suc.IH[OF this] have ih: "dval ?r (a + 1) k = ?M div 2 ^ d mod 65536 ^ k" "small ?r (a + 1) k" "?r a = 0"
    "\<forall>j. j \<notin> {a..a + k} \<longrightarrow> ?r j = ?u j" unfolding r same by blast+
  have last: "?r ?i = ?d" using ih(4) by simp
  have p: "(65536 :: nat) = 2 ^ d * 2 ^ (16 - d)" using assms(2) by (simp flip: power_add)
  have "unat ?d = unat (u ?i) div 2 ^ d + unat (u (a + k)) * 2 ^ (16 - d) mod 65536"
    using shifted_or[of "16 - d" "u ?i" "u (a + k)"] su(2) assms(2) by (simp add: HALF_BITS_def or.commute add.commute)
  also have "unat (u (a + k)) * 2 ^ (16 - d) mod 65536 = unat (u (a + k)) mod 2 ^ d * 2 ^ (16 - d)" by (subst p) (simp add: mod_mult_mult2)
  also have "unat (u (a + k)) mod 2 ^ d = ?M mod 2 ^ d"
  proof -
    have "?M = unat (u (a + k)) + 2 ^ d * (2 ^ (16 - d) * dval u a k)" unfolding dval.simps(2) by (subst p) simp
    then show ?thesis by (metis mod_mult_self2)
  qed
  finally have l: "unat ?d = unat (u ?i) div 2 ^ d + ?M mod 2 ^ d * 2 ^ (16 - d)" .
  have "unat (u ?i) div 2 ^ d < 2 ^ (16 - d)" by (rule less_mult_imp_div_less) (use su(2) p in \<open>simp add: mult.commute\<close>)
  moreover have "(?M mod 2 ^ d + 1) * 2 ^ (16 - d) \<le> 65536" unfolding p by (rule mult_le_mono1) (simp add: Suc_leI)
  ultimately have "unat ?d < 65536" unfolding l by simp
  then have small: "small ?r (a + 1) (Suc k)" using ih(2) last by (simp only: small_Suc) simp
  have split: "?M * 65536 + unat (u ?i) = (?M * 2 ^ (16 - d)) * 2 ^ d + unat (u ?i)" by (subst p) simp
  have "dval u a (Suc (Suc k)) div 2 ^ d = ?M * 2 ^ (16 - d) + unat (u ?i) div 2 ^ d"
    unfolding dval.simps(2)[of u a "Suc k"] split by simp
  also have "\<dots> = ?M div 2 ^ d * 65536 + unat ?d"
  proof -
    have "?M * 2 ^ (16 - d) = (?M div 2 ^ d * 2 ^ d + ?M mod 2 ^ d) * 2 ^ (16 - d)" by (simp only: div_mult_mod_eq)
    also have "\<dots> = ?M div 2 ^ d * (2 ^ d * 2 ^ (16 - d)) + ?M mod 2 ^ d * 2 ^ (16 - d)" by (simp only: add_mult_distrib mult.assoc)
    also have "2 ^ d * 2 ^ (16 - d) = (65536 :: nat)" using p by (rule sym)
    finally show ?thesis unfolding l by simp
  qed
  finally have e: "dval u a (Suc (Suc k)) div 2 ^ d = ?M div 2 ^ d * 65536 + unat ?d" .
  have "(?M div 2 ^ d * 65536 + unat ?d) mod (65536 * 65536 ^ k) = ?M div 2 ^ d mod 65536 ^ k * 65536 + unat ?d"
    using \<open>unat ?d < 65536\<close> by (simp add: mod_mult2_eq)
  then have "dval ?r (a + 1) (Suc k) = dval u a (Suc (Suc k)) div 2 ^ d mod 65536 ^ Suc k"
    unfolding e dval.simps(2)[of ?r "a + 1" k] ih(1) using last by simp
  then show ?case using small ih(3,4) by auto
qed


section \<open>The preparation\<close>

lemma ul_halves: "unat (ul_high x) = unat x div 2 ^ 32" "unat (ul_low x) = unat x mod 2 ^ 32"
proof -
  have "unat x < 2 ^ LENGTH(64)" by (rule unsigned_less)
  then have "unat x div 2 ^ 32 < 2 ^ 32" by (simp add: less_mult_imp_div_less)
  then show "unat (ul_high x) = unat x div 2 ^ 32"
    unfolding ul_high_def unsigned_ucast_eq unat_drop_bit_eq by (simp add: take_bit_eq_mod drop_bit_eq_div[where 'a = nat])
  show "unat (ul_low x) = unat x mod 2 ^ 32" unfolding ul_low_def unsigned_ucast_eq by (simp add: take_bit_eq_mod)
qed

lemma unat_ucast64: "unat (ucast (x :: u32) :: u64) = unat x"
proof -
  have "unat x < 2 ^ LENGTH(32)" by (rule unsigned_less)
  then show ?thesis unfolding unsigned_ucast_eq by (simp add: take_bit_eq_mod)
qed

lemma unat_join_ul: "unat (join_ul h l) = unat h * 2 ^ 32 + unat l"
proof -
  have h: "unat h < 2 ^ LENGTH(32)" and l: "unat l < 2 ^ LENGTH(32)" by (rule unsigned_less)+
  have "unat (push_bit 32 (ucast h :: u64)) = unat h * 2 ^ 32"
    using h unfolding unsigned_push_bit_eq unat_ucast64 by (simp add: take_bit_eq_mod push_bit_eq_mult)
  then show ?thesis unfolding join_ul_def using l by (subst unat_or_disjoint[of _ 32]) (simp_all add: unat_ucast64)
qed

lemma dval_4: "dval f 1 4 = ((unat (f 1) * 65536 + unat (f 2)) * 65536 + unat (f 3)) * 65536 + unat (f 4)"
proof -
  have "(4 :: nat) = Suc (Suc (Suc (Suc 0)))" by simp
  then show ?thesis by (simp only: dval.simps) (simp add: numeral_2_eq_2 numeral_3_eq_3)
qed

lemma small_4: "small f 1 4 \<longleftrightarrow> unat (f 1) < 65536 \<and> unat (f 2) < 65536 \<and> unat (f 3) < 65536 \<and> unat (f 4) < 65536"
proof -
  have four: "(4 :: nat) = Suc (Suc (Suc (Suc 0)))" by simp
  show ?thesis unfolding four by (simp only: small_Suc small_0) (simp add: numeral_2_eq_2 numeral_3_eq_3)
qed

lemma join_digits_ok:
  assumes "small a 1 4"
  shows "unat (join_digits a) = dval a 1 4"
proof -
  have "unat (a 1) < 65536" "unat (a 2) < 65536" "unat (a 3) < 65536" "unat (a 4) < 65536"
    using assms unfolding small_4 by blast+
  then show ?thesis unfolding join_digits_def unat_join_ul dval_4 by (simp add: unat_COMBINE)
qed

lemma split_quad_ok: "dval (split_quad a x) 1 4 = unat x \<and> small (split_quad a x) 1 4"
proof
  let ?X = "unat x"
  have "?X = ?X div 2 ^ 32 * 2 ^ 32 + ?X mod 2 ^ 32" "?X div 2 ^ 32 = ?X div 2 ^ 32 div 65536 * 65536 + ?X div 2 ^ 32 mod 65536"
    "?X mod 2 ^ 32 = ?X mod 2 ^ 32 div 65536 * 65536 + ?X mod 2 ^ 32 mod 65536" by (simp_all only: div_mult_mod_eq)
  then show "dval (split_quad a x) 1 4 = unat x"
    unfolding dval_4 split_quad_def by (simp add: unat_HHALF unat_LHALF ul_halves del: mod_mod_cancel)
  have "unat (HHALF y) < 65536 \<and> unat (LHALF y) < 65536" for y
  proof -
    have "unat y < 2 ^ LENGTH(32)" by (rule unsigned_less)
    then show ?thesis unfolding unat_HHALF unat_LHALF by (simp add: less_mult_imp_div_less)
  qed
  then show "small (split_quad a x) 1 4" unfolding small_def split_quad_def by (simp only: small_4[unfolded small_def]) simp
qed

lemma short_chain:
  assumes "(u1 :: nat) = q1 * t + r1" "r1 * b + u2 = q2 * t + r2" "r2 * b + u3 = q3 * t + r3" "r3 * b + u4 = q4 * t + r4"
  shows "((u1 * b + u2) * b + u3) * b + u4 = (((q1 * b + q2) * b + q3) * b + q4) * t + r4"
proof -
  have "u1 * b + u2 = (q1 * b + q2) * t + r2" using assms(2) unfolding assms(1) by (simp add: algebra_simps)
  then have "(u1 * b + u2) * b + u3 = ((q1 * b + q2) * b + q3) * t + r3" using assms(3) by (simp add: algebra_simps)
  then show ?thesis using assms(4) by (simp add: algebra_simps)
qed

lemma short_divide_ok:
  assumes "small u 1 4" "0 < unat t" "unat t < 65536" "short_divide u t = (q, r)"
  shows "unat q = dval u 1 4 div unat t \<and> unat r = dval u 1 4 mod unat t"
proof -
  let ?t = "unat t"
  have d: "unat (u 1) < 65536" "unat (u 2) < 65536" "unat (u 3) < 65536" "unat (u 4) < 65536"
    using assms(1) unfolding small_4 by blast+
  have step: "unat (COMBINE (y mod t) x) = (unat y mod ?t) * 65536 + unat x" "unat (COMBINE (y mod t) x div t) < 65536" if "unat x < 65536" for x y
  proof -
    have m: "unat (y mod t) < ?t" unfolding unat_mod using assms(2) by (rule mod_less_divisor)
    then show c: "unat (COMBINE (y mod t) x) = (unat y mod ?t) * 65536 + unat x"
      using unat_COMBINE[of "y mod t" x] that assms(3) by (simp add: unat_mod)
    have "(unat y mod ?t + 1) * 65536 \<le> ?t * 65536" using m by (intro mult_le_mono1) (simp add: unat_mod)
    then have "unat (COMBINE (y mod t) x) < ?t * 65536" unfolding c using that by simp
    then show "unat (COMBINE (y mod t) x div t) < 65536" unfolding unat_div by (simp add: less_mult_imp_div_less mult.commute)
  qed
  define b2 where "b2 = COMBINE (u 1 mod t) (u 2)"
  define b3 where "b3 = COMBINE (b2 mod t) (u 3)"
  define b4 where "b4 = COMBINE (b3 mod t) (u 4)"
  have b: "unat b2 = (unat (u 1) mod ?t) * 65536 + unat (u 2)" "unat b3 = (unat b2 mod ?t) * 65536 + unat (u 3)"
    "unat b4 = (unat b3 mod ?t) * 65536 + unat (u 4)" using step(1) d unfolding b2_def b3_def b4_def by simp_all
  have lim: "unat (b2 div t) < 65536" "unat (b3 div t) < 65536" "unat (b4 div t) < 65536" "unat (u 1 div t) < 65536"
    using step(2) d unfolding b2_def b3_def b4_def by (simp_all add: unat_div) (meson div_le_dividend le_less_trans)
  have "q = join_ul (COMBINE (u 1 div t) (b2 div t)) (COMBINE (b3 div t) (b4 div t))" "r = ucast (b4 mod t)"
    using assms(4) unfolding short_divide_def Let_def b2_def b3_def b4_def by simp_all
  then have q: "unat q = ((unat (u 1) div ?t * 65536 + unat b2 div ?t) * 65536 + unat b3 div ?t) * 65536 + unat b4 div ?t"
    and "unat r = unat (b4 mod t)" using lim by (simp_all add: unat_join_ul unat_COMBINE unat_div unat_ucast64) 
  then have e: "dval u 1 4 = unat q * ?t + unat r" "unat r < ?t"
    using short_chain[of "unat (u 1)" "unat (u 1) div ?t" ?t "unat (u 1) mod ?t" 65536 "unat (u 2)" "unat b2 div ?t" "unat b2 mod ?t"
      "unat (u 3)" "unat b3 div ?t" "unat b3 mod ?t" "unat (u 4)" "unat b4 div ?t" "unat b4 mod ?t"] b assms(2)
    using \<open>unat r = unat (b4 mod t)\<close> unfolding dval_4 by (simp_all add: unat_mod)
  then show ?thesis by simp
qed


lemma skip_v_ok:
  assumes "v 1 \<noteq> 0 \<or> v 2 \<noteq> 0 \<or> v 3 \<noteq> 0 \<or> v 4 \<noteq> 0" "skip_v v 0 4 = (vo, n)"
  shows "n = 1 \<and> vo = 2 \<and> v 1 = 0 \<and> v 2 = 0 \<and> v 3 = 0 \<and> v 4 \<noteq> 0
    \<or> 2 \<le> n \<and> vo + n = 4 \<and> v (vo + 1) \<noteq> 0 \<and> (\<forall>i. 1 \<le> i \<and> i < vo + 1 \<longrightarrow> v i = 0)"
proof -
  have four: "(4 :: nat) = Suc (Suc (Suc (Suc 0)))" by simp
  show ?thesis using assms unfolding four by (auto simp: numeral_2_eq_2 numeral_3_eq_3 le_Suc_eq less_Suc_eq split: if_splits)
qed

lemma skip_u_ok: "uo \<le> e \<Longrightarrow> (\<forall>i. uo < i \<and> i \<le> e \<longrightarrow> u i = 0) \<Longrightarrow> u (e + 1) \<noteq> 0 \<Longrightarrow> skip_u u uo m = Some (e, m - int (e - uo))"
proof (induction "e - uo" arbitrary: uo m)
  case 0
  then show ?case by (subst skip_u.simps) simp
next
  case (Suc k)
  then have "uo + 1 \<le> e" "k = e - (uo + 1)" by simp_all
  from Suc.hyps(1)[OF this(2,1)] Suc.prems have "skip_u u (uo + 1) (m - 1) = Some (e, m - 1 - int (e - (uo + 1)))" by simp
  moreover have "u (uo + 1) = 0" using Suc.prems(2) \<open>uo + 1 \<le> e\<close> by simp
  moreover have "m - 1 - int (e - (uo + 1)) = m - int (e - uo)" using \<open>uo + 1 \<le> e\<close> by simp
  ultimately show ?case by (subst skip_u.simps) simp
qed

lemma find_shift_ok:
  assumes "0 < unat t" "unat t < 65536"
  shows "\<exists>e\<le>15. find_shift t d = Some (d + e) \<and> 32768 \<le> unat t * 2 ^ e \<and> unat t * 2 ^ e < 65536"
  using assms
proof (induction "32768 - unat t" arbitrary: t d rule: less_induct)
  case less
  have b: "t < BASE div 2 \<longleftrightarrow> unat t < 32768" by (simp add: word_less_nat_alt BASE_def unat_div)
  show ?case
  proof (cases "unat t < 32768")
    case False
    then show ?thesis using b less.prems by (intro exI[of _ 0]) (subst find_shift.simps, simp)
  next
    case True
    have p: "unat (push_bit 1 t) = 2 * unat t" using True unfolding unat_push_bit32 by simp
    have "32768 - unat (push_bit 1 t) < 32768 - unat t" "0 < unat (push_bit 1 t)" "unat (push_bit 1 t) < 65536"
      using True less.prems unfolding p by simp_all
    from less.hyps[OF this, of "d + 1"] obtain e where e: "find_shift (push_bit 1 t) (d + 1) = Some (d + 1 + e)"
      "32768 \<le> unat t * 2 ^ Suc e" "unat t * 2 ^ Suc e < 65536" unfolding p by (auto simp: algebra_simps)
    have "1 * 2 ^ Suc e \<le> unat t * 2 ^ Suc e" using less.prems(1) by (intro mult_le_mono1) simp
    then have "(2 :: nat) ^ Suc e < 65536" using e(3) by linarith
    then have "(2 :: nat) ^ Suc e < 2 ^ 16" by simp
    then have "Suc e \<le> 15" using power_less_imp_less_exp[of "2 :: nat" "Suc e" 16] by simp
    then show ?thesis using e True b by (intro exI[of _ "Suc e"]) (subst find_shift.simps, simp)
  qed
qed

lemma dval_shift: "dval (\<lambda>i. f (o1 + i)) a k = dval f (o1 + a) k" by (induction k) (simp_all add: add.assoc)
lemma small_shift: "small (\<lambda>i. f (o1 + i)) a k = small f (o1 + a) k" by (simp add: small_def add.assoc)

text \<open>\<open>n\<close> digits with a first digit that is not zero.\<close>

lemma leading:
  assumes "dval f 1 4 = x" "\<forall>i. 1 \<le> i \<and> i < o1 + 1 \<longrightarrow> f i = 0" "o1 + n = 4"
  shows "dval f (o1 + 1) n = x"
proof -
  have "dval f 1 o1 = 0" by (rule dval_zero) (use assms(2) in auto)
  then show ?thesis using dval_append[of f 1 o1 n] assms(1,3) by (simp add: add.commute)
qed

lemma shl_ok:
  assumes "small p i (Suc k)" "d \<le> 15" "dval p i (Suc k) * 2 ^ d < 65536 ^ Suc k"
  shows "dval (if d > 0 then shl i k d p else p) i (Suc k) = dval p i (Suc k) * 2 ^ d \<and> small (if d > 0 then shl i k d p else p) i (Suc k)
    \<and> (\<forall>j. j \<notin> {i..i + k} \<longrightarrow> (if d > 0 then shl i k d p else p) j = p j)"
proof (cases "d > 0")
  case True
  from shl_loop_ok[OF assms(1), of d] assms(2) have "dval (shl i k d p) i (Suc k) = dval p i (Suc k) * 2 ^ d mod 65536 ^ Suc k"
    "small (shl i k d p) i (Suc k)" "\<forall>j. j \<notin> {i..i + k} \<longrightarrow> shl i k d p j = p j" unfolding shl_def by simp_all
  then show ?thesis using True mod_less[OF assms(3)] by simp
next
  case False
  then show ?thesis using assms(1) by simp
qed


text \<open>The shifted numbers satisfy what the loop over the digits needs.\<close>

lemma normalised:
  assumes "small u uo (Suc (m + n))" "u uo = 0" "small v (vo + 1) n" "2 \<le> n" "d \<le> 15"
    and "32768 \<le> unat (v (vo + 1)) * 2 ^ d" "unat (v (vo + 1)) * 2 ^ d < 65536"
  defines "u' \<equiv> if d > 0 then shl uo (m + n) d u else u" and "v' \<equiv> \<lambda>i. (if d > 0 then shl (vo + 1) (n - 1) d v else v) (vo + i)"
  shows "dval u' uo (n + (m + 1)) = dval u uo (Suc (m + n)) * 2 ^ d \<and> small u' uo (n + (m + 1)) \<and> (\<forall>j. j \<notin> {uo..uo + (m + n)} \<longrightarrow> u' j = u j)
    \<and> dval v' 1 n = dval v (vo + 1) n * 2 ^ d \<and> small v' 1 n \<and> 0 < unat (v' 1) \<and> dval u' uo n < dval v' 1 n"
proof -
  let ?U = "dval u uo (Suc (m + n))" and ?V = "dval v (vo + 1) n"
  obtain n' where n': "n = Suc n'" using assms(4) by (cases n) auto
  have p15: "(2 :: nat) ^ d \<le> 2 ^ 15" using assms(5) by (rule power_increasing) simp
  have "?U = dval u (uo + 1) (m + n)" unfolding dval_Cons using assms(2) by simp
  then have U: "?U < 65536 ^ (m + n)" using assms(1) dval_less by (simp only: small_Cons)
  have "?U * 2 ^ d < 65536 ^ (m + n) * 2 ^ d" using U by simp
  also have "\<dots> \<le> 65536 ^ (m + n) * 2 ^ 15" using p15 by (rule mult_le_mono2)
  finally have Ud: "?U * 2 ^ d < 65536 ^ (m + n) * 2 ^ 15" .
  then have "?U * 2 ^ d < 65536 ^ Suc (m + n)" by simp
  note u = shl_ok[OF assms(1,5) this, folded u'_def]
  have sum: "n + (m + 1) = Suc (m + n)" by simp
  have "?V < (unat (v (vo + 1)) + 1) * 65536 ^ n'"
    using dval_less[of v "vo + 1 + 1" n'] assms(3) unfolding n' dval_Cons small_Cons by simp
  then have "?V * 2 ^ d < (unat (v (vo + 1)) + 1) * 65536 ^ n' * 2 ^ d" by simp
  also have "\<dots> = (unat (v (vo + 1)) + 1) * 2 ^ d * 65536 ^ n'" by (simp add: algebra_simps)
  also have "\<dots> \<le> 65536 * 65536 ^ n'"
  proof (rule mult_le_mono1)
    have "(65536 :: nat) = 2 ^ (16 - d) * 2 ^ d" using assms(5) by (simp flip: power_add)
    then have "unat (v (vo + 1)) * 2 ^ d < 2 ^ (16 - d) * 2 ^ d" using assms(7) by simp
    then have "unat (v (vo + 1)) + 1 \<le> 2 ^ (16 - d)" by simp
    then show "(unat (v (vo + 1)) + 1) * 2 ^ d \<le> 65536" using mult_le_mono1 \<open>65536 = 2 ^ (16 - d) * 2 ^ d\<close> by metis
  qed
  finally have "dval v (vo + 1) (Suc n') * 2 ^ d < 65536 ^ Suc n'" unfolding n' power_Suc .
  from shl_ok[OF assms(3)[unfolded n'] assms(5) this]
  have v: "dval v' 1 n = ?V * 2 ^ d" "small v' 1 n" unfolding v'_def dval_shift small_shift n' diff_Suc_1 by blast+
  have "32768 * 65536 ^ n' \<le> unat (v (vo + 1)) * 2 ^ d * 65536 ^ n'" using assms(6) by (rule mult_le_mono1)
  also have "\<dots> \<le> ?V * 2 ^ d" unfolding n' dval_Cons by (simp add: algebra_simps)
  finally have V: "32768 * 65536 ^ n' \<le> dval v' 1 n" unfolding v(1) .
  have "dval u' uo n * 65536 ^ (m + 1) \<le> dval u' uo (n + (m + 1))" unfolding dval_append by simp
  also have "\<dots> < 65536 ^ (m + n) * 2 ^ 15" unfolding sum using u Ud by simp
  also have "\<dots> = 32768 * 65536 ^ n' * 65536 ^ (m + 1)" unfolding n' by (simp add: power_add)
  finally have "dval u' uo n < 32768 * 65536 ^ n'" by (simp only: mult_less_cancel2)
  then have lt: "dval u' uo n < dval v' 1 n" using V by (rule less_le_trans)
  have "0 < unat (v' 1)"
  proof (rule ccontr)
    assume "\<not> 0 < unat (v' 1)"
    then have "dval v' 1 n = dval v' 2 n'" unfolding n' dval_Cons by (simp add: numeral_2_eq_2)
    also have "\<dots> < 65536 ^ n'" using v(2) unfolding n' small_Cons by (intro dval_less) (simp add: numeral_2_eq_2)
    finally show False using V by simp
  qed
  then show ?thesis using u v lt unfolding sum by blast
qed

lemma remainder_ok:
  assumes "small u uo (n + (m + 1))" "dval u (uo + (m + 1)) n = R * 2 ^ d" "\<forall>i. uo \<le> i \<and> i < uo + (m + 1) \<longrightarrow> u i = 0"
    and "\<forall>i. i < uo \<longrightarrow> u i = 0" "uo + m + n = 4" "d \<le> 15"
  defines "r \<equiv> if d > 0 then unshift d (uo + (m + n)) n u else u"
  shows "unat (join_digits r) = R"
proof -
  let ?a = "uo + m"
  have s: "small u ?a (Suc n)" using small_drop[of u uo m "Suc n"] assms(1) by (simp add: algebra_simps)
  have z: "u i = 0" if "i \<le> ?a" for i using assms(3,4) that by (cases "i < uo") auto
  have D: "dval u ?a (Suc n) = R * 2 ^ d" using assms(2) z[of ?a] unfolding dval_Cons by (simp add: algebra_simps)
  have "dval u (?a + 1) n < 65536 ^ n" using s dval_less by (simp only: small_Cons)
  then have "R * 2 ^ d < 65536 ^ n" using assms(2) by (simp add: algebra_simps)
  moreover have "R * 1 \<le> R * 2 ^ d" by (rule mult_le_mono2) simp
  ultimately have R: "R < 65536 ^ n" by linarith
  have r: "dval r (?a + 1) n = R \<and> small r (?a + 1) n \<and> (\<forall>i. i \<le> ?a \<longrightarrow> r i = 0)"
  proof (cases "d > 0")
    case True
    have "d \<le> 16" using assms(6) by simp
    from unshift_ok[OF s this] have "dval r (?a + 1) n = dval u ?a (Suc n) div 2 ^ d mod 65536 ^ n" "small r (?a + 1) n" "r ?a = 0"
      "\<forall>j. j \<notin> {?a..?a + n} \<longrightarrow> r j = u j" using True unfolding r_def by (simp_all add: add.assoc)
    then show ?thesis using D R z by (auto simp: le_eq_less_or_eq)
  next
    case False
    then show ?thesis using s z D unfolding r_def by (simp add: dval_Cons small_Cons del: dval.simps)
  qed
  have "dval r 1 ?a = 0" by (rule dval_zero) (use r assms(5) in auto)
  moreover have four: "(4 :: nat) = ?a + n" using assms(5) by simp
  ultimately have "dval r 1 4 = R" using r dval_append[of r 1 ?a n] by (simp add: add.commute)
  moreover have "small r 1 4"
  proof (unfold small_def, intro allI impI)
    fix i :: nat assume "i < 4"
    show "unat (r (1 + i)) < 65536"
    proof (cases "1 + i \<le> ?a")
      case True
      then show ?thesis using r by simp
    next
      case False
      then have "1 + i = ?a + 1 + (i - ?a)" "i - ?a < n" using \<open>i < 4\<close> assms(5) by simp_all
      then show ?thesis using r small_at[of r "?a + 1" n "i - ?a"] by simp
    qed
  qed
  ultimately show ?thesis using join_digits_ok by simp
qed


lemma algorithm_d_ok:
  assumes u: "dval u 1 4 = U" "small u 1 4" "u 0 = 0" and v: "dval v 1 4 = V" "small v 1 4" "V \<le> U"
    and n: "2 \<le> n" "vo + n = 4" "v (vo + 1) \<noteq> 0" "\<forall>i. 1 \<le> i \<and> i < vo + 1 \<longrightarrow> v i = 0"
  shows "\<exists>q r. algorithm_d u v junk vo n arq = Some (q, if arq then Some r else None) \<and> unat q = U div V \<and> unat r = U mod V"
proof -
  have V: "dval v (vo + 1) n = V" by (rule leading[OF v(1) n(4,2)])
  have sv: "small v (vo + 1) n" using small_drop[of v 1 vo n] v(2) n(2) by (simp add: add.commute)
  obtain n' where n': "n = Suc n'" using n(1) by (cases n) auto
  have top: "0 < unat (v (vo + 1))" "unat (v (vo + 1)) < 65536" using n(3) sv unfolding n' small_Cons by (simp_all add: unat_gt_0)
  have "65536 ^ n' \<le> unat (v (vo + 1)) * 65536 ^ n'" using top(1) by simp
  then have big: "65536 ^ n' \<le> U" using V v(3) unfolding n' dval_Cons by linarith
  define e where "e = (LEAST i. u (i + 1) \<noteq> 0)"
  have "\<exists>i. u (i + 1) \<noteq> 0"
  proof (rule ccontr)
    assume "\<not> ?thesis"
    then have "dval u 1 4 = 0" by (intro dval_zero) (simp add: add.commute)
    then show False using big u(1) by simp
  qed
  then have e: "u (e + 1) \<noteq> 0" "\<And>i. i < e \<Longrightarrow> u (i + 1) = 0"
    unfolding e_def using LeastI_ex[of "\<lambda>i. u (i + 1) \<noteq> 0"] not_less_Least[of _ "\<lambda>i. u (i + 1) \<noteq> 0"] by blast+
  have z: "u i = 0" if "i \<le> e" for i using e(2)[of "i - 1"] u(3) that by (cases i) auto
  have "e + n \<le> 4"
  proof (rule ccontr)
    assume "\<not> e + n \<le> 4"
    then have lt: "4 - e \<le> n'" using n' by simp
    have "dval u 1 4 < 65536 ^ (4 - e)"
    proof (cases "e \<le> 4")
      case True
      then have "dval u 1 4 = dval u 1 e * 65536 ^ (4 - e) + dval u (1 + e) (4 - e)" using dval_append[of u 1 e "4 - e"] by simp
      moreover have "dval u 1 e = 0" by (rule dval_zero) (use z in auto)
      moreover have "small u (1 + e) (4 - e)" using small_drop[of u 1 e "4 - e"] u(2) True by simp
      ultimately show ?thesis using dval_less by simp
    next
      case False
      then have "dval u 1 4 = 0" by (intro dval_zero) (use z in auto)
      then show ?thesis by simp
    qed
    also have "\<dots> \<le> 65536 ^ n'" using lt by (rule power_increasing) simp
    finally show False using big u(1) by simp
  qed
  define m where "m = 4 - n - e"
  have sum: "e + m + n = 4" using \<open>e + n \<le> 4\<close> n(2) unfolding m_def by simp
  have su: "skip_u u 0 (int (4 - n)) = Some (e, int m)"
    using skip_u_ok[of 0 e u "int (4 - n)"] z e(1) \<open>e + n \<le> 4\<close> unfolding m_def by (simp add: of_nat_diff)
  obtain d where d: "d \<le> 15" "find_shift (v (vo + 1)) 0 = Some d" "32768 \<le> unat (v (vo + 1)) * 2 ^ d" "unat (v (vo + 1)) * 2 ^ d < 65536"
    using find_shift_ok[OF top, of 0] by auto
  have "dval u (e + 1) (m + n) = U" by (rule leading[OF u(1)]) (use z sum in auto)
  then have dU: "dval u e (Suc (m + n)) = U" unfolding dval_Cons using z[of e] by simp
  have "small u (1 + e) (m + n)" using small_drop[of u 1 e "m + n"] u(2) sum by (simp add: add.assoc)
  then have sU: "small u e (Suc (m + n))" using z[of e] by (simp add: small_Cons)
  let ?u = "if d > 0 then shl e (m + n) d u else u" and ?v = "\<lambda>i. (if d > 0 then shl (vo + 1) (n - 1) d v else v) (vo + i)"
  let ?q = "\<lambda>i. if i < 4 - m then 0 else junk i"
  note nm = normalised[OF sU z[OF order_refl] sv n(1) d(1,3,4), unfolded dU V]
  from nm have a: "small ?v 1 n" "0 < unat (?v 1)" "small ?u e (n + (m + 1))" "dval ?u e n < dval ?v 1 n" by blast+
  from divide_digits_ok[OF n(1) a, of "4 - m" ?q] obtain u' q' where
    run: "divide_digits n ?v e (4 - m) (m + 1) ?u ?q = Some (u', q')" and
    res: "dval q' (4 - m) (m + 1) = U * 2 ^ d div (V * 2 ^ d)" "dval u' (e + (m + 1)) n = U * 2 ^ d mod (V * 2 ^ d)" "small u' e (n + (m + 1))"
      "small q' (4 - m) (m + 1)" "\<forall>i. e \<le> i \<and> i < e + (m + 1) \<longrightarrow> u' i = 0" "\<forall>i. i \<notin> {e..<e + n + (m + 1)} \<longrightarrow> u' i = ?u i"
      "\<forall>i. i \<notin> {4 - m..<4 - m + (m + 1)} \<longrightarrow> q' i = ?q i" using nm by (metis (no_types, lifting))
  have "U * 2 ^ d div (V * 2 ^ d) = U div V" "U * 2 ^ d mod (V * 2 ^ d) = U mod V * 2 ^ d" by (simp_all add: mult_mod_left)
  note res' = res(1,2)[unfolded this]
  have "?u i = u i" if "i < e" for i using nm that by auto
  then have "\<forall>i. i < e \<longrightarrow> u' i = 0" using res(6) z by auto
  note rem = remainder_ok[OF res(3) res'(2) res(5) this sum d(1)]
  have m3: "m \<le> 3" using sum n(1) by simp
  have q: "small q' 1 4" "dval q' 1 4 = U div V"
  proof -
    have z: "q' i = 0" if "i < 4 - m" for i using res(7) that by simp
    have "(4 :: nat) = (3 - m) + (m + 1)" "1 + (3 - m) = 4 - m" using m3 by simp_all
    then have "dval q' 1 4 = dval q' 1 (3 - m) * 65536 ^ (m + 1) + dval q' (4 - m) (m + 1)" by (metis dval_append)
    moreover have "dval q' 1 (3 - m) = 0" by (rule dval_zero) (use z m3 in auto)
    ultimately show "dval q' 1 4 = U div V" using res'(1) by simp
    show "small q' 1 4"
    proof (unfold small_def, intro allI impI)
      fix i :: nat assume i: "i < 4"
      show "unat (q' (1 + i)) < 65536"
      proof (cases "1 + i < 4 - m")
        case True
        then show ?thesis using z by simp
      next
        case False
        then have "1 + i = 4 - m + (1 + i - (4 - m))" "1 + i - (4 - m) < m + 1" using i by simp_all
        then show ?thesis using small_at[OF res(4)] by metis
      qed
    qed
  qed
  define r where "r = join_digits (if d > 0 then unshift d (e + (m + n)) n u' else u')"
  have "algorithm_d u v junk vo n arq = Some (join_digits q', if arq then Some r else None)" unfolding r_def
    by (simp only: algorithm_d_def su d(2) bind.bind_lunit prod.case Let_def nat_int run option.map)
  then show ?thesis using rem[folded r_def] join_digits_ok[OF q(1)] q(2) by auto
qed

text \<open>C18: \<open>__qdivrem\<close> divides: for every 64-bit dividend and every divisor but zero it comes to an end, and returns the
  quotient and, where it is asked for, the remainder, whatever its uninitialised arrays held. So do \<open>__udivdi3\<close> and \<open>__umoddi3\<close>.\<close>

theorem qdivrem_divides:
  "qdivrem junk a b arq = (if b = 0 then None else Some (a div b, if arq then Some (a mod b) else None))
   \<and> udivdi3 junk a b = (if b = 0 then None else Some (a div b)) \<and> umoddi3 junk a b = (if b = 0 then None else Some (a mod b))"
proof -
  have main: "qdivrem junk a b arq = Some (a div b, if arq then Some (a mod b) else None)" if b: "b \<noteq> 0" for arq
  proof (cases "a < b")
    case True
    then have "a div b = 0 \<and> a mod b = a" by (simp add: div_word_less mod_word_less)
    then show ?thesis using True b by (simp add: qdivrem_def)
  next
    case False
    then have le: "unat b \<le> unat a" by (simp add: word_le_nat_alt not_less)
    let ?u = "(split_quad junk a)(0 := 0)" and ?v = "split_quad junk b"
    have u: "dval ?u 1 4 = unat a" "small ?u 1 4"
      using split_quad_ok[of junk a] dval_cong[of 4 ?u 1 "split_quad junk a"] small_cong[of 4 ?u 1 "split_quad junk a"] by auto
    have v: "dval ?v 1 4 = unat b" "small ?v 1 4" using split_quad_ok[of junk b] by auto
    obtain vo n where s: "skip_v ?v 0 4 = (vo, n)" by force
    have "?v 1 \<noteq> 0 \<or> ?v 2 \<noteq> 0 \<or> ?v 3 \<noteq> 0 \<or> ?v 4 \<noteq> 0"
    proof (rule ccontr)
      assume "\<not> ?thesis"
      then have "dval ?v 1 4 = 0" unfolding dval_4 by simp
      then show False using v(1) b by (simp add: unat_eq_zero)
    qed
    from skip_v_ok[OF this s] consider (short) "n = 1" "vo = 2" "?v 1 = 0" "?v 2 = 0" "?v 3 = 0" "?v 4 \<noteq> 0"
      | (long) "2 \<le> n" "vo + n = 4" "?v (vo + 1) \<noteq> 0" "\<forall>i. 1 \<le> i \<and> i < vo + 1 \<longrightarrow> ?v i = 0" by blast
    then obtain q r where "qdivrem junk a b arq = Some (q, if arq then Some r else None)" "unat q = unat a div unat b" "unat r = unat a mod unat b"
    proof cases
      case short
      have "unat (?v 4) = unat b" using v(1) short unfolding dval_4 by simp
      moreover obtain q r where qr: "short_divide ?u (?v 4) = (q, r)" by force
      moreover have "0 < unat (?v 4)" "unat (?v 4) < 65536" using short(6) v(2) unfolding small_4 by (simp_all add: unat_gt_0)
      ultimately have "unat q = unat a div unat b" "unat r = unat a mod unat b" using short_divide_ok[OF u(2) _ _ qr] u(1) by simp_all
      moreover have "qdivrem junk a b arq = Some (q, if arq then Some r else None)"
        using b False s short(1,2) qr by (simp add: qdivrem_def Let_def)
      ultimately show ?thesis using that by blast
    next
      case long
      from algorithm_d_ok[OF u _ v le long, of junk arq] obtain q r where
        "algorithm_d ?u ?v junk vo n arq = Some (q, if arq then Some r else None)" "unat q = unat a div unat b" "unat r = unat a mod unat b" by auto
      moreover have "n \<noteq> 1" using long(1) by simp
      ultimately show ?thesis using that b False s by (simp add: qdivrem_def Let_def)
    qed
    moreover then have "q = a div b" "r = a mod b" by (simp_all add: word_unat_eq_iff unat_div unat_mod)
    ultimately show ?thesis by simp
  qed
  have "qdivrem junk a 0 arq = None" for arq by (simp add: qdivrem_def)
  then show ?thesis using main by (cases "b = 0") (simp_all add: udivdi3_def umoddi3_def)
qed

end
