(* ===== verification/Qsort.thy ===== *)
theory Qsort
  imports Prelude "HOL-Library.Multiset"
begin

text \<open>
  The sorting routine \<open>410kern/stdlib/qsort.c\<close>: Bentley and McIlroy's quicksort with a three-way partition, which
  turns to insertion sort for short arrays and when the partition moved nothing. The array is a list of elements, a
  pointer the index of an element, \<open>cmp\<close> the caller's comparison function; \<open>swap\<close> and \<open>vecswap\<close> exchange whole elements,
  whatever the word size of the copies they are made of. The code makes no access outside the \<open>n\<close> elements from \<open>a\<close>, since what
  it does is a sequence of exchanges inside that range (\<open>swaps\<close>), for every comparison function.
\<close>

type_synonym 'a cmp = "'a \<Rightarrow> 'a \<Rightarrow> int"

section \<open>The code\<close>

definition swap :: "nat \<Rightarrow> nat \<Rightarrow> 'a list \<Rightarrow> 'a list" where
  "swap i j xs = xs[i := xs ! j, j := xs ! i]"

text \<open>\<open>swapfunc\<close> on blocks of \<open>k\<close> elements.\<close>

fun vecswap :: "nat \<Rightarrow> nat \<Rightarrow> nat \<Rightarrow> 'a list \<Rightarrow> 'a list" where
  "vecswap i j 0 xs = xs"
| "vecswap i j (Suc k) xs = vecswap (i + 1) (j + 1) k (swap i j xs)"

definition med3 :: "'a cmp \<Rightarrow> 'a list \<Rightarrow> nat \<Rightarrow> nat \<Rightarrow> nat \<Rightarrow> nat" where
  "med3 cmp xs a b c =
     (if cmp (xs ! a) (xs ! b) < 0
      then (if cmp (xs ! b) (xs ! c) < 0 then b else if cmp (xs ! a) (xs ! c) < 0 then c else a)
      else (if cmp (xs ! b) (xs ! c) > 0 then b else if cmp (xs ! a) (xs ! c) < 0 then a else c))"

text \<open>Insertion sort: the inner loop moves element \<open>a + k\<close> down.\<close>

fun sift :: "'a cmp \<Rightarrow> nat \<Rightarrow> nat \<Rightarrow> 'a list \<Rightarrow> 'a list" where
  "sift cmp a 0 xs = xs"
| "sift cmp a (Suc k) xs =
     (if cmp (xs ! (a + k)) (xs ! (a + Suc k)) > 0 then sift cmp a k (swap (a + Suc k) (a + k) xs) else xs)"

definition insertion_sort :: "'a cmp \<Rightarrow> nat \<Rightarrow> nat \<Rightarrow> 'a list \<Rightarrow> 'a list" where
  "insertion_sort cmp a n xs = fold (sift cmp a) [1..<n] xs"

definition pivot :: "'a cmp \<Rightarrow> nat \<Rightarrow> nat \<Rightarrow> 'a list \<Rightarrow> nat" where
  "pivot cmp a n xs =
     (let pm = a + n div 2
      in if n > 7
         then let pl = a; pn = a + (n - 1); d = n div 8;
                  (pl, pm, pn) =
                    (if n > 40
                     then (med3 cmp xs pl (pl + d) (pl + 2 * d), med3 cmp xs (pm - d) pm (pm + d), med3 cmp xs (pn - 2 * d) (pn - d) pn)
                     else (pl, pm, pn))
              in med3 cmp xs pl pm pn
         else pm)"

text \<open>The partition: the pivot is at \<open>a\<close>; elements equal to it gather before \<open>pa\<close> and behind \<open>pd\<close>, smaller ones
  up to \<open>pb\<close>, greater ones from \<open>pc\<close>.\<close>

record 'a part =
  pa :: nat
  pb :: nat
  pc :: nat
  pd :: nat
  swap_cnt :: bool
  arr :: "'a list"

partial_function (option) scan_up :: "'a cmp \<Rightarrow> nat \<Rightarrow> 'a part \<Rightarrow> 'a part option" where
  "scan_up cmp a s =
     (if pb s \<le> pc s \<and> cmp (arr s ! pb s) (arr s ! a) \<le> 0
      then scan_up cmp a
        (if cmp (arr s ! pb s) (arr s ! a) = 0
         then s\<lparr>swap_cnt := True, arr := swap (pa s) (pb s) (arr s), pa := pa s + 1, pb := pb s + 1\<rparr>
         else s\<lparr>pb := pb s + 1\<rparr>)
      else Some s)"

partial_function (option) scan_down :: "'a cmp \<Rightarrow> nat \<Rightarrow> 'a part \<Rightarrow> 'a part option" where
  "scan_down cmp a s =
     (if pb s \<le> pc s \<and> cmp (arr s ! pc s) (arr s ! a) \<ge> 0
      then scan_down cmp a
        (if cmp (arr s ! pc s) (arr s ! a) = 0
         then s\<lparr>swap_cnt := True, arr := swap (pc s) (pd s) (arr s), pd := pd s - 1, pc := pc s - 1\<rparr>
         else s\<lparr>pc := pc s - 1\<rparr>)
      else Some s)"

partial_function (option) partition_loop :: "'a cmp \<Rightarrow> nat \<Rightarrow> 'a part \<Rightarrow> 'a part option" where
  "partition_loop cmp a s =
     Option.bind (scan_up cmp a s) (\<lambda>s.
     Option.bind (scan_down cmp a s) (\<lambda>s.
       if pb s > pc s then Some s
       else partition_loop cmp a (s\<lparr>arr := swap (pb s) (pc s) (arr s), swap_cnt := True, pb := pb s + 1, pc := pc s - 1\<rparr>)))"

text \<open>The equal elements are brought to the middle.\<close>

definition gather :: "nat \<Rightarrow> nat \<Rightarrow> 'a part \<Rightarrow> 'a list" where
  "gather a n s =
     (let pn = a + n;
          r = min (pa s - a) (pb s - pa s); xs = vecswap a (pb s - r) r (arr s);
          r = min (pd s - pc s) (pn - pd s - 1)
      in vecswap (pb s) (pn - r) r xs)"

partial_function (option) qsort :: "'a cmp \<Rightarrow> nat \<Rightarrow> nat \<Rightarrow> 'a list \<Rightarrow> 'a list option" where
  "qsort cmp a n xs =
     (if n < 7 then Some (insertion_sort cmp a n xs)
      else Option.bind
        (partition_loop cmp a
           \<lparr>pa = a + 1, pb = a + 1, pc = a + (n - 1), pd = a + (n - 1), swap_cnt = False, arr = swap a (pivot cmp a n xs) xs\<rparr>)
        (\<lambda>s. if \<not> swap_cnt s then Some (insertion_sort cmp a n (arr s))
             else let xs = gather a n s; l = pb s - pa s; g = pd s - pc s
                  in Option.bind (if l > 1 then qsort cmp a l xs else Some xs)
                       (\<lambda>xs. if g > 1 then qsort cmp (a + n - g) g xs else Some xs)))"

section \<open>Exchanges\<close>

text \<open>A sequence of exchanges of elements from \<open>a\<close> on and before \<open>b\<close>.\<close>

inductive swaps :: "nat \<Rightarrow> nat \<Rightarrow> 'a list \<Rightarrow> 'a list \<Rightarrow> bool" for a b where
  none: "swaps a b xs xs"
| step: "swaps a b xs ys \<Longrightarrow> i \<in> {a..<b} \<Longrightarrow> j \<in> {a..<b} \<Longrightarrow> swaps a b xs (swap i j ys)"

lemma swap_length [simp]: "length (swap i j xs) = length xs" by (simp add: swap_def)

lemma nth_swap: "i < length xs \<Longrightarrow> j < length xs \<Longrightarrow> swap i j xs ! k = (if k = j then xs ! i else if k = i then xs ! j else xs ! k)"
  by (simp add: swap_def nth_list_update)

lemma swaps_trans: "swaps a b ys zs \<Longrightarrow> swaps a b xs ys \<Longrightarrow> swaps a b xs zs"
  by (induction rule: swaps.induct) (auto intro: swaps.intros)

lemma swaps_mono: "swaps a b xs ys \<Longrightarrow> a' \<le> a \<Longrightarrow> b \<le> b' \<Longrightarrow> swaps a' b' xs ys"
  by (induction rule: swaps.induct) (auto intro: swaps.intros)

lemma swaps_length: "swaps a b xs ys \<Longrightarrow> length ys = length xs"
  by (induction rule: swaps.induct) auto

lemma swaps_mset: "swaps a b xs ys \<Longrightarrow> b \<le> length xs \<Longrightarrow> mset ys = mset xs"
proof (induction rule: swaps.induct)
  case (step xs ys i j)
  then have "i < length ys" "j < length ys" by (auto dest: swaps_length)
  then show ?case using step by (simp add: swap_def mset_swap)
qed simp

lemma swaps_outside: "swaps a b xs ys \<Longrightarrow> b \<le> length xs \<Longrightarrow> k \<notin> {a..<b} \<Longrightarrow> ys ! k = xs ! k"
proof (induction rule: swaps.induct)
  case (step xs ys i j)
  then have "i < length ys" "j < length ys" "k \<noteq> i" "k \<noteq> j" by (auto dest: swaps_length)
  then show ?case using step by (simp add: nth_swap)
qed simp

lemma swaps_all: "swaps a b xs ys \<Longrightarrow> b \<le> length xs \<Longrightarrow> \<forall>k\<in>{a..<b}. P (xs ! k) \<Longrightarrow> \<forall>k\<in>{a..<b}. P (ys ! k)"
proof (induction rule: swaps.induct)
  case (step xs ys i j)
  then have "i < length ys" "j < length ys" by (auto dest: swaps_length)
  then show ?case using step by (simp add: nth_swap)
qed simp

lemma swaps_one: "i \<in> {a..<b} \<Longrightarrow> j \<in> {a..<b} \<Longrightarrow> swaps a b xs (swap i j xs)"
  by (rule swaps.step[OF swaps.none])

lemma vecswap_swaps:
  "a \<le> i \<Longrightarrow> i + k \<le> b \<Longrightarrow> a \<le> j \<Longrightarrow> j + k \<le> b \<Longrightarrow> swaps a b xs (vecswap i j k xs)"
proof (induction k arbitrary: i j xs)
  case (Suc k)
  then have "swaps a b (swap i j xs) (vecswap (i + 1) (j + 1) k (swap i j xs))" by simp
  moreover have "swaps a b xs (swap i j xs)" using Suc.prems by (intro swaps_one) auto
  ultimately show ?case by (simp add: swaps_trans)
qed (simp add: swaps.none)

lemma nth_vecswap:
  "i + k \<le> j \<Longrightarrow> j + k \<le> length xs \<Longrightarrow>
   vecswap i j k xs ! m = (if i \<le> m \<and> m < i + k then xs ! (j + (m - i)) else if j \<le> m \<and> m < j + k then xs ! (i + (m - j)) else xs ! m)"
proof (induction k arbitrary: i j xs)
  case (Suc k)
  have "vecswap i j (Suc k) xs ! m = vecswap (i + 1) (j + 1) k (swap i j xs) ! m" by simp
  also have "\<dots> = (if i + 1 \<le> m \<and> m < i + 1 + k then swap i j xs ! (j + 1 + (m - (i + 1)))
      else if j + 1 \<le> m \<and> m < j + 1 + k then swap i j xs ! (i + 1 + (m - (j + 1))) else swap i j xs ! m)"
    using Suc.prems by (intro Suc.IH) auto
  also have "\<dots> = (if i \<le> m \<and> m < i + Suc k then xs ! (j + (m - i)) else if j \<le> m \<and> m < j + Suc k then xs ! (i + (m - j)) else xs ! m)"
  proof -
    have "i < length xs" "j < length xs" "i < j" using Suc.prems by auto
    then have n: "swap i j xs ! l = (if l = j then xs ! i else if l = i then xs ! j else xs ! l)" for l by (simp add: nth_swap)
    consider "m = i" | "m = j" | "i + 1 \<le> m" "m < i + 1 + k" | "j + 1 \<le> m" "m < j + 1 + k"
      | "m < i \<or> i + k < m" "m < j \<or> j + k < m" by linarith
    then show ?thesis
    proof cases
      case 5
      then have "\<not> (i \<le> m \<and> m < i + Suc k)" "\<not> (j \<le> m \<and> m < j + Suc k)" "\<not> (i + 1 \<le> m \<and> m < i + 1 + k)"
        "\<not> (j + 1 \<le> m \<and> m < j + 1 + k)" "m \<noteq> i" "m \<noteq> j" by linarith+
      then show ?thesis by (simp only: n if_False)
    next
      case 3
      then obtain t where "m = i + 1 + t" "t < k" using le_Suc_ex[of "i + 1" m] by auto
      then show ?thesis using Suc.prems \<open>i < j\<close> by (simp add: n)
    next
      case 4
      then obtain t where "m = j + 1 + t" "t < k" using le_Suc_ex[of "j + 1" m] by auto
      then show ?thesis using Suc.prems \<open>i < j\<close> by (simp add: n)
    qed (use Suc.prems \<open>i < j\<close> in \<open>simp_all add: n\<close>)
  qed
  finally show ?case .
qed auto

lemma sift_swaps: "swaps a (a + Suc k) xs (sift cmp a k xs)"
proof (induction k arbitrary: xs)
  case (Suc k)
  have "swaps a (a + Suc (Suc k)) xs (swap (a + Suc k) (a + k) xs)" by (intro swaps_one) auto
  moreover have "swaps a (a + Suc (Suc k)) ys (sift cmp a k ys)" for ys using Suc.IH[of ys] by (rule swaps_mono) auto
  ultimately show ?case by (auto intro: swaps_trans swaps.none)
qed (simp add: swaps.none)

lemma fold_sift_swaps: "\<forall>k\<in>set ks. k < n \<Longrightarrow> swaps a (a + n) xs (fold (sift cmp a) ks xs)"
proof (induction ks arbitrary: xs)
  case (Cons k ks)
  have "swaps a (a + n) xs (sift cmp a k xs)" using sift_swaps by (rule swaps_mono) (use Cons.prems in auto)
  then show ?case using Cons by (auto intro: swaps_trans)
qed (simp add: swaps.none)

lemma insertion_sort_swaps: "swaps a (a + n) xs (insertion_sort cmp a n xs)"
  unfolding insertion_sort_def by (rule fold_sift_swaps) simp


section \<open>The partition\<close>

text \<open>What the partition keeps: the three kinds of elements by their place, for any comparison function.\<close>

definition part_inv :: "'a cmp \<Rightarrow> nat \<Rightarrow> nat \<Rightarrow> 'a list \<Rightarrow> 'a part \<Rightarrow> bool" where
  "part_inv cmp a n xs s \<longleftrightarrow> a + n \<le> length xs \<and> swaps a (a + n) xs (arr s)
     \<and> a < pa s \<and> pa s \<le> pb s \<and> pb s \<le> pc s + 1 \<and> pc s \<le> pd s \<and> pd s < a + n
     \<and> (\<forall>i. a < i \<and> i < pa s \<longrightarrow> cmp (arr s ! i) (arr s ! a) = 0)
     \<and> (\<forall>i. pa s \<le> i \<and> i < pb s \<longrightarrow> cmp (arr s ! i) (arr s ! a) < 0)
     \<and> (\<forall>i. pc s < i \<and> i \<le> pd s \<longrightarrow> cmp (arr s ! i) (arr s ! a) > 0)
     \<and> (\<forall>i. pd s < i \<and> i < a + n \<longrightarrow> cmp (arr s ! i) (arr s ! a) = 0)"

lemma part_len: "part_inv cmp a n xs s \<Longrightarrow> a + n \<le> length (arr s)"
  by (auto simp: part_inv_def dest: swaps_length)

text \<open>One exchange of two places behind the pivot.\<close>

lemma part_swap:
  assumes "part_inv cmp a n xs s" "a < i" "i < a + n" "a < j" "j < a + n"
  shows "swaps a (a + n) xs (swap i j (arr s))"
    and "swap i j (arr s) ! k = (if k = j then arr s ! i else if k = i then arr s ! j else arr s ! k)"
    and "swap i j (arr s) ! a = arr s ! a"
proof -
  show "swaps a (a + n) xs (swap i j (arr s))" using assms by (auto simp: part_inv_def intro: swaps.step)
  have "i < length (arr s)" "j < length (arr s)" using part_len[OF assms(1)] assms by auto
  then show n: "swap i j (arr s) ! k = (if k = j then arr s ! i else if k = i then arr s ! j else arr s ! k)" for k by (rule nth_swap)
  show "swap i j (arr s) ! a = arr s ! a" using assms by (simp add: n)
qed

lemma scan_up_ok:
  assumes "part_inv cmp a n xs s"
  shows "\<exists>s'. scan_up cmp a s = Some s' \<and> part_inv cmp a n xs s' \<and> pc s' = pc s
    \<and> pb s \<le> pb s' \<and> \<not> (pb s' \<le> pc s' \<and> cmp (arr s' ! pb s') (arr s' ! a) \<le> 0)"
  using assms
proof (induction "pc s + 1 - pb s" arbitrary: s rule: less_induct)
  case less
  note I = less.prems[unfolded part_inv_def]
  show ?case
  proof (cases "pb s \<le> pc s \<and> cmp (arr s ! pb s) (arr s ! a) \<le> 0")
    case False
    then have "scan_up cmp a s = Some s" by (subst scan_up.simps) auto
    then show ?thesis using False less.prems by auto
  next
    case True
    let ?s = "if cmp (arr s ! pb s) (arr s ! a) = 0
         then s\<lparr>swap_cnt := True, arr := swap (pa s) (pb s) (arr s), pa := pa s + 1, pb := pb s + 1\<rparr> else s\<lparr>pb := pb s + 1\<rparr>"
    have b: "pb s < a + n" "a < pb s" using I True by auto
    note sw = part_swap[OF less.prems, of "pa s" "pb s"]
    have "part_inv cmp a n xs ?s"
    proof (cases "cmp (arr s ! pb s) (arr s ! a) = 0")
      case eq: True
      have "pa s < a + n" using I b by simp
      note sw = sw[OF _ this b(2,1)]
      show ?thesis using eq I True b sw(1) unfolding part_inv_def by (auto simp: sw(2,3) less_Suc_eq)
    next
      case False
      then show ?thesis using I True b unfolding part_inv_def by (auto simp: less_Suc_eq)
    qed
    note inv = this
    have e: "pc ?s = pc s" "pb ?s = pb s + 1" by simp_all
    have "pc ?s + 1 - pb ?s < pc s + 1 - pb s" unfolding e using conjunct1[OF True] by linarith
    from less.hyps[OF this inv, unfolded e] obtain s' where "scan_up cmp a ?s = Some s'" "part_inv cmp a n xs s'" "pc s' = pc s" "pb s + 1 \<le> pb s'"
      "\<not> (pb s' \<le> pc s' \<and> cmp (arr s' ! pb s') (arr s' ! a) \<le> 0)" by blast
    moreover from this(1) have "scan_up cmp a s = Some s'" using True by (subst scan_up.simps) simp
    ultimately show ?thesis by auto
  qed
qed

lemma scan_down_ok:
  assumes "part_inv cmp a n xs s"
  shows "\<exists>s'. scan_down cmp a s = Some s' \<and> part_inv cmp a n xs s' \<and> pb s' = pb s
    \<and> pc s' \<le> pc s \<and> \<not> (pb s' \<le> pc s' \<and> cmp (arr s' ! pc s') (arr s' ! a) \<ge> 0) \<and> (pb s' \<le> pc s' \<longrightarrow> arr s' ! pb s' = arr s ! pb s)
    \<and> arr s' ! a = arr s ! a"
  using assms
proof (induction "pc s + 1 - pb s" arbitrary: s rule: less_induct)
  case less
  note I = less.prems[unfolded part_inv_def]
  show ?case
  proof (cases "pb s \<le> pc s \<and> cmp (arr s ! pc s) (arr s ! a) \<ge> 0")
    case False
    then have "scan_down cmp a s = Some s" by (subst scan_down.simps) auto
    then show ?thesis using False less.prems by auto
  next
    case True
    let ?s = "if cmp (arr s ! pc s) (arr s ! a) = 0
         then s\<lparr>swap_cnt := True, arr := swap (pc s) (pd s) (arr s), pd := pd s - 1, pc := pc s - 1\<rparr> else s\<lparr>pc := pc s - 1\<rparr>"
    have b: "pc s < a + n" "a < pc s" "a < pd s" "pd s < a + n" using I True by auto
    note sw = part_swap[OF less.prems b(2,1,3,4)]
    have inv: "part_inv cmp a n xs ?s"
    proof (cases "cmp (arr s ! pc s) (arr s ! a) = 0")
      case eq: True
      have "i \<le> pd s - 1 \<longleftrightarrow> i < pd s" "pc s - 1 < i \<longleftrightarrow> pc s \<le> i" "pd s - 1 < i \<longleftrightarrow> pd s \<le> i" "pb s \<le> pc s - 1 + 1" for i
        using b True by auto
      then show ?thesis using eq I True b sw(1) unfolding part_inv_def by (auto simp: sw(2,3) le_less)
    next
      case False
      then have "cmp (arr s ! i) (arr s ! a) > 0" if "pc s - 1 < i" "i \<le> pd s" for i
        using I True that by (cases "i = pc s") auto
      then show ?thesis using False I True b unfolding part_inv_def by auto
    qed
    have e: "pc ?s = pc s - 1" "pb ?s = pb s" by simp_all
    have "pc ?s + 1 - pb ?s < pc s + 1 - pb s" unfolding e using conjunct1[OF True] b by linarith
    from less.hyps[OF this inv, unfolded e] obtain s' where s': "scan_down cmp a ?s = Some s'" "part_inv cmp a n xs s'" "pb s' = pb s" "pc s' \<le> pc s - 1"
      "\<not> (pb s' \<le> pc s' \<and> cmp (arr s' ! pc s') (arr s' ! a) \<ge> 0)" "pb s' \<le> pc s' \<longrightarrow> arr s' ! pb s' = arr ?s ! pb s" "arr s' ! a = arr ?s ! a" by blast
    have "arr ?s ! pb s = arr s ! pb s" if "pb s' \<le> pc s'"
    proof -
      have "pb s < pc s" using that s'(3,4) b(2) by linarith
      then show ?thesis using I sw(2) by auto
    qed
    moreover have "scan_down cmp a s = Some s'" using True s'(1) by (subst scan_down.simps) simp
    moreover have "pc s' \<le> pc s" using s'(4) by simp
    moreover have "arr s' ! a = arr s ! a" using s'(7) sw(3) by simp
    ultimately show ?thesis using s'(2,3,5,6) by (intro exI[of _ s']) simp
  qed
qed

lemma partition_ok:
  assumes "part_inv cmp a n xs s"
  shows "\<exists>s'. partition_loop cmp a s = Some s' \<and> part_inv cmp a n xs s' \<and> pb s' = pc s' + 1"
  using assms
proof (induction "pc s + 1 - pb s" arbitrary: s rule: less_induct)
  case less
  from scan_up_ok[OF less.prems] obtain s1 where s1: "scan_up cmp a s = Some s1" "part_inv cmp a n xs s1" "pc s1 = pc s" "pb s \<le> pb s1"
    "\<not> (pb s1 \<le> pc s1 \<and> cmp (arr s1 ! pb s1) (arr s1 ! a) \<le> 0)" by blast
  from scan_down_ok[OF s1(2)] obtain s2 where s2: "scan_down cmp a s1 = Some s2" "part_inv cmp a n xs s2" "pb s2 = pb s1" "pc s2 \<le> pc s1"
    "\<not> (pb s2 \<le> pc s2 \<and> cmp (arr s2 ! pc s2) (arr s2 ! a) \<ge> 0)" "pb s2 \<le> pc s2 \<longrightarrow> arr s2 ! pb s2 = arr s1 ! pb s1" "arr s2 ! a = arr s1 ! a" by blast
  note I = s2(2)[unfolded part_inv_def]
  show ?case
  proof (cases "pb s2 > pc s2")
    case True
    then have "pb s2 = pc s2 + 1" using I by simp
    then show ?thesis using s1(1) s2(1,2) True by (intro exI[of _ s2]) (subst partition_loop.simps, simp)
  next
    case False
    let ?s = "s2\<lparr>arr := swap (pb s2) (pc s2) (arr s2), swap_cnt := True, pb := pb s2 + 1, pc := pc s2 - 1\<rparr>"
    have b: "a < pb s2" "pb s2 < a + n" "a < pc s2" "pc s2 < a + n" using I False by auto
    note sw = part_swap[OF s2(2) b]
    have lt: "cmp (arr s2 ! pc s2) (arr s2 ! a) < 0" using s2(5) False by simp
    have gt: "cmp (arr s2 ! pb s2) (arr s2 ! a) > 0" using s1(5) s2(3,4,6,7) False by auto
    have ne: "pb s2 \<noteq> pc s2" using lt gt by auto
    have "part_inv cmp a n xs ?s" using I False b sw(1) lt gt ne unfolding part_inv_def by (auto simp: sw(2,3) less_Suc_eq)
    moreover have "pc ?s + 1 - pb ?s < pc s + 1 - pb s" using False s1(3,4) s2(3,4) by simp
    ultimately obtain s' where "partition_loop cmp a ?s = Some s'" "part_inv cmp a n xs s'" "pb s' = pc s' + 1" using less.hyps by blast
    moreover from this(1) have "partition_loop cmp a s = Some s'" using s1(1) s2(1) False by (subst partition_loop.simps) simp
    ultimately show ?thesis by blast
  qed
qed


text \<open>After the equal elements are in the middle.\<close>

lemma gather_ok:
  assumes I: "part_inv cmp a n xs s" and e: "pb s = pc s + 1" and d: "l = pb s - pa s" "g = pd s - pc s" "p = arr s ! a"
  shows "swaps a (a + n) xs (gather a n s)" "l + g < n"
    and "\<forall>i\<in>{a..<a + l}. cmp (gather a n s ! i) p < 0"
    and "\<forall>i\<in>{a + l..<a + n - g}. gather a n s ! i = p \<or> cmp (gather a n s ! i) p = 0"
    and "\<forall>i\<in>{a + n - g..<a + n}. cmp (gather a n s ! i) p > 0"
proof -
  note J = I[unfolded part_inv_def]
  let ?ys = "gather a n s" and ?pn = "a + n"
  define r1 where "r1 = min (pa s - a) (pb s - pa s)"
  define r2 where "r2 = min (pd s - pc s) (?pn - pd s - 1)"
  define zs where "zs = vecswap a (pb s - r1) r1 (arr s)"
  have ys: "?ys = vecswap (pb s) (?pn - r2) r2 zs" by (simp add: gather_def Let_def r1_def r2_def zs_def)
  have bounds: "a < pa s" "pa s \<le> pb s" "pb s \<le> pd s + 1" "pd s < ?pn" "pb s + g = pd s + 1" "pa s + l = pb s" using J e d by auto
  have r: "r1 \<le> l" "a + r1 \<le> pa s" "r1 = l \<or> a + r1 = pa s" "r2 \<le> g" "pd s + 1 + r2 \<le> ?pn" "r2 = g \<or> pd s + 1 + r2 = ?pn"
    using bounds d unfolding r1_def r2_def by auto
  have len: "?pn \<le> length (arr s)" using I by (rule part_len)
  have sz: "swaps a ?pn (arr s) zs" unfolding zs_def using bounds r by (intro vecswap_swaps) auto
  moreover have "swaps a ?pn zs ?ys" unfolding ys using bounds r by (intro vecswap_swaps) auto
  ultimately show "swaps a ?pn xs ?ys" using J by (meson swaps_trans)
  show "l + g < n" using bounds by linarith
  have lz: "?pn \<le> length zs" using sz len by (simp add: swaps_length)
  have nz: "zs ! m = (if a \<le> m \<and> m < a + r1 then arr s ! (pb s - r1 + (m - a)) else if pb s - r1 \<le> m \<and> m < pb s - r1 + r1 then arr s ! (a + (m - (pb s - r1))) else arr s ! m)" for m
    unfolding zs_def using bounds r len by (intro nth_vecswap) auto
  have ny: "?ys ! m = (if pb s \<le> m \<and> m < pb s + r2 then zs ! (?pn - r2 + (m - pb s)) else if ?pn - r2 \<le> m \<and> m < ?pn - r2 + r2 then zs ! (pb s + (m - (?pn - r2))) else zs ! m)" for m
    unfolding ys using bounds r lz by (intro nth_vecswap) auto
  have low: "?ys ! m = zs ! m" if "m < pb s" for m using ny[of m] that bounds r by auto
  have high: "zs ! m = arr s ! m" if "pb s \<le> m" for m using nz[of m] that bounds r by auto
  have less: "cmp (arr s ! m) p < 0" if "pa s \<le> m" "m < pb s" for m using J that d(3) by blast
  have eq1: "arr s ! m = p \<or> cmp (arr s ! m) p = 0" if "a \<le> m" "m < pa s" for m using J that d(3) by (cases "m = a") auto
  have more: "cmp (arr s ! m) p > 0" if "pb s \<le> m" "m \<le> pd s" for m using J that d(3) e by auto
  have eq2: "cmp (arr s ! m) p = 0" if "pd s < m" "m < ?pn" for m using J that d(3) by blast
  show "\<forall>i\<in>{a..<a + l}. cmp (?ys ! i) p < 0"
  proof
    fix m assume "m \<in> {a..<a + l}"
    then have m: "a \<le> m" "m < a + l" by auto
    have "m < pb s" using m bounds by linarith
    moreover have "cmp (zs ! m) p < 0"
    proof (cases "m < a + r1")
      case True
      then have "zs ! m = arr s ! (pb s - r1 + (m - a))" using nz m by simp
      moreover have "pa s \<le> pb s - r1 + (m - a)" "pb s - r1 + (m - a) < pb s" using True m r bounds by linarith+
      ultimately show ?thesis using less by simp
    next
      case False
      then have "a + r1 = pa s" using r m by auto
      then have "pa s \<le> m" "m < pb s - r1" using False m bounds by linarith+
      then show ?thesis using less[of m] nz[of m] False by simp
    qed
    ultimately show "cmp (?ys ! m) p < 0" by (simp add: low)
  qed
  show "\<forall>i\<in>{a + l..<?pn - g}. ?ys ! i = p \<or> cmp (?ys ! i) p = 0"
  proof
    fix m assume "m \<in> {a + l..<?pn - g}"
    then have m: "a + l \<le> m" "m < ?pn - g" by auto
    show "?ys ! m = p \<or> cmp (?ys ! m) p = 0"
    proof (cases "m < pb s")
      case True
      have "zs ! m = p \<or> cmp (zs ! m) p = 0"
      proof (cases "pb s - r1 \<le> m")
        case c: True
        then have "zs ! m = arr s ! (a + (m - (pb s - r1)))" using nz[of m] m r True by auto
        moreover have "a + (m - (pb s - r1)) < pa s" using c True r bounds by linarith
        ultimately show ?thesis using eq1[of "a + (m - (pb s - r1))"] by simp
      next
        case False
        then have "r1 = l" using r m bounds by linarith
        then have "m < pa s" "a + r1 \<le> m" using False m bounds by linarith+
        then show ?thesis using eq1[of m] nz[of m] False m by simp
      qed
      then show ?thesis using low[OF True] by simp
    next
      case False
      have "cmp (?ys ! m) p = 0"
      proof (cases "m < pb s + r2")
        case c: True
        then have "?ys ! m = arr s ! (?pn - r2 + (m - pb s))" using ny[of m] high False bounds r by simp
        moreover have "pd s < ?pn - r2 + (m - pb s)" "?pn - r2 + (m - pb s) < ?pn" using c False r bounds by linarith+
        ultimately show ?thesis using eq2 by simp
      next
        case c: False
        then have "r2 = g" using r m bounds by linarith
        then have "pd s < m" "m < ?pn - r2" "m < ?pn" using c m bounds by linarith+
        then show ?thesis using eq2[of m] ny[of m] high[of m] c False by simp
      qed
      then show ?thesis by simp
    qed
  qed
  show "\<forall>i\<in>{?pn - g..<?pn}. cmp (?ys ! i) p > 0"
  proof
    fix m assume "m \<in> {?pn - g..<?pn}"
    then have m: "?pn - g \<le> m" "m < ?pn" by auto
    show "cmp (?ys ! m) p > 0"
    proof (cases "?pn - r2 \<le> m")
      case True
      then have "\<not> m < pb s + r2" "m < ?pn - r2 + r2" using m bounds r by linarith+
      then have "?ys ! m = arr s ! (pb s + (m - (?pn - r2)))" using True m ny[of m] high[of "pb s + (m - (?pn - r2))"] by simp
      moreover have "pb s + (m - (?pn - r2)) \<le> pd s" using True m r bounds by linarith
      ultimately show ?thesis using more by simp
    next
      case False
      then have "pd s + 1 + r2 = ?pn" using r m by linarith
      then have "pb s + r2 \<le> m" "m \<le> pd s" "pb s \<le> m" using False m bounds by linarith+
      then show ?thesis using more[of m] ny[of m] high[of m] False by simp
    qed
  qed
qed

lemma med3_cases: "med3 cmp xs a b c \<in> {a, b, c}" by (simp add: med3_def)

lemma pivot_range:
  assumes "7 \<le> n"
  shows "pivot cmp a n xs \<in> {a..<a + n}"
proof -
  have in3: "med3 cmp xs i j k \<in> {a..<a + n}" if "i \<in> {a..<a + n}" "j \<in> {a..<a + n}" "k \<in> {a..<a + n}" for i j k
    using med3_cases[of cmp xs i j k] that by auto
  have d: "2 * (n div 8) \<le> n - 1" "n div 8 \<le> n div 2" "n div 2 + n div 8 < n" using assms by auto
  have "pivot cmp a n xs \<in> {a..<a + n}" if "n > 40"
    unfolding pivot_def Let_def using that d by (simp del: atLeastLessThan_iff) (intro in3; auto)
  moreover have "pivot cmp a n xs \<in> {a..<a + n}" if "\<not> n > 40"
    unfolding pivot_def Let_def using that assms by (simp del: atLeastLessThan_iff) (intro conjI impI in3; auto)
  ultimately show ?thesis by blast
qed

lemma part_start:
  assumes "7 \<le> n" "a + n \<le> length xs"
  shows "part_inv cmp a n xs \<lparr>pa = a + 1, pb = a + 1, pc = a + (n - 1), pd = a + (n - 1), swap_cnt = c, arr = swap a (pivot cmp a n xs) xs\<rparr>"
proof -
  have "swaps a (a + n) xs (swap a (pivot cmp a n xs) xs)" using pivot_range[OF assms(1)] assms(1) by (intro swaps_one) auto
  then show ?thesis using assms by (auto simp: part_inv_def)
qed


section \<open>Sorting\<close>

text \<open>A comparison function that orders its arguments: the sign changes when they are exchanged, and it is transitive.\<close>

definition comparator :: "'a cmp \<Rightarrow> bool" where
  "comparator cmp \<longleftrightarrow> (\<forall>x y. cmp x y \<le> 0 \<longleftrightarrow> cmp y x \<ge> 0) \<and> (\<forall>x y z. cmp x y \<le> 0 \<longrightarrow> cmp y z \<le> 0 \<longrightarrow> cmp x z \<le> 0)"

definition ordered :: "'a cmp \<Rightarrow> nat \<Rightarrow> nat \<Rightarrow> 'a list \<Rightarrow> bool" where
  "ordered cmp a b xs \<longleftrightarrow> (\<forall>i j. a \<le> i \<and> i < j \<and> j < b \<longrightarrow> cmp (xs ! i) (xs ! j) \<le> 0)"

lemma comparator_refl: "comparator cmp \<Longrightarrow> cmp x x \<le> 0"
  unfolding comparator_def by (metis linear)

lemma comparator_flip: "comparator cmp \<Longrightarrow> cmp x y > 0 \<Longrightarrow> cmp y x < 0"
  unfolding comparator_def by (metis not_less)

lemma comparator_trans: "comparator cmp \<Longrightarrow> cmp x y \<le> 0 \<Longrightarrow> cmp y z \<le> 0 \<Longrightarrow> cmp x z \<le> 0"
  unfolding comparator_def by blast

lemma sift_ordered:
  assumes c: "comparator cmp"
  shows "a + m < length xs \<Longrightarrow> k \<le> m \<Longrightarrow>
    (\<forall>i j. a \<le> i \<and> i < j \<and> j \<le> a + m \<and> i \<noteq> a + k \<and> j \<noteq> a + k \<longrightarrow> cmp (xs ! i) (xs ! j) \<le> 0) \<Longrightarrow>
    (\<forall>j. a + k < j \<and> j \<le> a + m \<longrightarrow> cmp (xs ! (a + k)) (xs ! j) \<le> 0) \<Longrightarrow> ordered cmp a (a + Suc m) (sift cmp a k xs)"
proof (induction k arbitrary: xs)
  case 0
  then have "cmp (xs ! i) (xs ! j) \<le> 0" if "a \<le> i" "i < j" "j < a + Suc m" for i j
    using that by (cases "i = a") auto
  then show ?case by (simp add: ordered_def)
next
  case (Suc k)
  let ?i = "a + k" and ?j = "Suc (a + k)"
  show ?case
  proof (cases "cmp (xs ! ?i) (xs ! ?j) > 0")
    case True
    let ?xs = "swap ?j ?i xs"
    have n: "?xs ! l = (if l = ?i then xs ! ?j else if l = ?j then xs ! ?i else xs ! l)" for l using Suc.prems by (intro nth_swap) auto
    have "cmp (?xs ! i) (?xs ! j) \<le> 0" if "a \<le> i" "i < j" "j \<le> a + m" "i \<noteq> ?i" "j \<noteq> ?i" for i j
    proof (cases "j = ?j")
      case True
      then have "cmp (xs ! i) (xs ! ?i) \<le> 0" using Suc.prems(2,3) that by auto
      then show ?thesis using True that by (simp add: n)
    next
      case j: False
      show ?thesis
      proof (cases "i = ?j")
        case True
        then have "cmp (xs ! ?i) (xs ! j) \<le> 0" using Suc.prems(2,3) that by auto
        then show ?thesis using True that j by (simp add: n)
      next
        case False
        then show ?thesis using that j Suc.prems(3) by (simp add: n)
      qed
    qed
    moreover have "cmp (?xs ! ?i) (?xs ! j) \<le> 0" if "?i < j" "j \<le> a + m" for j
    proof (cases "j = ?j")
      case True
      have "cmp (xs ! ?j) (xs ! ?i) < 0" using comparator_flip[OF c] \<open>cmp (xs ! ?i) (xs ! ?j) > 0\<close> by blast
      then show ?thesis using True by (simp add: n)
    next
      case False
      then have "?j < j" using that by simp
      then show ?thesis using Suc.prems(4) that False by (simp add: n)
    qed
    ultimately have "ordered cmp a (a + Suc m) (sift cmp a k ?xs)" using Suc.prems(1,2) by (intro Suc.IH) auto
    then show ?thesis using True by simp
  next
    case False
    have "cmp (xs ! i) (xs ! j) \<le> 0" if "a \<le> i" "i < j" "j < a + Suc m" for i j
    proof -
      note ij = that
      consider "i = ?j" | "j = ?j" "i = ?i" | "j = ?j" "i < ?i" | "i \<noteq> ?j" "j \<noteq> ?j" using ij(2) by linarith
      then show ?thesis
      proof cases
        case 3
        then have "cmp (xs ! i) (xs ! ?i) \<le> 0" using Suc.prems(2,3) that by auto
        then show ?thesis using comparator_trans[OF c] False 3 by (metis not_less)
      qed (use Suc.prems(3,4) that False in auto)
    qed
    then show ?thesis using False by (simp add: ordered_def)
  qed
qed

lemma insertion_sort_ordered:
  assumes "comparator cmp" "a + n \<le> length xs"
  shows "ordered cmp a (a + n) (insertion_sort cmp a n xs)"
  using assms(2)
proof (induction n)
  case 0
  then show ?case by (simp add: ordered_def)
next
  case (Suc n)
  let ?ys = "insertion_sort cmp a n xs"
  have l: "length ?ys = length xs" using insertion_sort_swaps by (rule swaps_length)
  have o: "ordered cmp a (a + n) ?ys" using Suc by simp
  show ?case
  proof (cases n)
    case 0
    then show ?thesis by (simp add: ordered_def)
  next
    case (Suc n')
    have "insertion_sort cmp a (Suc n) xs = sift cmp a n ?ys" using Suc by (simp add: insertion_sort_def)
    moreover have "ordered cmp a (a + Suc n) (sift cmp a n ?ys)"
      by (rule sift_ordered[OF assms(1)]) (use o Suc.prems l in \<open>auto simp: ordered_def\<close>)
    ultimately show ?thesis by simp
  qed
qed

text \<open>Both parts of a partitioned range are sorted, and the pivot is between them.\<close>

lemma ordered_parts:
  assumes c: "comparator cmp" and "a + l \<le> b" "b \<le> d"
    and "ordered cmp a (a + l) ys" "ordered cmp b d ys"
    and "\<forall>i\<in>{a..<a + l}. cmp (ys ! i) p < 0" "\<forall>i\<in>{a + l..<b}. ys ! i = p \<or> cmp (ys ! i) p = 0" "\<forall>i\<in>{b..<d}. cmp (ys ! i) p > 0"
  shows "ordered cmp a d ys"
  unfolding ordered_def
proof (intro allI impI, elim conjE)
  fix i j assume ij: "a \<le> i" "i < j" "j < d"
  have below: "cmp (ys ! k) p \<le> 0" if "a \<le> k" "k < b" for k
    using assms(6,7) comparator_refl[OF c] that by (cases "k < a + l") force+
  have above: "cmp p (ys ! k) \<le> 0" if "a + l \<le> k" "k < d" for k
  proof -
    have "0 \<le> cmp (ys ! k) p" if "k < b" using assms(7) comparator_refl[OF c, of p] c that \<open>a + l \<le> k\<close>
      unfolding comparator_def by (metis atLeastLessThan_iff order_refl)
    moreover have "0 \<le> cmp (ys ! k) p" if "\<not> k < b" using bspec[OF assms(8), of k] that \<open>k < d\<close> by simp
    ultimately have "0 \<le> cmp (ys ! k) p" by blast
    then show ?thesis using c unfolding comparator_def by blast
  qed
  consider "j < a + l" | "b \<le> i" | "i < b" "a + l \<le> j" using ij by linarith
  then show "cmp (ys ! i) (ys ! j) \<le> 0"
  proof cases
    case 1
    then show ?thesis using assms(4) ij by (simp add: ordered_def)
  next
    case 2
    then show ?thesis using assms(5) ij by (simp add: ordered_def)
  next
    case 3
    then show ?thesis using comparator_trans[OF c below above] ij by blast
  qed
qed

lemma ordered_cong: "(\<And>i. i \<in> {a..<b} \<Longrightarrow> ys ! i = xs ! i) \<Longrightarrow> ordered cmp a b ys = ordered cmp a b xs"
  unfolding ordered_def by (intro iff_allI imp_cong refl) (elim conjE, simp)

lemma qsort_run:
  "a + n \<le> length xs \<Longrightarrow> \<exists>ys. qsort cmp a n xs = Some ys \<and> swaps a (a + n) xs ys \<and> (comparator cmp \<longrightarrow> ordered cmp a (a + n) ys)"
proof (induction n arbitrary: a xs rule: less_induct)
  case (less n)
  show ?case
  proof (cases "n < 7")
    case True
    then have "qsort cmp a n xs = Some (insertion_sort cmp a n xs)" by (subst qsort.simps) simp
    then show ?thesis using insertion_sort_swaps insertion_sort_ordered less.prems by blast
  next
    case False
    then have n7: "7 \<le> n" by simp
    let ?s = "\<lparr>pa = a + 1, pb = a + 1, pc = a + (n - 1), pd = a + (n - 1), swap_cnt = False, arr = swap a (pivot cmp a n xs) xs\<rparr>"
    from partition_ok[OF part_start[OF n7 less.prems]] obtain s where
      s: "partition_loop cmp a ?s = Some s" "part_inv cmp a n xs s" "pb s = pc s + 1" by blast
    have sw: "swaps a (a + n) xs (arr s)" and len: "a + n \<le> length (arr s)" using s(2) part_len[OF s(2)] by (simp_all add: part_inv_def)
    show ?thesis
    proof (cases "swap_cnt s")
      case False
      then have "qsort cmp a n xs = Some (insertion_sort cmp a n (arr s))" using s(1) n7 by (subst qsort.simps) simp
      moreover have "swaps a (a + n) xs (insertion_sort cmp a n (arr s))" using insertion_sort_swaps sw by (rule swaps_trans)
      ultimately show ?thesis using insertion_sort_ordered[OF _ len] by blast
    next
      case True
      define l g p zs where "l = pb s - pa s" and "g = pd s - pc s" and "p = arr s ! a" and "zs = gather a n s"
      note G = gather_ok[OF s(2,3) l_def g_def p_def, folded zs_def]
      have lz: "a + n \<le> length zs" using G(1) less.prems by (simp add: swaps_length)
      have "a + l \<le> length zs" "l < n" using G(2) lz by auto
      from less.IH[OF this(2,1)] obtain us where us: "(if l > 1 then qsort cmp a l zs else Some zs) = Some us"
        "swaps a (a + l) zs us" "comparator cmp \<longrightarrow> ordered cmp a (a + l) us"
        by (cases "l > 1") (auto intro: swaps.none simp: ordered_def)
      have lu: "length us = length zs" using us(2) by (rule swaps_length)
      have "a + n - g + g \<le> length us" "g < n" using G(2) lz lu by auto
      from less.IH[OF this(2,1)] obtain vs where vs: "(if g > 1 then qsort cmp (a + n - g) g us else Some us) = Some vs"
        "swaps (a + n - g) (a + n - g + g) us vs" "comparator cmp \<longrightarrow> ordered cmp (a + n - g) (a + n - g + g) vs"
        by (cases "g > 1") (auto intro: swaps.none simp: ordered_def)
      have e: "a + n - g + g = a + n" using G(2) by simp
      have "qsort cmp a n xs = Some vs" using s(1) n7 True us(1) vs(1)
        by (subst qsort.simps) (simp add: Let_def l_def[symmetric] g_def[symmetric] zs_def[symmetric])
      moreover have "swaps a (a + n) xs vs"
        using G(1,2) swaps_mono[OF us(2), of a "a + n"] swaps_mono[OF vs(2), of a "a + n"] e by (auto intro: swaps_trans)
      moreover have "ordered cmp a (a + n) vs" if c: "comparator cmp"
      proof (rule ordered_parts[OF c])
        have u_out: "us ! i = zs ! i" if "i \<notin> {a..<a + l}" for i using swaps_outside[OF us(2) _ that] \<open>a + l \<le> length zs\<close> by blast
        have v_out: "vs ! i = us ! i" if "i \<notin> {a + n - g..<a + n}" for i using swaps_outside[OF vs(2)] that lz lu e by simp
        show "a + l \<le> a + n - g" "a + n - g \<le> a + n" using G(2) by auto
        show "ordered cmp a (a + l) vs"
        proof -
          have "vs ! i = us ! i" if "i \<in> {a..<a + l}" for i using v_out[of i] that G(2) by auto
          then show ?thesis using ordered_cong[of a "a + l" vs us cmp] us(3) c by blast
        qed
        show "ordered cmp (a + n - g) (a + n) vs" using vs(3) c e by simp
        show "\<forall>i\<in>{a..<a + l}. cmp (vs ! i) p < 0"
          using swaps_all[OF us(2) \<open>a + l \<le> length zs\<close> G(3)] v_out G(2) by auto
        show "\<forall>i\<in>{a + l..<a + n - g}. vs ! i = p \<or> cmp (vs ! i) p = 0" using G(4) u_out v_out by simp
        have "\<forall>i\<in>{a + n - g..<a + n}. cmp (us ! i) p > 0" 
        proof
          fix i assume i: "i \<in> {a + n - g..<a + n}"
          then have "a + n - g \<le> i" by simp
          then have "\<not> i < a + l" using G(2) by linarith
          then have "us ! i = zs ! i" "cmp (zs ! i) p > 0" using u_out[of i] G(5) i by auto
          then show "cmp (us ! i) p > 0" by simp
        qed
        then show "\<forall>i\<in>{a + n - g..<a + n}. cmp (vs ! i) p > 0"
          using swaps_all[OF vs(2), of "\<lambda>x. cmp x p > 0"] lz lu e by simp
      qed
      ultimately show ?thesis by blast
    qed
  qed
qed

text \<open>\<open>qsort\<close> with any comparison function comes to an end, and all it has done is to exchange elements of the given
  range: the array keeps its length, its elements with their multiplicities, and everything outside the range.\<close>

theorem qsort_permutes:
  assumes "a + n \<le> length xs"
  shows "\<exists>ys. qsort cmp a n xs = Some ys \<and> swaps a (a + n) xs ys \<and> mset ys = mset xs \<and> (\<forall>i. i \<notin> {a..<a + n} \<longrightarrow> ys ! i = xs ! i)"
proof -
  obtain ys where "qsort cmp a n xs = Some ys" "swaps a (a + n) xs ys" using qsort_run[OF assms] by blast
  then show ?thesis using swaps_mset[OF _ assms] swaps_outside[OF _ assms] by blast
qed

theorem qsort_permutes_witness:
  "\<exists>ys. qsort (\<lambda>_ _. 1) 1 7 [9, 1, 5, 3, 8, 2, 7, 4, 6 :: nat] = Some ys \<and> mset ys = mset [9, 1, 5, 3, 8, 2, 7, 4, 6] \<and> ys ! 0 = 9 \<and> ys ! 8 = 6"
  using qsort_permutes[of 1 7 "[9, 1, 5, 3, 8, 2, 7, 4, 6]" "\<lambda>_ _. 1"] by fastforce

text \<open>C19: \<open>qsort\<close> sorts: with a comparison function that orders its arguments (its sign changes when they are
  exchanged, and it is transitive), the range is in order afterwards.\<close>

theorem qsort_sorts:
  assumes "comparator cmp" and "a + n \<le> length xs"
  shows "\<exists>ys. qsort cmp a n xs = Some ys \<and> mset ys = mset xs \<and> (\<forall>i j. a \<le> i \<and> i < j \<and> j < a + n \<longrightarrow> cmp (ys ! i) (ys ! j) \<le> 0)"
proof -
  obtain ys where "qsort cmp a n xs = Some ys" "swaps a (a + n) xs ys" "ordered cmp a (a + n) ys" using qsort_run[OF assms(2)] assms(1) by blast
  then show ?thesis using swaps_mset[OF _ assms(2)] unfolding ordered_def by blast
qed

theorem qsort_sorts_witness:
  "\<exists>ys. qsort (\<lambda>x y. x - y) 0 8 [5, 3, 8, 1, 9, 2, 7, 5] = Some ys \<and> mset ys = mset [5, 3, 8, 1, 9, 2, 7, 5] \<and> ys ! 0 \<le> ys ! 7"
proof -
  have "comparator (\<lambda>x y :: int. x - y)" by (auto simp: comparator_def)
  from qsort_sorts[OF this, of 0 8 "[5, 3, 8, 1, 9, 2, 7, 5]"] show ?thesis by fastforce
qed

end
