(* ===== verification/C_Strings.thy ===== *)
theory C_Strings
  imports Prelude
begin

text \<open>
  Strings of the C library, \<open>410kern/string\<close>. A function that only reads takes the string as the list of its bytes up to the
  NUL, and gives a pointer into it as the rest of the list, the null pointer as \<open>None\<close>. A function that writes works on the
  memory. \<open>char\<close> is signed, so bytes from 128 on compare as negative numbers unless the code says \<open>unsigned char\<close>.
\<close>

section \<open>Reading\<close>

fun strlen :: "u8 list \<Rightarrow> nat" where
  "strlen [] = 0"
| "strlen (c # s) = Suc (strlen s)"

text \<open>The characters under two pointers, the NUL at the end.\<close>

definition byte_at :: "u8 list \<Rightarrow> u8" where "byte_at s = (case s of [] \<Rightarrow> 0 | c # _ \<Rightarrow> c)"

fun strcmp :: "u8 list \<Rightarrow> u8 list \<Rightarrow> int" where
  "strcmp (a # s1) (b # s2) = (if a \<noteq> b then uint a - uint b else strcmp s1 s2)"
| "strcmp s1 s2 = uint (byte_at s1) - uint (byte_at s2)"

fun strncmp :: "u8 list \<Rightarrow> u8 list \<Rightarrow> nat \<Rightarrow> int" where
  "strncmp s1 s2 0 = 0"
| "strncmp s1 s2 (Suc n) =
     (if byte_at s1 \<noteq> byte_at s2 then sint (byte_at s1) - sint (byte_at s2)
      else if byte_at s1 = 0 then 0 else strncmp (tl s1) (tl s2) n)"

fun memcmp :: "u8 list \<Rightarrow> u8 list \<Rightarrow> nat \<Rightarrow> fault + int" where
  "memcmp s1 s2 0 = Inr 0"
| "memcmp (a # s1) (b # s2) (Suc n) = (if a \<noteq> b then Inr (sint a - sint b) else memcmp s1 s2 n)"
| "memcmp s1 s2 (Suc n) = Inl Out_Of_Bounds"

fun strchr :: "u8 list \<Rightarrow> int \<Rightarrow> u8 list option" where
  "strchr [] c = (if c = 0 then Some [] else None)"
| "strchr (a # s) c = (if sint a = c then Some (a # s) else strchr s c)"

fun rindex_from :: "u8 list \<Rightarrow> int \<Rightarrow> u8 list option \<Rightarrow> u8 list option" where
  "rindex_from [] c it = (if c = 0 then Some [] else it)"
| "rindex_from (a # s) c it = rindex_from s c (if sint a = c then Some (a # s) else it)"

definition rindex :: "u8 list \<Rightarrow> int \<Rightarrow> u8 list option" where "rindex s c = rindex_from s c None"

fun strrchr_from :: "u8 list \<Rightarrow> int \<Rightarrow> u8 list option \<Rightarrow> u8 list option" where
  "strrchr_from [] c save = save"
| "strrchr_from (a # s) c save = strrchr_from s c (if sint a = c then Some (a # s) else save)"

definition strrchr :: "u8 list \<Rightarrow> int \<Rightarrow> u8 list option" where "strrchr s c = strrchr_from s c None"

fun strspn :: "u8 list \<Rightarrow> u8 list \<Rightarrow> nat" where
  "strspn [] s2 = 0"
| "strspn (c # s1) s2 = (if c \<in> set s2 then Suc (strspn s1 s2) else 0)"

fun strcspn :: "u8 list \<Rightarrow> u8 list \<Rightarrow> nat" where
  "strcspn [] s2 = 0"
| "strcspn (c # s1) s2 = (if c \<in> set s2 then 0 else Suc (strcspn s1 s2))"

fun strpbrk :: "u8 list \<Rightarrow> u8 list \<Rightarrow> u8 list option" where
  "strpbrk [] s2 = None"
| "strpbrk (c # s1) s2 = (if c \<in> set s2 then Some (c # s1) else strpbrk s1 s2)"

text \<open>\<open>memcmp\<close> looks at bytes that both strings have, as the loop ends when the haystack is shorter.\<close>

fun strstr :: "u8 list \<Rightarrow> u8 list \<Rightarrow> fault + u8 list option" where
  "strstr h n =
     (if length h < length n then Inr None
      else case memcmp h n (length n) of
             Inl e \<Rightarrow> Inl e
           | Inr r \<Rightarrow> if r = 0 then Inr (Some h) else (case h of [] \<Rightarrow> Inr None | _ # h' \<Rightarrow> strstr h' n))"

declare strstr.simps [simp del]

lemma sint_eq: "sint a = sint b \<longleftrightarrow> a = (b :: u8)"
  by (simp add: word_eq_iff_signed[where ?'a = int])

lemma sint_0: "sint a = 0 \<longleftrightarrow> a = (0 :: u8)"
  using sint_eq[of a 0] by simp

lemma strlen_length: "strlen s = length s"
  by (induction s) auto

text \<open>The results agree with the descriptions in the sources.\<close>

definition lex_less :: "u8 list \<Rightarrow> u8 list \<Rightarrow> bool" where
  "lex_less s t \<longleftrightarrow> (s, t) \<in> lexord {(a, b). uint a < uint b}"

lemma strcmp_order:
  assumes "0 \<notin> set s" "0 \<notin> set t"
  shows "strcmp s t = 0 \<longleftrightarrow> s = t" "strcmp s t < 0 \<longleftrightarrow> lex_less s t"
proof -
  have pos: "0 < uint (c :: u8)" if "c \<noteq> 0" for c using that uint_0_iff[of c] unsigned_greater_eq[of c] by (metis less_le)
  have eq: "uint a = uint b \<longleftrightarrow> a = b" for a b :: u8 by (simp add: word_eq_iff_unsigned[where ?'a = int])
  show "strcmp s t = 0 \<longleftrightarrow> s = t" using assms
    by (induction s t rule: strcmp.induct) (auto simp: byte_at_def eq uint_0_iff split: list.splits)
  show "strcmp s t < 0 \<longleftrightarrow> lex_less s t" using assms
    by (induction s t rule: strcmp.induct)
      (auto simp: byte_at_def lex_less_def not_less uint_0_iff eq intro: pos split: list.splits dest: pos less_imp_le)
qed

lemma memcmp_equal: "n \<le> length s \<Longrightarrow> n \<le> length t \<Longrightarrow> \<exists>r. memcmp s t n = Inr r \<and> (r = 0 \<longleftrightarrow> take n s = take n t)"
  by (induction s t n rule: memcmp.induct) (auto simp: sint_eq)

lemma strspn_span: "strspn s t = length (takeWhile (\<lambda>c. c \<in> set t) s)" "strcspn s t = length (takeWhile (\<lambda>c. c \<notin> set t) s)"
  by (induction s) auto

lemma strchr_first: "c \<notin> set s \<Longrightarrow> strchr (s @ c # s') (sint c) = Some (c # s')"
  by (induction s) (auto simp: sint_eq)

lemma rindex_last: "c \<notin> set s' \<Longrightarrow> c \<noteq> 0 \<Longrightarrow> rindex (s @ c # s') (sint c) = Some (c # s')"
proof -
  assume c: "c \<notin> set s'" "c \<noteq> 0"
  have "rindex_from s' (sint c) it = it" for it using c by (induction s' arbitrary: it) (auto simp: sint_eq sint_0)
  then have "rindex_from (s @ c # s') (sint c) it = Some (c # s')" for it by (induction s arbitrary: it) auto
  then show ?thesis by (simp add: rindex_def)
qed

text \<open>The needle is found at its first place.\<close>

lemma strstr_first:
  "\<exists>r. strstr h n = Inr r \<and> (case r of
     None \<Rightarrow> \<forall>i. take (length n) (drop i h) \<noteq> n
   | Some p \<Rightarrow> \<exists>i \<le> length h. p = drop i h \<and> take (length n) p = n \<and> (\<forall>j < i. take (length n) (drop j h) \<noteq> n))"
proof (induction h)
  case Nil
  then show ?case by (auto simp: strstr.simps[of "[]"])
next
  case (Cons a h)
  show ?case
  proof (cases "length (a # h) < length n")
    case True
    have "take (length n) (drop i (a # h)) \<noteq> n" for i
    proof
      assume "take (length n) (drop i (a # h)) = n"
      then have "length n \<le> length (drop i (a # h))" by (metis length_take min.cobounded1 nat_le_linear min.absorb1)
      then show False using True by simp
    qed
    then show ?thesis using True by (auto simp: strstr.simps[of "a # h"])
  next
    case False
    obtain r where m: "memcmp (a # h) n (length n) = Inr r" "r = 0 \<longleftrightarrow> take (length n) (a # h) = n"
      using memcmp_equal[of "length n" "a # h" n] False by auto
    show ?thesis
    proof (cases "r = 0")
      case True
      then show ?thesis using m False by (auto simp: strstr.simps[of "a # h"] intro: exI[of _ 0])
    next
      case ne: False
      obtain q where q: "strstr h n = Inr q" "case q of
          None \<Rightarrow> \<forall>i. take (length n) (drop i h) \<noteq> n
        | Some p \<Rightarrow> \<exists>i \<le> length h. p = drop i h \<and> take (length n) p = n \<and> (\<forall>j < i. take (length n) (drop j h) \<noteq> n)"
        using Cons by blast
      have s: "strstr (a # h) n = Inr q" using False m(1) ne q(1) by (simp add: strstr.simps[of "a # h"])
      have 0: "take (length n) (drop 0 (a # h)) \<noteq> n" using m(2) ne by simp
      show ?thesis
      proof (cases q)
        case None
        have "take (length n) (drop i (a # h)) \<noteq> n" for i using 0 q(2) None by (cases i) auto
        then show ?thesis using s None by simp
      next
        case (Some p)
        then obtain i where i: "i \<le> length h" "p = drop i h" "take (length n) p = n" "\<forall>j < i. take (length n) (drop j h) \<noteq> n"
          using q(2) by auto
        have "take (length n) (drop j (a # h)) \<noteq> n" if "j < Suc i" for j using that 0 i(4) by (cases j) auto
        then show ?thesis using s Some i(1-3) by (auto intro!: exI[of _ "Suc i"])
      qed
    qed
  qed
qed

text \<open>Unlike \<open>rindex\<close> and \<open>strchr\<close>, \<open>strrchr\<close> does not find the NUL.\<close>

lemma strrchr_NUL: "0 \<notin> set s \<Longrightarrow> strrchr s 0 = None" "rindex s 0 = Some []" "0 \<notin> set s \<Longrightarrow> strchr s 0 = Some []"
proof -
  have "0 \<notin> set s \<Longrightarrow> strrchr_from s 0 it = it" for it by (induction s arbitrary: it) (auto simp: sint_0)
  then show "0 \<notin> set s \<Longrightarrow> strrchr s 0 = None" by (simp add: strrchr_def)
  have "rindex_from s 0 it = Some []" for it by (induction s arbitrary: it) auto
  then show "rindex s 0 = Some []" by (simp add: rindex_def)
  show "0 \<notin> set s \<Longrightarrow> strchr s 0 = Some []" by (induction s) (auto simp: sint_0)
qed

text \<open>For bytes from 128 on the orders of \<open>strcmp\<close> and \<open>strncmp\<close> differ.\<close>

lemma strncmp_signed: "strcmp [0x80] [0x41] > 0" "strncmp [0x80] [0x41] 1 < 0" "memcmp [0x80] [0x41] 1 = Inr (- 193)"
  by (simp_all add: byte_at_def)

section \<open>Writing\<close>

type_synonym cmem = "u32 \<Rightarrow> u8"

text \<open>The loops read and write the memory; one that meets no NUL does not end, and is \<open>None\<close>.\<close>

partial_function (option) find_end :: "cmem \<Rightarrow> u32 \<Rightarrow> u32 option" where
  "find_end m s = (if m s = 0 then Some s else find_end m (s + 1))"

partial_function (option) copy_string :: "cmem \<Rightarrow> u32 \<Rightarrow> u32 \<Rightarrow> cmem option" where
  "copy_string m to from =
     (let c = m from; m' = m(to := c) in if c = 0 then Some m' else copy_string m' (to + 1) (from + 1))"

definition strcpy :: "cmem \<Rightarrow> u32 \<Rightarrow> u32 \<Rightarrow> cmem option" where "strcpy m to from = copy_string m to from"

definition strcat :: "cmem \<Rightarrow> u32 \<Rightarrow> u32 \<Rightarrow> cmem option" where
  "strcat m s add = (case find_end m s of None \<Rightarrow> None | Some e \<Rightarrow> copy_string m e add)"

fun memset :: "cmem \<Rightarrow> u32 \<Rightarrow> u8 \<Rightarrow> nat \<Rightarrow> cmem" where
  "memset m to c 0 = m"
| "memset m to c (Suc n) = memset (m(to := c)) (to + 1) c n"

fun strncpy :: "cmem \<Rightarrow> u32 \<Rightarrow> u32 \<Rightarrow> nat \<Rightarrow> cmem" where
  "strncpy m to from 0 = m"
| "strncpy m to from (Suc n) =
     (let c = m from; m' = m(to := c) in if c = 0 then memset m' (to + 1) 0 n else strncpy m' (to + 1) (from + 1) n)"

fun append_some :: "cmem \<Rightarrow> u32 \<Rightarrow> u32 \<Rightarrow> nat \<Rightarrow> cmem" where
  "append_some m d s 0 = m(d := 0)"
| "append_some m d s (Suc n) =
     (let c = m s; m' = m(d := c) in if c = 0 then m'(d := 0) else append_some m' (d + 1) (s + 1) n)"

definition strncat :: "cmem \<Rightarrow> u32 \<Rightarrow> u32 \<Rightarrow> nat \<Rightarrow> cmem option" where
  "strncat m dst src n =
     (if n = 0 then Some m else case find_end m dst of None \<Rightarrow> None | Some d \<Rightarrow> Some (append_some m d src n))"

section \<open>Tokens\<close>

text \<open>\<open>strtok\<close> keeps in \<open>last\<close>, here \<open>saved\<close>, where it goes on; 0 is the null pointer. The result is the token, the memory and \<open>last\<close>.\<close>

partial_function (option) skip_delims :: "cmem \<Rightarrow> u8 list \<Rightarrow> u32 \<Rightarrow> u32 option" where
  "skip_delims m delim s = (if m s \<in> set delim then skip_delims m delim (s + 1) else Some s)"

partial_function (option) scan_token :: "cmem \<Rightarrow> u8 list \<Rightarrow> u32 \<Rightarrow> u32 option" where
  "scan_token m delim s = (if m s \<in> set delim \<or> m s = 0 then Some s else scan_token m delim (s + 1))"

definition strtok :: "cmem \<Rightarrow> u32 \<Rightarrow> u32 \<Rightarrow> u8 list \<Rightarrow> (u32 \<times> cmem \<times> u32) option" where
  "strtok m saved s delim =
     (let s = (if s = 0 then saved else s)
      in if s = 0 then Some (0, m, saved)
         else case skip_delims m delim s of
                None \<Rightarrow> None
              | Some tok \<Rightarrow>
                  if m tok = 0 then Some (0, m, 0)
                  else case scan_token m delim (tok + 1) of
                         None \<Rightarrow> None
                       | Some e \<Rightarrow> Some (if m e = 0 then (tok, m, 0) else (tok, m(e := 0), e + 1)))"

text \<open>A string in memory that does not reach the last address.\<close>

definition cstring :: "cmem \<Rightarrow> u32 \<Rightarrow> u8 list \<Rightarrow> bool" where
  "cstring m a bs \<longleftrightarrow> (\<forall>i < length bs. m (a + of_nat i) = bs ! i) \<and> m (a + of_nat (length bs)) = 0 \<and> 0 \<notin> set bs
     \<and> 0 < unat a \<and> unat a + length bs + 1 < 2 ^ 32"

lemma cstring_Cons: "cstring m a (c # bs) \<longleftrightarrow> m a = c \<and> c \<noteq> 0 \<and> 0 < unat a \<and> cstring m (a + 1) bs \<and> unat a + length bs + 2 < 2 ^ 32"
proof -
  have u: "unat (a + 1) = unat a + 1" if "unat a + length bs + 2 < 2 ^ 32"
    using that by (simp add: unat_word_ariths)
  have all: "(\<forall>i < length (c # bs). m (a + of_nat i) = (c # bs) ! i) \<longleftrightarrow> m a = c \<and> (\<forall>i < length bs. m (a + 1 + of_nat i) = bs ! i)"
    by (auto simp: less_Suc_eq_0_disj algebra_simps)
  show ?thesis unfolding cstring_def all using u by (auto simp: algebra_simps)
qed

lemma cstring_Nil: "cstring m a [] \<longleftrightarrow> m a = 0 \<and> 0 < unat a \<and> unat a + 1 < 2 ^ 32"
  by (auto simp: cstring_def)

lemma offset_inj: "i < 2 ^ 32 \<Longrightarrow> j < 2 ^ 32 \<Longrightarrow> (a :: u32) + of_nat i = a + of_nat j \<longleftrightarrow> i = j"
  using unat_of_nat_eq[of i] unat_of_nat_eq[of j] by (metis add_left_cancel)

text \<open>The loops on a string.\<close>

lemma find_end_cstring: "cstring m s bs \<Longrightarrow> find_end m s = Some (s + of_nat (length bs))"
proof (induction bs arbitrary: s)
  case Nil
  then show ?case by (subst find_end.simps) (simp add: cstring_Nil)
next
  case (Cons c bs)
  then show ?case by (subst find_end.simps) (simp add: cstring_Cons algebra_simps)
qed

lemma skip_delims_cstring:
  assumes "cstring m s bs" "0 \<notin> set delim"
  shows "skip_delims m delim s = Some (s + of_nat (length (takeWhile (\<lambda>c. c \<in> set delim) bs)))
    \<and> cstring m (s + of_nat (length (takeWhile (\<lambda>c. c \<in> set delim) bs))) (dropWhile (\<lambda>c. c \<in> set delim) bs)"
  using assms(1)
proof (induction bs arbitrary: s)
  case Nil
  then show ?case using assms(2) by (subst skip_delims.simps) (simp add: cstring_Nil)
next
  case (Cons c bs)
  then have c: "m s = c" "cstring m (s + 1) bs" by (simp_all add: cstring_Cons)
  show ?case
  proof (cases "c \<in> set delim")
    case True
    then show ?thesis using Cons.IH[OF c(2)] c(1) by (subst skip_delims.simps) (simp add: algebra_simps)
  next
    case False
    then show ?thesis using Cons.prems c(1) by (subst skip_delims.simps) simp
  qed
qed

lemma scan_token_cstring:
  assumes "cstring m s bs"
  shows "scan_token m delim s = Some (s + of_nat (length (takeWhile (\<lambda>c. c \<notin> set delim) bs)))
    \<and> cstring m (s + of_nat (length (takeWhile (\<lambda>c. c \<notin> set delim) bs))) (dropWhile (\<lambda>c. c \<notin> set delim) bs)"
  using assms
proof (induction bs arbitrary: s)
  case Nil
  then show ?case by (subst scan_token.simps) (simp add: cstring_Nil)
next
  case (Cons c bs)
  then have c: "m s = c" "c \<noteq> 0" "cstring m (s + 1) bs" by (simp_all add: cstring_Cons)
  show ?case
  proof (cases "c \<in> set delim")
    case True
    then show ?thesis using Cons.prems c(1) by (subst scan_token.simps) simp
  next
    case False
    then show ?thesis using Cons.IH[OF c(3)] c(1,2) by (subst scan_token.simps) (simp add: algebra_simps)
  qed
qed

text \<open>A NUL stored into a string cuts it in two.\<close>

lemma cstring_cut:
  assumes "cstring m s (xs @ d # ys)"
  defines "e \<equiv> s + of_nat (length xs)"
  shows "cstring (m(e := 0)) s xs" "cstring (m(e := 0)) (e + 1) ys" "unat e = unat s + length xs"
proof -
  have b: "unat s + (length xs + length ys + 1) + 1 < 2 ^ 32" "0 < unat s"
    and at: "\<And>i. i < length xs + length ys + 1 \<Longrightarrow> m (s + of_nat i) = (xs @ d # ys) ! i"
    and z: "m (s + of_nat (length xs + length ys + 1)) = 0" "0 \<notin> set xs" "0 \<notin> set ys"
    using assms(1) by (simp_all add: cstring_def)
  have ne: "s + of_nat i \<noteq> e" if "i < 2 ^ 32" "i \<noteq> length xs" for i
    unfolding e_def using that b offset_inj[of i "length xs" s] by simp
  have ue: "unat (s + of_nat k) = unat s + k" if "k \<le> length xs + length ys + 1" for k
    using that b by (simp add: unat_word_ariths unat_of_nat_eq)
  show "unat e = unat s + length xs" unfolding e_def by (rule ue) simp
  show "cstring (m(e := 0)) s xs"
    unfolding cstring_def using b z(2) at ne by (auto simp: e_def nth_append)
  have e1: "e + 1 + of_nat i = s + of_nat (length xs + 1 + i)" for i by (simp add: e_def algebra_simps)
  have "(m(e := 0)) (e + 1 + of_nat i) = ys ! i" if "i < length ys" for i
    using that at[of "length xs + 1 + i"] ne[of "length xs + 1 + i"] b unfolding e1 by (simp add: nth_append)
  moreover have "(m(e := 0)) (e + 1 + of_nat (length ys)) = 0"
    using z(1) unfolding e1 by (simp add: algebra_simps)
  moreover have "unat (e + 1) = unat s + length xs + 1" using ue[of "length xs + 1"] by (simp add: e_def algebra_simps)
  ultimately show "cstring (m(e := 0)) (e + 1) ys" unfolding cstring_def using b z(3) by simp
qed

lemma cstring_shift: "cstring m s (xs @ ys) \<Longrightarrow> cstring m (s + of_nat (length xs)) ys \<and> unat (s + of_nat (length xs)) = unat s + length xs"
proof (induction xs arbitrary: s)
  case (Cons x xs)
  then have "cstring m (s + 1) (xs @ ys)" "unat s + length (xs @ ys) + 2 < 2 ^ 32" by (simp_all add: cstring_Cons)
  moreover from this(2) have "unat (s + 1) = unat s + 1" by (simp add: unat_word_ariths)
  ultimately show ?case using Cons.IH[of "s + 1"] by (simp add: algebra_simps)
qed simp

text \<open>The pieces of a list between delimiters.\<close>

function tokens :: "('a \<Rightarrow> bool) \<Rightarrow> 'a list \<Rightarrow> 'a list list" where
  "tokens D bs = (case dropWhile D bs of
     [] \<Rightarrow> []
   | c # ws \<Rightarrow> (c # takeWhile (\<lambda>c. \<not> D c) ws) # tokens D (dropWhile (\<lambda>c. \<not> D c) ws))"
  by pat_completeness auto

termination tokens
proof (relation "measure (\<lambda>(D, bs). length bs)")
  fix D :: "'a \<Rightarrow> bool" and bs c ws
  assume d: "dropWhile D bs = c # ws"
  have "length (dropWhile (\<lambda>c. \<not> D c) ws) \<le> length ws" by (rule length_dropWhile_le)
  moreover have "length (c # ws) \<le> length bs" unfolding d[symmetric] by (rule length_dropWhile_le)
  ultimately show "((D, dropWhile (\<lambda>c. \<not> D c) ws), D, bs) \<in> measure (\<lambda>(D, bs). length bs)" by simp
qed simp

declare tokens.simps [simp del]

lemma tokens_delim: "D d \<Longrightarrow> tokens D (d # bs) = tokens D bs"
  by (simp add: tokens.simps[of D "d # bs"] tokens.simps[of D bs])

lemma tokens_none: "dropWhile D bs = [] \<Longrightarrow> tokens D bs = []"
  by (subst tokens.simps) (simp only: list.case)

lemma tokens_some:
  "dropWhile D bs = ws \<Longrightarrow> ws \<noteq> [] \<Longrightarrow> tokens D bs = takeWhile (\<lambda>c. \<not> D c) ws # tokens D (dropWhile (\<lambda>c. \<not> D c) ws)"
  using hd_dropWhile[of D bs] by (subst tokens.simps) (cases ws; simp)

lemma strtok_end:
  assumes "cstring m s bs" "0 \<notin> set delim" "dropWhile (\<lambda>c. c \<in> set delim) bs = []"
  shows "strtok m saved s delim = Some (0, m, 0)"
  using skip_delims_cstring[OF assms(1,2)] assms(1,3) by (auto simp: strtok_def cstring_def Let_def)

lemma strtok_token:
  assumes "cstring m s bs" "0 \<notin> set delim" "dropWhile (\<lambda>c. c \<in> set delim) bs = ws" "ws \<noteq> []"
  defines "t \<equiv> takeWhile (\<lambda>c. c \<notin> set delim) ws" and "rest \<equiv> dropWhile (\<lambda>c. c \<notin> set delim) ws"
  shows "\<exists>p m' saved'. strtok m saved s delim = Some (p, m', saved') \<and> p \<noteq> 0 \<and> cstring m' p t \<and> unat s \<le> unat p
    \<and> (case rest of [] \<Rightarrow> saved' = 0
        | _ # rest' \<Rightarrow> saved' \<noteq> 0 \<and> cstring m' saved' rest' \<and> unat p + length t < unat saved')
    \<and> (\<forall>x. unat x < unat s \<longrightarrow> m' x = m x)"
proof -
  have s0: "s \<noteq> 0" using assms(1) by (auto simp: cstring_def)
  define p where "p = s + of_nat (length (takeWhile (\<lambda>c. c \<in> set delim) bs))"
  have p: "skip_delims m delim s = Some p" "cstring m p ws"
    using skip_delims_cstring[OF assms(1,2)] assms(3) by (simp_all add: p_def)
  have "cstring m s (takeWhile (\<lambda>c. c \<in> set delim) bs @ dropWhile (\<lambda>c. c \<in> set delim) bs)" using assms(1) by simp
  from cstring_shift[OF this] have le: "unat s \<le> unat p" by (simp add: p_def)
  obtain c ws' where ws: "ws = c # ws'" using assms(4) by (cases ws) auto
  have c: "c \<notin> set delim" "m p = c" "c \<noteq> 0" "cstring m (p + 1) ws'"
    using hd_dropWhile[of "\<lambda>c. c \<in> set delim" bs] assms(3,4) p(2) by (simp_all add: ws cstring_Cons)
  have t: "t = c # takeWhile (\<lambda>c. c \<notin> set delim) ws'" "rest = dropWhile (\<lambda>c. c \<notin> set delim) ws'"
    using c(1) by (simp_all add: t_def rest_def ws)
  define e where "e = p + of_nat (length t)"
  have e: "scan_token m delim (p + 1) = Some e" "cstring m e rest"
    using scan_token_cstring[OF c(4)] by (simp_all add: e_def t algebra_simps)
  have tr: "ws = t @ rest" by (simp add: t_def rest_def)
  have p0: "p \<noteq> 0" using p(2) by (auto simp: cstring_def)
  have tok: "strtok m saved s delim = Some (if m e = 0 then (p, m, 0) else (p, m(e := 0), e + 1))"
    using s0 p(1) c e(1) by (simp add: strtok_def Let_def)
  show ?thesis
  proof (cases rest)
    case Nil
    then have "m e = 0" "ws = t" using e(2) tr by (simp_all add: cstring_Nil)
    then show ?thesis using tok p0 p(2) le Nil by auto
  next
    case (Cons d rest')
    then have me: "m e \<noteq> 0" using e(2) by (simp add: cstring_Cons)
    have "cstring m p (t @ d # rest')" using p(2) unfolding tr Cons .
    note cut = cstring_cut[OF this, folded e_def]
    have "e + 1 \<noteq> 0" using cut(2) by (auto simp: cstring_def)
    moreover have "unat (e + 1) = unat e + 1" using e(2) Cons by (simp add: cstring_Cons unat_word_ariths)
    moreover have "(m(e := 0)) x = m x" if "unat x < unat s" for x using that le cut(3) by auto
    ultimately show ?thesis using tok me p0 cut le Cons by auto
  qed
qed

end
