(* ===== verification/Boot.thy ===== *)
theory Boot
  imports Malloc C_Strings
begin

text \<open>
  What the kernel does with the structures of the boot loader before \<open>kernel_main\<close>: \<open>mb_util_lmm\<close> (\<open>410kern/boot/util_lmm.c\<close>)
  finds the memory that nothing occupies and hands it to the pool of the kernel heap, \<open>mb_util_cmdline\<close>
  (\<open>410kern/boot/util_cmdline.c\<close>) splits the command line, and \<open>mb_entry\<close> (\<open>410kern/entry.c\<close>) calls both. Physical
  memory is mapped at address 0 (\<open>phys_mem_va\<close>). The linker's symbols are arguments. The memory is \<open>hmem\<close> of the heap's state.
\<close>

unbundle bit_operations_syntax

section \<open>The free memory\<close>

record mbinfo =
  mflags :: u32
  mem_lower :: u32
  mem_upper :: u32
  mcmdline :: u32
  mods_count :: u32
  mods_addr :: u32

definition MULTIBOOT_MEMORY :: u32 where "MULTIBOOT_MEMORY = 1"
definition MULTIBOOT_CMDLINE :: u32 where "MULTIBOOT_CMDLINE = 4"
definition MULTIBOOT_MODS :: u32 where "MULTIBOOT_MODS = 8"

type_synonym hole = "u32 \<times> u32"

text \<open>The ranges that one pass of the loop skips, in its order; \<open>None\<close> if a string has no end.\<close>

fun module_holes :: "cmem \<Rightarrow> u32 \<Rightarrow> nat \<Rightarrow> hole list option" where
  "module_holes m a 0 = Some []"
| "module_holes m a (Suc n) =
     (let s = load32 (a + 8) m; hs = [(load32 a m, load32 (a + 4) m)]
      in case (if s = 0 then Some hs else map_option (\<lambda>e. (s, e + 1) # hs) (find_end m s)) of
           None \<Rightarrow> None
         | Some hs \<Rightarrow> map_option ((@) hs) (module_holes m (a + 16) n))"

definition cmdline_hole :: "cmem \<Rightarrow> mbinfo \<Rightarrow> hole option" where
  "cmdline_hole m mb =
     (let start = (if mflags mb AND MULTIBOOT_CMDLINE \<noteq> 0 then mcmdline mb else 0)
      in if start = 0 then Some (0, 0) else map_option (\<lambda>e. (start, e + 1)) (find_end m start))"

definition mods_holes :: "cmem \<Rightarrow> mbinfo \<Rightarrow> hole list option" where
  "mods_holes m mb =
     (if mflags mb AND MULTIBOOT_MODS \<noteq> 0 \<and> mods_count mb > 0
      then map_option ((#) (mods_addr mb, mods_addr mb + mods_count mb * 16)) (module_holes m (mods_addr mb) (unat (mods_count mb)))
      else Some [])"

definition boot_holes :: "cmem \<Rightarrow> u32 \<Rightarrow> u32 \<Rightarrow> u32 \<Rightarrow> mbinfo \<Rightarrow> hole list option" where
  "boot_holes m start_sym kimg_start end_sym mb =
     (case cmdline_hole m mb of
        None \<Rightarrow> None
      | Some cl \<Rightarrow> map_option (\<lambda>hs.
          (mem_lower mb * 1024, 0x100000) # (0x100000 + mem_upper mb * 1024, 0xffffffff)
            # (start_sym, end_sym) # (kimg_start, end_sym) # cl # hs) (mods_holes m mb))"

text \<open>The calls of the macro \<open>skip\<close> in one pass: a new \<open>min\<close> to retry with, or the end of a free block.\<close>

fun skip_holes :: "hole list \<Rightarrow> u32 \<Rightarrow> u32 \<Rightarrow> u32 + u32" where
  "skip_holes [] mn mx = Inr mx"
| "skip_holes ((a, b) # hs) mn mx =
     (if mx > a \<and> mn < b then if mn < a then skip_holes hs mn a else Inl b
      else skip_holes hs mn mx)"

lemma skip_holes_retry: "skip_holes hs mn mx = Inl mn' \<Longrightarrow> mn < mn'"
  by (induction hs mn mx rule: skip_holes.induct) (auto split: if_splits)

lemma skip_holes_block: "skip_holes hs mn mx = Inr mx' \<Longrightarrow> mx' \<le> mx \<and> (mx' = mx \<or> mn < mx')"
  by (induction hs mn mx rule: skip_holes.induct) (auto split: if_splits)

text \<open>The loop, with the blocks \<open>(min, max)\<close> that it gives to \<open>lmm_add_free\<close>.\<close>

function boot_blocks :: "hole list \<Rightarrow> u32 \<Rightarrow> hole list" where
  "boot_blocks hs mn =
     (case skip_holes hs mn 0xffffffff of
        Inl mn' \<Rightarrow> if mn' < 0xffffffff then boot_blocks hs mn' else []
      | Inr mx \<Rightarrow> (mn, mx) # (if mx < 0xffffffff then boot_blocks hs mx else []))"
  by pat_completeness auto

termination boot_blocks
proof (relation "measure (\<lambda>(hs, mn). unat (0xffffffff - mn))")
  have less: "unat (0xffffffff - b) < unat (0xffffffff - a)" if "a < b" "b < 0xffffffff" for a b :: u32
    using that by (auto simp: unat_sub word_less_nat_alt word_le_nat_alt)
  show "((hs, mn'), hs, mn) \<in> measure (\<lambda>(hs, mn). unat (0xffffffff - mn))"
    if "skip_holes hs mn 0xffffffff = Inl mn'" "mn' < 0xffffffff" for hs mn mn'
    using less[OF skip_holes_retry[OF that(1)] that(2)] by simp
  show "((hs, mx), hs, mn) \<in> measure (\<lambda>(hs, mn). unat (0xffffffff - mn))"
    if "skip_holes hs mn 0xffffffff = Inr mx" "mx < 0xffffffff" for hs mn mx
    using less[of mn mx] skip_holes_block[OF that(1)] that(2) by auto
qed simp

text \<open>The bytes of a hole or block.\<close>

definition hole_bytes :: "hole \<Rightarrow> nat set" where "hole_bytes h = {unat (fst h)..<unat (snd h)}"

lemma skip_holes_retry_bytes:
  "skip_holes hs mn mx = Inl mn' \<Longrightarrow> \<exists>h \<in> set hs. {unat mn..<unat mn'} \<subseteq> hole_bytes h"
  by (induction hs mn mx rule: skip_holes.induct)
    (fastforce simp: hole_bytes_def word_less_nat_alt split: if_splits)+

lemma skip_holes_block_bytes:
  "skip_holes hs mn mx = Inr mx' \<Longrightarrow> mn < mx \<Longrightarrow> mn < mx' \<and> mx' \<le> mx \<and> (\<forall>h \<in> set hs. {unat mn..<unat mx'} \<inter> hole_bytes h = {})"
proof (induction hs mn mx rule: skip_holes.induct)
  case (2 a b hs mn mx)
  have le: "unat mx' \<le> unat y" if "mx' \<le> y" for y using that by (simp add: word_le_nat_alt)
  show ?case
  proof (cases "mx > a \<and> mn < b")
    case True
    then have "mn < a" "skip_holes hs mn a = Inr mx'" using 2(3) by (auto split: if_splits)
    then show ?thesis using 2(1)[OF True] le[of a] True by (fastforce simp: hole_bytes_def)
  next
    case False
    then have "skip_holes hs mn mx = Inr mx'" using 2(3) by auto
    then have IH: "mn < mx' \<and> mx' \<le> mx \<and> (\<forall>h \<in> set hs. {unat mn..<unat mx'} \<inter> hole_bytes h = {})"
      using 2(2)[OF False] 2(4) by blast
    moreover have "{unat mn..<unat mx'} \<inter> hole_bytes (a, b) = {}"
      using False IH le[of mx] by (auto simp: hole_bytes_def word_less_nat_alt not_less)
    ultimately show ?thesis by simp
  qed
qed simp

declare boot_blocks.simps [simp del]

fun ascending :: "nat \<Rightarrow> hole list \<Rightarrow> bool" where
  "ascending lo [] = True"
| "ascending lo ((a, b) # bs) \<longleftrightarrow> lo \<le> unat a \<and> a < b \<and> ascending (unat b) bs"

lemma boot_blocks_spec:
  "mn < 0xffffffff \<Longrightarrow> (\<Union>h \<in> set (boot_blocks hs mn). hole_bytes h) = {unat mn..<0xffffffff} - (\<Union>h \<in> set hs. hole_bytes h)
    \<and> ascending (unat mn) (boot_blocks hs mn)"
proof (induction hs mn rule: boot_blocks.induct)
  case (1 hs mn)
  let ?H = "\<Union>h \<in> set hs. hole_bytes h"
  have asc: "ascending lo bs \<Longrightarrow> lo' \<le> lo \<Longrightarrow> ascending lo' bs" for lo lo' bs by (cases bs) auto
  show ?case
  proof (cases "skip_holes hs mn 0xffffffff")
    case (Inl mn')
    note lt = skip_holes_retry[OF Inl]
    have sub: "{unat mn..<unat mn'} \<subseteq> ?H" using skip_holes_retry_bytes[OF Inl] by blast
    have split: "{unat mn..<0xffffffff} = {unat mn..<unat mn'} \<union> {unat mn'..<0xffffffff}" if "unat mn' \<le> 0xffffffff"
      using lt that by (auto simp: word_less_nat_alt)
    have b: "boot_blocks hs mn = (if mn' < 0xffffffff then boot_blocks hs mn' else [])" by (subst boot_blocks.simps) (simp add: Inl)
    show ?thesis
    proof (cases "mn' < 0xffffffff")
      case True
      then have "unat mn' \<le> 0xffffffff" by (simp add: word_less_nat_alt)
      then show ?thesis using 1(1)[OF Inl True True] sub b True lt asc[of "unat mn'"] unfolding split[OF \<open>unat mn' \<le> 0xffffffff\<close>]
        by (auto simp: word_less_nat_alt)
    next
      case False
      then have "{unat mn..<0xffffffff} \<subseteq> ?H" using sub by (auto simp: not_less word_le_nat_alt)
      then show ?thesis using b False by auto
    qed
  next
    case (Inr mx)
    note bl = skip_holes_block_bytes[OF Inr 1(3)]
    have b: "boot_blocks hs mn = (mn, mx) # (if mx < 0xffffffff then boot_blocks hs mx else [])" by (subst boot_blocks.simps) (simp add: Inr)
    have u: "unat mn < unat mx" "unat mx \<le> 0xffffffff" using bl by (simp_all add: word_less_nat_alt word_le_nat_alt)
    have split: "{unat mn..<0xffffffff} = {unat mn..<unat mx} \<union> {unat mx..<0xffffffff}" using u by auto
    have free: "{unat mn..<unat mx} \<inter> ?H = {}" using bl by blast
    have hd: "hole_bytes (mn, x) = {unat mn..<unat x}" for x by (simp add: hole_bytes_def)
    show ?thesis
    proof (cases "mx < 0xffffffff")
      case True
      then show ?thesis using 1(2)[OF Inr True True] free b True bl unfolding split by (auto simp: hd)
    next
      case False
      then have "unat mx = 0xffffffff" using u by (simp add: not_less word_le_nat_alt)
      then show ?thesis using b False bl free unfolding split by (auto simp: hd)
    qed
  qed
qed

text \<open>C20: The blocks that \<open>mb_util_lmm\<close> gives to the allocator are the free memory: their bytes are exactly the addresses from 0x500 to the last
  that no hole contains (the ROM area, the end of the memory, the kernel, the command line, the modules and their descriptions), whatever the
  holes are and however they overlap; no block is empty, and they come in ascending order without overlap.\<close>

theorem boot_blocks_free:
  "(\<Union>h \<in> set (boot_blocks hs 0x500). hole_bytes h) = {0x500..<0xffffffff} - (\<Union>h \<in> set hs. hole_bytes h)
    \<and> ascending 0x500 (boot_blocks hs 0x500)"
  using boot_blocks_spec[of "0x500" hs] by simp

section \<open>The pool and the command line\<close>

fun add_blocks :: "hole list \<Rightarrow> lmm \<Rightarrow> fault + lmm" where
  "add_blocks [] L = Inr L"
| "add_blocks ((a, b) # bs) L = (case lmm_add_free L a (b - a) of Inl e \<Rightarrow> Inl e | Inr L \<Rightarrow> add_blocks bs L)"

text \<open>The three regions: below 1 MB, below 16 MB, and the rest.\<close>

definition boot_regions :: "fault + lmm" where
  "boot_regions =
     (case lmm_add_region lmm_init 1 0 0x00100000 3 (-2) of
        Inl e \<Rightarrow> Inl e
      | Inr L \<Rightarrow>
          (case lmm_add_region L 2 0x00100000 0x00f00000 2 (-1) of
             Inl e \<Rightarrow> Inl e
           | Inr L \<Rightarrow> lmm_add_region L 3 0x01000000 0xfeffffff 0 0))"

definition mb_util_lmm :: "u32 \<Rightarrow> u32 \<Rightarrow> u32 \<Rightarrow> mbinfo \<Rightarrow> (kheap, unit) kop" where
  "mb_util_lmm start_sym kimg_start end_sym mb s =
     (case boot_regions of
        Inl e \<Rightarrow> Inl e
      | Inr L \<Rightarrow>
          (case boot_holes (hmem s) start_sym kimg_start end_sym mb of
             None \<Rightarrow> Inl Diverges
           | Some hs \<Rightarrow>
               (case add_blocks (boot_blocks hs 0x500) L of
                  Inl e \<Rightarrow> Inl e
                | Inr L \<Rightarrow> Inr ((), s\<lparr>malloc_lmm := L\<rparr>))))"

text \<open>The string at an address, as the code reads it.\<close>

partial_function (option) string_at :: "cmem \<Rightarrow> u32 \<Rightarrow> u8 list option" where
  "string_at m s = (if m s = 0 then Some [] else Option.bind (string_at m (s + 1)) (\<lambda>cs. Some (m s # cs)))"

definition cmdline_delim :: "u8 list" where "cmdline_delim = [32, 12, 10, 13, 9, 11]"

text \<open>The loop over the tokens, which go to \<open>tvar\<close> if they contain an equals sign and to \<open>targ\<close> otherwise.\<close>

partial_function (option) cmdline_loop :: "cmem \<Rightarrow> u32 \<Rightarrow> u32 \<Rightarrow> u32 list \<Rightarrow> u32 list \<Rightarrow> (u32 list \<times> u32 list \<times> cmem) option" where
  "cmdline_loop m saved tok targ tvar =
     (if tok = 0 then Some (targ, tvar, m)
      else case string_at m tok of
             None \<Rightarrow> None
           | Some t \<Rightarrow>
               (case strtok m saved 0 cmdline_delim of
                  None \<Rightarrow> None
                | Some (tok', m', saved') \<Rightarrow>
                    if strchr t 61 \<noteq> None then cmdline_loop m' saved' tok' targ (tvar @ [tok])
                    else cmdline_loop m' saved' tok' (targ @ [tok]) tvar))"

definition split_cmdline :: "cmem \<Rightarrow> u32 \<Rightarrow> u32 \<Rightarrow> (u32 list \<times> u32 list \<times> cmem) option" where
  "split_cmdline m saved cl =
     (case strtok m saved cl cmdline_delim of None \<Rightarrow> None | Some (tok, m', saved') \<Rightarrow> cmdline_loop m' saved' tok [] [])"

text \<open>\<open>memcpy\<close> of an array of pointers, and the zero behind it.\<close>

fun store_words :: "u32 \<Rightarrow> u32 list \<Rightarrow> cmem \<Rightarrow> cmem" where
  "store_words a [] m = m"
| "store_words a (w # ws) m = store_words (a + 4) ws (store32 a w m)"

text \<open>The values of \<open>argc\<close>, \<open>argv\<close> and \<open>envp\<close>; \<open>null_args\<close> is the address of the array of that name, \<open>saved\<close> what \<open>strtok\<close> has stored.\<close>

definition mb_util_cmdline :: "u32 \<Rightarrow> u32 \<Rightarrow> mbinfo \<Rightarrow> (kheap, u32 \<times> u32 \<times> u32) kop" where
  "mb_util_cmdline null_args saved mb s =
     (if mflags mb AND MULTIBOOT_CMDLINE \<noteq> 0
      then case split_cmdline (hmem s) saved (mcmdline mb) of
             None \<Rightarrow> Inl Diverges
           | Some (targ, tvar, m) \<Rightarrow>
               bindK (u_malloc (4 * (of_nat (length targ) + of_nat (length tvar) + 2))) (\<lambda>argv.
                 if argv = 0 then failK Assert_Failed
                 else let envp = argv + 4 * (of_nat (length targ) + 1)
                      in bindK (poke (\<lambda>m. store_words envp (tvar @ [0]) (store_words argv (targ @ [0]) m)))
                           (\<lambda>_. returnK (of_nat (length targ), argv, envp))) (s\<lparr>hmem := m\<rparr>)
      else Inr ((1, null_args, null_args + 4), s))"

text \<open>\<open>mb_entry\<close> up to the command line: the number of frames and the pool. The result is \<open>n_phys_frames\<close> and the arguments of
  \<open>kernel_main\<close>. Memory below 1 MB and from \<open>USER_MEM_START\<close> on is taken out of the pool.\<close>

definition mb_entry :: "u32 \<Rightarrow> u32 \<Rightarrow> u32 \<Rightarrow> u32 \<Rightarrow> u32 \<Rightarrow> mbinfo \<Rightarrow> (kheap, u32 \<times> u32 \<times> u32 \<times> u32) kop" where
  "mb_entry start_sym kimg_start end_sym null_args saved mb s =
     (let n_phys_frames = (mem_upper mb + 1024) div 4
      in if mflags mb AND MULTIBOOT_MEMORY = 0 then Inl Assert_Failed
         else if \<not> n_phys_frames > 0x01000000 div 4096 then Inl Assert_Failed
         else (case mb_util_lmm start_sym kimg_start end_sym mb s of
           Inl e \<Rightarrow> Inl e
         | Inr (_, s) \<Rightarrow>
             (case lmm_remove_free (malloc_lmm s) 0 0x100000 of
                Inl e \<Rightarrow> Inl e
              | Inr L \<Rightarrow>
                  (case lmm_remove_free L 0x01000000 (- 8 - 0x01000000) of
                     Inl e \<Rightarrow> Inl e
                   | Inr L \<Rightarrow>
                       (case mb_util_cmdline null_args saved mb (s\<lparr>malloc_lmm := L\<rparr>) of
                          Inl e \<Rightarrow> Inl e
                        | Inr (args, s) \<Rightarrow> Inr ((n_phys_frames, args), s))))))"

text \<open>A free block inside of one 8-byte unit, not at its start and not up to its end, stops the boot: \<open>lmm_add_free\<close> rounds its ends
  past each other and asserts that they are in order.\<close>

lemma tiny_block_stops:
  "boot_blocks [(0x500, 0x10001), (0x10003, 0xffffffff)] 0x500 = [(0x10001, 0x10003)]"
  "add_blocks [(0x10001, 0x10003)] L = Inl Assert_Failed"
  by (simp_all add: boot_blocks.simps lmm_add_free_def assertL_def align_up_def align_down_def ALIGN_MASK_def ALIGN_SIZE_def Let_def)

text \<open>Priorities are unsigned, so the negative ones that are meant to be the lowest are the highest: the pool looks for memory below 16 MB first,
  then below 1 MB, and above 16 MB last.\<close>

lemma negative_priorities: "(- 2 :: u32) = 0xfffffffe" "(- 1 :: u32) = 0xffffffff" by simp_all

lemma boot_regions_order:
  "\<exists>L. boot_regions = Inr L \<and> map (\<lambda>r. (rmin r, rmax r)) L = [(0x100000, 0x1000000), (0, 0x100000), (0x1000000, 0xfffffff8)]
    \<and> map rpri L = [0xffffffff, 0xfffffffe, 0]"
  unfolding boot_regions_def negative_priorities
  by (simp add: lmm_add_region_def lmm_init_def assertL_def align_up_def align_down_def ALIGN_MASK_def ALIGN_SIZE_def Let_def)

section \<open>The command line is split\<close>

lemma string_at_cstring: "cstring m s bs \<Longrightarrow> string_at m s = Some bs"
proof (induction bs arbitrary: s)
  case Nil
  then show ?case by (subst string_at.simps) (simp add: cstring_Nil)
next
  case (Cons c bs)
  then show ?case by (subst string_at.simps) (simp add: cstring_Cons)
qed

lemma cstring_same: "cstring m s bs \<Longrightarrow> (\<And>x. unat x < hi \<Longrightarrow> m' x = m x) \<Longrightarrow> unat s + length bs < hi \<Longrightarrow> cstring m' s bs"
  unfolding cstring_def by (simp add: unat_word_ariths unat_of_nat_eq)

lemma strchr_equals: "0 \<notin> set t \<Longrightarrow> (\<exists>p. strchr t 61 = Some p) \<longleftrightarrow> 61 \<in> set t"
proof (induction t)
  case (Cons c t)
  have "sint c = 61 \<longleftrightarrow> c = 61" using sint_eq[of c 61] by simp
  then show ?case using Cons by auto
qed simp

definition is_delim :: "u8 \<Rightarrow> bool" where "is_delim c \<longleftrightarrow> c \<in> set cmdline_delim"

text \<open>What the first or the next call of \<open>strtok\<close> leaves: the token and the rest of the line.\<close>

definition tok_state :: "cmem \<Rightarrow> u32 \<Rightarrow> u32 \<Rightarrow> u8 list list \<Rightarrow> bool" where
  "tok_state m saved tok ts \<longleftrightarrow>
     (case ts of
        [] \<Rightarrow> tok = 0
      | t # ts' \<Rightarrow> tok \<noteq> 0 \<and> cstring m tok t
          \<and> (if saved = 0 then ts' = []
             else \<exists>bs. cstring m saved bs \<and> tokens is_delim bs = ts' \<and> unat tok + length t < unat saved))"

lemma strtok_state:
  assumes "cstring m (if s = 0 then saved else s) bs"
  shows "\<exists>tok m' saved'. strtok m saved s cmdline_delim = Some (tok, m', saved') \<and> tok_state m' saved' tok (tokens is_delim bs)
    \<and> (saved' = 0 \<or> unat (if s = 0 then saved else s) \<le> unat saved')
    \<and> (\<forall>x. unat x < unat (if s = 0 then saved else s) \<longrightarrow> m' x = m x)"
proof -
  let ?s = "if s = 0 then saved else s"
  have d: "0 \<notin> set cmdline_delim" by (simp add: cmdline_delim_def)
  have D: "is_delim = (\<lambda>c. c \<in> set cmdline_delim)" by (rule ext) (simp add: is_delim_def)
  have eq: "strtok m saved s cmdline_delim = strtok m saved ?s cmdline_delim" by (simp add: strtok_def)
  show ?thesis
  proof (cases "dropWhile is_delim bs")
    case Nil
    then show ?thesis using strtok_end[OF assms d] tokens_none[OF Nil] unfolding eq D by (auto simp: tok_state_def)
  next
    case (Cons c ws)
    define rest where "rest = dropWhile (\<lambda>c. \<not> is_delim c) (c # ws)"
    have ts: "tokens is_delim bs = takeWhile (\<lambda>c. \<not> is_delim c) (c # ws) # tokens is_delim rest"
      unfolding rest_def by (rule tokens_some[OF Cons]) simp
    obtain tok m' saved' where tok: "strtok m saved ?s cmdline_delim = Some (tok, m', saved')" "tok \<noteq> 0"
      "cstring m' tok (takeWhile (\<lambda>c. \<not> is_delim c) (c # ws))" "\<forall>x. unat x < unat ?s \<longrightarrow> m' x = m x" "unat ?s \<le> unat tok"
      and r: "case rest of [] \<Rightarrow> saved' = 0
        | _ # rest' \<Rightarrow> saved' \<noteq> 0 \<and> cstring m' saved' rest' \<and> unat tok + length (takeWhile (\<lambda>c. \<not> is_delim c) (c # ws)) < unat saved'"
      using strtok_token[OF assms d Cons[unfolded D], of saved] unfolding D rest_def by blast
    have "tok_state m' saved' tok (tokens is_delim bs)"
    proof (cases rest)
      case Nil
      then show ?thesis using tok r unfolding ts by (simp add: tok_state_def tokens_none)
    next
      case (Cons e rest')
      have "is_delim e" using hd_dropWhile[of "\<lambda>c. \<not> is_delim c" "c # ws"] Cons by (simp add: rest_def)
      then show ?thesis using tok r Cons tokens_delim[of is_delim e rest'] unfolding ts by (auto simp: tok_state_def)
    qed
    moreover have "saved' = 0 \<or> unat ?s \<le> unat saved'" using r tok(5) by (auto split: list.splits)
    ultimately show ?thesis using tok unfolding eq by blast
  qed
qed

lemma cmdline_loop_spec:
  assumes "tok_state m saved tok ts"
  shows "\<exists>targ' tvar' m'. cmdline_loop m saved tok targ tvar = Some (targ @ targ', tvar @ tvar', m')
    \<and> list_all2 (cstring m') targ' (filter (\<lambda>t. 61 \<notin> set t) ts) \<and> list_all2 (cstring m') tvar' (filter (\<lambda>t. 61 \<in> set t) ts)
    \<and> (\<forall>x. saved = 0 \<or> unat x < unat saved \<longrightarrow> m' x = m x)"
  using assms
proof (induction ts arbitrary: m saved tok targ tvar)
  case Nil
  then show ?case by (subst cmdline_loop.simps) (simp add: tok_state_def)
next
  case (Cons t ts)
  then have t: "tok \<noteq> 0" "cstring m tok t" by (simp_all add: tok_state_def)
  have s: "string_at m tok = Some t" using string_at_cstring[OF t(2)] .
  have eqs: "strchr t 61 \<noteq> None \<longleftrightarrow> 61 \<in> set t" using strchr_equals[of t] t(2) by (auto simp: cstring_def)
  obtain tok' m1 saved' where n: "strtok m saved 0 cmdline_delim = Some (tok', m1, saved')" "tok_state m1 saved' tok' ts"
    and m1: "\<forall>x. saved = 0 \<or> unat x < unat saved \<longrightarrow> m1 x = m x" "saved = 0 \<longrightarrow> saved' = 0"
    and far: "saved \<noteq> 0 \<longrightarrow> unat tok + length t < unat saved" "saved' = 0 \<or> unat saved \<le> unat saved'"
  proof (cases "saved = 0")
    case True
    then have "ts = []" using Cons.prems by (simp add: tok_state_def)
    then show ?thesis using that[of 0 m 0] True by (simp add: strtok_def tok_state_def)
  next
    case False
    then obtain bs where bs: "cstring m saved bs" "tokens is_delim bs = ts" "unat tok + length t < unat saved"
      using Cons.prems by (auto simp: tok_state_def)
    then show ?thesis using strtok_state[of m 0 saved bs] False that by auto
  qed
  define a v where "a = (if 61 \<in> set t then [] else [tok])" and "v = (if 61 \<in> set t then [tok] else [])"
  have step: "cmdline_loop m saved tok targ tvar = cmdline_loop m1 saved' tok' (targ @ a) (tvar @ v)"
    using t(1) s n(1) eqs by (subst cmdline_loop.simps) (auto simp: a_def v_def)
  obtain targ' tvar' m' where IH: "cmdline_loop m1 saved' tok' (targ @ a) (tvar @ v) = Some ((targ @ a) @ targ', (tvar @ v) @ tvar', m')"
    "list_all2 (cstring m') targ' (filter (\<lambda>t. 61 \<notin> set t) ts)" "list_all2 (cstring m') tvar' (filter (\<lambda>t. 61 \<in> set t) ts)"
    "\<forall>x. saved' = 0 \<or> unat x < unat saved' \<longrightarrow> m' x = m1 x"
    using Cons.IH[OF n(2)] by blast
  have keep: "saved = 0 \<or> unat x < unat saved \<Longrightarrow> m' x = m x" for x using IH(4) m1 far(2) by (metis order_less_le_trans)
  have "cstring m' tok t"
  proof (cases "saved = 0")
    case True
    then have "m' = m" using keep by blast
    then show ?thesis using t(2) by simp
  next
    case False
    then show ?thesis using cstring_same[OF t(2), of "unat saved" m'] keep far(1) by blast
  qed
  then show ?case using step IH(1-3) keep
    by (cases "61 \<in> set t") (auto simp: a_def v_def intro!: exI[of _ "a @ targ'"] exI[of _ "v @ tvar'"])
qed

text \<open>C21: The command line is split as documented: for every string in memory the pointers in \<open>targ\<close> are, in order, those of its words without an
  equals sign, and the pointers in \<open>tvar\<close> those of its words with one, where the words are the pieces between blanks; each points to its word,
  with a NUL behind it.\<close>

theorem split_cmdline_words:
  assumes "cstring m cl bs"
  shows "\<exists>targ tvar m'. split_cmdline m saved cl = Some (targ, tvar, m')
    \<and> list_all2 (cstring m') targ (filter (\<lambda>t. 61 \<notin> set t) (tokens is_delim bs))
    \<and> list_all2 (cstring m') tvar (filter (\<lambda>t. 61 \<in> set t) (tokens is_delim bs))"
proof -
  have cl: "cl \<noteq> 0" using assms by (auto simp: cstring_def)
  then obtain tok m1 saved' where t: "strtok m saved cl cmdline_delim = Some (tok, m1, saved')" "tok_state m1 saved' tok (tokens is_delim bs)"
    using strtok_state[of m cl saved bs] assms by auto
  show ?thesis using cmdline_loop_spec[OF t(2), of "[]" "[]"] t(1) by (auto simp: split_cmdline_def)
qed

text \<open>There are not more words than characters, so the arrays of the code are long enough.\<close>

lemma tokens_length: "length (tokens D bs) \<le> length bs"
proof (induction D bs rule: tokens.induct)
  case (1 D bs)
  show ?case
  proof (cases "dropWhile D bs")
    case Nil
    then show ?thesis by (simp add: tokens_none)
  next
    case (Cons c ws)
    have "Suc (length ws) \<le> length bs" using length_dropWhile_le[of D bs] Cons by simp
    moreover have "length (dropWhile (\<lambda>c. \<not> D c) ws) \<le> length ws" by (rule length_dropWhile_le)
    ultimately show ?thesis using 1[OF Cons] by (subst tokens.simps) (simp add: Cons)
  qed
qed

lemma split_cmdline_words_witness:
  "\<exists>targ tvar m'. split_cmdline ((\<lambda>_. 0)(0x100 := 97, 0x101 := 32, 0x102 := 98, 0x103 := 61)) 0 0x100 = Some (targ, tvar, m')
    \<and> list_all2 (cstring m') targ [[97]] \<and> list_all2 (cstring m') tvar [[98, 61]]"
proof -
  have c: "cstring ((\<lambda>_. 0)(0x100 := 97, 0x101 := 32, 0x102 := 98, 0x103 := 61)) 0x100 [97, 32, 98, 61]"
    by (simp add: cstring_Cons cstring_Nil)
  have "tokens is_delim [97, 32, 98, 61] = [[97], [98, 61]]"
    by (simp add: tokens.simps[of _ "_ # _"] tokens.simps[of _ "[]"] is_delim_def cmdline_delim_def)
  then show ?thesis using split_cmdline_words[OF c, of 0] by simp
qed

end
