(* ===== verification/C_Numbers.thy ===== *)
theory C_Numbers
  imports Prelude
begin

text \<open>
  Characters and numbers of the C library in \<open>410kern/stdlib\<close>: \<open>ctype.c\<close>, \<open>strtol.c\<close>, \<open>strtoul.c\<close>, \<open>atol.c\<close>, \<open>abs.c\<close>,
  \<open>rand.c\<close>. A string is the list of its bytes up to the terminating NUL, a pointer into it the rest of the list; reading at the end gives
  the NUL. \<open>long\<close> has 32 bits and wraps. A \<open>char\<close> is signed: the code compares it with letters and digits only, which
  a byte from 128 on equals neither as a signed nor as an unsigned number.
\<close>

unbundle bit_operations_syntax

section \<open>Characters\<close>

definition isascii :: "int \<Rightarrow> bool" where "isascii c \<longleftrightarrow> c \<ge> 0 \<and> c \<le> 126"
definition iscntrl :: "int \<Rightarrow> bool" where "iscntrl c \<longleftrightarrow> c < 32 \<or> c > 126"
definition isdigit :: "int \<Rightarrow> bool" where "isdigit c \<longleftrightarrow> c \<ge> 48 \<and> c \<le> 57"
definition isgraph :: "int \<Rightarrow> bool" where "isgraph c \<longleftrightarrow> c > 32 \<and> c \<le> 126"
definition islower :: "int \<Rightarrow> bool" where "islower c \<longleftrightarrow> c \<ge> 97 \<and> c \<le> 122"
definition isprint :: "int \<Rightarrow> bool" where "isprint c \<longleftrightarrow> c \<ge> 32 \<and> c \<le> 126"
definition isspace :: "int \<Rightarrow> bool" where
  "isspace c \<longleftrightarrow> c = 32 \<or> c = 12 \<or> c = 10 \<or> c = 13 \<or> c = 9 \<or> c = 11"
definition isupper :: "int \<Rightarrow> bool" where "isupper c \<longleftrightarrow> c \<ge> 65 \<and> c \<le> 90"
definition isxdigit :: "int \<Rightarrow> bool" where
  "isxdigit c \<longleftrightarrow> isdigit c \<or> c \<ge> 65 \<and> c \<le> 70 \<or> c \<ge> 97 \<and> c \<le> 102"
definition isalpha :: "int \<Rightarrow> bool" where "isalpha c \<longleftrightarrow> islower c \<or> isupper c"
definition isalnum :: "int \<Rightarrow> bool" where "isalnum c \<longleftrightarrow> isalpha c \<or> isdigit c"
definition ispunct :: "int \<Rightarrow> bool" where "ispunct c \<longleftrightarrow> isgraph c \<and> \<not> isalnum c"
definition toupper :: "int \<Rightarrow> int" where "toupper c = (if c \<ge> 97 \<and> c \<le> 122 then c - 97 + 65 else c)"
definition tolower :: "int \<Rightarrow> int" where "tolower c = (if c \<ge> 65 \<and> c \<le> 90 then c - 65 + 97 else c)"

lemmas ctype_defs = isascii_def iscntrl_def isdigit_def isgraph_def islower_def isprint_def isspace_def isupper_def
  isxdigit_def isalpha_def isalnum_def ispunct_def toupper_def tolower_def

text \<open>The classes partition the ASCII characters up to 126, and the two conversions undo each other on letters.\<close>

lemma ctype_classes:
  "isascii c \<Longrightarrow> iscntrl c \<noteq> isprint c \<and> (isprint c \<longleftrightarrow> isgraph c \<or> c = 32) \<and> (isgraph c \<longleftrightarrow> isalnum c \<or> ispunct c)
    \<and> \<not> (isupper c \<and> islower c) \<and> (isupper c \<longrightarrow> islower (tolower c) \<and> toupper (tolower c) = c)
    \<and> (islower c \<longrightarrow> isupper (toupper c) \<and> tolower (toupper c) = c)"
  by (auto simp: ctype_defs)

section \<open>Numbers from strings\<close>

text \<open>\<open>*p\<close>, the value of a byte as the code uses it.\<close>

definition char_at :: "u8 list \<Rightarrow> int" where
  "char_at p = (case p of [] \<Rightarrow> 0 | c # _ \<Rightarrow> sint c)"

definition skip_spaces :: "u8 list \<Rightarrow> u8 list" where
  "skip_spaces p = dropWhile (\<lambda>c. isspace (sint c)) p"

text \<open>The value of a digit in the given base, if it is one.\<close>

definition digit_value :: "int \<Rightarrow> int \<Rightarrow> int option" where
  "digit_value base c =
     (if c \<ge> 48 \<and> c \<le> 57 \<and> c - 48 < base then Some (c - 48)
      else if c \<ge> 97 \<and> c \<le> 122 \<and> c - 97 + 10 < base then Some (c - 97 + 10)
      else if c \<ge> 65 \<and> c \<le> 90 \<and> c - 65 + 10 < base then Some (c - 65 + 10)
      else None)"

fun read_digits :: "int \<Rightarrow> u32 \<Rightarrow> u8 list \<Rightarrow> u32 \<times> u8 list" where
  "read_digits base v [] = (v, [])"
| "read_digits base v (c # p) =
     (case digit_value base (sint c) of
        Some d \<Rightarrow> read_digits base (v * word_of_int base + word_of_int d) p
      | None \<Rightarrow> (v, c # p))"

text \<open>The prefix \<open>0x\<close>, and the base that a leading zero stands for.\<close>

definition read_base :: "u8 list \<Rightarrow> int \<Rightarrow> u8 list \<times> int" where
  "read_base p base =
     (let (p, base) = (if (base = 16 \<or> base = 0) \<and> char_at p = 48 \<and> (char_at (tl p) = 120 \<or> char_at (tl p) = 88)
                       then (tl (tl p), 16) else (p, base))
      in (p, if base = 0 then if char_at p = 48 then 8 else 10 else base))"

definition strtol :: "u8 list \<Rightarrow> int \<Rightarrow> u32 \<times> u8 list" where
  "strtol p base =
     (let p = skip_spaces p;
          (p, is_neg) = (if char_at p = 45 then (tl p, True) else (p, False));
          (p, base) = read_base p base;
          (v, p) = read_digits base 0 p
      in (if is_neg then - v else v, p))"

definition strtoul :: "u8 list \<Rightarrow> int \<Rightarrow> u32 \<times> u8 list" where
  "strtoul p base = (let p = skip_spaces p; (p, base) = read_base p base in read_digits base 0 p)"

definition atol :: "u8 list \<Rightarrow> u32" where "atol str = fst (strtol str 10)"

definition abs_int :: "u32 \<Rightarrow> u32" where "abs_int val = (if sint val \<ge> 0 then val else - val)"

section \<open>Random numbers\<close>

definition rand :: "u32 \<times> u32 \<Rightarrow> u32 \<times> u32 \<times> u32" where
  "rand seed =
     (let (s0, s1) = seed;
          s0 = s0 + 0xa859c317;
          s0 = s0 + (push_bit 13 s1 OR drop_bit 19 s1);
          s1 = s1 + s0
      in (s0 AND 0x7FFFFFFF, s0, s1))"

definition srand :: "u32 \<Rightarrow> u32 \<times> u32" where "srand new_seed = (new_seed, new_seed)"

text \<open>No two states of the generator have the same successor, so it never runs into a cycle that does not include its start.\<close>

lemma rand_injective:
  assumes "snd (rand a) = snd (rand b)"
  shows "a = b"
proof -
  obtain a0 a1 b0 b1 where ab: "a = (a0, a1)" "b = (b0, b1)" by (metis surj_pair)
  define A where "A = a0 + 0xa859c317 + (push_bit 13 a1 OR drop_bit 19 a1)"
  define B where "B = b0 + 0xa859c317 + (push_bit 13 b1 OR drop_bit 19 b1)"
  have "(A, a1 + A) = (B, b1 + B)" using assms unfolding ab rand_def Let_def prod.case snd_conv A_def B_def .
  then have 1: "A = B" and 2: "a1 + A = b1 + B" by blast+
  have "a1 = b1" using 2 unfolding 1 by (rule add_right_imp_eq)
  then show ?thesis using 1 unfolding A_def B_def ab by (simp only: add_right_cancel)
qed

end
