(* ===== verification/Doprnt.thy ===== *)
theory Doprnt
  imports C_Numbers
begin

text \<open>
  Formatted output, \<open>410kern/stdio/doprnt.c\<close>, \<open>sprintf.c\<close> and \<open>printf.c\<close>. \<open>_doprnt\<close> hands its characters to a function in
  order and gets nothing back, so here its result is their list, and its callers consume the list. The format is the list
  of its bytes up to the NUL. The arguments are the 32-bit words on the stack above the format; \<open>str\<close> gives the string at an
  address. Faults are a missing argument, a division by a zero base, an index outside \<open>digs\<close> or before \<open>buf\<close>, and a
  shift by more than the width of a word. Widths and precisions are integers that do not overflow. The calls of \<open>printnum\<close>
  by \<open>%b\<close> pass a 64-bit argument where 32 bits are declared, without a prototype; they are read as if it were converted.
\<close>

unbundle bit_operations_syntax

definition MAXBUF :: nat where "MAXBUF = 32"

definition digs :: "u8 list" where
  "digs = [48, 49, 50, 51, 52, 53, 54, 55, 56, 57, 97, 98, 99, 100, 101, 102, 0]"

definition then_out :: "fault + 'a \<Rightarrow> ('a \<Rightarrow> fault + 'b) \<Rightarrow> fault + 'b" where
  "then_out m f = (case m of Inl e \<Rightarrow> Inl e | Inr a \<Rightarrow> f a)"

lemma then_out_simps [simp]: "then_out (Inr a) f = f a" "then_out (Inl e) f = Inl e"
  by (simp_all add: then_out_def)

section \<open>Digits\<close>

text \<open>The loop that fills \<open>buf\<close> from its end, with the number of places left.\<close>

fun put_digits :: "nat \<Rightarrow> u64 \<Rightarrow> u64 \<Rightarrow> fault + u8 list" where
  "put_digits 0 u base = Inl Out_Of_Bounds"
| "put_digits (Suc room) u base =
     (if base = 0 then Inl Divide_Error
      else if unat (u mod base) > 16 then Inl Out_Of_Bounds
      else let c = digs ! unat (u mod base)
           in if u div base = 0 then Inr [c]
              else then_out (put_digits room (u div base) base) (\<lambda>ds. Inr (ds @ [c])))"

definition printnum :: "u32 \<Rightarrow> int \<Rightarrow> fault + u8 list" where
  "printnum u base = put_digits MAXBUF (ucast u) (ucast (word_of_int base :: u32))"

fun hex_digits :: "nat \<Rightarrow> u32 \<Rightarrow> u8 list" where
  "hex_digits 0 u = []"
| "hex_digits (Suc i) u = hex_digits i (drop_bit 4 u) @ [digs ! unat (u AND 0x0f)]"

definition printnum_16 :: "u32 \<Rightarrow> u8 list" where "printnum_16 u = hex_digits 8 u"

section \<open>The conversion specification\<close>

record spec =
  width :: int
  prec :: int
  ladjust :: bool
  padc :: u8
  plus_sign :: u8
  altfmt :: bool
  longopt :: nat

definition start_spec :: spec where
  "start_spec = \<lparr>width = 0, prec = -1, ladjust = False, padc = 32, plus_sign = 0, altfmt = False, longopt = 0\<rparr>"

fun parse_flags :: "u8 list \<Rightarrow> spec \<Rightarrow> spec \<times> u8 list" where
  "parse_flags [] s = (s, [])"
| "parse_flags (c # f) s =
     (if c = 35 then parse_flags f (s\<lparr>altfmt := True\<rparr>)
      else if c = 45 then parse_flags f (s\<lparr>ladjust := True\<rparr>)
      else if c = 43 then parse_flags f (s\<lparr>plus_sign := 43\<rparr>)
      else if c = 32 then parse_flags f (if plus_sign s = 0 then s\<lparr>plus_sign := 32\<rparr> else s)
      else (s, c # f))"

definition parse_zero :: "u8 list \<Rightarrow> spec \<Rightarrow> spec \<times> u8 list" where
  "parse_zero f s = (case f of c # f' \<Rightarrow> if c = 48 then (s\<lparr>padc := 48\<rparr>, f') else (s, f) | [] \<Rightarrow> (s, f))"

fun parse_number :: "int \<Rightarrow> u8 list \<Rightarrow> int \<times> u8 list" where
  "parse_number n [] = (n, [])"
| "parse_number n (c # f) = (if isdigit (sint c) then parse_number (10 * n + (sint c - 48)) f else (n, c # f))"

definition va_int :: "u32 list \<Rightarrow> fault + (u32 \<times> u32 list)" where
  "va_int args = (case args of [] \<Rightarrow> Inl Out_Of_Bounds | a # as \<Rightarrow> Inr (a, as))"

definition parse_width :: "u8 list \<Rightarrow> spec \<Rightarrow> u32 list \<Rightarrow> fault + (spec \<times> u8 list \<times> u32 list)" where
  "parse_width f s args =
     (if isdigit (char_at f) then let (n, f) = parse_number (width s) f in Inr (s\<lparr>width := n\<rparr>, f, args)
      else if char_at f = 42
      then then_out (va_int args) (\<lambda>(a, args).
             Inr (if sint a < 0 then s\<lparr>ladjust := \<not> ladjust s, width := - sint a\<rparr> else s\<lparr>width := sint a\<rparr>, tl f, args))
      else Inr (s, f, args))"

definition parse_prec :: "u8 list \<Rightarrow> spec \<Rightarrow> u32 list \<Rightarrow> fault + (spec \<times> u8 list \<times> u32 list)" where
  "parse_prec f s args =
     (if char_at f = 46
      then let f = tl f
           in if isdigit (char_at f) then let (n, f) = parse_number 0 f in Inr (s\<lparr>prec := n\<rparr>, f, args)
              else if char_at f = 42 then then_out (va_int args) (\<lambda>(a, args). Inr (s\<lparr>prec := sint a\<rparr>, tl f, args))
              else Inr (s, f, args)
      else Inr (s, f, args))"

fun parse_long :: "u8 list \<Rightarrow> spec \<Rightarrow> spec \<times> u8 list" where
  "parse_long [] s = (s, [])"
| "parse_long (c # f) s = (if c = 108 then parse_long f (s\<lparr>longopt := longopt s + 1\<rparr>) else (s, c # f))"

definition parse_spec :: "u8 list \<Rightarrow> u32 list \<Rightarrow> fault + (spec \<times> u8 list \<times> u32 list)" where
  "parse_spec f args =
     (let (s, f) = parse_flags f start_spec; (s, f) = parse_zero f s
      in then_out (parse_width f s args) (\<lambda>(s, f, args).
         then_out (parse_prec f s args) (\<lambda>(s, f, args).
           let (s, f) = parse_long f s in Inr (s, f, args))))"

section \<open>The conversions\<close>

text \<open>\<open>while (n < k) { putc(c); n++; }\<close>.\<close>

definition fill :: "u8 \<Rightarrow> int \<Rightarrow> u8 list" where "fill c k = replicate (nat k) c"

text \<open>\<open>while (--length >= 0) putc(c)\<close>: the characters, and what \<open>length\<close> is afterwards.\<close>

definition pad :: "u8 \<Rightarrow> int \<Rightarrow> u8 list \<times> int" where "pad c len = (fill c len, min (len - 1) (-1))"

definition print_num :: "spec \<Rightarrow> bool \<Rightarrow> u8 \<Rightarrow> int \<Rightarrow> u64 \<Rightarrow> fault + u8 list" where
  "print_num s trunc sign_char base u =
     (let u = (if trunc then scast (ucast u :: u32) else u);
          prefix = (if u \<noteq> 0 \<and> altfmt s then if base = 8 then [48] else if base = 16 then [48, 120] else [] else [])
      in then_out (put_digits MAXBUF u (word_of_int base)) (\<lambda>ds.
           let len = width s - int (length ds) - (if sign_char \<noteq> 0 then 1 else 0) - int (length prefix);
               (blanks, len) = (if padc s = 32 \<and> \<not> ladjust s then pad 32 len else ([], len));
               (zeros, len) = (if padc s = 48 then pad 48 len else ([], len));
               (behind, len) = (if ladjust s then pad 32 len else ([], len))
           in Inr (blanks @ (if sign_char \<noteq> 0 then [sign_char] else []) @ prefix @ zeros @ ds @ behind)))"

definition join64 :: "u32 \<Rightarrow> u32 \<Rightarrow> u64" where "join64 low high = push_bit 32 (ucast high) OR ucast low"

definition va_long :: "bool \<Rightarrow> spec \<Rightarrow> u32 list \<Rightarrow> fault + (u64 \<times> u32 list)" where
  "va_long is_signed s args =
     then_out (va_int args) (\<lambda>(a, args).
       if longopt s > 1 then then_out (va_int args) (\<lambda>(b, args). Inr (join64 a b, args))
       else Inr (if is_signed then scast a else ucast a, args))"

definition print_signed :: "spec \<Rightarrow> bool \<Rightarrow> int \<Rightarrow> u32 list \<Rightarrow> fault + (u8 list \<times> u32 list)" where
  "print_signed s trunc base args =
     then_out (va_long True s args) (\<lambda>(n, args).
     then_out (if sint n \<ge> 0 then print_num s trunc (plus_sign s) base n else print_num s trunc 45 base (- n))
       (\<lambda>out. Inr (out, args)))"

definition print_unsigned :: "spec \<Rightarrow> bool \<Rightarrow> int \<Rightarrow> u32 list \<Rightarrow> fault + (u8 list \<times> u32 list)" where
  "print_unsigned s trunc base args =
     then_out (va_long False s args) (\<lambda>(u, args). then_out (print_num s trunc 0 base u) (\<lambda>out. Inr (out, args)))"

definition print_string :: "spec \<Rightarrow> u8 list \<Rightarrow> u8 list" where
  "print_string s p =
     (let prec = (if prec s = -1 then 0x7fffffff else prec s); len = int (length p);
          before = (if width s > 0 \<and> \<not> ladjust s then fill 32 (width s - min len (max prec 0)) else []);
          n = min len (max prec 0 + 1);
          behind = (if n < width s \<and> ladjust s then fill 32 (width s - n) else [])
      in before @ take (nat prec) p @ behind)"

text \<open>Bit fields: \<open>p\<close> is behind the base, \<open>any\<close> says that a name was printed.\<close>

definition separator :: "bool \<Rightarrow> u8" where "separator any = (if any then 44 else 60)"

definition name_of :: "u8 list \<Rightarrow> u8 list" where "name_of p = takeWhile (\<lambda>c. sint c > 32) p"
definition after_name :: "u8 list \<Rightarrow> u8 list" where "after_name p = dropWhile (\<lambda>c. sint c > 32) p"

function print_fields :: "u32 \<Rightarrow> int \<Rightarrow> bool \<Rightarrow> u8 list \<Rightarrow> fault + u8 list" where
  "print_fields u base any [] = Inr (if any then [62] else [])"
| "print_fields u base any (i # p) =
     (if char_at p \<le> 32
      then (case p of
              [] \<Rightarrow> Inl Out_Of_Bounds
            | j # p \<Rightarrow>
                if \<not> (1 \<le> sint j \<and> sint j \<le> sint i \<and> sint i \<le> 32) then Inl Out_Of_Bounds
                else then_out (printnum (drop_bit (nat (sint j - 1)) u AND (push_bit (nat (sint i - sint j)) 2 - 1)) base) (\<lambda>ds.
                     then_out (print_fields u base True (after_name p)) (\<lambda>out. Inr (separator any # name_of p @ ds @ out))))
      else if \<not> (1 \<le> sint i \<and> sint i \<le> 32) then Inl Out_Of_Bounds
      else if u AND push_bit (nat (sint i - 1)) 1 \<noteq> 0
      then then_out (print_fields u base True (after_name p)) (\<lambda>out. Inr (separator any # name_of p @ out))
      else print_fields u base any (after_name p))"
  by pat_completeness auto

lemma after_name_length: "length (after_name p) \<le> length p" by (simp add: after_name_def length_dropWhile_le)

termination print_fields
  by (relation "measure (\<lambda>(u, base, any, p). length p)") (auto simp: less_Suc_eq_le after_name_length le_SucI)

definition print_bits :: "u32 \<Rightarrow> u8 list \<Rightarrow> fault + u8 list" where
  "print_bits u p =
     (let base = char_at p
      in then_out (printnum u base) (\<lambda>ds. if u = 0 then Inr ds else then_out (print_fields u base False (tl p)) (\<lambda>out. Inr (ds @ out))))"

text \<open>Thread numbers of another kernel: two words, of which the first has the fields \<open>lthread\<close> and \<open>task\<close>.\<close>

definition print_tid :: "spec \<Rightarrow> u32 \<Rightarrow> u32 \<Rightarrow> fault + u8 list" where
  "print_tid s high low =
     (let l = (if altfmt s then [91] else []); r = (if altfmt s then [93] else [])
      in if longopt s \<noteq> 0
         then let n = (if altfmt s then 19 else 17); gap = (if width s > 0 then fill 32 (width s - n) else [])
              in Inr ((if \<not> ladjust s then gap else []) @ l @ printnum_16 high @ [58] @ printnum_16 low @ r @ (if ladjust s then gap else []))
         else let lthread = drop_bit 10 high AND 0x7f; task = drop_bit 17 high AND 0x7ff;
                  n = (if altfmt s then 4 else 2) + (if task \<ge> 0x10 then 1 else 0) + (if task \<ge> 0x100 then 1 else 0);
                  m = 1 + (if lthread \<ge> 0x10 then 1 else 0);
                  right = width s > 0 \<and> \<not> ladjust s;
                  blanks = (if right \<and> padc s = 32 then fill 32 (width s - (n + 2)) else []);
                  n = n + int (length blanks);
                  zeros = (if right \<and> padc s = 48 then fill 48 (width s - (n + 2)) else []);
                  n = n + int (length zeros);
                  mid = (if right then fill (padc s) (width s - (n + m)) else []);
                  n = n + int (length mid);
                  behind = (if ladjust s then fill 32 (width s - (n + m)) else [])
              in then_out (printnum task 16) (\<lambda>ts. then_out (printnum lthread 16) (\<lambda>ls.
                   Inr (blanks @ l @ zeros @ ts @ [46] @ mid @ ls @ r @ behind))))"

section \<open>The whole format\<close>

text \<open>The switch over the conversion character; \<open>tr\<close> is the flag \<open>_doprnt_truncates\<close>.\<close>

definition convert :: "bool \<Rightarrow> (u32 \<Rightarrow> u8 list) \<Rightarrow> int \<Rightarrow> spec \<Rightarrow> u8 \<Rightarrow> u32 list \<Rightarrow> fault + (u8 list \<times> u32 list)" where
  "convert tr str radix s c args =
     (if c = 98 \<or> c = 66
      then then_out (va_int args) (\<lambda>(u, args). then_out (va_int args) (\<lambda>(p, args). then_out (print_bits u (str p)) (\<lambda>out. Inr (out, args))))
      else if c = 99 then then_out (va_int args) (\<lambda>(a, args). Inr ([ucast a], args))
      else if c = 116
      then then_out (va_int args) (\<lambda>(h, args). then_out (va_int args) (\<lambda>(l, args). then_out (print_tid s h l) (\<lambda>out. Inr (out, args))))
      else if c = 115 then then_out (va_int args) (\<lambda>(p, args). Inr (print_string s (if p = 0 then [] else str p), args))
      else if c = 111 then print_unsigned s tr 8 args
      else if c = 79 then print_unsigned s False 8 args
      else if c = 100 then print_signed s tr 10 args
      else if c = 68 then print_signed s False 10 args
      else if c = 117 then print_unsigned s tr 10 args
      else if c = 85 then print_unsigned s False 10 args
      else if c = 112
      then then_out (print_unsigned (s\<lparr>padc := 48, width := 8\<rparr>) tr 16 args) (\<lambda>(out, args). Inr (48 # 120 # out, args))
      else if c = 120 then print_unsigned s tr 16 args
      else if c = 88 then print_unsigned s False 16 args
      else if c = 122 then print_signed s tr 16 args
      else if c = 90 then print_signed s False 16 args
      else if c = 114 then print_signed s tr radix args
      else if c = 82 then print_signed s False radix args
      else if c = 110 then print_unsigned s tr radix args
      else if c = 78 then print_unsigned s False radix args
      else Inr ([c], args))"

text \<open>What the parser leaves of the format is never longer than the format.\<close>

lemma parse_flags_length: "parse_flags f s = (s', f') \<Longrightarrow> length f' \<le> length f"
  by (induction f s rule: parse_flags.induct) (auto split: if_splits)

lemma parse_zero_length: "parse_zero f s = (s', f') \<Longrightarrow> length f' \<le> length f"
  by (auto simp: parse_zero_def split: if_splits list.splits)

lemma parse_number_length: "parse_number n f = (n', f') \<Longrightarrow> length f' \<le> length f"
  by (induction n f rule: parse_number.induct) (auto split: if_splits)

lemma parse_long_length: "parse_long f s = (s', f') \<Longrightarrow> length f' \<le> length f"
  by (induction f s rule: parse_long.induct) (auto split: if_splits)

lemma then_out_InrE: "then_out m f = Inr b \<Longrightarrow> \<exists>a. m = Inr a \<and> f a = Inr b"
  by (cases m) auto

lemma parse_width_length: "parse_width f s args = Inr (s', f', args') \<Longrightarrow> length f' \<le> length f"
  by (auto simp: parse_width_def split: if_splits prod.splits dest!: parse_number_length then_out_InrE)

lemma parse_prec_length: "parse_prec f s args = Inr (s', f', args') \<Longrightarrow> length f' \<le> length f"
  by (auto simp: parse_prec_def Let_def split: if_splits prod.splits dest!: parse_number_length then_out_InrE)

lemma parse_spec_length:
  assumes "parse_spec f args = Inr (s', f', args')"
  shows "length f' \<le> length f"
proof -
  obtain s1 f1 where 1: "parse_flags f start_spec = (s1, f1)" by (cases "parse_flags f start_spec")
  obtain s2 f2 where 2: "parse_zero f1 s1 = (s2, f2)" by (cases "parse_zero f1 s1")
  obtain s3 f3 a3 where 3: "parse_width f2 s2 args = Inr (s3, f3, a3)"
    using assms by (auto simp: parse_spec_def 1 2 dest!: then_out_InrE)
  obtain s4 f4 a4 where 4: "parse_prec f3 s3 a3 = Inr (s4, f4, a4)"
    using assms by (auto simp: parse_spec_def 1 2 3 dest!: then_out_InrE)
  obtain s5 f5 where 5: "parse_long f4 s4 = (s5, f5)" by (cases "parse_long f4 s4")
  have "f' = f5" using assms by (simp add: parse_spec_def 1 2 3 4 5)
  then show ?thesis
    using parse_flags_length[OF 1] parse_zero_length[OF 2] parse_width_length[OF 3] parse_prec_length[OF 4] parse_long_length[OF 5]
    by simp
qed

text \<open>The loop of \<open>_doprnt\<close>. At the end of the format inside a specification nothing more is printed.\<close>

function doprnt :: "bool \<Rightarrow> (u32 \<Rightarrow> u8 list) \<Rightarrow> int \<Rightarrow> u8 list \<Rightarrow> u32 list \<Rightarrow> fault + u8 list" where
  "doprnt tr str radix [] args = Inr []"
| "doprnt tr str radix (c # f) args =
     (if c \<noteq> 37 then then_out (doprnt tr str radix f args) (\<lambda>out. Inr (c # out))
      else case parse_spec f args of
             Inl e \<Rightarrow> Inl e
           | Inr (s, [], args) \<Rightarrow> Inr []
           | Inr (s, k # f', args) \<Rightarrow>
               then_out (convert tr str radix s k args) (\<lambda>(out, args).
               then_out (doprnt tr str radix f' args) (\<lambda>more. Inr (out @ more))))"
  by pat_completeness auto

termination doprnt
  by (relation "measure (\<lambda>(tr, str, radix, f, args). length f)") (auto dest: parse_spec_length)

section \<open>Printing into memory\<close>

record sprintf_state =
  smem :: "u32 \<Rightarrow> u8"
  sbuf :: u32
  slen :: u32
  smax :: u32

definition savechar :: "sprintf_state \<Rightarrow> u8 \<Rightarrow> sprintf_state" where
  "savechar st c =
     (if smax st \<noteq> -1 \<and> slen st = smax st then st
      else st\<lparr>slen := slen st + 1, smem := (smem st)(sbuf st := c), sbuf := sbuf st + 1\<rparr>)"

definition print_into :: "u32 \<Rightarrow> (u32 \<Rightarrow> u8) \<Rightarrow> u32 \<Rightarrow> u8 list \<Rightarrow> (u32 \<Rightarrow> u8) \<times> u32" where
  "print_into limit m s out =
     (let st = foldl savechar \<lparr>smem = m, sbuf = s, slen = 0, smax = limit\<rparr> out in ((smem st)(sbuf st := 0), slen st))"

text \<open>The format, the arguments and the strings are not in the buffer.\<close>

definition vsprintf :: "bool \<Rightarrow> (u32 \<Rightarrow> u8 list) \<Rightarrow> (u32 \<Rightarrow> u8) \<Rightarrow> u32 \<Rightarrow> u8 list \<Rightarrow> u32 list \<Rightarrow> fault + ((u32 \<Rightarrow> u8) \<times> u32)" where
  "vsprintf tr str m s f args = then_out (doprnt tr str 0 f args) (\<lambda>out. Inr (print_into (-1) m s out))"

definition vsnprintf :: "bool \<Rightarrow> (u32 \<Rightarrow> u8 list) \<Rightarrow> (u32 \<Rightarrow> u8) \<Rightarrow> u32 \<Rightarrow> u32 \<Rightarrow> u8 list \<Rightarrow> u32 list \<Rightarrow> fault + ((u32 \<Rightarrow> u8) \<times> u32)" where
  "vsnprintf tr str m s sz f args = then_out (doprnt tr str 0 f args) (\<lambda>out. Inr (print_into (sz - 1) m s out))"

section \<open>Printing on the console\<close>

text \<open>The characters of the calls of \<open>putchar\<close>, in order, and the buffer of \<open>printf\<close>.\<close>

definition PRINTF_BUFMAX :: nat where "PRINTF_BUFMAX = 128"

record printf_state =
  pbuf :: "u8 list"
  pindex :: nat
  pout :: "u8 list"

definition puts :: "u8 list \<Rightarrow> u8 list" where "puts s = takeWhile (\<lambda>c. c \<noteq> 0) s @ [10]"

definition pflush :: "printf_state \<Rightarrow> printf_state" where
  "pflush st = st\<lparr>pout := pout st @ take (pindex st) (pbuf st), pindex := 0\<rparr>"

definition printf_char :: "u8 \<Rightarrow> printf_state \<Rightarrow> fault + printf_state" where
  "printf_char c st =
     (if c = 10
      then if pindex st \<ge> PRINTF_BUFMAX then Inl Out_Of_Bounds
           else let b = (pbuf st)[pindex st := 0] in Inr (st\<lparr>pbuf := b, pout := pout st @ puts b, pindex := 0\<rparr>)
      else if c = 0 \<or> pindex st \<ge> PRINTF_BUFMAX then let st = pflush st in Inr (st\<lparr>pout := pout st @ [c]\<rparr>)
      else Inr (st\<lparr>pbuf := (pbuf st)[pindex st := c], pindex := pindex st + 1\<rparr>))"

fun printf_chars :: "u8 list \<Rightarrow> printf_state \<Rightarrow> fault + printf_state" where
  "printf_chars [] st = Inr st"
| "printf_chars (c # cs) st = then_out (printf_char c st) (printf_chars cs)"

text \<open>\<open>b\<close> is what the stack holds where the buffer is.\<close>

definition vprintf :: "bool \<Rightarrow> (u32 \<Rightarrow> u8 list) \<Rightarrow> u8 list \<Rightarrow> u8 list \<Rightarrow> u32 list \<Rightarrow> fault + u8 list" where
  "vprintf tr str b f args =
     then_out (doprnt tr str 0 f args) (\<lambda>out.
     then_out (printf_chars out \<lparr>pbuf = b, pindex = 0, pout = []\<rparr>) (\<lambda>st.
       Inr (pout (if pindex st \<noteq> 0 then pflush st else st))))"

section \<open>Bounded and unbounded printing into memory\<close>

definition write_bytes :: "(u32 \<Rightarrow> u8) \<Rightarrow> u32 \<Rightarrow> u8 list \<Rightarrow> u32 \<Rightarrow> u8" where
  "write_bytes m a bs = (\<lambda>x. if unat (x - a) < length bs then bs ! unat (x - a) else m x)"

lemma write_bytes_Nil [simp]: "write_bytes m a [] = m" by (simp add: write_bytes_def)

lemma word_of_unat: "of_nat (unat w) = (w :: u32)" by simp

lemma unat_distance: "n < 2 ^ 32 \<Longrightarrow> unat (x - a :: u32) = n \<longleftrightarrow> x = a + of_nat n"
  using unat_of_nat_eq[of n] word_of_unat[of "x - a"] by (metis add.commute diff_add_cancel add_diff_cancel_right')

lemma write_bytes_snoc:
  assumes "length bs < 2 ^ 32"
  shows "(write_bytes m a bs)(a + of_nat (length bs) := c) = write_bytes m a (bs @ [c])"
proof
  fix x
  show "((write_bytes m a bs)(a + of_nat (length bs) := c)) x = write_bytes m a (bs @ [c]) x"
    using unat_distance[OF assms, of x a]
    by (cases "unat (x - a) = length bs") (auto simp: write_bytes_def nth_append)
qed

text \<open>How much of the output is stored.\<close>

definition kept :: "u32 \<Rightarrow> u8 list \<Rightarrow> nat" where
  "kept limit out = (if limit = -1 then length out else min (length out) (unat limit))"

lemma unat_less_max: "limit \<noteq> (-1 :: u32) \<Longrightarrow> unat limit < 2 ^ 32 - 1"
proof -
  assume a: "limit \<noteq> -1"
  have "limit < -1" using a word_order.extremum_strict[of limit] by (metis word_order.not_eq_extremum)
  moreover have "(-1 :: u32) = 0xFFFFFFFF" by simp
  ultimately have "unat limit < unat (0xFFFFFFFF :: u32)" by (simp only: word_less_nat_alt)
  then show ?thesis by simp
qed

lemma foldl_savechar:
  assumes "limit = -1 \<Longrightarrow> length out < 2 ^ 32"
  shows "foldl savechar \<lparr>smem = m, sbuf = s, slen = 0, smax = limit\<rparr> out =
    \<lparr>smem = write_bytes m s (take (kept limit out) out), sbuf = s + of_nat (kept limit out), slen = of_nat (kept limit out), smax = limit\<rparr>"
  using assms
proof (induction out rule: rev_induct)
  case Nil
  then show ?case by (simp add: kept_def)
next
  case (snoc c out)
  let ?k = "kept limit out"
  have k: "?k \<le> length out" by (simp add: kept_def)
  have lt: "?k < 2 ^ 32" using snoc.prems unat_less_max[of limit] by (auto simp: kept_def)
  have full: "limit \<noteq> -1 \<and> of_nat ?k = limit \<longleftrightarrow> limit \<noteq> -1 \<and> ?k = unat limit"
    using lt unat_of_nat_eq[of ?k] word_of_unat[of limit] by auto
  have IH: "foldl savechar \<lparr>smem = m, sbuf = s, slen = 0, smax = limit\<rparr> out =
    \<lparr>smem = write_bytes m s (take ?k out), sbuf = s + of_nat ?k, slen = of_nat ?k, smax = limit\<rparr>"
    by (rule snoc.IH) (use snoc.prems in simp)
  have step: "foldl savechar \<lparr>smem = m, sbuf = s, slen = 0, smax = limit\<rparr> (out @ [c]) =
    savechar \<lparr>smem = write_bytes m s (take ?k out), sbuf = s + of_nat ?k, slen = of_nat ?k, smax = limit\<rparr> c"
    by (simp only: foldl_append foldl.simps IH)
  show ?case
  proof (cases "limit \<noteq> -1 \<and> ?k = unat limit")
    case True
    then have e: "kept limit (out @ [c]) = ?k" using k by (auto simp: kept_def)
    have "take ?k (out @ [c]) = take ?k out" using k by simp
    then show ?thesis using True full unfolding step e by (simp only: savechar_def sprintf_state.simps if_True simp_thms)
  next
    case False
    then have e: "?k = length out" "kept limit (out @ [c]) = Suc (length out)" by (auto simp: kept_def)
    have "(write_bytes m s out)(s + of_nat (length out) := c) = write_bytes m s (out @ [c])"
      using lt e by (intro write_bytes_snoc) simp
    moreover have "\<not> (limit \<noteq> -1 \<and> of_nat (length out) = limit)" using False full e by metis
    ultimately show ?thesis unfolding step e by (auto simp: savechar_def algebra_simps)
  qed
qed

lemma print_into_kept:
  assumes "limit = -1 \<Longrightarrow> length out < 2 ^ 32"
  shows "print_into limit m s out = (write_bytes m s (take (kept limit out) out @ [0]), of_nat (kept limit out))"
proof -
  have "kept limit out < 2 ^ 32" using assms unat_less_max[of limit] by (auto simp: kept_def)
  moreover have l: "length (take (kept limit out) out) = kept limit out" by (simp add: kept_def)
  ultimately show ?thesis
    using write_bytes_snoc[of "take (kept limit out) out" m s 0] by (simp only: l print_into_def foldl_savechar[OF assms] Let_def sprintf_state.simps)
qed

section \<open>What the callers get\<close>

text \<open>C24: A size that is not zero bounds what \<open>vsnprintf\<close> writes: the bytes from the start of the buffer are the first size - 1 characters of the
  output with a NUL behind them, the result is their number, and no byte from the size on changes.\<close>

theorem vsnprintf_bounded:
  assumes "doprnt tr str 0 f args = Inr out" "sz \<noteq> 0"
  shows "\<exists>m'. vsnprintf tr str m s sz f args = Inr (m', of_nat (min (length out) (unat sz - 1)))
    \<and> m' = write_bytes m s (take (unat sz - 1) out @ [0]) \<and> (\<forall>x. unat (x - s) \<ge> unat sz \<longrightarrow> m' x = m x)"
proof -
  have l: "sz - 1 \<noteq> -1" using assms(2) by simp
  have u: "unat (sz - 1) = unat sz - 1" using assms(2) by (metis unat_minus_one)
  have pos: "0 < unat sz" using assms(2) by (simp add: unat_gt_0)
  have "take (kept (sz - 1) out) out = take (unat sz - 1) out" by (simp add: kept_def l u min_def)
  moreover have "kept (sz - 1) out = min (length out) (unat sz - 1)" by (simp add: kept_def l u)
  moreover have "print_into (sz - 1) m s out = (write_bytes m s (take (kept (sz - 1) out) out @ [0]), of_nat (kept (sz - 1) out))"
    by (rule print_into_kept) (use l in blast)
  ultimately have "vsnprintf tr str m s sz f args = Inr (write_bytes m s (take (unat sz - 1) out @ [0]), of_nat (min (length out) (unat sz - 1)))"
    by (simp only: vsnprintf_def assms(1) then_out_simps)
  moreover have "unat (x - s) \<ge> unat sz \<Longrightarrow> write_bytes m s (take (unat sz - 1) out @ [0]) x = m x" for x
    using pos by (auto simp: write_bytes_def)
  ultimately show ?thesis by blast
qed

text \<open>The size 0 is the bound of \<open>vsprintf\<close>, which is none.\<close>

lemma vsnprintf_zero: "vsnprintf tr str m s 0 f args = vsprintf tr str m s f args"
  by (simp add: vsnprintf_def vsprintf_def)

text \<open>The buffer of \<open>printf\<close> holds characters that are neither NUL nor newlines.\<close>

definition printf_ok :: "printf_state \<Rightarrow> bool" where
  "printf_ok st \<longleftrightarrow> length (pbuf st) = PRINTF_BUFMAX \<and> pindex st \<le> PRINTF_BUFMAX \<and> (\<forall>c \<in> set (take (pindex st) (pbuf st)). c \<noteq> 0 \<and> c \<noteq> 10)"

definition printed :: "printf_state \<Rightarrow> u8 list" where
  "printed st = pout st @ take (pindex st) (pbuf st)"

lemma takeWhile_NUL:
  "i < length b \<Longrightarrow> \<forall>c \<in> set (take i b). c \<noteq> (0 :: u8) \<Longrightarrow> takeWhile (\<lambda>c. c \<noteq> 0) (b[i := 0]) = take i b"
  by (simp add: upd_conv_take_nth_drop)

lemma printf_char_step:
  assumes "printf_ok st" "printf_char c st = Inr st'"
  shows "printf_ok st' \<and> printed st' = printed st @ [c]"
proof -
  let ?i = "pindex st" and ?b = "pbuf st"
  have ok: "length ?b = PRINTF_BUFMAX" "?i \<le> PRINTF_BUFMAX" "\<forall>c \<in> set (take ?i ?b). c \<noteq> 0 \<and> c \<noteq> 10"
    using assms(1) by (auto simp: printf_ok_def)
  consider (nl) "c = 10" | (flush) "c \<noteq> 10" "c = 0 \<or> ?i \<ge> PRINTF_BUFMAX" | (store) "c \<noteq> 10" "c \<noteq> 0" "?i < PRINTF_BUFMAX"
    by linarith
  then show ?thesis
  proof cases
    case nl
    then have i: "?i < length ?b" and st': "st' = st\<lparr>pbuf := ?b[?i := 0], pout := pout st @ puts (?b[?i := 0]), pindex := 0\<rparr>"
      using assms(2) ok by (simp_all add: printf_char_def Let_def split: if_splits)
    have "puts (?b[?i := 0]) = take ?i ?b @ [10]" unfolding puts_def using takeWhile_NUL[OF i] ok(3) by simp
    then show ?thesis using ok by (simp add: st' printf_ok_def printed_def nl)
  next
    case flush
    then have "st' = (pflush st)\<lparr>pout := pout (pflush st) @ [c]\<rparr>"
      using assms(2) unfolding printf_char_def Let_def by (simp only: flush if_False if_True sum.inject)
    then show ?thesis using ok by (simp add: pflush_def printf_ok_def printed_def)
  next
    case store
    then have "st' = st\<lparr>pbuf := ?b[?i := c], pindex := ?i + 1\<rparr>" using assms(2) by (simp add: printf_char_def)
    moreover have "take (?i + 1) (?b[?i := c]) = take ?i ?b @ [c]" using store(3) ok(1) by (simp add: take_Suc_conv_app_nth)
    ultimately show ?thesis using ok store by (simp add: printf_ok_def printed_def)
  qed
qed

lemma printf_chars_printed:
  "printf_ok st \<Longrightarrow> printf_chars cs st = Inr st' \<Longrightarrow> printf_ok st' \<and> printed st' = printed st @ cs"
proof (induction cs arbitrary: st)
  case (Cons c cs)
  then obtain st1 where "printf_char c st = Inr st1" "printf_chars cs st1 = Inr st'" by (auto dest: then_out_InrE)
  then show ?case using Cons.IH[of st1] printf_char_step[OF Cons.prems(1)] by fastforce
qed simp

text \<open>Lines of at most the length of the buffer do not run over it.\<close>

fun short_lines :: "nat \<Rightarrow> u8 list \<Rightarrow> bool" where
  "short_lines n [] = True"
| "short_lines n (c # cs) = (if c = 10 then n < PRINTF_BUFMAX \<and> short_lines 0 cs
     else if c = 0 \<or> n \<ge> PRINTF_BUFMAX then short_lines 0 cs else short_lines (Suc n) cs)"

lemma printf_chars_Inr: "(\<exists>st'. printf_chars cs st = Inr st') \<longleftrightarrow> short_lines (pindex st) cs"
proof (induction cs arbitrary: st)
  case (Cons c cs)
  show ?case
    by (cases "printf_char c st") (auto simp: printf_char_def Let_def pflush_def Cons.IH not_le split: if_splits)
qed simp

text \<open>C25: \<open>printf\<close> puts the characters of its output on the console, each once and in order, and returns normally unless a newline comes
  when exactly the buffer's length of other characters is waiting, which stores a NUL behind the buffer.\<close>

theorem vprintf_prints:
  assumes "doprnt tr str 0 f args = Inr out" "length b = PRINTF_BUFMAX"
  shows "vprintf tr str b f args = (if short_lines 0 out then Inr out else Inl Out_Of_Bounds)"
proof -
  let ?st = "\<lparr>pbuf = b, pindex = 0, pout = []\<rparr>"
  have ok: "printf_ok ?st" "printed ?st = []" by (simp_all add: printf_ok_def printed_def assms(2))
  have fault: "printf_chars cs st = Inl e \<Longrightarrow> e = Out_Of_Bounds" for cs st e
    by (induction cs arbitrary: st) (auto simp: then_out_def printf_char_def Let_def split: sum.splits if_splits)
  show ?thesis
  proof (cases "printf_chars out ?st")
    case (Inr st')
    then have "printed st' = out" using printf_chars_printed[OF ok(1)] ok(2) by fastforce
    moreover have "short_lines 0 out" using printf_chars_Inr[of out ?st] Inr by simp
    ultimately show ?thesis by (auto simp: vprintf_def assms(1) Inr printed_def pflush_def)
  next
    case (Inl e)
    then show ?thesis using printf_chars_Inr[of out ?st] fault[OF Inl] by (simp add: vprintf_def assms(1))
  qed
qed

section \<open>Printed numbers are read back\<close>

text \<open>A digit of a base up to 16.\<close>

lemma digs_value:
  assumes "d < 16"
  shows "sint (digs ! d) = (if d < 10 then 48 + int d else 87 + int d)"
proof -
  have "d \<in> {0..<16}" using assms by simp
  then have "d \<in> {0,1,2,3,4,5,6,7,8,9,10,11,12,13,14,15}" by (auto simp: atLeastLessThan_iff numeral_eq_Suc less_Suc_eq)
  then show ?thesis by (auto simp: digs_def)
qed

lemma digit_value_digs: "d < nat base \<Longrightarrow> base \<le> 16 \<Longrightarrow> digit_value base (sint (digs ! d)) = Some (int d)"
  by (auto simp: digit_value_def digs_value)

definition digit_list :: "int \<Rightarrow> u8 list \<Rightarrow> bool" where
  "digit_list base ds \<longleftrightarrow> (\<forall>c \<in> set ds. \<exists>d < nat base. c = digs ! d)"

lemma u64_divmod: "ucast (u div b) * ucast b + ucast (u mod b) = (ucast u :: u32)" for u b :: u64
proof -
  have "unat u = unat (u div b) * unat b + unat (u mod b)" by (simp add: unat_div_distrib unat_mod_distrib)
  then have "(of_nat (unat u) :: u32) = of_nat (unat (u div b)) * of_nat (unat b) + of_nat (unat (u mod b))"
    by (simp only: of_nat_add of_nat_mult)
  then show ?thesis by (simp only: of_nat_unat)
qed

text \<open>The digits of a number: all are digits of the base, and reading them gives the number.\<close>

lemma read_digits_append1:
  "d < nat base \<Longrightarrow> base \<le> 16 \<Longrightarrow>
     read_digits base v (digs ! d # p) = read_digits base (v * word_of_int base + of_nat d) p"
  by (simp add: digit_value_digs)

lemma put_digits_read:
  assumes "2 \<le> base" "base \<le> 16" "unat u < nat base ^ room" "room > 0"
  shows "\<exists>ds. put_digits room u (word_of_int base) = Inr ds \<and> ds \<noteq> [] \<and> digit_list base ds
    \<and> (\<forall>v rest. read_digits base v (ds @ rest) = read_digits base (v * word_of_int base ^ length ds + ucast u) rest)"
  using assms(3,4)
proof (induction room arbitrary: u)
  case (Suc room)
  define b :: u64 where "b = word_of_int base"
  have b: "unat b = nat base" using assms(1,2) by (simp add: b_def unat_eq_nat_uint uint_word_of_int)
  then have b0: "b \<noteq> 0" using assms(1) by auto
  have ub: "ucast b = (word_of_int base :: u32)" using b assms(1) 
  proof -
    have "of_nat (unat b) = (ucast b :: u32)" by (rule of_nat_unat)
    then have "ucast b = (of_nat (nat base) :: u32)" unfolding b by (rule sym)
    also have "\<dots> = word_of_int base" using assms(1) by (simp add: of_nat_nat)
    finally show ?thesis .
  qed
  define d where "d = unat (u mod b)"
  have d: "d < nat base" using b assms(1) by (simp add: d_def unat_mod_distrib)
  have ud: "of_nat d = (ucast (u mod b) :: u32)" by (simp add: d_def)
  show ?case
  proof (cases "u div b = 0")
    case True
    then have "ucast u = (of_nat d :: u32)" using u64_divmod[of u b] ud by simp
    then show ?thesis using True b0 d assms(2)
      by (auto simp: b_def[symmetric] d_def[symmetric] Let_def digit_list_def digit_value_digs)
  next
    case False
    have "unat u div nat base > 0" using False b by (metis unat_div_distrib unat_eq_0 gr0I)
    then have "unat u \<ge> nat base" by (metis div_less less_nat_zero_code not_less)
    then have r: "room > 0" using Suc.prems(1) by (cases room) auto
    have "unat (u div b) < nat base ^ room"
      using Suc.prems(1) b assms(1) by (simp add: unat_div_distrib less_mult_imp_div_less mult.commute)
    from Suc.IH[OF this r] obtain ds where ds: "put_digits room (u div b) b = Inr ds" "digit_list base ds"
      "\<And>v rest. read_digits base v (ds @ rest) = read_digits base (v * word_of_int base ^ length ds + ucast (u div b)) rest"
      unfolding b_def[symmetric] by blast
    have out: "put_digits (Suc room) u b = Inr (ds @ [digs ! d])"
      using ds(1) b0 False d assms(2) by (simp add: d_def[symmetric] Let_def)
    have list: "digit_list base (ds @ [digs ! d])" using ds(2) d by (auto simp: digit_list_def)
    have "read_digits base v ((ds @ [digs ! d]) @ rest) = read_digits base (v * word_of_int base ^ length (ds @ [digs ! d]) + ucast u) rest" for v rest
    proof -
      have "read_digits base v ((ds @ [digs ! d]) @ rest)
          = read_digits base ((v * word_of_int base ^ length ds + ucast (u div b)) * word_of_int base + of_nat d) rest"
        using read_digits_append1[OF d assms(2)] by (simp only: append_assoc append_Cons append_Nil ds(3))
      also have "(v * word_of_int base ^ length ds + ucast (u div b)) * word_of_int base + of_nat d
          = v * word_of_int base ^ length (ds @ [digs ! d]) + ucast u"
        unfolding ud ub[symmetric] u64_divmod[of u b, symmetric] by (simp add: algebra_simps)
      finally show ?thesis .
    qed
    then show ?thesis using out list unfolding b_def by blast
  qed
qed simp

text \<open>The parts of a printed number: blanks, the sign, the prefix, zeros, the digits, blanks.\<close>

definition number_prefix :: "spec \<Rightarrow> int \<Rightarrow> u64 \<Rightarrow> u8 list" where
  "number_prefix s base u = (if u \<noteq> 0 \<and> altfmt s then if base = 8 then [48] else if base = 16 then [48, 120] else [] else [])"

lemma print_num_parts:
  assumes "4 \<le> base" "base \<le> 16"
  shows "\<exists>k z j ds. print_num s trunc c base u =
      Inr (replicate k 32 @ (if c \<noteq> 0 then [c] else []) @ number_prefix s base (if trunc then scast (ucast u :: u32) else u)
        @ replicate z 48 @ ds @ replicate j 32)
    \<and> (width s = 0 \<longrightarrow> k = 0 \<and> z = 0 \<and> j = 0) \<and> ds \<noteq> [] \<and> digit_list base ds
    \<and> (\<forall>v rest. read_digits base v (ds @ rest) = read_digits base (v * word_of_int base ^ length ds + ucast u) rest)"
proof -
  define u' :: u64 where "u' = (if trunc then scast (ucast u :: u32) else u)"
  have low: "ucast u' = (ucast u :: u32)"
    by (auto simp: u'_def bit_simps intro!: bit_word_eqI)
  have "(4::nat) ^ 32 \<le> nat base ^ 32" using assms(1) by (intro power_mono) auto
  moreover have "unat u' < 2 ^ 64" using unsigned_less[of u', where 'a = nat] by simp
  ultimately have "unat u' < nat base ^ MAXBUF" by (simp add: MAXBUF_def)
  then obtain ds where ds: "put_digits MAXBUF u' (word_of_int base) = Inr ds" "ds \<noteq> []" "digit_list base ds"
    "\<forall>v rest. read_digits base v (ds @ rest) = read_digits base (v * word_of_int base ^ length ds + ucast u) rest"
    using put_digits_read[of base u' MAXBUF] assms low by (auto simp: MAXBUF_def)
  define len where "len = width s - int (length ds) - (if c \<noteq> 0 then 1 else 0) - int (length (number_prefix s base u'))"
  obtain b l1 where 1: "(if padc s = 32 \<and> \<not> ladjust s then pad 32 len else ([], len)) = (b, l1)" by fastforce
  obtain z l2 where 2: "(if padc s = 48 then pad 48 l1 else ([], l1)) = (z, l2)" by fastforce
  obtain e l3 where 3: "(if ladjust s then pad 32 l2 else ([], l2)) = (e, l3)" by fastforce
  have l1: "l1 \<le> len" and l2: "l2 \<le> l1" and l3: "width s = 0 \<Longrightarrow> len \<le> 0"
    using 1 2 by (auto simp: pad_def len_def split: if_splits)
  have pads: "\<exists>k. fst (if P then pad x n else ([], n)) = replicate k x \<and> (n \<le> 0 \<longrightarrow> k = 0)" for P x n
    by (auto simp: pad_def fill_def)
  obtain k z' j where reps: "b = replicate k 32" "z = replicate z' 48" "e = replicate j 32"
    and zero: "len \<le> 0 \<longrightarrow> k = 0" "l1 \<le> 0 \<longrightarrow> z' = 0" "l2 \<le> 0 \<longrightarrow> j = 0"
    using pads[of "padc s = 48" 48 l1, unfolded 2] pads[of "ladjust s" 32 l2, unfolded 3]
      pads[of "padc s = 32 \<and> \<not> ladjust s" 32 len, unfolded 1] by auto
  have "width s = 0 \<longrightarrow> k = 0 \<and> z' = 0 \<and> j = 0" using zero l1 l2 l3 by linarith
  note reps = reps this
  have "print_num s trunc c base u = Inr (b @ (if c \<noteq> 0 then [c] else []) @ number_prefix s base u' @ z @ ds @ e)"
    unfolding print_num_def Let_def u'_def[symmetric] number_prefix_def[symmetric] ds(1) then_out_simps len_def[symmetric]
    by (simp add: 1 2 3)
  then show ?thesis using reps(4) ds(2-4) unfolding u'_def reps(1-3) by blast
qed

text \<open>Reading skips the blanks in front, the sign, the prefix and the zeros.\<close>

lemma skip_spaces_blanks [simp]: "skip_spaces (replicate k 32 @ p) = skip_spaces p"
  by (induction k) (auto simp: skip_spaces_def isspace_def)

lemma read_digits_zeros [simp]:
  "base > 0 \<Longrightarrow> read_digits base 0 (replicate z 48 @ p) = read_digits base 0 p"
  by (induction z) (auto simp: digit_value_def)

lemma read_digits_blanks [simp]: "read_digits base v (replicate j 32) = (v, replicate j 32)"
  by (cases j) (auto simp: digit_value_def)

lemma digit_list_sint: "digit_list base ds \<Longrightarrow> base \<le> 16 \<Longrightarrow> c \<in> set ds \<Longrightarrow> sint c \<in> {48..57} \<union> {97..102}"
  by (fastforce simp: digit_list_def digs_value split: if_splits)

definition plain :: "u8 list \<Rightarrow> bool" where
  "plain p \<longleftrightarrow> (\<forall>c \<in> set p. sint c \<noteq> 120 \<and> sint c \<noteq> 88) \<and> p \<noteq> [] \<and> sint (hd p) \<in> {48..57} \<union> {97..102}"

lemma plain_number:
  assumes "digit_list base ds" "base \<le> 16" "ds \<noteq> []"
  shows "plain (replicate z 48 @ ds @ replicate j 32)"
  using digit_list_sint[OF assms(1,2)] assms(3) by (cases z; cases ds) (fastforce simp: plain_def)+

lemma read_base_plain: "plain p \<Longrightarrow> base \<noteq> 0 \<Longrightarrow> read_base p base = (p, base)"
  by (cases p; cases "tl p") (auto simp: read_base_def plain_def char_at_def)

lemma read_number:
  fixes s :: spec and u :: u64 and z j :: nat and base :: int
  assumes "4 \<le> base" "base \<le> 16" "digit_list base ds" "ds \<noteq> []"
    "\<forall>v rest. read_digits base v (ds @ rest) = read_digits base (v * word_of_int base ^ length ds + w) rest"
  defines "p \<equiv> number_prefix s base u @ replicate z 48 @ ds @ replicate j 32"
  shows "(case read_base p base of (p, base) \<Rightarrow> read_digits base 0 p) = (w, replicate j 32)"
    "p \<noteq> []" "isspace (sint (hd p)) = False" "sint (hd p) \<noteq> 45"
proof -
  let ?q = "replicate z 48 @ ds @ replicate j 32"
  have pre: "number_prefix s base u = [] \<or> number_prefix s base u = [48] \<or> number_prefix s base u = [48, 120] \<and> base = 16"
    by (simp add: number_prefix_def)
  have q: "plain ?q" by (rule plain_number[OF assms(3,2,4)])
  then have q8: "plain (48 # ?q)" by (simp add: plain_def)
  have r: "read_digits base 0 ?q = (w, replicate j 32)" using assms(1,5) by simp
  have r8: "read_digits base 0 (48 # ?q) = (w, replicate j 32)" using r assms(1) by (simp add: digit_value_def)
  show "(case read_base p base of (p, base) \<Rightarrow> read_digits base 0 p) = (w, replicate j 32)"
    using read_base_plain[OF q, of base] read_base_plain[OF q8, of base] r r8 assms(1)
    using pre
  proof (elim disjE conjE)
    assume "number_prefix s base u = [48, 120]" "base = 16"
    then have "read_base p base = (?q, base)" by (simp add: p_def read_base_def char_at_def)
    then show ?thesis using r by simp
  qed (use read_base_plain[OF q, of base] read_base_plain[OF q8, of base] r r8 assms(1) in \<open>simp_all add: p_def\<close>)
  have h: "sint (hd p) \<in> {48..57} \<union> {97..102}" "p \<noteq> []"
    using pre q by (elim disjE conjE; simp add: p_def plain_def)+
  from h show "p \<noteq> []" "isspace (sint (hd p)) = False" "sint (hd p) \<noteq> 45" by (auto simp: isspace_def)
qed

lemma skip_spaces_id: "p \<noteq> [] \<Longrightarrow> isspace (sint (hd p)) = False \<Longrightarrow> skip_spaces p = p"
  by (cases p) (simp_all add: skip_spaces_def)

lemma ucast_minus: "ucast (- x :: u64) = (- ucast x :: u32)"
proof -
  have m: "take_bit 32 (- take_bit 64 k) = take_bit 32 (- k :: int)" for k
    using take_bit_minus[of 32 "take_bit 64 k"] take_bit_minus[of 32 k] by (simp add: take_bit_take_bit)
  show ?thesis by transfer (simp add: take_bit_take_bit m)
qed

lemma ucast_scast: "ucast (scast (w :: u32) :: u64) = w"
  by (auto simp: bit_simps intro!: bit_word_eqI)

lemma ucast_ucast: "ucast (ucast (w :: u32) :: u64) = w"
  by (auto simp: bit_simps intro!: bit_word_eqI)

text \<open>A number printed in the base 8, 10 or 16 is read back in the same base.\<close>

lemma print_num_strtoul:
  assumes "4 \<le> base" "base \<le> 16" "c = 0 \<or> c = 32"
  shows "\<exists>out. print_num s trunc c base u = Inr out \<and> fst (strtoul out base) = ucast u \<and> fst (strtol out base) = ucast u"
proof -
  let ?u = "if trunc then scast (ucast u :: u32) else u"
  obtain k z j ds where p: "print_num s trunc c base u =
      Inr (replicate k 32 @ (if c \<noteq> 0 then [c] else []) @ number_prefix s base ?u @ replicate z 48 @ ds @ replicate j 32)"
    and ds: "ds \<noteq> []" "digit_list base ds"
      "\<forall>v rest. read_digits base v (ds @ rest) = read_digits base (v * word_of_int base ^ length ds + ucast u) rest"
    using print_num_parts[OF assms(1,2), of s trunc c u] by blast
  define q where "q = number_prefix s base ?u @ replicate z 48 @ ds @ replicate j 32"
  note q = read_number[OF assms(1,2) ds(2,1,3), of s ?u z j, folded q_def]
  define out where "out = replicate k 32 @ (if c \<noteq> 0 then [c] else []) @ q"
  have sk: "skip_spaces out = q"
    using assms(3) q skip_spaces_blanks[of 1 q] by (auto simp: out_def skip_spaces_id)
  have "char_at q \<noteq> 45" using q by (cases q) (auto simp: char_at_def)
  then have "fst (strtoul out base) = ucast u" "fst (strtol out base) = ucast u"
    using q(1) by (auto simp: strtoul_def strtol_def sk Let_def split: prod.splits)
  moreover have "print_num s trunc c base u = Inr out" unfolding out_def q_def by (rule p)
  ultimately show ?thesis by blast
qed

lemma print_num_strtol_neg:
  assumes "4 \<le> base" "base \<le> 16"
  shows "\<exists>out. print_num s trunc 45 base u = Inr out \<and> fst (strtol out base) = - ucast u"
proof -
  let ?u = "if trunc then scast (ucast u :: u32) else u"
  obtain k z j ds where p: "print_num s trunc 45 base u =
      Inr (replicate k 32 @ [45] @ number_prefix s base ?u @ replicate z 48 @ ds @ replicate j 32)"
    and ds: "ds \<noteq> []" "digit_list base ds"
      "\<forall>v rest. read_digits base v (ds @ rest) = read_digits base (v * word_of_int base ^ length ds + ucast u) rest"
    using print_num_parts[OF assms(1,2), of s trunc 45 u] by auto
  define q where "q = number_prefix s base ?u @ replicate z 48 @ ds @ replicate j 32"
  note q = read_number[OF assms(1,2) ds(2,1,3), of s ?u z j, folded q_def]
  define out where "out = replicate k 32 @ [45] @ q"
  have "skip_spaces out = 45 # q" by (simp add: out_def skip_spaces_id isspace_def)
  then have "fst (strtol out base) = - ucast u"
    using q(1) by (auto simp: strtol_def char_at_def Let_def split: prod.splits)
  moreover have "print_num s trunc 45 base u = Inr out" unfolding out_def q_def by (rule p)
  ultimately show ?thesis by blast
qed

lemma print_signed_strtol:
  assumes "4 \<le> base" "base \<le> 16" "plus_sign s = 0 \<or> plus_sign s = 32" "longopt s \<le> 1"
  shows "\<exists>out. print_signed s trunc base (n # as) = Inr (out, as) \<and> fst (strtol out base) = n"
proof -
  have v: "va_long True s (n # as) = Inr (scast n, as)" using assms(4) by (simp add: va_long_def va_int_def)
  show ?thesis
  proof (cases "0 \<le> sint (scast n :: u64)")
    case True
    then show ?thesis using print_num_strtoul[OF assms(1,2,3), of s trunc "scast n"]
      by (auto simp: print_signed_def v ucast_scast)
  next
    case False
    then show ?thesis using print_num_strtol_neg[OF assms(1,2), of s trunc "- scast n"]
      by (auto simp: print_signed_def v ucast_scast ucast_minus)
  qed
qed

lemma print_unsigned_strtoul:
  assumes "4 \<le> base" "base \<le> 16" "longopt s \<le> 1"
  shows "\<exists>out. print_unsigned s trunc base (n # as) = Inr (out, as) \<and> fst (strtoul out base) = n"
proof -
  have v: "va_long False s (n # as) = Inr (ucast n, as)" using assms(3) by (simp add: va_long_def va_int_def)
  show ?thesis using print_num_strtoul[OF assms(1,2), of 0 s trunc "ucast n"] by (auto simp: print_unsigned_def v ucast_ucast)
qed

text \<open>The sign character of a parsed specification.\<close>

lemma parse_flags_sign: "parse_flags f s = (s', f') \<Longrightarrow> plus_sign s \<in> {0, 32, 43} \<Longrightarrow> plus_sign s' \<in> {0, 32, 43}"
  by (induction f s rule: parse_flags.induct) (auto split: if_splits)

lemma parse_long_sign: "parse_long f s = (s', f') \<Longrightarrow> plus_sign s' = plus_sign s"
  by (induction f s rule: parse_long.induct) (auto split: if_splits)

lemma parse_spec_sign:
  assumes "parse_spec f args = Inr (s', f', args')"
  shows "plus_sign s' \<in> {0, 32, 43}"
proof -
  obtain s1 f1 where 1: "parse_flags f start_spec = (s1, f1)" by (cases "parse_flags f start_spec")
  obtain s2 f2 where 2: "parse_zero f1 s1 = (s2, f2)" by (cases "parse_zero f1 s1")
  obtain s3 f3 a3 where 3: "parse_width f2 s2 args = Inr (s3, f3, a3)"
    using assms by (auto simp: parse_spec_def 1 2 dest!: then_out_InrE)
  obtain s4 f4 a4 where 4: "parse_prec f3 s3 a3 = Inr (s4, f4, a4)"
    using assms by (auto simp: parse_spec_def 1 2 3 dest!: then_out_InrE)
  obtain s5 f5 where 5: "parse_long f4 s4 = (s5, f5)" by (cases "parse_long f4 s4")
  have "s' = s5" using assms by (simp add: parse_spec_def 1 2 3 4 5)
  moreover have "plus_sign s1 \<in> {0, 32, 43}" using parse_flags_sign[OF 1] by (simp add: start_spec_def)
  moreover have "plus_sign s2 = plus_sign s1" using 2 by (auto simp: parse_zero_def split: if_splits list.splits)
  moreover have "plus_sign s3 = plus_sign s2"
    using 3 by (auto simp: parse_width_def split: if_splits prod.splits dest!: then_out_InrE)
  moreover have "plus_sign s4 = plus_sign s3"
    using 4 by (auto simp: parse_prec_def Let_def split: if_splits prod.splits dest!: then_out_InrE)
  ultimately show ?thesis using parse_long_sign[OF 5] by simp
qed

text \<open>C23: Printing a number and reading it back gives the number: a format of one signed conversion, \<open>%d\<close> or \<open>%z\<close>, with whatever flags but
  \<open>+\<close>, width and precision, given or taken from the arguments, prints for every 32-bit integer a string from which \<open>strtol\<close> in the base
  of the conversion reads the same integer.\<close>

theorem printf_strtol:
  assumes "parse_spec f args = Inr (s, [c], [n])" "plus_sign s \<noteq> 43" "longopt s \<le> 1"
    "(c, base) \<in> {(100, 10), (68, 10), (122, 16), (90, 16)}"
  shows "\<exists>out. doprnt tr str radix (37 # f) args = Inr out \<and> fst (strtol out base) = n"
proof -
  have "plus_sign s = 0 \<or> plus_sign s = 32" using parse_spec_sign[OF assms(1)] assms(2) by auto
  note r = print_signed_strtol[OF _ _ this assms(3), of base _ n "[]"]
  show ?thesis using assms(4) r[of tr] r[of False] by (auto simp: assms(1) convert_def)
qed

lemma printf_strtol_witness:
  "parse_spec [45, 32, 48, 42, 100] [12, -5] = Inr (start_spec\<lparr>ladjust := True, plus_sign := 32, padc := 48, width := 12\<rparr>, [100], [-5])
    \<and> (\<exists>out. doprnt False (\<lambda>_. []) 0 [37, 45, 32, 48, 42, 100] [12, -5] = Inr out \<and> fst (strtol out 10) = -5)"
proof -
  have p: "parse_spec [45, 32, 48, 42, 100] [12, -5] = Inr (start_spec\<lparr>ladjust := True, plus_sign := 32, padc := 48, width := 12\<rparr>, [100], [-5])"
    by (simp add: parse_spec_def start_spec_def parse_zero_def parse_width_def va_int_def char_at_def isdigit_def parse_prec_def)
  show ?thesis using p printf_strtol[OF p, of 10 False "\<lambda>_. []" 0] by (simp add: start_spec_def)
qed

text \<open>The same for the unsigned conversions \<open>%u\<close>, \<open>%o\<close>, \<open>%x\<close> and \<open>%p\<close>, which \<open>strtoul\<close> reads back.\<close>

theorem printf_strtoul:
  assumes "parse_spec f args = Inr (s, [c], [n])" "longopt s \<le> 1"
    "(c, base) \<in> {(117, 10), (85, 10), (111, 8), (79, 8), (120, 16), (88, 16)}"
  shows "\<exists>out. doprnt tr str radix (37 # f) args = Inr out \<and> fst (strtoul out base) = n"
proof -
  note r = print_unsigned_strtoul[OF _ _ assms(2), of base _ n "[]"]
  show ?thesis using assms(3) r[of tr] r[of False] by (auto simp: assms(1) convert_def)
qed

lemma printf_strtoul_witness:
  "parse_spec [35, 56, 120] [0xDEAD] = Inr (start_spec\<lparr>altfmt := True, width := 8\<rparr>, [120], [0xDEAD])
    \<and> (\<exists>out. doprnt False (\<lambda>_. []) 0 [37, 35, 56, 120] [0xDEAD] = Inr out \<and> fst (strtoul out 16) = 0xDEAD)"
proof -
  have p: "parse_spec [35, 56, 120] [0xDEAD] = Inr (start_spec\<lparr>altfmt := True, width := 8\<rparr>, [120], [0xDEAD])"
    by (simp add: parse_spec_def start_spec_def parse_zero_def parse_width_def va_int_def char_at_def isdigit_def parse_prec_def)
  show ?thesis using p printf_strtoul[OF p, of 16 False "\<lambda>_. []" 0] by (simp add: start_spec_def)
qed

text \<open>A plus sign that the flag \<open>+\<close> prints is not read back: \<open>strtol\<close> stops in front of it.\<close>

lemma strtol_plus: "1 < base \<Longrightarrow> base \<le> 36 \<Longrightarrow> strtol (43 # p) base = (0, 43 # p)"
  by (simp add: strtol_def skip_spaces_def isspace_def char_at_def read_base_def digit_value_def)

lemma put_digits_zero: "0 < room \<Longrightarrow> put_digits room u 0 = Inl Divide_Error"
  by (cases room) simp_all

text \<open>\<open>%#p\<close> prints the prefix twice.\<close>

lemma doprnt_alt_pointer: "doprnt False str 0 [37, 35, 112] [0xAB] = Inr [48, 120, 48, 120, 48, 48, 48, 48, 97, 98]"
proof -
  have "put_digits (Suc (Suc k)) 0xAB 16 = Inr [97, 98]" for k by (simp add: digs_def)
  from this[of 30] have d: "put_digits MAXBUF 0xAB 16 = Inr [97, 98]" by (simp add: MAXBUF_def del: put_digits.simps)
  have r: "replicate 4 (48 :: u8) = [48, 48, 48, 48]" by (simp add: eval_nat_numeral)
  have p: "parse_spec [35, 112] [0xAB] = Inr (start_spec\<lparr>altfmt := True\<rparr>, [112], [0xAB])"
    by (simp add: parse_spec_def start_spec_def parse_zero_def parse_width_def char_at_def isdigit_def parse_prec_def)
  show ?thesis by (simp add: p convert_def print_unsigned_def va_long_def va_int_def start_spec_def print_num_def d pad_def fill_def r Let_def)
qed

text \<open>A string that is cut off by its precision and adjusted to the left is one blank short.\<close>

lemma doprnt_cut_string: "str 4 = [97, 98, 99] \<Longrightarrow> doprnt False str 0 [37, 45, 53, 46, 50, 115] [4] = Inr [97, 98, 32, 32]"
proof -
  assume s: "str 4 = [97, 98, 99]"
  have r: "replicate 2 (32 :: u8) = [32, 32]" by (simp add: numeral_2_eq_2)
  have p: "parse_spec [45, 53, 46, 50, 115] [4] = Inr (start_spec\<lparr>ladjust := True, width := 5, prec := 2\<rparr>, [115], [4])"
    by (simp add: parse_spec_def start_spec_def parse_zero_def parse_width_def char_at_def isdigit_def parse_prec_def)
  show ?thesis by (simp add: p s r convert_def va_int_def start_spec_def print_string_def fill_def Let_def)
qed

text \<open>The base of \<open>%r\<close> is 0 for all callers.\<close>

lemma doprnt_radix_zero: "doprnt tr str 0 [37, 114] [n] = Inl Divide_Error"
proof -
  have "parse_spec [114] [n] = Inr (start_spec, [114], [n])"
    by (simp add: parse_spec_def start_spec_def parse_zero_def parse_width_def char_at_def isdigit_def parse_prec_def)
  moreover have "print_num s t c 0 u = Inl Divide_Error" for s t c u
    by (simp add: print_num_def put_digits_zero MAXBUF_def Let_def del: put_digits.simps)
  then have "print_signed s t 0 (m # as) = Inl Divide_Error" if "longopt s = 0" for s t m as
    using that by (simp add: print_signed_def va_long_def va_int_def)
  ultimately show ?thesis by (simp add: convert_def start_spec_def)
qed

lemma vsnprintf_bounded_witness:
  "\<exists>m'. vsnprintf False (\<lambda>_. []) (\<lambda>_. 7) 100 3 [97, 98, 99, 100] [] = Inr (m', 2) \<and> m' 101 = 98 \<and> m' 102 = 0 \<and> m' 103 = 7"
proof -
  have "doprnt False (\<lambda>_. []) 0 [97, 98, 99, 100] [] = Inr [97, 98, 99, 100]" by simp
  from vsnprintf_bounded[OF this, of 3 "\<lambda>_. 7" 100] show ?thesis by (auto simp: write_bytes_def)
qed

lemma vprintf_prints_witness: "vprintf False (\<lambda>_. []) (replicate 128 0) [104, 105, 10] [] = Inr [104, 105, 10]"
proof -
  have "doprnt False (\<lambda>_. []) 0 [104, 105, 10] [] = Inr [104, 105, 10]" by simp
  from vprintf_prints[OF this, of "replicate 128 0"] show ?thesis by (simp add: PRINTF_BUFMAX_def)
qed

end
