(* ===== verification/Doscan.thy ===== *)
theory Doscan
  imports Doprnt
begin

text \<open>
  Formatted input, \<open>410kern/stdio/doscan.c\<close> and \<open>sscanf.c\<close>. The input is the list of its bytes up to the NUL; \<open>getc\<close> takes the
  first, or the NUL at the end, and the code reads at most one NUL and puts it back unless it returns. The result is the
  count that \<open>_doscan\<close> returns and the values that it stores through the argument pointers, in their order. \<open>long\<close> wraps.
\<close>

datatype scan_value = Num u32 | Text "u8 list"

definition uchar_at :: "u8 list \<Rightarrow> int" where
  "uchar_at p = (case p of [] \<Rightarrow> 0 | c # _ \<Rightarrow> uint c)"

text \<open>The loops of \<open>%d\<close> and \<open>%x\<close>, with the value, whether no digit was read, and the rest of the input.\<close>

definition scan_number :: "int \<Rightarrow> u8 list \<Rightarrow> u32 \<times> bool \<times> u8 list" where
  "scan_number base p =
     (let neg = (uchar_at p = 45);
          p = (if neg then tl p else p);
          (n, rest) = read_digits base 0 p
      in (if neg then - n else n, length rest = length p, rest))"

definition scan_word :: "u8 list \<Rightarrow> u8 list \<times> bool \<times> u8 list" where
  "scan_word p =
     (let w = takeWhile (\<lambda>c. \<not> isspace (uint c)) p in (w, w = [], dropWhile (\<lambda>c. \<not> isspace (uint c)) p))"

text \<open>From the label \<open>more_fmt\<close>: nothing at the end of the input, otherwise what is stored, whether it counts, whether the
  conversion is invalid, and what is left of the format and of the input.\<close>

fun more_fmt :: "bool \<Rightarrow> u8 list \<Rightarrow> u8 list \<Rightarrow> (scan_value list \<times> bool \<times> bool \<times> u8 list \<times> u8 list) option" where
  "more_fmt discard f [] = None"
| "more_fmt discard [] (c # p) = Some ([], \<not> discard, True, [], p)"
| "more_fmt discard (k # f) (c # p) =
     (if k = 100 then let (n, invalid, q) = scan_number 10 (c # p) in Some (if discard then [] else [Num n], \<not> discard, invalid, f, q)
      else if k = 120 then let (n, invalid, q) = scan_number 16 (c # p) in Some (if discard then [] else [Num n], \<not> discard, invalid, f, q)
      else if k = 115 then let (w, invalid, q) = scan_word (c # p) in Some (if discard then [] else [Text w], \<not> discard, invalid, f, q)
      else if k = 42 then more_fmt True f p
      else Some ([], \<not> discard, True, f, p))"

lemma more_fmt_length: "more_fmt discard f p = Some (vs, n, invalid, f', q) \<Longrightarrow> length f' \<le> length f"
  by (induction discard f p rule: more_fmt.induct) (auto simp: Let_def split: if_splits prod.splits)

function doscan :: "u8 list \<Rightarrow> u8 list \<Rightarrow> nat \<times> scan_value list" where
  "doscan [] p = (0, [])"
| "doscan (c # f) p =
     (if c \<noteq> 37
      then if isspace (sint c)
           then let q = dropWhile (\<lambda>c. isspace (uint c)) p in if q = [] then (0, []) else doscan f q
           else if sint c = uchar_at p then doscan f (tl p) else (0, [])
      else case more_fmt False f p of
             None \<Rightarrow> (0, [])
           | Some (vs, counts, invalid, f', q) \<Rightarrow>
               if invalid then (0, vs)
               else let (n, ws) = doscan f' q in (n + (if counts then 1 else 0), vs @ ws))"
  by pat_completeness auto

termination doscan
  by (relation "measure (\<lambda>(f, p). length f)") (auto dest: more_fmt_length)

definition sscanf :: "u8 list \<Rightarrow> u8 list \<Rightarrow> nat \<times> scan_value list" where "sscanf s f = doscan f s"

section \<open>What printf prints, sscanf reads\<close>

lemma read_digits_blank: "read_digits base v (32 # p) = (v, 32 # p)"
  by (simp add: digit_value_def)

lemma digs_uint: "d < 16 \<Longrightarrow> uint (digs ! d) = (if d < 10 then 48 + int d else 87 + int d)"
proof -
  assume "d < 16"
  then have "d \<in> {0,1,2,3,4,5,6,7,8,9,10,11,12,13,14,15}" by (auto simp: numeral_eq_Suc less_Suc_eq)
  then show ?thesis by (auto simp: digs_def)
qed

lemma digit_list_uint: "digit_list base ds \<Longrightarrow> base \<le> 16 \<Longrightarrow> c \<in> set ds \<Longrightarrow> uint c \<in> {48..57} \<union> {97..102}"
  by (fastforce simp: digit_list_def digs_uint split: if_splits)

text \<open>The characters of a number printed by \<open>%d\<close>.\<close>

lemma scan_printed:
  "\<exists>out. out \<noteq> [] \<and> print_signed start_spec trunc 10 (n # as) = Inr (out, as)
    \<and> (\<forall>rest. scan_number 10 (out @ 32 # rest) = (n, False, 32 # rest)) \<and> \<not> isspace (uint (hd out))"
proof -
  let ?neg = "sint (scast n :: u64) < 0"
  define u :: u64 where "u = (if ?neg then - scast n else scast n)"
  have v: "va_long True start_spec (n # as) = Inr (scast n, as)" by (simp add: va_long_def va_int_def start_spec_def)
  have w: "ucast u = (if ?neg then - n else n)" by (simp add: u_def ucast_minus ucast_scast)
  obtain ds where p: "print_num start_spec trunc (if ?neg then 45 else 0) 10 u = Inr ((if ?neg then [45] else []) @ ds)"
    and ds: "ds \<noteq> []" "digit_list 10 ds"
      "\<forall>v rest. read_digits 10 v (ds @ rest) = read_digits 10 (v * 10 ^ length ds + ucast u) rest"
    using print_num_parts[of 10 start_spec trunc "if ?neg then 45 else 0" u]
    by (auto simp: start_spec_def number_prefix_def split: if_splits)
  let ?out = "(if ?neg then [45] else []) @ ds"
  have plus: "plus_sign start_spec = 0" by (simp add: start_spec_def)
  have c: "uint (hd ds) \<in> {48..57} \<union> {97..102}" using digit_list_uint[OF ds(2)] ds(1) by simp
  have scan: "scan_number 10 (?out @ 32 # rest) = (n, False, 32 # rest)" for rest
  proof -
    have r: "read_digits 10 0 (ds @ 32 # rest) = (ucast u, 32 # rest)" using ds(3) by (simp add: digit_value_def)
    show ?thesis
    proof (cases ?neg)
      case True
      then show ?thesis using r w ds(1) by (simp add: scan_number_def uchar_at_def)
    next
      case False
      have "uchar_at (ds @ 32 # rest) \<noteq> 45" using c ds(1) by (cases ds) (auto simp: uchar_at_def)
      then show ?thesis using r w ds(1) False by (simp add: scan_number_def)
    qed
  qed
  have "\<not> isspace (uint (hd ?out))" using c by (auto simp: isspace_def)
  moreover have "print_signed start_spec trunc 10 (n # as) = Inr (?out, as)"
    using p plus by (simp add: print_signed_def v u_def not_less split: if_splits)
  moreover have "?out \<noteq> []" using ds(1) by simp
  ultimately show ?thesis using scan by blast
qed

lemma printf_sscanf_start:
  "\<exists>out. doprnt tr str radix (concat (map (\<lambda>_. [37, 100, 32]) ns)) ns = Inr out
    \<and> doscan (concat (map (\<lambda>_. [37, 100, 32]) ns)) out = (length ns, map Num ns)
    \<and> (if out = [] then ns = [] else \<not> isspace (uint (hd out)))"
proof (induction ns)
  case (Cons n ns)
  let ?f = "concat (map (\<lambda>_. [37, 100, 32]) ns) :: u8 list"
  obtain more where more: "doprnt tr str radix ?f ns = Inr more" "doscan ?f more = (length ns, map Num ns)"
    "if more = [] then ns = [] else \<not> isspace (uint (hd more))"
    using Cons by blast
  obtain out where out: "out \<noteq> []" "print_signed start_spec tr 10 (n # ns) = Inr (out, ns)"
    "\<forall>rest. scan_number 10 (out @ 32 # rest) = (n, False, 32 # rest)" "\<not> isspace (uint (hd out))"
    using scan_printed[of tr n ns] by blast
  have p: "parse_spec (100 # f) args = Inr (start_spec, 100 # f, args)" for f args
    by (simp add: parse_spec_def start_spec_def parse_zero_def parse_width_def char_at_def isdigit_def parse_prec_def)
  have printed: "doprnt tr str radix ([37, 100, 32] @ ?f) (n # ns) = Inr (out @ 32 # more)"
    by (simp add: p convert_def out(2) more(1))
  have drop: "dropWhile (\<lambda>c. isspace (uint c)) more = more" using more(3) by (cases more) auto
  have blank: "doscan (32 # ?f) (32 # more) = (length ns, map Num ns)"
    using more(2,3) by (simp add: isspace_def[of 32] drop split: if_splits)
  have "more_fmt False (100 # 32 # ?f) (out @ 32 # more) = Some ([Num n], True, False, 32 # ?f, 32 # more)"
    using out(1,3) by (cases out) auto
  then have "doscan ([37, 100, 32] @ ?f) (out @ 32 # more) = (Suc (length ns), Num n # map Num ns)"
    using blank by simp
  then show ?case using printed out(1,4) by auto
qed simp

text \<open>C22: What \<open>sprintf\<close> prints, \<open>sscanf\<close> reads back: for every list of 32-bit integers the format that is \<open>%d\<close> and a blank for each of them
  prints characters from which the same format reads the same integers, and returns their number.\<close>

theorem printf_sscanf:
  "\<exists>out. doprnt tr str radix (concat (map (\<lambda>_. [37, 100, 32]) ns)) ns = Inr out
    \<and> sscanf out (concat (map (\<lambda>_. [37, 100, 32]) ns)) = (length ns, map Num ns)"
  using printf_sscanf_start[of tr str radix ns] unfolding sscanf_def by blast

text \<open>A suppressed conversion loses the first character of its field, so a one-digit number is not skipped but ends the scan; \<open>%%\<close> ends it too,
  and blanks in front of a number are not skipped.\<close>

lemma sscanf_suppressed:
  "sscanf [49, 50, 32, 55] [37, 42, 100, 32, 37, 100] = (1, [Num 7])" "sscanf [53, 32, 55] [37, 42, 100, 32, 37, 100] = (0, [])"
  by (simp_all add: sscanf_def scan_number_def uchar_at_def digit_value_def isspace_def)

lemma sscanf_percent: "sscanf [37, 55] [37, 37, 37, 100] = (0, [])"
  by (simp add: sscanf_def)

lemma sscanf_leading_blank: "sscanf [32, 55] [37, 100] = (0, [Num 0])"
  by (simp add: sscanf_def scan_number_def uchar_at_def digit_value_def)

end
