(* ===== verification/Mersenne.thy ===== *)
theory Mersenne
  imports Prelude
begin

text \<open>
  The random number generator \<open>410kern/RNG/mt19937int.c\<close>: the array \<open>mt\<close> of 624 words, the index \<open>mti\<close> (625 before the first
  seed), and the two functions. \<open>unsigned long\<close> has 32 bits. The numbers are those of the recurrence of the Mersenne
  twister, tempered.
\<close>

unbundle bit_operations_syntax

section \<open>The generator\<close>

definition MT_N :: nat where "MT_N = 624"
definition MT_M :: nat where "MT_M = 397"
definition MATRIX_A :: u32 where "MATRIX_A = 0x9908b0df"
definition UPPER_MASK :: u32 where "UPPER_MASK = 0x80000000"
definition LOWER_MASK :: u32 where "LOWER_MASK = 0x7fffffff"

record rng =
  mt :: "u32 list"
  mti :: nat

definition rng_start :: rng where "rng_start = \<lparr>mt = replicate MT_N 0, mti = MT_N + 1\<rparr>"

definition sgenrand :: "u32 \<Rightarrow> rng \<Rightarrow> rng" where
  "sgenrand seed s =
     (let a = (mt s)[0 := seed AND 0xffffffff]
      in s\<lparr>mt := foldl (\<lambda>a i. a[i := (69069 * a ! (i - 1)) AND 0xffffffff]) a [1..<MT_N], mti := MT_N\<rparr>)"

text \<open>\<open>mag01[y & 0x1]\<close> and the sum with \<open>y >> 1\<close>.\<close>

definition mag01 :: "u32 list" where "mag01 = [0, MATRIX_A]"

definition mix :: "u32 \<Rightarrow> u32 \<Rightarrow> u32 \<Rightarrow> u32" where
  "mix upper lower other =
     (let y = (upper AND UPPER_MASK) OR (lower AND LOWER_MASK)
      in other XOR drop_bit 1 y XOR mag01 ! unat (y AND 1))"

definition generate :: "u32 list \<Rightarrow> u32 list" where
  "generate a =
     (let a = foldl (\<lambda>a kk. a[kk := mix (a ! kk) (a ! (kk + 1)) (a ! (kk + MT_M))]) a [0..<MT_N - MT_M];
          a = foldl (\<lambda>a kk. a[kk := mix (a ! kk) (a ! (kk + 1)) (a ! (kk - (MT_N - MT_M)))]) a [MT_N - MT_M..<MT_N - 1]
      in a[MT_N - 1 := mix (a ! (MT_N - 1)) (a ! 0) (a ! (MT_M - 1))])"

definition temper :: "u32 \<Rightarrow> u32" where
  "temper y =
     (let y = y XOR drop_bit 11 y;
          y = y XOR (push_bit 7 y AND 0x9d2c5680);
          y = y XOR (push_bit 15 y AND 0xefc60000)
      in y XOR drop_bit 18 y)"

definition genrand :: "rng \<Rightarrow> u32 \<times> rng" where
  "genrand s =
     (let s = (if mti s \<ge> MT_N
               then let s = (if mti s = MT_N + 1 then sgenrand 4357 s else s) in s\<lparr>mt := generate (mt s), mti := 0\<rparr>
               else s)
      in (temper (mt s ! mti s), s\<lparr>mti := mti s + 1\<rparr>))"

section \<open>The sequence\<close>

text \<open>The sequence of words that the recurrence defines.\<close>

function mt_seq :: "u32 \<Rightarrow> nat \<Rightarrow> u32" where
  "mt_seq seed k =
     (if k < MT_N then 69069 ^ k * seed else mix (mt_seq seed (k - MT_N)) (mt_seq seed (k - MT_N + 1)) (mt_seq seed (k - MT_N + MT_M)))"
  by pat_completeness auto

termination mt_seq
  by (relation "measure (\<lambda>(seed, k). k)") (auto simp: MT_N_def MT_M_def)

declare mt_seq.simps [simp del]

text \<open>The array holds the words from \<open>base\<close> on.\<close>

definition holds :: "(nat \<Rightarrow> u32) \<Rightarrow> nat \<Rightarrow> u32 list \<Rightarrow> bool" where
  "holds x base a \<longleftrightarrow> length a = MT_N \<and> (\<forall>i < MT_N. a ! i = x (base + i))"

text \<open>In the middle of a pass the first \<open>k\<close> words are those of the next round.\<close>

definition midway :: "(nat \<Rightarrow> u32) \<Rightarrow> nat \<Rightarrow> nat \<Rightarrow> u32 list \<Rightarrow> bool" where
  "midway x base k a \<longleftrightarrow> length a = MT_N \<and> (\<forall>i < MT_N. a ! i = x (if i < k then base + MT_N + i else base + i))"

definition recurrence :: "(nat \<Rightarrow> u32) \<Rightarrow> bool" where
  "recurrence x \<longleftrightarrow> (\<forall>k. x (k + MT_N) = mix (x k) (x (k + 1)) (x (k + MT_M)))"

lemma midway_step:
  assumes "midway x base k a" "k < MT_N" "v = x (base + MT_N + k)"
  shows "midway x base (Suc k) (a[k := v])"
  using assms unfolding midway_def by (auto simp: nth_list_update less_Suc_eq)

lemma generate_first:
  assumes "recurrence x" "midway x base 0 a" "n \<le> MT_N - MT_M"
  shows "midway x base n (foldl (\<lambda>a kk. a[kk := mix (a ! kk) (a ! (kk + 1)) (a ! (kk + MT_M))]) a [0..<n])"
  using assms(3)
proof (induction n)
  case 0
  then show ?case using assms(2) by simp
next
  case (Suc n)
  let ?a = "foldl (\<lambda>a kk. a[kk := mix (a ! kk) (a ! (kk + 1)) (a ! (kk + MT_M))]) a [0..<n]"
  have m: "midway x base n ?a" using Suc by simp
  have b: "n + MT_M < MT_N" "n + 1 < MT_N" "n < MT_N" using Suc.prems by (auto simp: MT_N_def MT_M_def)
  have "?a ! n = x (base + n)" "?a ! (n + 1) = x (base + n + 1)" "?a ! (n + MT_M) = x (base + n + MT_M)"
    using m b unfolding midway_def by (auto simp: add.assoc)
  then have "mix (?a ! n) (?a ! (n + 1)) (?a ! (n + MT_M)) = x (base + MT_N + n)"
    using assms(1) unfolding recurrence_def by (metis add.assoc add.commute)
  then show ?case using midway_step[OF m b(3)] by simp
qed

lemma generate_second:
  assumes "recurrence x" "midway x base (MT_N - MT_M) a" "n \<le> MT_N - 1" "MT_N - MT_M \<le> n"
  shows "midway x base n (foldl (\<lambda>a kk. a[kk := mix (a ! kk) (a ! (kk + 1)) (a ! (kk - (MT_N - MT_M)))]) a [MT_N - MT_M..<n])"
  using assms(4,3)
proof (induction n rule: dec_induct)
  case base
  then show ?case using assms(2) by simp
next
  case (step n)
  let ?a = "foldl (\<lambda>a kk. a[kk := mix (a ! kk) (a ! (kk + 1)) (a ! (kk - (MT_N - MT_M)))]) a [MT_N - MT_M..<n]"
  have m: "midway x base n ?a" using step by simp
  have b: "n - (MT_N - MT_M) < n" "n + 1 < MT_N" "n < MT_N" "n - (MT_N - MT_M) < MT_N" "MT_N + (n - (MT_N - MT_M)) = n + MT_M"
    using step.hyps step.prems by (auto simp: MT_N_def MT_M_def)
  have "?a ! n = x (base + n)" "?a ! (n + 1) = x (base + n + 1)" "?a ! (n - (MT_N - MT_M)) = x (base + n + MT_M)"
    using m b unfolding midway_def by (auto simp: add.assoc)
  then have "mix (?a ! n) (?a ! (n + 1)) (?a ! (n - (MT_N - MT_M))) = x (base + MT_N + n)"
    using assms(1) unfolding recurrence_def by (metis add.assoc add.commute)
  then show ?case using midway_step[OF m b(3)] step.hyps by simp
qed

lemma generate_holds:
  assumes "recurrence x" "holds x base a"
  shows "holds x (base + MT_N) (generate a)"
proof -
  let ?f = "\<lambda>a kk. a[kk := mix (a ! kk) (a ! (kk + 1)) (a ! (kk + MT_M))]"
  let ?g = "\<lambda>a kk. a[kk := mix (a ! kk) (a ! (kk + 1)) (a ! (kk - (MT_N - MT_M)))]"
  define a1 where "a1 = foldl ?f a [0..<MT_N - MT_M]"
  define a2 where "a2 = foldl ?g a1 [MT_N - MT_M..<MT_N - 1]"
  have "midway x base 0 a" using assms(2) by (simp add: holds_def midway_def)
  then have "midway x base (MT_N - MT_M) a1" unfolding a1_def using generate_first[OF assms(1)] by simp
  then have m: "midway x base (MT_N - 1) a2"
    unfolding a2_def by (intro generate_second[OF assms(1)]) (simp_all add: MT_N_def MT_M_def)
  have b: "MT_N - 1 < MT_N" "0 < MT_N - 1" "MT_M - 1 < MT_N - 1" "0 < MT_N" "MT_M - 1 < MT_N"
    "Suc (MT_N - 1) = MT_N" by (simp_all add: MT_N_def MT_M_def)
  have "a2 ! (MT_N - 1) = x (base + (MT_N - 1))" "a2 ! 0 = x (base + MT_N)" "a2 ! (MT_M - 1) = x (base + MT_N + (MT_M - 1))"
    using m b unfolding midway_def by auto
  moreover have "base + MT_N = base + (MT_N - 1) + 1" "base + MT_N + (MT_M - 1) = base + (MT_N - 1) + MT_M"
    by (simp_all add: MT_N_def MT_M_def)
  ultimately have "mix (a2 ! (MT_N - 1)) (a2 ! 0) (a2 ! (MT_M - 1)) = x (base + MT_N + (MT_N - 1))"
    using assms(1) unfolding recurrence_def by (metis add.assoc add.commute)
  from midway_step[OF m b(1) this]
  have "midway x base (Suc (MT_N - 1)) (a2[MT_N - 1 := mix (a2 ! (MT_N - 1)) (a2 ! 0) (a2 ! (MT_M - 1))])" .
  moreover have "generate a = a2[MT_N - 1 := mix (a2 ! (MT_N - 1)) (a2 ! 0) (a2 ! (MT_M - 1))]"
    unfolding generate_def Let_def a1_def a2_def ..
  ultimately have "midway x base MT_N (generate a)" unfolding b(6) by simp
  then show ?thesis by (simp add: midway_def holds_def)
qed

text \<open>The words after seeding.\<close>

lemma mask_all: "w AND 0xffffffff = (w :: u32)"
proof -
  have "(0xffffffff :: u32) = - 1" by simp
  then show ?thesis by (simp only: and.right_neutral)
qed

lemma seq_recurrence: "recurrence (mt_seq seed)"
  unfolding recurrence_def by (subst mt_seq.simps) simp

lemma sgenrand_holds:
  assumes "length (mt s) = MT_N"
  shows "holds (mt_seq seed) 0 (mt (sgenrand seed s))" "mti (sgenrand seed s) = MT_N"
proof -
  let ?a0 = "(mt s)[0 := seed]"
  have "n \<le> MT_N \<Longrightarrow> n \<ge> 1 \<Longrightarrow> length (foldl (\<lambda>a i. a[i := 69069 * a ! (i - 1)]) ?a0 [1..<n]) = MT_N
      \<and> (\<forall>i < n. foldl (\<lambda>a i. a[i := 69069 * a ! (i - 1)]) ?a0 [1..<n] ! i = 69069 ^ i * seed)" for n
  proof (induction n)
    case (Suc n)
    show ?case
    proof (cases "n = 0")
      case True
      then show ?thesis using assms by (simp add: MT_N_def)
    next
      case False
      let ?a = "foldl (\<lambda>a i. a[i := 69069 * a ! (i - 1)]) ?a0 [1..<n]"
      have IH: "length ?a = MT_N" "\<forall>i < n. ?a ! i = 69069 ^ i * seed" using Suc False by auto
      have "?a ! (n - 1) = 69069 ^ (n - 1) * seed" using IH(2) False by simp
      then have "69069 * ?a ! (n - 1) = 69069 ^ n * seed" using False by (cases n) (simp_all add: mult.assoc)
      moreover have "[1..<Suc n] = [1..<n] @ [n]" using False by simp
      ultimately show ?thesis using IH Suc.prems(1) by (auto simp: nth_list_update less_Suc_eq)
    qed
  qed simp
  from this[of MT_N] show "holds (mt_seq seed) 0 (mt (sgenrand seed s))"
    by (simp add: sgenrand_def mask_all holds_def mt_seq.simps MT_N_def)
  show "mti (sgenrand seed s) = MT_N" by (simp add: sgenrand_def)
qed

text \<open>The generator after \<open>n\<close> calls.\<close>

definition rng_at :: "u32 \<Rightarrow> nat \<Rightarrow> rng \<Rightarrow> bool" where
  "rng_at seed n s \<longleftrightarrow> (\<exists>base. holds (mt_seq seed) base (mt s) \<and> mti s \<le> MT_N \<and> base + mti s = n + MT_N)"

lemma genrand_step:
  assumes "rng_at seed n s"
  shows "fst (genrand s) = temper (mt_seq seed (n + MT_N)) \<and> rng_at seed (Suc n) (snd (genrand s))"
proof -
  obtain base where b: "holds (mt_seq seed) base (mt s)" "mti s \<le> MT_N" "base + mti s = n + MT_N"
    using assms by (auto simp: rng_at_def)
  have N: "0 < MT_N" by (simp add: MT_N_def)
  show ?thesis
  proof (cases "mti s = MT_N")
    case True
    note g = generate_holds[OF seq_recurrence b(1)]
    have "generate (mt s) ! 0 = mt_seq seed (n + MT_N)" using g N b(3) True by (simp add: holds_def)
    moreover have "rng_at seed (Suc n) \<lparr>mt = generate (mt s), mti = 1\<rparr>"
      unfolding rng_at_def using g b(3) True N by (intro exI[of _ "base + MT_N"]) simp
    moreover have "genrand s = (temper (generate (mt s) ! 0), \<lparr>mt = generate (mt s), mti = 1\<rparr>)"
      using True by (cases s) (simp add: genrand_def Let_def)
    ultimately show ?thesis by simp
  next
    case False
    then have lt: "mti s < MT_N" using b(2) by simp
    then have "mt s ! mti s = mt_seq seed (n + MT_N)" using b(1,3) by (simp add: holds_def)
    moreover have "rng_at seed (Suc n) (s\<lparr>mti := mti s + 1\<rparr>)"
      unfolding rng_at_def using b lt by (intro exI[of _ base]) simp
    moreover have "genrand s = (temper (mt s ! mti s), s\<lparr>mti := mti s + 1\<rparr>)" using lt by (simp add: genrand_def Let_def)
    ultimately show ?thesis by simp
  qed
qed

fun genrands :: "nat \<Rightarrow> rng \<Rightarrow> u32 list" where
  "genrands 0 s = []"
| "genrands (Suc n) s = (let (r, s) = genrand s in r # genrands n s)"

lemma genrands_at: "rng_at seed k s \<Longrightarrow> genrands n s = map (\<lambda>i. temper (mt_seq seed (k + i + MT_N))) [0..<n]"
proof (induction n arbitrary: k s)
  case (Suc n)
  note g = genrand_step[OF Suc.prems]
  have "map (\<lambda>i. temper (mt_seq seed (k + i + MT_N))) [0..<Suc n]
      = temper (mt_seq seed (k + MT_N)) # map (\<lambda>i. temper (mt_seq seed (Suc k + i + MT_N))) [0..<n]"
    by (simp add: map_upt_Suc del: upt_Suc)
  then show ?case using g Suc.IH[of "Suc k" "snd (genrand s)"] by (simp add: case_prod_beta Let_def)
qed simp

text \<open>C26: The array and its three loops produce the sequence of the Mersenne twister: the n numbers that \<open>genrand\<close> returns after \<open>sgenrand\<close>
  with a seed are the tempered words 624, 625, ... of the recurrence that starts with the powers of 69069 times the seed, for every n, through
  every regeneration of the array.\<close>

theorem genrand_sequence:
  assumes "length (mt s) = MT_N"
  shows "genrands n (sgenrand seed s) = map (\<lambda>i. temper (mt_seq seed (i + MT_N))) [0..<n]"
proof -
  have "rng_at seed 0 (sgenrand seed s)"
    unfolding rng_at_def using sgenrand_holds[OF assms] by (intro exI[of _ 0]) simp
  from genrands_at[OF this] show ?thesis by simp
qed

lemma genrand_sequence_witness:
  "genrands 3 (sgenrand 1 rng_start) = map (\<lambda>i. temper (mt_seq 1 (i + MT_N))) [0..<3]"
  using genrand_sequence[of rng_start 3 1] by (simp add: rng_start_def)

text \<open>Without a seed the generator behaves as with the default one.\<close>

lemma genrand_default: "genrand rng_start = genrand (sgenrand 4357 rng_start)"
  by (simp add: genrand_def rng_start_def sgenrand_def Let_def)

end
