(* ===== verification/MP_Table.thy ===== *)
theory MP_Table
  imports Prelude
begin

text \<open>
  The multiprocessor table, \<open>410kern/smp/mptable.c\<close>: finding the floating pointer in the BIOS areas, checking the configuration
  table and entering its processors into the two tables of \<open>smp.c\<close>, from CPU numbers to APIC numbers and back.
  Memory is a map from addresses to bytes. The kernel runs on one processor and does not call these functions.
\<close>

unbundle bit_operations_syntax

section \<open>The code\<close>

definition MAX_CPUS :: nat where "MAX_CPUS = 16"
definition MP_FPS_SIG :: u32 where "MP_FPS_SIG = 0x5f504d5f"
definition MP_CFG_SIG :: u32 where "MP_CFG_SIG = 0x504d4350"

record mp =
  num_cpus :: nat
  bsp_id :: nat
  bsp_apic :: nat
  lapic_base :: u32
  ioapic_addr :: u32
  cpu2apic :: "nat list"
  apic2cpu :: "nat list"

definition mp_start :: mp where
  "mp_start = \<lparr>num_cpus = 1, bsp_id = 0, bsp_apic = 0, lapic_base = 0, ioapic_addr = 0,
     cpu2apic = replicate MAX_CPUS 0, apic2cpu = replicate MAX_CPUS 0\<rparr>"

text \<open>Little-endian reads.\<close>

definition read16 :: "(u32 \<Rightarrow> u8) \<Rightarrow> u32 \<Rightarrow> nat" where
  "read16 m a = unat (m a) + 256 * unat (m (a + 1))"

definition read32 :: "(u32 \<Rightarrow> u8) \<Rightarrow> u32 \<Rightarrow> u32" where
  "read32 m a = of_nat (read16 m a + 65536 * read16 m (a + 2))"

definition mp_set_uniprocessor :: "mp \<Rightarrow> mp" where
  "mp_set_uniprocessor s = s\<lparr>num_cpus := 1, ioapic_addr := 0, lapic_base := 0\<rparr>"

definition mp_cpu_create :: "nat \<Rightarrow> bool \<Rightarrow> mp \<Rightarrow> mp" where
  "mp_cpu_create apic_id bsp s =
     (if num_cpus s \<ge> MAX_CPUS \<or> apic_id \<ge> MAX_CPUS then s
      else let s = s\<lparr>cpu2apic := (cpu2apic s)[num_cpus s := apic_id], apic2cpu := (apic2cpu s)[apic_id := num_cpus s]\<rparr>;
               s = (if bsp then s\<lparr>bsp_apic := apic_id, bsp_id := num_cpus s\<rparr> else s)
           in s\<lparr>num_cpus := num_cpus s + 1\<rparr>)"

fun sum_bytes :: "(u32 \<Rightarrow> u8) \<Rightarrow> u32 \<Rightarrow> nat \<Rightarrow> u8 \<Rightarrow> u8" where
  "sum_bytes m a 0 acc = acc"
| "sum_bytes m a (Suc n) acc = sum_bytes m (a + 1) n (acc + m a)"

definition mp_checksum :: "(u32 \<Rightarrow> u8) \<Rightarrow> u32 \<Rightarrow> nat \<Rightarrow> bool" where
  "mp_checksum m a len \<longleftrightarrow> sum_bytes m a len 0 = 0"

partial_function (option) scan_sig :: "(u32 \<Rightarrow> u8) \<Rightarrow> u32 \<Rightarrow> u32 \<Rightarrow> u32 option" where
  "scan_sig m ptr end =
     (if ptr < end
      then if read32 m ptr = MP_FPS_SIG \<and> mp_checksum m ptr 16 then Some ptr else scan_sig m (ptr + 16) end
      else Some 0)"

definition mp_scan_sig :: "(u32 \<Rightarrow> u8) \<Rightarrow> u32 \<Rightarrow> u32 \<Rightarrow> u32 option" where
  "mp_scan_sig m addr len = scan_sig m addr (addr + len)"

text \<open>The entries of the table, each with a length that its first byte tells; \<open>smp\<close> becomes false when a second I/O APIC is found.\<close>

fun walk_entries :: "(u32 \<Rightarrow> u8) \<Rightarrow> nat \<Rightarrow> u32 \<Rightarrow> bool \<Rightarrow> mp \<Rightarrow> fault + (bool \<times> mp)" where
  "walk_entries m 0 ptr smp s = Inr (smp, s)"
| "walk_entries m (Suc n) ptr smp s =
     (if m ptr = 0
      then walk_entries m n (ptr + 20) smp
             (if m (ptr + 3) AND 1 \<noteq> 0 then mp_cpu_create (unat (m (ptr + 1))) (m (ptr + 3) AND 2 \<noteq> 0) s else s)
      else if m ptr = 2
      then if ioapic_addr s \<noteq> 0 then walk_entries m n (ptr + 8) False s
           else walk_entries m n (ptr + 8) smp (s\<lparr>ioapic_addr := read32 m (ptr + 4)\<rparr>)
      else if m ptr = 1 \<or> m ptr = 3 \<or> m ptr = 4 then walk_entries m n (ptr + 8) smp s
      else Inl Assert_Failed)"

definition mptable_walk :: "(u32 \<Rightarrow> u8) \<Rightarrow> u32 \<Rightarrow> mp \<Rightarrow> fault + mp" where
  "mptable_walk m cfg s =
     (case walk_entries m (read16 m (cfg + 34)) (cfg + 44) True (s\<lparr>num_cpus := 0\<rparr>) of
        Inl e \<Rightarrow> Inl e
      | Inr (smp, s) \<Rightarrow> Inr (if smp then s else mp_set_uniprocessor s))"

definition get_ebda :: "(u32 \<Rightarrow> u8) \<Rightarrow> u32" where
  "get_ebda m = push_bit 4 (of_nat (read16 m 0x40e))"

text \<open>The searches in their order; 0 when none finds the pointer.\<close>

definition find_mpfps :: "(u32 \<Rightarrow> u8) \<Rightarrow> u32 \<Rightarrow> u32 option" where
  "find_mpfps m mem_lower =
     Option.bind (if get_ebda m \<noteq> 0 then mp_scan_sig m (get_ebda m) 1024 else Some 0) (\<lambda>fp.
     if fp \<noteq> 0 then Some fp
     else Option.bind (mp_scan_sig m (mem_lower * 1024) 1024) (\<lambda>fp.
       if fp \<noteq> 0 then Some fp else mp_scan_sig m 0xf0000 0x10000))"

definition smp_found :: "(u32 \<Rightarrow> u8) \<Rightarrow> u32 \<Rightarrow> mp \<Rightarrow> fault + (int \<times> mp)" where
  "smp_found m fp s =
     (if m (fp + 11) \<noteq> 0
      then if m (fp + 11) \<noteq> 5 \<and> m (fp + 11) \<noteq> 6 then Inr (-1, s)
           else Inr (0, mp_cpu_create 1 False (mp_cpu_create 0 True (s\<lparr>lapic_base := 0xfee00000, ioapic_addr := 0xfec00000\<rparr>)))
      else let cfg = read32 m (fp + 4)
           in if \<not> mp_checksum m cfg (read16 m (cfg + 4)) \<or> read32 m cfg \<noteq> MP_CFG_SIG then Inr (-1, s)
              else map_sum id (Pair 0) (mptable_walk m cfg (s\<lparr>lapic_base := read32 m (cfg + 36)\<rparr>)))"

definition smp_init :: "(u32 \<Rightarrow> u8) \<Rightarrow> u32 \<Rightarrow> mp \<Rightarrow> fault + (int \<times> mp)" where
  "smp_init m mem_lower s =
     (case find_mpfps m mem_lower of
        None \<Rightarrow> Inl Diverges
      | Some fp \<Rightarrow> if fp = 0 then Inr (-1, s) else smp_found m fp s)"

section \<open>The search\<close>

text \<open>In an area that does not reach the end of the address space, the search ends at the first place that has the signature and a sum of 0.\<close>

lemma scan_sig_first:
  assumes "unat ptr + 16 * n < 2 ^ 32"
  shows "\<exists>r. scan_sig m ptr (ptr + of_nat (16 * n)) = Some r \<and>
    (let good = (\<lambda>i. read32 m (ptr + of_nat (16 * i)) = MP_FPS_SIG \<and> mp_checksum m (ptr + of_nat (16 * i)) 16)
     in if \<exists>i < n. good i then \<exists>i < n. good i \<and> (\<forall>j < i. \<not> good j) \<and> r = ptr + of_nat (16 * i) else r = 0)"
  using assms
proof (induction n arbitrary: ptr)
  case 0
  then show ?case by (subst scan_sig.simps) simp
next
  case (Suc n)
  define good where "good p i \<longleftrightarrow> read32 m (p + of_nat (16 * i)) = MP_FPS_SIG \<and> mp_checksum m (p + of_nat (16 * i)) 16" for p i
  have u: "unat (ptr + 16) = unat ptr + 16" "unat (ptr + of_nat (16 * Suc n)) = unat ptr + 16 * Suc n"
    using Suc.prems unat_of_nat_eq[of "16 * Suc n"] by (simp_all add: unat_word_ariths)
  have lt: "ptr < ptr + of_nat (16 * Suc n)" using u(2) by (simp add: word_less_nat_alt)
  have e: "ptr + of_nat (16 * Suc n) = ptr + 16 + of_nat (16 * n)" by (simp add: algebra_simps)
  have sh: "good (ptr + 16) i = good ptr (Suc i)" for i by (simp add: good_def algebra_simps)
  have g0: "good ptr 0 \<longleftrightarrow> read32 m ptr = MP_FPS_SIG \<and> mp_checksum m ptr 16" by (simp add: good_def)
  show ?case
  proof (cases "good ptr 0")
    case True
    then have "scan_sig m ptr (ptr + of_nat (16 * Suc n)) = Some ptr" using lt g0 by (subst scan_sig.simps) simp
    then show ?thesis using True unfolding Let_def good_def[symmetric] by (auto intro!: exI[of _ 0])
  next
    case False
    have s: "scan_sig m ptr (ptr + of_nat (16 * Suc n)) = scan_sig m (ptr + 16) (ptr + 16 + of_nat (16 * n))"
      using lt False unfolding e g0 by (subst scan_sig.simps) (simp only: if_True if_False)
    have "unat (ptr + 16) + 16 * n < 2 ^ 32" using Suc.prems u(1) by simp
    from Suc.IH[OF this] obtain r where r: "scan_sig m (ptr + 16) (ptr + 16 + of_nat (16 * n)) = Some r"
      "if \<exists>i < n. good ptr (Suc i) then \<exists>i < n. good ptr (Suc i) \<and> (\<forall>j < i. \<not> good ptr (Suc j)) \<and> r = ptr + 16 + of_nat (16 * i) else r = 0"
      unfolding Let_def good_def[symmetric] sh by blast
    have ex: "(\<exists>i < Suc n. good ptr i) \<longleftrightarrow> (\<exists>i < n. good ptr (Suc i))"
      using False by (metis Suc_less_eq not0_implies_Suc)
    show ?thesis
    proof (cases "\<exists>i < n. good ptr (Suc i)")
      case True
      then obtain i where i: "i < n" "good ptr (Suc i)" "\<forall>j < i. \<not> good ptr (Suc j)" "r = ptr + 16 + of_nat (16 * i)" using r(2) by auto
      have "\<forall>j < Suc i. \<not> good ptr j" using False i(3) less_Suc_eq_0_disj by auto
      moreover have "r = ptr + of_nat (16 * Suc i)" using i(4) by (simp add: algebra_simps)
      ultimately show ?thesis using s r(1) i(1,2) ex True unfolding Let_def good_def[symmetric]
        by (intro exI[of _ r]) (auto intro!: exI[of _ "Suc i"])
    next
      case none: False
      then show ?thesis using s r ex unfolding Let_def good_def[symmetric] by auto
    qed
  qed
qed

section \<open>The processors\<close>

text \<open>The APIC numbers of the enabled processors that the table lists.\<close>

fun listed :: "(u32 \<Rightarrow> u8) \<Rightarrow> nat \<Rightarrow> u32 \<Rightarrow> nat list" where
  "listed m 0 ptr = []"
| "listed m (Suc n) ptr =
     (if m ptr = 0 then (if m (ptr + 3) AND 1 \<noteq> 0 then [unat (m (ptr + 1))] else []) @ listed m n (ptr + 20)
      else listed m n (ptr + 8))"

definition maps_ok :: "nat list \<Rightarrow> mp \<Rightarrow> bool" where
  "maps_ok ids s \<longleftrightarrow> length (cpu2apic s) = MAX_CPUS \<and> length (apic2cpu s) = MAX_CPUS \<and> num_cpus s = length ids
     \<and> take (length ids) (cpu2apic s) = ids \<and> (\<forall>i < length ids. apic2cpu s ! (ids ! i) = i)"

lemma distinct_below: "distinct ids \<Longrightarrow> \<forall>a \<in> set ids. a < n \<Longrightarrow> length ids \<le> n" for ids :: "nat list"
  by (metis card_lessThan card_mono distinct_card finite_lessThan lessThan_iff subsetI)

lemma mp_cpu_create_maps:
  assumes "maps_ok ids s" "distinct (ids @ [a])" "\<forall>x \<in> set (ids @ [a]). x < MAX_CPUS"
  shows "maps_ok (ids @ [a]) (mp_cpu_create a bsp s)"
proof -
  have l: "length ids < MAX_CPUS" using distinct_below[OF assms(2,3)] by simp
  have "take (Suc (length ids)) ((cpu2apic s)[length ids := a]) = ids @ [a]"
    using assms(1) l by (simp add: maps_ok_def take_Suc_conv_app_nth)
  moreover have "\<forall>i < Suc (length ids). (apic2cpu s)[a := length ids] ! ((ids @ [a]) ! i) = i"
    using assms by (auto simp: maps_ok_def nth_append nth_list_update less_Suc_eq)
  ultimately show ?thesis using assms l by (auto simp: mp_cpu_create_def maps_ok_def Let_def)
qed

lemma walk_entries_maps:
  assumes "walk_entries m n ptr smp s = Inr (smp', s')" "maps_ok ids s"
    "distinct (ids @ listed m n ptr)" "\<forall>x \<in> set (ids @ listed m n ptr). x < MAX_CPUS"
  shows "maps_ok (ids @ listed m n ptr) s'"
  using assms
proof (induction n arbitrary: ptr smp s ids)
  case (Suc n)
  have io: "maps_ok ids (s\<lparr>ioapic_addr := x\<rparr>) = maps_ok ids s" for x by (simp add: maps_ok_def)
  show ?case
  proof (cases "m ptr = 0 \<and> m (ptr + 3) AND 1 \<noteq> 0")
    case True
    let ?a = "unat (m (ptr + 1))"
    have "maps_ok (ids @ [?a]) (mp_cpu_create ?a (m (ptr + 3) AND 2 \<noteq> 0) s)"
      by (rule mp_cpu_create_maps[OF Suc.prems(2)]) (use Suc.prems(3,4) True in auto)
    from Suc.IH[OF _ this, of "ptr + 20" smp] show ?thesis using Suc.prems True by simp
  next
    case False
    then show ?thesis using Suc.prems Suc.IH[OF _ Suc.prems(2), of _ _]
        Suc.IH[of "ptr + 8" smp "s\<lparr>ioapic_addr := read32 m (ptr + 4)\<rparr>" ids]
      by (auto simp: io split: if_splits)
  qed
qed simp

text \<open>After the walk over a table whose enabled processors have different APIC numbers below 16, and that has not two I/O APICs, the processors
  are numbered in the order of the table and the two maps are inverse to each other.\<close>

lemma mptable_walk_maps:
  assumes "mptable_walk m cfg s = Inr s'" "length (cpu2apic s) = MAX_CPUS" "length (apic2cpu s) = MAX_CPUS"
    "ids = listed m (read16 m (cfg + 34)) (cfg + 44)" "distinct ids" "\<forall>x \<in> set ids. x < MAX_CPUS"
  shows "maps_ok ids s' \<or> num_cpus s' = 1 \<and> ioapic_addr s' = 0"
proof -
  obtain smp t where w: "walk_entries m (read16 m (cfg + 34)) (cfg + 44) True (s\<lparr>num_cpus := 0\<rparr>) = Inr (smp, t)"
    and s': "s' = (if smp then t else mp_set_uniprocessor t)"
    using assms(1) by (auto simp: mptable_walk_def split: sum.splits)
  have "maps_ok [] (s\<lparr>num_cpus := 0\<rparr>)" using assms(2,3) by (simp add: maps_ok_def)
  from walk_entries_maps[OF w this] have "maps_ok ids t" using assms(4-6) by simp
  then show ?thesis by (simp add: s' mp_set_uniprocessor_def)
qed

text \<open>In a default configuration the count starts at 1 instead of 0, so the two processors become three, with the numbers 1 and 2.\<close>

lemma default_configuration:
  "m (fp + 11) = 5 \<Longrightarrow> \<exists>s. smp_found m fp mp_start = Inr (0, s) \<and> num_cpus s = 3 \<and> bsp_id s = 1 \<and> cpu2apic s ! Suc 1 = 1"
  by (simp add: smp_found_def mp_cpu_create_def mp_start_def MAX_CPUS_def)

end
