(* ===== verification/Spec2Isabelle.thy ===== *)
theory Spec2Isabelle
  imports Fork_Copy Readline Vanish Mutex_Steps User_Rwlock User_List User_Calls Long_Divide Qsort Boot Doscan Mersenne MP_Table
begin

text \<open>
  A verification development for a small x86 teaching kernel: preemptive threads and processes,
  virtual memory, a console, a keyboard and the system calls of its user programs; for the thread
  library those programs are linked with; and for the support library below the kernel: memory pool, boot, strings,
  formatted input and output, division, sorting and random numbers.

  \<^bold>\<open>The program and its model.\<close> The kernel is one machine with one processor. Its state is a chain
  of records, each of which extends the one before, so that an operation on a lower layer applies
  unchanged to the state of a higher one:
  \<^item> \<open>kcore\<close> (theory \<open>Kernel_Core\<close>): control blocks of threads and processes (\<open>kern/inc/control_block.h\<close>),
    the linked lists that run through them, mutexes, the tick counter, the control registers and the
    interrupt flag;
  \<^item> \<open>kheap\<close> (theory \<open>Malloc\<close>): the pool of free memory and the bytes of the kernel heap;
  \<^item> \<open>kvm\<close> (theory \<open>Paging\<close>): page directories and tables, the frame allocator and the contents of frames;
  \<^item> \<open>kernel\<close> (theory \<open>Console_IO\<close>): screen, keyboard buffer, scancode translator, timer callback and
    interrupt descriptor table.

  The thread library runs in user mode, above the system calls, with any number of threads at once. Its state is
  \<open>uworld\<close> (theory \<open>User_Sync\<close>: spin locks, mutexes, condition variables, semaphores, readers-writers
  locks) and \<open>tworld\<close> (theory \<open>User_Threads\<close>), which holds a \<open>uworld\<close> and the thread table. A function of
  the library is a sequence of statements, each one access to shared memory; \<open>mstep\<close> (theory \<open>Interleave\<close>) lets one
  thread run its next statement, and a schedule is any list of thread numbers.

  An operation of the kernel's code is a function of type \<open>('s, 'r) kop\<close>, from a state to a fault or a
  result with the next state; it is written with \<open>bindK\<close>, \<open>returnK\<close>, \<open>readK\<close> and \<open>modifyK\<close> in the
  order of the statements. A fault is what the C program cannot recover from: NULL dereference, page
  fault in the kernel, failed assertion, a wait that never ends. Machine integers are words; \<open>int\<close>
  variables are integers where the code cannot overflow them. Output for the simulator's log is left out.

  \<^bold>\<open>Theories, in the order of the imports.\<close>
  \<^item> \<open>Prelude\<close>: faults, the operations of the monad with their simplification rules, loops, facts on words and lists.
  \<^item> \<open>Linked_List\<close> (\<open>kern/datastructure/linked_list.c\<close>): nodes and headers in a store of pointers; the locale
    \<open>intrusive_list\<close> of its laws and the proof that every operation refines the one on sequences.
  \<^item> \<open>Console\<close> (\<open>kern/hardware/console.c\<close>): cursor, video memory and port writes; bounds, scrolling, round trips.
  \<^item> \<open>Keyboard\<close> (\<open>kern/hardware/keyboard.c\<close>): the ring buffer as an instance of the locale \<open>bounded_fifo\<close>.
  \<^item> \<open>Keyhelp\<close> (\<open>410kern/x86/keyhelp.c\<close>): the translator from scancodes to characters, with its tables.
  \<^item> \<open>Frames\<close> (\<open>kern/memory/vm_routines.c\<close>): the physical frame allocator, an instance of \<open>frame_allocator\<close>.
  \<^item> \<open>Lmm\<close>, \<open>Lmm_Correct\<close> (\<open>410kern/lmm\<close>): the list memory manager and its correctness in terms of sets of free bytes.
  \<^item> \<open>Kernel_Core\<close>, \<open>Mutex\<close> (\<open>kern/locks/mutex.c\<close>), \<open>Scheduler\<close> (\<open>kern/process/scheduler.c\<close>): the queues of threads,
    the mutex as one thread sees it, and \<open>schedule\<close> as a refinement of a scheduler on two sequences.
  \<^item> \<open>Malloc\<close> (\<open>410kern/malloc\<close>, \<open>kern/malloc_wrappers.c\<close>): the heap with its size words and its mutex, an instance of \<open>page_heap\<close>.
  \<^item> \<open>Paging\<close> (\<open>kern/memory/vm_routines.c\<close>): mapping, unmapping and range operations, with an invariant that
    separates tables, frames and free memory.
  \<^item> \<open>Preserves\<close>: rules for what an operation leaves alone; heap and page tables never touch the lists and control blocks.
  \<^item> \<open>Thread_Calls\<close> (\<open>kern/thread\<close>): \<open>yield\<close>, \<open>make_runnable\<close>, \<open>deschedule\<close>, \<open>sleep\<close>, \<open>swexn\<close> and the thread constructors; which
    thread runs after \<open>yield\<close>, when \<open>make_runnable\<close> succeeds, and which register sets \<open>swexn\<close> accepts.
  \<^item> \<open>Blocking\<close>: threads that give up the processor: \<open>sleep\<close> with its wake-up time, \<open>deschedule\<close> followed by \<open>make_runnable\<close>.
  \<^item> \<open>Life_Cycle\<close> (\<open>kern/process/sys_life_cycle.c\<close>): \<open>thread_fork\<close>, \<open>set_status\<close>, \<open>vanish\<close>, \<open>wait\<close>; \<open>Vanish\<close>: the end of a process and the
    wake-up of its parent.
  \<^item> \<open>Elf\<close> (\<open>410kern/elf/load_helper.c\<close>, \<open>kern/loader.c\<close>): the ELF reader takes each field from the right section.
  \<^item> \<open>Process\<close> (\<open>kern/process/process.c\<close>): operations only. \<open>Fork\<close> (\<open>kern/process/sys_fork.c\<close>), \<open>Fork_Copy\<close>:
    \<open>fork\<close>, and that the child's address space holds what the parent's does, in frames of its own.
  \<^item> \<open>User_Memory\<close>: bytes written through the page tables and read back.
  \<^item> \<open>Exec\<close> (\<open>kern/process/sys_exec.c\<close>): \<open>exec\<close>, and that the arguments on the new stack can be read back.
  \<^item> \<open>Memory_Calls\<close> (\<open>kern/memory/sys_memory_management.c\<close>): \<open>new_pages\<close> and \<open>remove_pages\<close>; what \<open>new_pages\<close> refuses and what it maps.
  \<^item> \<open>Console_IO\<close> (\<open>kern/syscall\<close>, \<open>kern/exception/exception_handler_real.c\<close>, \<open>kern/hardware/timer.c\<close>,
    \<open>kern/handler_install.c\<close>, \<open>kern/kernel.c\<close>): console calls, interrupt handlers, descriptor table, boot.
  \<^item> \<open>Readline\<close>: what \<open>readline\<close> delivers; the property at the end of this theory joins it with the scancode translator, the
    keyboard interrupt and the scheduler queues.

  \<^item> \<open>Interleave\<close>: threads that run statements on a shared state, invariants of all schedules, and the locale
    \<open>resource\<close>, which counts what threads take and give back.
  \<^item> \<open>Mutex_Steps\<close> (\<open>kern/locks/mutex.c\<close>, \<open>kern/datastructure/linked_list.c\<close>): the kernel mutex with preemption between
    any two accesses to memory; mutual exclusion under every schedule, and the waiter its queue can lose.
  \<^item> \<open>User_Sync\<close> (\<open>user/libthread/spinlock.c\<close>, \<open>mutex.c\<close>, \<open>cond_var.c\<close>, \<open>semaphore.c\<close>, \<open>rwlock.c\<close>): the functions;
    \<open>User_Locks\<close>: mutual exclusion, the number of threads a semaphore admits, and that no sleeper is forgotten, under every
    schedule; \<open>User_Rwlock\<close>: the second writer of a readers-writers lock.
  \<^item> \<open>User_List\<close> (\<open>user/libthread/linked_list.c\<close>): the library's lists as queues of entries.
  \<^item> \<open>User_Threads\<close> (\<open>user/libthread/thread_mgmt.c\<close>, \<open>malloc.c\<close>, \<open>user/libautostack/autostack.c\<close>), \<open>User_Calls\<close>: creation,
    exit and join of threads and the growing stack; the cases of \<open>thr_join\<close> and of the page fault handler.

  \<^item> \<open>C_Strings\<close> (\<open>410kern/string\<close>): the string functions, over lists of bytes where they only read and over memory where they
    write; \<open>strtok\<close> finds the pieces between delimiters.
  \<^item> \<open>Boot\<close> (\<open>410kern/boot\<close>, \<open>410kern/entry.c\<close>): the free memory that the kernel's pool starts with is what no reserved range
    contains, and the command line is split into its words.
  \<^item> \<open>C_Numbers\<close> (\<open>410kern/stdlib\<close>: \<open>ctype.c\<close>, \<open>strtol.c\<close>, \<open>strtoul.c\<close>, \<open>rand.c\<close>), \<open>Doprnt\<close> (\<open>410kern/stdio\<close>: \<open>doprnt.c\<close>, \<open>sprintf.c\<close>,
    \<open>printf.c\<close>), \<open>Doscan\<close> (\<open>doscan.c\<close>, \<open>sscanf.c\<close>): printed numbers are read back, \<open>vsnprintf\<close> stays inside its buffer, \<open>printf\<close>
    puts out what the format says.
  \<^item> \<open>Long_Divide\<close> (\<open>410kern/misc/gccisms.c\<close>): the division of 64-bit numbers, Knuth's Algorithm D on 16-bit digits, is \<open>div\<close> and \<open>mod\<close>.
  \<^item> \<open>Qsort\<close> (\<open>410kern/stdlib/qsort.c\<close>): \<open>qsort\<close> ends and permutes for every comparison function, and sorts for total preorders.
  \<^item> \<open>Mersenne\<close> (\<open>410kern/RNG/mt19937int.c\<close>): the generator produces the tempered sequence of its recurrence.
  \<^item> \<open>MP_Table\<close> (\<open>410kern/smp/mptable.c\<close>): the processors of a multiprocessor table are numbered in its order.

  \<^bold>\<open>Threads.\<close> A run of \<open>schedule\<close> starts in the thread that calls it and ends in the thread that runs next.
  What the caller does afterwards is a separate operation, to be run when the caller is current again:
  \<open>sys_wait_before\<close> and \<open>sys_wait_after\<close>, \<open>sys_readline_before\<close> and \<open>sys_readline_after\<close>. In the calls that
  do nothing but return after \<open>schedule\<close>, the result is the value their caller finds. A mutex that is
  taken makes the caller wait; as an operation of one thread this is the fault \<open>Would_Block\<close>, and the
  interleavings are the subject of \<open>Mutex_Steps\<close>.

  \<^bold>\<open>Loops.\<close> Loops over lists in memory, over user strings and over the keyboard buffer are
  \<open>partial_function (option)\<close>, since a corrupt list or an unterminated string makes them run on; \<open>None\<close>
  becomes the fault \<open>Diverges\<close>. The theorems show the result of these loops on well-formed input and so that
  they end; no fuel is used. Loops with a counter are structural or use \<open>forK\<close>.

  \<^bold>\<open>Parameters.\<close> The table of program files (\<open>toc\<close>), which the build generates; the initial flags register;
  words of an uninitialised stack array (\<open>stack_word\<close>); the choice of a compiler for \<open>row = row++\<close> (\<open>pp\<close>);
  the addresses of the assembly wrappers. For the thread library: what the kernel and the allocator answer
  (\<open>answers\<close>), and the code of the program's threads (\<open>program\<close>).

  \<^bold>\<open>Not modelled.\<close> Saved kernel stack pointers and the assembly that switches them; the translation
  lookaside buffer; user pointers below 16 MB, which alias kernel memory; the trap wrappers; interrupts in the
  middle of an operation; the start of other processors; the processor and interrupt controller set-up of \<open>mb_entry\<close>;
  \<open>hexdump\<close>, \<open>panic\<close> and \<open>strdup\<close>; the programs that run in user mode. In the thread library:
  counters that overflow, an allocator that fails inside \<open>make_node\<close>, stale contents of a freed control block.
\<close>

section \<open>From the keyboard to the program\<close>

text \<open>The keyboard interrupts of a sequence of bytes, and the characters that the translator makes of them.\<close>

fun type_keys :: "bool \<Rightarrow> u8 list \<Rightarrow> ('a kernel_scheme, unit) kop" where
  "type_keys pp [] = returnK ()"
| "type_keys pp (b # bs) = bindK (keyboard_handler pp b) (\<lambda>_. type_keys pp bs)"

definition chars_of :: "kh_type list \<Rightarrow> u8 list" where
  "chars_of rs = map KH_GETCHAR (filter is_char rs)"

lemma type_keys_append: "type_keys pp (bs @ bs') = bindK (type_keys pp bs) (\<lambda>_. type_keys pp bs')"
proof (induction bs)
  case Nil
  then show ?case by (intro ext) simp
qed (simp add: bindK_assoc)

lemma type_plain:
  assumes "scan_all bs (scan s) = (rs, k)" "\<forall>c\<in>set (chars_of rs). c \<notin> {8, 10}" "kbd_inv (ring s)"
    "used (ring s) + length (chars_of rs) \<le> 511"
  shows "\<exists>s'. type_keys pp bs s = Inr ((), s') \<and> scan s' = k \<and> kbd_inv (ring s') \<and> pending (ring s') = pending (ring s) @ chars_of rs
    \<and> kvm.truncate s' = kvm.truncate s"
  using assms
proof (induction bs arbitrary: s rs)
  case Nil
  then show ?case by (simp add: chars_of_def)
next
  case (Cons b bs)
  obtain r k1 where p: "process_scancode b (scan s) = (r, k1)" by force
  obtain rs' where rs: "scan_all bs k1 = (rs', k)" "rs = r # rs'" using Cons.prems(1) p by (auto split: prod.splits)
  show ?case
  proof (cases "is_char r")
    case False
    let ?s1 = "s\<lparr>scan := k1, con := outb INT_CTL_PORT INT_ACK_CURRENT (con s)\<rparr>"
    have c: "chars_of rs = chars_of rs'" using False rs by (simp add: chars_of_def)
    from Cons.IH[of ?s1 rs'] rs(1) Cons.prems(2-4) c obtain s' where "type_keys pp bs ?s1 = Inr ((), s')" "scan s' = k" "kbd_inv (ring s')"
      "pending (ring s') = pending (ring s) @ chars_of rs'" "kvm.truncate s' = kvm.truncate ?s1" by auto
    then show ?thesis using key_silent[OF p False, of pp] c by (simp add: kvm.truncate_def)
  next
    case True
    let ?c = "KH_GETCHAR r" let ?s1 = "typed pp ?c (s\<lparr>scan := k1\<rparr>)"
    have c: "chars_of rs = ?c # chars_of rs'" using True rs by (simp add: chars_of_def)
    have u: "used (ring s) + 1 \<le> 511" using Cons.prems(4) c by simp
    have e: "kbd_inv (ring ?s1)" "pending (ring ?s1) = pending (ring s) @ [?c]" "scan ?s1 = k1"
      using enqueue_one[OF Cons.prems(3), of ?c] u by (simp_all add: typed_def)
    have "used (ring ?s1) = used (ring s) + 1" using arg_cong[OF e(2), of length] by simp
    with Cons.IH[of ?s1 rs'] rs(1) Cons.prems(2,4) c e obtain s' where s': "type_keys pp bs ?s1 = Inr ((), s')" "scan s' = k" "kbd_inv (ring s')"
      "pending (ring s') = pending (ring ?s1) @ chars_of rs'" "kvm.truncate s' = kvm.truncate ?s1" by auto
    moreover have "kvm.truncate ?s1 = kvm.truncate s" by (simp add: typed_def kvm.truncate_def)
    ultimately show ?thesis using key_plain[OF p True, of pp] c Cons.prems(2) e(2) by auto
  qed
qed

lemma truncate_sched:
  assumes "kvm.truncate s' = kvm.truncate s"
  shows "sched_inv s' rs bs = sched_inv s rs bs" "tcbs s' = tcbs s"
proof -
  have "lh s' = lh s" "tcbs s' = tcbs s" "current_thread s' = current_thread s"
    using arg_cong[OF assms, of lh] arg_cong[OF assms, of tcbs] arg_cong[OF assms, of current_thread] by (simp_all add: kvm.truncate_def)
  then show "sched_inv s' rs bs = sched_inv s rs bs" "tcbs s' = tcbs s" by (simp_all add: sched_inv_def)
qed

text \<open>C3: from the keyboard to the program. A thread waits in \<open>readline\<close>, no input is pending, and the user types keys that the
  scancode translator turns into a line of at most 510 ordinary characters, and then Enter. The keyboard interrupts end without a fault, and the first waiting thread is at the end of the runnable queue. Whenever a thread then goes on in
  \<open>readline\<close> before anything else is typed or read, with a mapped buffer longer than the line, it finds exactly the typed characters and
  the newline in its buffer, its result is their number, and no input is left.\<close>

theorem typed_line_is_read:
  assumes keys: "scan_all bs (scan s) = (rs, k1)" "chars_of rs = cs" "process_scancode e k1 = (r, k2)" "is_char r" "KH_GETCHAR r = 10"
    and cs: "\<forall>c\<in>set cs. c \<notin> {8, 10, 0xFF}" "length cs \<le> 510"
    and inv: "sched_inv s ready blocked" "kbd_inv (ring s)" "pending (ring s) = []"
    and t: "List.find (\<lambda>t. t_state (tcbs s t) = THREAD_READLINE) blocked = Some t"
  shows "\<exists>s1. type_keys pp (bs @ [e]) s = Inr ((), s1) \<and> sched_inv s1 (ready @ [t]) (remove1 t blocked)
    \<and> (\<forall>(s2 :: 'a kernel_scheme) len buf. ring s2 = ring s1 \<and> int (length cs) + 1 < len \<and> (\<forall>i\<le>length cs. mmu_walk s2 (buf + of_nat i) \<noteq> None)
          \<and> inj_on (\<lambda>i. place s2 (buf + of_nat i)) {..length cs} \<longrightarrow>
        (\<exists>s3. sys_readline_after len buf s2 = Inr (int (length cs) + 1, s3) \<and> pending (ring s3) = []
          \<and> (\<forall>i\<le>length cs. peek s3 (buf + of_nat i) = Some ((cs @ [10]) ! i))))"
proof -
  have u: "used (ring s) = 0" using inv(3) length_pending[of "ring s"] by simp
  have "\<forall>c\<in>set (chars_of rs). c \<notin> {8, 10}" "used (ring s) + length (chars_of rs) \<le> 511" using cs keys(2) u by auto
  from type_plain[OF keys(1) this(1) inv(2) this(2), of pp] keys(2) inv(3) obtain s0 where s0: "type_keys pp bs s = Inr ((), s0)" "scan s0 = k1"
    "kbd_inv (ring s0)" "pending (ring s0) = cs" "kvm.truncate s0 = kvm.truncate s" by auto
  note tr = truncate_sched[OF s0(5)]
  have inv0: "sched_inv s0 ready blocked" and t0: "List.find (\<lambda>t. t_state (tcbs s0 t) = THREAD_READLINE) blocked = Some t"
    using inv(1) t by (simp_all only: tr)
  let ?w = "wake_thread t (s0\<lparr>scan := k2\<rparr>)" let ?s1 = "typed pp 10 ?w"
  have "keyboard_handler pp e s0 = Inr ((), ?s1)" using key_enter[OF _ keys(4,5) inv0 t0] keys(3) s0(2) by simp
  then have run: "type_keys pp (bs @ [e]) s = Inr ((), ?s1)" using s0(1) by (simp add: type_keys_append)
  have "t \<in> set blocked" using t by (auto simp: find_Some_iff)
  moreover have "sched_inv (s0\<lparr>scan := k2\<rparr>) ready blocked" using inv0 by (simp add: sched_inv_def)
  ultimately have "sched_inv ?w (ready @ [t]) (remove1 t blocked)" by (intro wake_thread_inv)
  then have inv1: "sched_inv ?s1 (ready @ [t]) (remove1 t blocked)" by (simp add: typed_def sched_inv_def)
  have "used (ring s0) = length cs" using s0(4) length_pending[of "ring s0"] by simp
  then have "used (ring s0) + 1 - 511 = 0" using cs(2) by simp
  then have r1: "kbd_inv (ring ?s1)" "pending (ring ?s1) = cs @ 10 # []"
    using enqueue_one[OF s0(3), of 10] s0(4) by (simp_all add: typed_def wake_thread_def)
  have "\<exists>s3. sys_readline_after len buf s2 = Inr (int (length cs) + 1, s3) \<and> pending (ring s3) = []
      \<and> (\<forall>i\<le>length cs. peek s3 (buf + of_nat i) = Some ((cs @ [10]) ! i))"
    if "ring s2 = ring ?s1" "int (length cs) + 1 < len" "\<forall>i\<le>length cs. mmu_walk s2 (buf + of_nat i) \<noteq> None"
      "inj_on (\<lambda>i. place s2 (buf + of_nat i)) {..length cs}" for s2 :: "'a kernel_scheme" and len buf
    using readline_line[OF r1[folded that(1)] cs(1) that(2-4)] by blast
  then show ?thesis using run inv1 by blast
qed

theorem typed_line_is_read_witness:
  "\<exists>s1. type_keys True ([0x23, 0xA3, 0x17, 0x97] @ [0x1C]) (demo_kernel [] [16]) = Inr ((), s1) \<and> sched_inv s1 ([] @ [16]) (remove1 16 [16])
    \<and> (\<forall>(s2 :: kernel) len buf. ring s2 = ring s1 \<and> int (length [104, 105 :: u8]) + 1 < len \<and> (\<forall>i\<le>length [104, 105 :: u8]. mmu_walk s2 (buf + of_nat i) \<noteq> None)
          \<and> inj_on (\<lambda>i. place s2 (buf + of_nat i)) {..length [104, 105 :: u8]} \<longrightarrow>
        (\<exists>s3. sys_readline_after len buf s2 = Inr (int (length [104, 105 :: u8]) + 1, s3) \<and> pending (ring s3) = []
          \<and> (\<forall>i\<le>length [104, 105 :: u8]. peek s3 (buf + of_nat i) = Some (([104, 105] @ [10]) ! i))))"
proof -
  let ?s = "demo_kernel [] [16]" let ?a = "scan_all [0x23, 0xA3, 0x17, 0x97] initial_keys"
  let ?e = "process_scancode 0x1C (snd ?a)"
  have k: "scan ?s = initial_keys" "kbd_inv (ring ?s)" "used (ring ?s) = 0"
    by (simp_all add: demo_kernel_def kvm.extend_def kbd_inv_def BUF_LEN_def used_def)
  have p: "pending (ring ?s) = []" using k(3) by (simp add: pending_def)
  have i: "sched_inv ?s [] [16]" by (rule demo_kernel_sched) simp_all
  have t: "List.find (\<lambda>t. t_state (tcbs ?s t) = THREAD_READLINE) [16] = Some 16" by (simp add: demo_kernel_def kvm.extend_def)
  have c: "chars_of (fst ?a) = [104, 105]" "is_char (fst ?e)" "KH_GETCHAR (fst ?e) = 10" by code_simp+
  have a: "scan_all [0x23, 0xA3, 0x17, 0x97] (scan ?s) = (fst ?a, snd ?a)" "?e = (fst ?e, snd ?e)" by (simp_all only: k(1) prod.collapse)
  show ?thesis by (rule typed_line_is_read[OF a(1) c(1) a(2) c(2,3) _ _ i k(2) p t]) simp_all
qed

end
